(* ===== verification/Aster_Prelude.thy ===== *)
theory Aster_Prelude
  imports Main "HOL-Library.Word" "HOL-Library.Multiset" "HOL-Library.AList"
begin

text \<open>
  Shared vocabulary of the development: bytes, the error values of the Go code, the result
  type of a fallible call, and the facts on bytes, nibbles and lists that several components
  use.

  A Go \<^verbatim>\<open>[]byte\<close> is a \<open>byte list\<close>. A call that can fail returns \<open>go_error + 'a\<close>: \<open>Inl\<close> carries
  either a run-time panic (\<open>Panic\<close>: an index out of range, a failed type assertion, an explicit
  \<^verbatim>\<open>panic\<close> or \<^verbatim>\<open>log.Panic\<close>), an \<^verbatim>\<open>errors.New\<close> value with its message (\<open>ErrMsg\<close>), the trie's
  \<^verbatim>\<open>MissingNodeError\<close> with its path and hash (\<open>MissingNode\<close>), or the exhaustion of the fuel of
  a bounded recursion (\<open>OutOfFuel\<close>), which the theorems rule out for well-formed inputs.
\<close>

unbundle bit_operations_syntax

type_synonym byte = "8 word"
type_synonym bytes = "8 word list"
type_synonym uint64 = "64 word"

datatype go_error =
    Panic
  | ErrMsg string
  | MissingNode bytes bytes
  | OutOfFuel

type_synonym 'a res = "go_error + 'a"

named_theorems nibble_simps \<open>arithmetic of bytes split into nibbles\<close>

section \<open>Results\<close>

definition bindR :: "'e + 'a \<Rightarrow> ('a \<Rightarrow> 'e + 'b) \<Rightarrow> 'e + 'b" where
  "bindR m f = (case m of Inl e \<Rightarrow> Inl e | Inr a \<Rightarrow> f a)"

lemma bindR_simps [simp]:
  "bindR (Inl e) f = Inl e"
  "bindR (Inr a) f = f a"
  by (simp_all add: bindR_def)

lemma bindR_cong [fundef_cong]:
  "m = m' \<Longrightarrow> (\<And>a. m' = Inr a \<Longrightarrow> f a = f' a) \<Longrightarrow> bindR m f = bindR m' f'"
  by (cases m') auto

lemma bindR_eq_Inr [simp]: "bindR m f = Inr b \<longleftrightarrow> (\<exists>a. m = Inr a \<and> f a = Inr b)"
  by (cases m) auto

definition isInr :: "'e + 'a \<Rightarrow> bool" where
  "isInr m = (case m of Inl e \<Rightarrow> False | Inr a \<Rightarrow> True)"

lemma isInr_simps [simp]: "isInr (Inr a)" "\<not> isInr (Inl e)"
  by (simp_all add: isInr_def)

lemma isInr_iff: "isInr m \<longleftrightarrow> (\<exists>a. m = Inr a)"
  by (cases m) auto

section \<open>Fallible computations on a state\<close>

text \<open>A loop that applies a fallible call to every element and stops at the first error.\<close>

fun mapR :: "('a \<Rightarrow> 'e + 'b) \<Rightarrow> 'a list \<Rightarrow> 'e + 'b list" where
  "mapR f [] = Inr []"
| "mapR f (x # xs) = bindR (f x) (\<lambda>y. bindR (mapR f xs) (\<lambda>ys. Inr (y # ys)))"

lemma mapR_cong [fundef_cong]:
  "xs = ys \<Longrightarrow> (\<And>x. x \<in> set ys \<Longrightarrow> f x = g x) \<Longrightarrow> mapR f xs = mapR g ys"
  by (induction ys arbitrary: xs) auto

lemma mapR_Inr: "(\<And>x. x \<in> set xs \<Longrightarrow> f x = Inr (g x)) \<Longrightarrow> mapR f xs = Inr (map g xs)"
  by (induction xs) auto

lemma mapR_nth:
  "length ys = length xs \<Longrightarrow> (\<And>j. j < length xs \<Longrightarrow> f (xs ! j) = Inr (ys ! j)) \<Longrightarrow> mapR f xs = Inr ys"
proof (induction xs arbitrary: ys)
  case (Cons x xs)
  then obtain y zs where "ys = y # zs" by (cases ys) auto
  then show ?case using Cons.IH [of zs] Cons.prems(1) Cons.prems(2) [of 0] Cons.prems(2) [of "Suc _"] by simp
qed simp

fun foldR :: "('a \<Rightarrow> 's \<Rightarrow> 's res) \<Rightarrow> 'a list \<Rightarrow> 's \<Rightarrow> 's res" where
  "foldR f [] s = Inr s"
| "foldR f (x # xs) s = bindR (f x s) (foldR f xs)"

lemma foldR_cong [fundef_cong]:
  "xs = ys \<Longrightarrow> s = s' \<Longrightarrow> (\<And>x t. x \<in> set ys \<Longrightarrow> f x t = g x t) \<Longrightarrow> foldR f xs s = foldR g ys s'"
proof (induction ys arbitrary: xs s s')
  case (Cons y ys)
  then have "foldR f ys t = foldR g ys t" for t by simp
  with Cons.prems show ?case by (auto intro!: bindR_cong)
qed simp

text \<open>A Go method that mutates its receiver and may return an error: the state is kept also when
  the call fails.\<close>

type_synonym ('s, 'a) est = "'s \<Rightarrow> (go_error + 'a) \<times> 's"

definition returnS :: "'a \<Rightarrow> ('s, 'a) est" where
  "returnS a = (\<lambda>s. (Inr a, s))"

definition throwS :: "go_error \<Rightarrow> ('s, 'a) est" where
  "throwS e = (\<lambda>s. (Inl e, s))"

definition modifyS :: "('s \<Rightarrow> 's) \<Rightarrow> ('s, unit) est" where
  "modifyS f = (\<lambda>s. (Inr (), f s))"

definition bindS :: "('s, 'a) est \<Rightarrow> ('a \<Rightarrow> ('s, 'b) est) \<Rightarrow> ('s, 'b) est" where
  "bindS m f = (\<lambda>s. case m s of (Inl e, s') \<Rightarrow> (Inl e, s') | (Inr a, s') \<Rightarrow> f a s')"

lemma estS_simps [simp]:
  "returnS a s = (Inr a, s)"
  "throwS e s = (Inl e, s)"
  "modifyS g s = (Inr (), g s)"
  by (simp_all add: returnS_def throwS_def modifyS_def)

lemma bindS_apply: "bindS m f s = (case m s of (Inl e, s') \<Rightarrow> (Inl e, s') | (Inr a, s') \<Rightarrow> f a s')"
  by (simp add: bindS_def)

lemma bindS_Inr [simp]: "m s = (Inr a, s') \<Longrightarrow> bindS m f s = f a s'"
  and bindS_Inl [simp]: "m s = (Inl e, s') \<Longrightarrow> bindS m f s = (Inl e, s')"
  by (simp_all add: bindS_def)

section \<open>Bytes and nibbles\<close>

lemma byte_div16 [simp]: "(b div 16 :: byte) < 16"
  using unsigned_less [of b, where 'a = nat] by (simp add: word_less_nat_alt unat_div)

lemma byte_mod16 [simp]: "(b mod 16 :: byte) < 16"
  by (simp add: word_less_nat_alt unat_mod)

lemma nibbles_join [nibble_simps]: "push_bit 4 (b div 16) OR (b mod 16) = (b :: byte)"
proof -
  have "push_bit 4 (drop_bit 4 b) OR take_bit 4 b = b"
    by (rule bit_eqI) (auto simp: bit_simps)
  then show ?thesis by (simp add: drop_bit_eq_div take_bit_eq_mod)
qed

lemma unat_word_of_nat_byte [simp]: "i < 256 \<Longrightarrow> unat (word_of_nat i :: byte) = i"
  by (simp add: unsigned_of_nat take_bit_nat_eq_self)

lemma take_bit_nibble: "(y :: byte) < 16 \<Longrightarrow> take_bit 4 y = y"
  by (simp add: take_bit_eq_mod mod_word_less)

lemma unat_join:
  assumes x: "x < 16" and y: "y < 16"
  shows "unat (push_bit 4 x OR y :: byte) = 16 * unat x + unat y"
proof -
  have "push_bit 4 x AND y = 0"
    by (subst take_bit_nibble [OF y, symmetric]) (rule bit_eqI, auto simp: bit_simps)
  then have "push_bit 4 x OR y = push_bit 4 x + y"
    by (simp add: disjunctive_add_eq_or)
  moreover have "unat (push_bit 4 x) = 16 * unat x"
    using x by (simp add: push_bit_eq_mult word_less_nat_alt unat_word_ariths)
  ultimately show ?thesis
    using x y by (simp add: unat_word_ariths word_less_nat_alt)
qed

lemma join_div16 [nibble_simps]: "x < 16 \<Longrightarrow> y < 16 \<Longrightarrow> (push_bit 4 x OR y) div 16 = (x :: byte)"
  by (simp add: word_unat_eq_iff unat_div unat_join) (simp add: word_less_nat_alt)

lemma join_mod16 [nibble_simps]: "x < 16 \<Longrightarrow> y < 16 \<Longrightarrow> (push_bit 4 x OR y) mod 16 = (y :: byte)"
  by (simp add: word_unat_eq_iff unat_mod unat_join) (simp add: word_less_nat_alt)

lemma unat_byte_less: "unat (b :: byte) < 256"
  using unsigned_less [of b, where 'a = nat] by simp

section \<open>Strings as bytes\<close>

abbreviation byte_of_char :: "char \<Rightarrow> byte" where
  "byte_of_char c \<equiv> word_of_nat (of_char c)"

abbreviation char_of_byte :: "byte \<Rightarrow> char" where
  "char_of_byte b \<equiv> char_of (unat b)"

lemma char_of_byte_of_char [simp]: "char_of_byte (byte_of_char c) = c"
  by simp

definition strBytes :: "string \<Rightarrow> bytes" where
  "strBytes s = map byte_of_char s"

lemma strBytes_inj [simp]: "strBytes s = strBytes t \<longleftrightarrow> s = t"
proof
  assume "strBytes s = strBytes t"
  then have "map char_of_byte (strBytes s) = map char_of_byte (strBytes t)" by simp
  then show "s = t" by (simp add: strBytes_def comp_def)
qed simp

section \<open>Lists\<close>

lemma take_Suc_length_append: "take (Suc (length xs)) (xs @ y # ys) = xs @ [y]"
  by simp

lemma drop_Suc_length_append: "drop (Suc (length xs)) (xs @ y # ys) = ys"
  by simp

lemma length_eq_17_nth:
  "length cs = 17 \<Longrightarrow> i < 17 \<Longrightarrow> cs ! i \<in> set cs"
  by simp

section \<open>Association lists\<close>

text \<open>A Go map that a program ranges over is a list of entries with distinct keys, in the order of the
  range. Appending to the slice of a key adds an entry when there is none.\<close>

fun assoc_append :: "'k \<Rightarrow> 'v \<Rightarrow> ('k \<times> 'v list) list \<Rightarrow> ('k \<times> 'v list) list" where
  "assoc_append k v [] = [(k, [v])]"
| "assoc_append k v ((k', vs) # al) =
     (if k' = k then (k', vs @ [v]) # al else (k', vs) # assoc_append k v al)"

definition assoc_list :: "('k \<times> 'v list) list \<Rightarrow> 'k \<Rightarrow> 'v list" where
  "assoc_list al k = (case map_of al k of None \<Rightarrow> [] | Some vs \<Rightarrow> vs)"

lemma assoc_append_mset:
  "mset (concat (map snd (assoc_append k v al))) = add_mset v (mset (concat (map snd al)))"
  by (induction al) auto

lemma assoc_append_keys: "fst ` set (assoc_append k v al) = insert k (fst ` set al)"
  by (induction k v al rule: assoc_append.induct) (simp_all add: insert_commute)

lemma assoc_append_distinct:
  "distinct (map fst al) \<Longrightarrow> distinct (map fst (assoc_append k v al))"
proof (induction al)
  case (Cons x al)
  then show ?case using assoc_append_keys [of k v al] by (cases x) (auto simp: image_iff)
qed simp

lemma assoc_list_append:
  "assoc_list (assoc_append k v al) k' = (if k' = k then assoc_list al k @ [v] else assoc_list al k')"
  by (induction al) (auto simp: assoc_list_def)

lemma update_mset:
  "map_of al k = Some vs \<Longrightarrow>
     mset (concat (map snd (AList.update k us al))) + mset vs = mset (concat (map snd al)) + mset us"
  by (induction al) (auto split: if_splits simp: ac_simps)

end
