(* ===== verification/Aster_Core.thy ===== *)
theory Aster_Core
  imports Aster_Prelude "HOL-Library.Signed_Division"
begin

text \<open>
  \<^verbatim>\<open>src/core/\<close> (accounts, transactions, blocks, the transaction pool) and \<^verbatim>\<open>src/utils/\<close> (the shard of
  an address).

  A \<^verbatim>\<open>*big.Int\<close> is an \<open>int\<close>, a \<^verbatim>\<open>time.Time\<close> an \<open>int\<close> of nanoseconds with 0 for the zero time, and what
  \<^verbatim>\<open>time.Now()\<close> returns is an argument. The gob encoder and SHA-256 are arguments of the
  definitions that use them.
\<close>

section \<open>Accounts\<close>

type_synonym address = string

record AccountState =
  AcAddress :: address
  Nonce :: uint64
  Balance :: int
  StorageRoot :: bytes
  CodeHash :: bytes

definition Deduct :: "int \<Rightarrow> AccountState \<Rightarrow> bool \<times> AccountState" where
  "Deduct val as =
     (if Balance as < val then (False, as) else (True, as\<lparr>Balance := Balance as - val\<rparr>))"

definition Deposit :: "int \<Rightarrow> AccountState \<Rightarrow> AccountState" where
  "Deposit val s = s\<lparr>Balance := Balance s + val\<rparr>"

text \<open>The state of an account that has never been written: nonce 0 and \<^verbatim>\<open>params.Init_Balance\<close>.\<close>

definition Init_Balance :: int where
  "Init_Balance = 100000000000000000000000000000000000000000000"

definition initAccount :: AccountState where
  "initAccount = \<lparr>AcAddress = [], Nonce = 0, Balance = Init_Balance, StorageRoot = [], CodeHash = []\<rparr>"

section \<open>Transactions and blocks\<close>

record Transaction =
  TxId :: "64 word"
  Sender :: address
  Recipient :: address
  TxNonce :: uint64
  Signature :: bytes
  TxValue :: int
  TxHash :: bytes
  TxTime :: int
  AllocateTime :: int
  ExecutionTime :: int
  Relayed :: bool
  HasBroker :: bool
  SenderIsBroker :: bool
  OriginalSender :: address
  FinalRecipient :: address
  RawTxHash :: bytes

text \<open>\<open>enc\<close> is the gob encoding of a transaction and \<open>sha\<close> is SHA-256.\<close>

definition NewTransaction4 ::
  "(Transaction \<Rightarrow> bytes) \<Rightarrow> (bytes \<Rightarrow> bytes) \<Rightarrow> address \<Rightarrow> address \<Rightarrow> int \<Rightarrow> uint64 \<Rightarrow> int \<Rightarrow> Transaction"
where
  "NewTransaction4 enc sha sender recipient value nonce proposeTime =
     (let tx = \<lparr>TxId = 0, Sender = sender, Recipient = recipient, TxNonce = nonce, Signature = [],
                TxValue = value, TxHash = [], TxTime = proposeTime, AllocateTime = 0,
                ExecutionTime = 0, Relayed = False, HasBroker = False, SenderIsBroker = False,
                OriginalSender = [], FinalRecipient = [], RawTxHash = []\<rparr>
      in tx\<lparr>TxHash := sha (enc tx), Relayed := False, FinalRecipient := [], OriginalSender := [],
            RawTxHash := [], HasBroker := False, SenderIsBroker := False\<rparr>)"

definition NewTransaction ::
  "(Transaction \<Rightarrow> bytes) \<Rightarrow> (bytes \<Rightarrow> bytes) \<Rightarrow> int \<Rightarrow> address \<Rightarrow> address \<Rightarrow> int \<Rightarrow> uint64 \<Rightarrow> Transaction"
where
  "NewTransaction enc sha now sender recipient value nonce =
     NewTransaction4 enc sha sender recipient value nonce now"

text \<open>The Bloom filter of a header is the set of bits that are set.\<close>

record BlockHeader =
  ParentBlockHash :: bytes
  HStateRoot :: bytes
  TxRoot :: bytes
  BloomFilter :: "nat set"
  Number :: uint64
  HTime :: int
  Miner :: uint64

record Block =
  Header :: BlockHeader
  Body :: "Transaction list"
  BHash :: bytes

definition NewBlock :: "BlockHeader \<Rightarrow> Transaction list \<Rightarrow> Block" where
  "NewBlock bh bb = \<lparr>Header = bh, Body = bb, BHash = []\<rparr>"

definition header_Hash :: "(BlockHeader \<Rightarrow> bytes) \<Rightarrow> (bytes \<Rightarrow> bytes) \<Rightarrow> BlockHeader \<Rightarrow> bytes" where
  "header_Hash enc sha bh = sha (enc bh)"

section \<open>The transaction pool\<close>

text \<open>The relay pool is a Go map from shard to transactions, \<open>None\<close> for the nil map. The entries are
  listed in the order in which a \<^verbatim>\<open>range\<close> over the map visits them, which Go leaves open; the
  theorems hold for every order.\<close>

record TxPool =
  TxQueue :: "Transaction list"
  RelayPool :: "(uint64 \<times> Transaction list) list option"

definition NewTxPool :: TxPool where
  "NewTxPool = \<lparr>TxQueue = [], RelayPool = Some []\<rparr>"

definition AddTx2Pool :: "int \<Rightarrow> Transaction \<Rightarrow> TxPool \<Rightarrow> TxPool" where
  "AddTx2Pool now tx pool =
     (let tx' = if TxTime tx = 0 then tx\<lparr>TxTime := now\<rparr> else tx
      in pool\<lparr>TxQueue := TxQueue pool @ [tx']\<rparr>)"

definition AddTxs2Pool :: "int \<Rightarrow> Transaction list \<Rightarrow> TxPool \<Rightarrow> TxPool" where
  "AddTxs2Pool now txs pool = pool\<lparr>TxQueue := TxQueue pool @ map (TxTime_update (\<lambda>_. now)) txs\<rparr>"

definition AddTxs2Pool_Head :: "Transaction list \<Rightarrow> TxPool \<Rightarrow> TxPool" where
  "AddTxs2Pool_Head txs pool = pool\<lparr>TxQueue := txs @ TxQueue pool\<rparr>"

definition PackTxs :: "uint64 \<Rightarrow> TxPool \<Rightarrow> Transaction list \<times> TxPool" where
  "PackTxs max_txs pool =
     (let txNum = if length (TxQueue pool) < unat max_txs then length (TxQueue pool) else unat max_txs
      in (take txNum (TxQueue pool), pool\<lparr>TxQueue := drop txNum (TxQueue pool)\<rparr>))"

definition AddRelayTx :: "Transaction \<Rightarrow> uint64 \<Rightarrow> TxPool \<Rightarrow> TxPool res" where
  "AddRelayTx tx shardID pool =
     (case RelayPool pool of
        None \<Rightarrow> Inl Panic
      | Some rp \<Rightarrow> Inr (pool\<lparr>RelayPool := Some (assoc_append shardID tx rp)\<rparr>))"

definition GetTxQueueLen :: "TxPool \<Rightarrow> nat" where
  "GetTxQueueLen pool = length (TxQueue pool)"

definition ClearRelayPool :: "TxPool \<Rightarrow> TxPool" where
  "ClearRelayPool pool = pool\<lparr>RelayPool := None\<rparr>"

text \<open>\<^verbatim>\<open>int(minRelaySize)\<close> is the signed reading of the argument.\<close>

definition PackRelayTxs ::
  "uint64 \<Rightarrow> uint64 \<Rightarrow> uint64 \<Rightarrow> TxPool \<Rightarrow> (Transaction list \<times> bool) \<times> TxPool"
where
  "PackRelayTxs shardID minRelaySize maxRelaySize pool =
     (case RelayPool pool of
        None \<Rightarrow> (([], False), pool)
      | Some rp \<Rightarrow>
          (case map_of rp shardID of
             None \<Rightarrow> (([], False), pool)
           | Some txs \<Rightarrow>
               if int (length txs) < sint minRelaySize then (([], False), pool)
               else let txNum = if length txs < unat maxRelaySize then length txs
                                else unat maxRelaySize
                    in ((take txNum txs, True),
                        pool\<lparr>RelayPool := Some (AList.update shardID (drop txNum txs) rp)\<rparr>)))"

definition TransferTxs :: "address \<Rightarrow> TxPool \<Rightarrow> Transaction list \<times> TxPool" where
  "TransferTxs addr pool =
     (let rp = (case RelayPool pool of None \<Rightarrow> [] | Some rp \<Rightarrow> rp);
          mine = (\<lambda>tx. Sender tx = addr)
      in (filter mine (TxQueue pool) @ concat (map (\<lambda>(s, txs). filter mine txs) rp),
          pool\<lparr>TxQueue := filter (\<lambda>tx. \<not> mine tx) (TxQueue pool),
               RelayPool := Some (filter (\<lambda>(s, txs). txs \<noteq> [])
                                    (map (\<lambda>(s, txs). (s, filter (\<lambda>tx. \<not> mine tx) txs)) rp))\<rparr>))"

section \<open>The shard of an address\<close>

definition hexDigit :: "char \<Rightarrow> nat option" where
  "hexDigit c =
     (let n = of_char c :: nat in
      if 48 \<le> n \<and> n \<le> 57 then Some (n - 48)
      else if 97 \<le> n \<and> n \<le> 102 then Some (n - 87)
      else if 65 \<le> n \<and> n \<le> 70 then Some (n - 55)
      else None)"

fun parseDigits :: "string \<Rightarrow> nat \<Rightarrow> nat option" where
  "parseDigits [] acc = Some acc"
| "parseDigits (c # cs) acc =
     (case hexDigit c of None \<Rightarrow> None | Some d \<Rightarrow> parseDigits cs (16 * acc + d))"

text \<open>\<^verbatim>\<open>strconv.ParseUint(s, 16, 64)\<close>: \<open>None\<close> for a syntax error (the empty string included) and for a
  value that does not fit.\<close>

definition ParseUint :: "string \<Rightarrow> nat option" where
  "ParseUint s =
     (if s = [] then None
      else case parseDigits s 0 of
             None \<Rightarrow> None
           | Some n \<Rightarrow> if n < 2 ^ 64 then Some n else None)"

definition Addr2Shard :: "int \<Rightarrow> address \<Rightarrow> int res" where
  "Addr2Shard shardNum addr =
     (let last16_addr = if 16 < length addr then drop (length addr - 16) addr else addr in
      case ParseUint last16_addr of
        None \<Rightarrow> Inl Panic
      | Some num \<Rightarrow>
          if shardNum = 0 then Inl Panic else Inr (sint (word_of_nat num :: 64 word) smod shardNum))"

fun bigBytes :: "bytes \<Rightarrow> nat \<Rightarrow> nat" where
  "bigBytes [] acc = acc"
| "bigBytes (b # bs) acc = bigBytes bs (256 * acc + unat b)"

text \<open>\<^verbatim>\<open>big.Int.Mod\<close> is Euclidean and panics on a zero modulus.\<close>

definition ModBytes :: "bytes \<Rightarrow> uint64 \<Rightarrow> uint64 res" where
  "ModBytes data m =
     (if m = 0 then Inl Panic else Inr (word_of_int (int (bigBytes data 0) mod \<bar>sint m\<bar>)))"

section \<open>Facts on accounts\<close>

lemma Deduct_fails: "Balance as < val \<Longrightarrow> Deduct val as = (False, as)"
  and Deduct_works: "val \<le> Balance as \<Longrightarrow> Deduct val as = (True, as\<lparr>Balance := Balance as - val\<rparr>)"
  by (simp_all add: Deduct_def)

lemma Deduct_nonneg:
  "0 \<le> Balance as \<Longrightarrow> 0 \<le> Balance (snd (Deduct val as))"
  by (auto simp: Deduct_def)

section \<open>Facts on the pool\<close>

definition relayTxs :: "TxPool \<Rightarrow> (uint64 \<times> Transaction list) list" where
  "relayTxs pool = (case RelayPool pool of None \<Rightarrow> [] | Some rp \<Rightarrow> rp)"

definition poolTxs :: "TxPool \<Rightarrow> Transaction multiset" where
  "poolTxs pool = mset (TxQueue pool) + mset (concat (map snd (relayTxs pool)))"

lemma mset_concat_filter:
  "mset (concat (map (\<lambda>(s, txs). filter P txs) rp)) +
   mset (concat (map snd (filter (\<lambda>(s, txs). txs \<noteq> []) (map (\<lambda>(s, txs). (s, filter (\<lambda>x. \<not> P x) txs)) rp))))
   = mset (concat (map snd rp))"
proof (induction rp)
  case (Cons x rp)
  obtain s txs where x: "x = (s, txs)" by (cases x)
  have "mset txs = filter_mset P (mset txs) + filter_mset (\<lambda>x. \<not> P x) (mset txs)"
    by (rule multiset_partition)
  with Cons show ?case
    by (cases "filter (\<lambda>x. \<not> P x) txs = []") (auto simp: x ac_simps filter_empty_conv)
qed simp

section \<open>Facts on shard numbers\<close>

lemma sint_uint64:
  assumes "num < 2 ^ 64"
  shows "sint (word_of_nat num :: 64 word) = (if num < 2 ^ 63 then int num else int num - 2 ^ 64)"
proof -
  have "uint (word_of_nat num :: 64 word) = int num"
    using assms by (simp add: uint_nat unsigned_of_nat take_bit_nat_eq_self)
  moreover have "(int num + 2 ^ 63) mod 2 ^ 64 = int num + 2 ^ 63 - 2 ^ 64" if "\<not> num < 2 ^ 63"
  proof -
    have "(int num + 2 ^ 63) mod 2 ^ 64 = (int num + 2 ^ 63 - 2 ^ 64) mod 2 ^ 64"
      by (simp only: minus_mod_self2)
    then show ?thesis using assms that by simp
  qed
  ultimately show ?thesis
    using assms by (simp add: sint_uint signed_take_bit_eq_take_bit_shift take_bit_eq_mod)
qed

lemma smod_pos: "0 \<le> a \<Longrightarrow> 0 < b \<Longrightarrow> a smod b = a mod b" for a b :: int
  by (cases "a = 0") (simp_all add: signed_modulo_int_def signed_divide_int_def)

lemma smod_neg:
  fixes a b :: int
  assumes "0 < a" "0 < b"
  shows "(- a) smod b = - (a mod b)"
  using assms by (simp add: signed_modulo_int_def signed_divide_int_def minus_mult_div_eq_mod)

section \<open>Properties\<close>

text \<open>C7. Re-sharding neither loses nor duplicates a pending transaction: \<^verbatim>\<open>TransferTxs\<close> splits the queue
  and the relay pool into what is handed over, which is sent by the address, and what stays, which
  is not.\<close>

theorem TransferTxs_partition:
  "mset (fst (TransferTxs addr pool)) + poolTxs (snd (TransferTxs addr pool)) = poolTxs pool \<and>
   set (fst (TransferTxs addr pool)) \<subseteq> {tx. Sender tx = addr} \<and>
   set_mset (poolTxs (snd (TransferTxs addr pool))) \<subseteq> {tx. Sender tx \<noteq> addr}"
proof -
  let ?P = "\<lambda>tx. Sender tx = addr"
  have q: "mset (TxQueue pool) = mset (filter ?P (TxQueue pool)) + mset (filter (\<lambda>tx. \<not> ?P tx) (TxQueue pool))"
    by (simp add: multiset_partition)
  have "mset (fst (TransferTxs addr pool)) + poolTxs (snd (TransferTxs addr pool)) = poolTxs pool"
    using mset_concat_filter [of ?P "relayTxs pool"] q
    by (auto simp: TransferTxs_def Let_def poolTxs_def relayTxs_def ac_simps split: option.splits)
  then show ?thesis
    by (auto simp: TransferTxs_def Let_def poolTxs_def relayTxs_def split: option.splits)
qed

text \<open>The pool is first in, first out: packing takes a prefix of the queue, of the requested size or
  the whole queue when it is shorter, and leaves the rest in order.\<close>

theorem PackTxs_fifo:
  "fst (PackTxs n pool) @ TxQueue (snd (PackTxs n pool)) = TxQueue pool \<and>
   length (fst (PackTxs n pool)) = min (unat n) (length (TxQueue pool)) \<and>
   RelayPool (snd (PackTxs n pool)) = RelayPool pool"
  by (auto simp: PackTxs_def Let_def)

text \<open>C14. An address is mapped to a shard in range exactly when the 64-bit number read from its last 16
  hexadecimal digits is below 2^63 or, taken as a negative \<^verbatim>\<open>int\<close>, a multiple of the shard number: the
  conversion to \<^verbatim>\<open>int\<close> makes the other half of the addresses negative, and \<^verbatim>\<open>%\<close> keeps the sign.\<close>

theorem Addr2Shard_in_range:
  assumes "0 < shardNum"
    "ParseUint (if 16 < length addr then drop (length addr - 16) addr else addr) = Some num"
  shows "\<exists>r. Addr2Shard shardNum addr = Inr r \<and> \<bar>r\<bar> < shardNum \<and>
             (0 \<le> r \<longleftrightarrow> num < 2 ^ 63 \<or> shardNum dvd (2 ^ 64 - int num))"
proof -
  have "num < 2 ^ 64" using assms(2) by (auto simp: ParseUint_def split: if_splits option.splits)
  then have v: "sint (word_of_nat num :: 64 word) = (if num < 2 ^ 63 then int num else int num - 2 ^ 64)"
    by (rule sint_uint64)
  have "Addr2Shard shardNum addr = Inr (sint (word_of_nat num :: 64 word) smod shardNum)"
    using assms by (simp add: Addr2Shard_def)
  moreover have "\<bar>r\<bar> < shardNum \<and> (0 \<le> r \<longleftrightarrow> num < 2 ^ 63 \<or> shardNum dvd (2 ^ 64 - int num))"
    if r: "r = sint (word_of_nat num :: 64 word) smod shardNum" for r
  proof (cases "num < 2 ^ 63")
    case True
    then have "r = int num mod shardNum" using r v smod_pos assms(1) by simp
    then show ?thesis using True assms(1) by simp
  next
    case False
    let ?a = "2 ^ 64 - int num"
    have "0 < ?a" using \<open>num < 2 ^ 64\<close> by simp
    then have "r = - (?a mod shardNum)"
      using r v False smod_neg [of ?a shardNum] assms(1) by simp
    moreover have "0 \<le> ?a mod shardNum" "?a mod shardNum < shardNum" using assms(1) by simp_all
    ultimately show ?thesis
      using False by (simp add: dvd_eq_mod_eq_0)
  qed
  ultimately show ?thesis by blast
qed

theorem Addr2Shard_in_range_witness:
  "\<exists>r. Addr2Shard 4 ''0x00ffffffffffffffff'' = Inr r \<and> \<bar>r\<bar> < 4 \<and> r < 0"
proof -
  have "ParseUint (if 16 < length ''0x00ffffffffffffffff'' then
          drop (length ''0x00ffffffffffffffff'' - 16) ''0x00ffffffffffffffff'' else ''0x00ffffffffffffffff'')
        = Some 18446744073709551615"
    by (simp add: ParseUint_def hexDigit_def)
  from Addr2Shard_in_range [OF _ this, of 4] show ?thesis by auto
qed

end
