(* ===== verification/Message_Codec.thy ===== *)
theory Message_Codec
  imports Aster_Core
begin

text \<open>
  \<^verbatim>\<open>src/message/message.go\<close>: the 30-byte type prefix of a message, and the message types that the files of
  \<^verbatim>\<open>src/message\<close> declare.

  A message type is a Go string, here a \<open>string\<close> whose characters are its bytes.
\<close>

section \<open>The type prefix\<close>

definition prefixMSGtypeLen :: nat where
  "prefixMSGtypeLen = 30"

fun copyType :: "bytes \<Rightarrow> nat \<Rightarrow> string \<Rightarrow> bytes res" where
  "copyType b i [] = Inr b"
| "copyType b i (v # vs) = (if i < length b then copyType (b[i := byte_of_char v]) (i + 1) vs else Inl Panic)"

definition MergeMessage :: "string \<Rightarrow> bytes \<Rightarrow> bytes res" where
  "MergeMessage msgType content =
     bindR (copyType (replicate prefixMSGtypeLen 0) 0 msgType) (\<lambda>b. Inr (b @ content))"

text \<open>A slice shorter than the prefix panics (for a slice whose capacity is its length).\<close>

definition SplitMessage :: "bytes \<Rightarrow> (string \<times> bytes) res" where
  "SplitMessage msg =
     (if length msg < prefixMSGtypeLen then Inl Panic
      else Inr (map char_of_byte (filter (\<lambda>v. v \<noteq> 0) (take prefixMSGtypeLen msg)), drop prefixMSGtypeLen msg))"

text \<open>The message types of the program.\<close>

definition messageTypes :: "string list" where
  "messageTypes =
     [''preprepare'', ''prepare'', ''commit'', ''requestOldrequest'', ''sendOldrequest'', ''stop'',
      ''relay'', ''inject'', ''BlockInfo'', ''SequenceID'']"

definition messageTypes_subMPT :: "string list" where
  "messageTypes_subMPT =
     [''Proposer_Tx_Inject'', ''Proposer_block_Broadcast'', ''Proposer_Tx_Allocate'',
      ''Follower_Tx_Allocated'', ''Follower_Tx_Verfied'', ''Follower_Precessed'', ''Follower_Join'',
      ''Proposer_RequestData'', ''Proposer_AllocateData'', ''Follower_ResponseData'',
      ''Follower_Ready'', ''P_AllocFId'', ''ExecuteTimeMsg'']"

definition messageTypes_CLPA :: "string list" where
  "messageTypes_CLPA = [''AccountState&txs'', ''PartitionModifiedMap'', ''ready for partition'']"

definition messageTypes_broker :: "string list" where
  "messageTypes_broker =
     [''brokerRawTx'', ''brokerConfirm1'', ''brokerConfirm2'', ''brokerType1'', ''brokerType2'',
      ''InjectTx_Broker'', ''BrokerTxMap'', ''BrokerAS_transfer'', ''innerShardTx_be_crossShard'']"

definition messageTypes_client :: "string list" where
  "messageTypes_client =
     [''ClientTxSend'', ''ClientRequestTxProof'', ''RequestAccountState'', ''TxOnChainProof'',
      ''AccountStateForClient'']"

definition messageTypes_lightweight :: "string list" where
  "messageTypes_lightweight = [''lightWeight_block_Broadcast'', ''lightWeight_sign_Broadcast'']"

definition allTypes :: "string list" where
  "allTypes = messageTypes @ messageTypes_subMPT @ messageTypes_CLPA @ messageTypes_broker @ messageTypes_client @
     messageTypes_lightweight"

section \<open>Lemmas\<close>

lemma copyType_correct:
  "i + length vs \<le> length b \<Longrightarrow>
     copyType b i vs = Inr (take i b @ map byte_of_char vs @ drop (i + length vs) b)"
proof (induction vs arbitrary: b i)
  case (Cons v vs)
  then have "take (Suc i) (b[i := byte_of_char v]) = take i b @ [byte_of_char v]"
    by (simp add: take_Suc_conv_app_nth)
  with Cons show ?case by simp
qed simp

lemma MergeMessage_short:
  "length t \<le> 30 \<Longrightarrow> MergeMessage t c = Inr (map byte_of_char t @ replicate (30 - length t) 0 @ c)"
  by (simp add: MergeMessage_def prefixMSGtypeLen_def copyType_correct)

lemma copyType_long: "i \<le> length b \<Longrightarrow> length b < i + length vs \<Longrightarrow> copyType b i vs = Inl Panic"
  by (induction vs arbitrary: b i) auto

lemma byte_of_char_zero: "byte_of_char c = 0 \<longleftrightarrow> c = CHR 0x00"
proof -
  have "byte_of_char c = 0 \<longleftrightarrow> unat (byte_of_char c) = unat (0 :: byte)" by (simp only: word_unat_eq_iff)
  also have "\<dots> \<longleftrightarrow> of_char c = (0 :: nat)" by simp
  also have "\<dots> \<longleftrightarrow> c = CHR 0x00" using of_char_eq_iff [of c "CHR 0x00", where 'a = nat] by simp
  finally show ?thesis .
qed

lemma SplitMessage_merged:
  assumes "length t \<le> 30" "CHR 0x00 \<notin> set t"
  shows "SplitMessage (map byte_of_char t @ replicate (30 - length t) 0 @ c) = Inr (t, c)"
proof -
  have "filter (\<lambda>v. v \<noteq> 0) (map byte_of_char t) = map byte_of_char t"
    using assms(2) by (auto simp: filter_id_conv byte_of_char_zero)
  then show ?thesis
    using assms(1) by (simp add: SplitMessage_def prefixMSGtypeLen_def o_def)
qed

section \<open>Properties\<close>

text \<open>C9. Merging and splitting are inverse on every message type the program declares: none is longer
  than the 30-byte prefix and none contains a zero byte, so that the receiver dispatches on the
  type that was sent, with the content unchanged. The types are pairwise different, so no two kinds of
  message are confused.\<close>

theorem message_roundtrip:
  "list_all (\<lambda>t. bindR (MergeMessage t content) SplitMessage = Inr (t, content)) allTypes \<and> distinct allTypes"
proof -
  have "bindR (MergeMessage t content) SplitMessage = Inr (t, content)"
    if "length t \<le> 30" "CHR 0x00 \<notin> set t" for t
    using that by (simp add: MergeMessage_short SplitMessage_merged)
  moreover have "list_all (\<lambda>t. length t \<le> 30 \<and> CHR 0x00 \<notin> set t) allTypes"
    by (simp add: allTypes_def messageTypes_def messageTypes_subMPT_def messageTypes_CLPA_def messageTypes_broker_def
        messageTypes_client_def messageTypes_lightweight_def)
  moreover have "distinct allTypes" by code_simp
  ultimately show ?thesis by (auto simp: list_all_iff)
qed

end
