(* ===== verification/P2p_Network.thy ===== *)
theory P2p_Network
  imports Message_Codec "HOL-Library.Multiset"
begin

text \<open>
  \<^verbatim>\<open>src/networks/p2pNetwork.go\<close>: \<^verbatim>\<open>TcpDial\<close> starts a goroutine that sleeps for a random time, takes a connection from the pool or dials one, and
  writes the message with a newline under a rate limit; the receiver reads line by line, in the loop that
  \<^verbatim>\<open>handleClientRequest\<close> of the nodes runs on a connection. The sleeping goroutines wake in any order, so the network is a step
  relation: no message is lost, doubled or torn but by a dial that fails, and the order is not kept.
\<close>

section \<open>Definitions\<close>

text \<open>\<^verbatim>\<open>rateLimitedWriter.Write\<close> first asks the limiter for the bytes in portions of its burst size (the sequence of requests is the
  result) and then writes the whole message. With a burst of 0 the loop does not end, so it is a partial function.\<close>

partial_function (option) waitLoop :: "nat \<Rightarrow> nat \<Rightarrow> nat list option" where
  "waitLoop burst n =
     (if n = 0 then Some []
      else Option.bind (waitLoop burst (n - (if n < burst then n else burst)))
             (\<lambda>ws. Some ((if n < burst then n else burst) # ws)))"

definition frame :: "bytes \<Rightarrow> bytes" where
  "frame context = context @ [10]"

definition rateLimitedWrite :: "nat \<Rightarrow> bytes \<Rightarrow> (nat list \<times> bytes) option" where
  "rateLimitedWrite burst p =
     (case waitLoop burst (length p) of None \<Rightarrow> None | Some ws \<Rightarrow> Some (ws, p))"

text \<open>The connections are numbered; \<open>peer\<close> is the address a connection was dialled to, \<open>streams\<close> what was written to it, and
  \<open>asleep\<close> lists the goroutines of \<^verbatim>\<open>TcpDial\<close> that have not yet taken the lock.\<close>

record Network =
  connectionPool :: "string \<rightharpoonup> nat"
  opened :: nat
  peer :: "nat \<Rightarrow> string"
  streams :: "nat \<Rightarrow> bytes"
  asleep :: "(bytes \<times> string) list"

definition emptyNetwork :: Network where
  "emptyNetwork = \<lparr>connectionPool = Map.empty, opened = 0, peer = (\<lambda>c. []), streams = (\<lambda>c. []), asleep = []\<rparr>"

definition TcpDial :: "bytes \<Rightarrow> string \<Rightarrow> Network \<Rightarrow> Network" where
  "TcpDial context addr net = net\<lparr>asleep := asleep net @ [(context, addr)]\<rparr>"

definition dialConn :: "bool \<Rightarrow> string \<Rightarrow> Network \<Rightarrow> nat option \<times> Network" where
  "dialConn dialed addr net =
     (if dialed then (Some (opened net), net\<lparr>connectionPool := (connectionPool net)(addr \<mapsto> opened net),
        opened := opened net + 1, peer := (peer net)(opened net := addr)\<rparr>)
      else (None, net))"

text \<open>\<open>alive\<close> is the outcome of \<^verbatim>\<open>SetKeepAlive\<close> on a pooled connection and \<open>dialed\<close> that of \<^verbatim>\<open>net.Dial\<close>.\<close>

definition getConn :: "bool \<Rightarrow> bool \<Rightarrow> string \<Rightarrow> Network \<Rightarrow> nat option \<times> Network" where
  "getConn alive dialed addr net =
     (case connectionPool net addr of
        Some c \<Rightarrow> if alive then (Some c, net) else dialConn dialed addr (net\<lparr>connectionPool := (connectionPool net)(addr := None)\<rparr>)
      | None \<Rightarrow> dialConn dialed addr net)"

text \<open>\<open>taken\<close> is the number of bytes that the connection takes before it fails, if it does.\<close>

definition writeToConn :: "nat \<Rightarrow> nat \<Rightarrow> bytes \<Rightarrow> nat \<Rightarrow> Network \<Rightarrow> Network option" where
  "writeToConn burst taken connMsg c net =
     (case rateLimitedWrite burst connMsg of
        None \<Rightarrow> None
      | Some (ws, p) \<Rightarrow> Some (net\<lparr>streams := (streams net)(c := streams net c @ take taken p)\<rparr>))"

text \<open>The goroutine after its sleep; \<open>None\<close> when it never returns, which keeps the lock of the pool.\<close>

definition tcpSend :: "nat \<Rightarrow> bool \<Rightarrow> bool \<Rightarrow> nat \<Rightarrow> bytes \<Rightarrow> string \<Rightarrow> Network \<Rightarrow> Network option" where
  "tcpSend burst alive dialed taken context addr net =
     (case getConn alive dialed addr net of
        (None, net1) \<Rightarrow> Some net1
      | (Some c, net1) \<Rightarrow> writeToConn burst taken (frame context) c net1)"

definition CloseAllConnInPool :: "Network \<Rightarrow> Network" where
  "CloseAllConnInPool net = net\<lparr>connectionPool := Map.empty\<rparr>"

text \<open>The reader: \<^verbatim>\<open>ReadBytes\<close> returns the bytes up to and including a newline; what follows the last
  newline when the connection is closed is dropped.\<close>

fun readLoop :: "bytes \<Rightarrow> bytes \<Rightarrow> bytes list" where
  "readLoop acc [] = []"
| "readLoop acc (b # bs) = (if b = 10 then (acc @ [b]) # readLoop [] bs else readLoop (acc @ [b]) bs)"

definition readMessages :: "bytes \<Rightarrow> bytes list" where
  "readMessages stream = readLoop [] stream"

section \<open>Runs of the network\<close>

text \<open>A sleeping goroutine may wake at any time; no write fails half-way. \<open>sent\<close> lists the messages given to \<^verbatim>\<open>TcpDial\<close> and \<open>lost\<close> those
  whose dial failed.\<close>

record netrun =
  net :: Network
  sent :: "(bytes \<times> string) list"
  lost :: "(bytes \<times> string) list"

definition startNet :: netrun where
  "startNet = \<lparr>net = emptyNetwork, sent = [], lost = []\<rparr>"

inductive net_step :: "nat \<Rightarrow> netrun \<Rightarrow> netrun \<Rightarrow> bool" for burst where
  dial: "net_step burst s (s\<lparr>net := TcpDial m a (net s), sent := sent s @ [(m, a)]\<rparr>)"
| wake: "asleep (net s) = xs @ (m, a) # ys \<Longrightarrow> n = net s\<lparr>asleep := xs @ ys\<rparr> \<Longrightarrow>
    tcpSend burst alive dialed (length (frame m)) m a n = Some n' \<Longrightarrow>
    net_step burst s (s\<lparr>net := n', lost := (if fst (getConn alive dialed a n) = None then lost s @ [(m, a)] else lost s)\<rparr>)"
| close: "net_step burst s (s\<lparr>net := CloseAllConnInPool (net s)\<rparr>)"

definition received :: "string \<Rightarrow> Network \<Rightarrow> bytes list" where
  "received a n = concat (map (\<lambda>c. readMessages (streams n c)) (filter (\<lambda>c. peer n c = a) [0..<opened n]))"

definition framesTo :: "string \<Rightarrow> (bytes \<times> string) list \<Rightarrow> bytes multiset" where
  "framesTo a ms = mset (map (\<lambda>(m, _). frame m) (filter (\<lambda>(_, b). b = a) ms))"

section \<open>Lemmas\<close>

lemma waitLoop_total:
  assumes "0 < burst"
  shows "\<exists>ws. waitLoop burst n = Some ws \<and> sum_list ws = n \<and> (\<forall>w\<in>set ws. 0 < w \<and> w \<le> burst)"
proof (induction n rule: less_induct)
  case (less n)
  let ?w = "if n < burst then n else burst"
  show ?case
  proof (cases "n = 0")
    case False
    with less.IH [of "n - ?w"] assms obtain ws where
      "waitLoop burst (n - ?w) = Some ws" "sum_list ws = n - ?w" "\<forall>w\<in>set ws. 0 < w \<and> w \<le> burst"
      by (auto split: if_splits)
    with False assms show ?thesis
      by (subst waitLoop.simps) (auto split: if_splits)
  qed (simp add: waitLoop.simps)
qed

lemma waitLoop_zero: "waitLoop 0 (Suc n) = None"
proof -
  have "b = 0 \<longrightarrow> m = 0" if "waitLoop b m = Some ws" for b m ws
    using that by (rule waitLoop.raw_induct [rotated]) (fastforce simp: bind_eq_Some_conv split: if_splits)
  then show ?thesis by (cases "waitLoop 0 (Suc n)") auto
qed

lemma readLoop_line: "10 \<notin> set m \<Longrightarrow> readLoop acc (m @ 10 # rest) = (acc @ m @ [10]) # readLoop [] rest"
  by (induction m arbitrary: acc) auto

lemma readMessages_frames:
  "\<forall>m\<in>set ms. 10 \<notin> set m \<Longrightarrow> readMessages (concat (map frame ms)) = map frame ms"
  by (induction ms) (auto simp: readMessages_def frame_def readLoop_line)

lemma rateLimitedWrite_total: "0 < burst \<Longrightarrow> \<exists>ws. rateLimitedWrite burst p = Some (ws, p)"
  using waitLoop_total [of burst "length p"] by (auto simp: rateLimitedWrite_def)

lemma framesTo_simps [simp]:
  "framesTo a [] = {#}" "framesTo a ((m, b) # ms) = (if b = a then {#frame m#} else {#}) + framesTo a ms"
  "framesTo a (xs @ ys) = framesTo a xs + framesTo a ys"
  by (simp_all add: framesTo_def)

text \<open>Every stream is a sequence of whole frames.\<close>

definition framed :: "bytes \<Rightarrow> bool" where
  "framed s \<longleftrightarrow> (\<exists>ms. s = concat (map frame ms) \<and> (\<forall>m\<in>set ms. 10 \<notin> set m))"

lemma framed_append:
  assumes "framed s" "10 \<notin> set m"
  shows "framed (s @ frame m) \<and> readMessages (s @ frame m) = readMessages s @ [frame m]"
proof -
  obtain ms where ms: "s = concat (map frame ms)" "\<forall>m\<in>set ms. 10 \<notin> set m" using assms(1) by (auto simp: framed_def)
  have a: "s @ frame m = concat (map frame (ms @ [m]))" "\<forall>m\<in>set (ms @ [m]). 10 \<notin> set m" using ms assms(2) by auto
  have "framed (s @ frame m)" unfolding framed_def using a by (intro exI conjI)
  moreover have "readMessages (s @ frame m) = map frame ms @ [frame m]" unfolding a(1) using readMessages_frames [OF a(2)] by simp
  moreover have "readMessages s = map frame ms" unfolding ms(1) by (rule readMessages_frames [OF ms(2)])
  ultimately show ?thesis by simp
qed

definition net_ok :: "Network \<Rightarrow> bool" where
  "net_ok n \<longleftrightarrow> (\<forall>a c. connectionPool n a = Some c \<longrightarrow> c < opened n \<and> peer n c = a) \<and>
     (\<forall>c. framed (streams n c)) \<and> (\<forall>c\<ge>opened n. streams n c = [])"

lemma received_write:
  assumes "c < opened n" "framed (streams n c)" "10 \<notin> set m"
  shows "mset (received a (n\<lparr>streams := (streams n)(c := streams n c @ frame m)\<rparr>)) =
    mset (received a n) + (if peer n c = a then {#frame m#} else {#})"
proof -
  have u: "[0..<opened n] = [0..<c] @ c # [Suc c..<opened n]" using upt_add_eq_append [of 0 c "opened n - c"] upt_conv_Cons [OF assms(1)] assms(1) by simp
  have e: "map (\<lambda>x. readMessages (if x = c then u else streams n x)) (filter P [0..<c]) = map (\<lambda>x. readMessages (streams n x)) (filter P [0..<c])"
    "map (\<lambda>x. readMessages (if x = c then u else streams n x)) (filter P [Suc c..<k]) = map (\<lambda>x. readMessages (streams n x)) (filter P [Suc c..<k])"
    for P u k by (rule map_cong; auto)+
  show ?thesis using framed_append [OF assms(2,3)] by (simp add: received_def u e)
qed

lemma getConn_ok:
  assumes "net_ok n" "getConn alive dialed a n = (r, n')"
  shows "net_ok n' \<and> asleep n' = asleep n \<and> received b n' = received b n \<and> (\<forall>c. r = Some c \<longrightarrow> c < opened n' \<and> peer n' c = a)"
proof -
  have d: "net_ok q' \<and> asleep q' = asleep q \<and> received b q' = received b q \<and> (\<forall>c. r = Some c \<longrightarrow> c < opened q' \<and> peer q' c = a)"
    if q: "net_ok q" and e: "dialConn dialed a q = (r, q')" for q q'
  proof (cases dialed)
    case True
    then have q': "q' = q\<lparr>connectionPool := (connectionPool q)(a \<mapsto> opened q), opened := opened q + 1, peer := (peer q)(opened q := a)\<rparr>"
      "r = Some (opened q)" using e by (auto simp: dialConn_def)
    have "net_ok q'" using q by (auto simp: net_ok_def q'(1) less_Suc_eq)
    have "readMessages (streams q (opened q)) = []" using q by (simp add: net_ok_def readMessages_def)
    moreover have "filter (\<lambda>c. peer q' c = b) [0..<opened q] = filter (\<lambda>c. peer q c = b) [0..<opened q]"
      by (rule filter_cong) (auto simp: q'(1))
    moreover have "opened q' = Suc (opened q)" "streams q' = streams q" by (simp_all add: q'(1))
    ultimately have "received b q' = received b q" by (simp add: received_def)
    with \<open>net_ok q'\<close> show ?thesis by (simp add: q')
  qed (use q e in \<open>auto simp: dialConn_def\<close>)
  have n0: "net_ok (n\<lparr>connectionPool := (connectionPool n)(a := None)\<rparr>)" using assms(1) by (auto simp: net_ok_def)
  show ?thesis
  proof (cases "connectionPool n a")
    case None
    then show ?thesis using d [OF assms(1)] assms(2) by (simp add: getConn_def)
  next
    case (Some c)
    then show ?thesis using d [OF n0, of n'] assms
      by (cases alive) (auto simp: getConn_def net_ok_def received_def)
  qed
qed

lemma tcpSend_ok:
  assumes n: "net_ok n" and m: "10 \<notin> set m" and s: "tcpSend burst alive dialed (length (frame m)) m a n = Some n'"
  shows "net_ok n' \<and> asleep n' = asleep n \<and>
    mset (received b n') = mset (received b n) + (if fst (getConn alive dialed a n) \<noteq> None \<and> a = b then {#frame m#} else {#})"
proof -
  obtain r n1 where g: "getConn alive dialed a n = (r, n1)" by fastforce
  note ok = getConn_ok [OF n g, of b]
  show ?thesis
  proof (cases r)
    case None
    then show ?thesis using s g ok by (simp add: tcpSend_def)
  next
    case (Some c)
    then have n': "n' = n1\<lparr>streams := (streams n1)(c := streams n1 c @ frame m)\<rparr>"
      using s g by (auto simp: tcpSend_def writeToConn_def rateLimitedWrite_def split: option.splits)
    have c: "c < opened n1" "framed (streams n1 c)" "peer n1 c = a" using ok Some by (auto simp: net_ok_def)
    have "net_ok n'" using ok c framed_append [OF c(2) m] by (auto simp: net_ok_def n')
    moreover have "asleep n' = asleep n" using ok by (simp add: n')
    moreover have "mset (received b n') = mset (received b n) + (if a = b then {#frame m#} else {#})"
      using received_write [OF c(1,2) m, of b] ok c(3) by (simp add: n')
    ultimately show ?thesis using g Some by simp
  qed
qed

lemma net_step_sent: "net_step burst s s' \<Longrightarrow> set (sent s) \<subseteq> set (sent s')"
  by (induction rule: net_step.induct) auto

lemma net_step_ok:
  assumes "net_step burst s s'" "\<forall>(m, a)\<in>set (sent s'). 10 \<notin> set m"
    "net_ok (net s)" "set (asleep (net s)) \<subseteq> set (sent s)"
    "mset (received b (net s)) + framesTo b (asleep (net s)) + framesTo b (lost s) = framesTo b (sent s)"
  shows "net_ok (net s') \<and> set (asleep (net s')) \<subseteq> set (sent s') \<and>
    mset (received b (net s')) + framesTo b (asleep (net s')) + framesTo b (lost s') = framesTo b (sent s')"
  using assms
proof (induction rule: net_step.induct)
  case (dial s m a)
  have "received b (TcpDial m a (net s)) = received b (net s)" "net_ok (TcpDial m a (net s))"
    using dial.prems(2) by (simp_all add: TcpDial_def net_ok_def received_def)
  moreover have "framesTo b (sent s @ [(m, a)]) =
      mset (received b (net s)) + framesTo b (asleep (net s) @ [(m, a)]) + framesTo b (lost s)"
    unfolding framesTo_simps(3) dial.prems(4) [symmetric] by (simp only: ac_simps)
  moreover have "set (asleep (net s) @ [(m, a)]) \<subseteq> set (sent s @ [(m, a)])" using dial.prems(3) by auto
  ultimately show ?case by (simp add: TcpDial_def)
next
  case (wake s xs m a ys n alive dialed n')
  have n: "net_ok n" "received b n = received b (net s)" "asleep n = xs @ ys"
    using wake.prems(2) by (simp_all add: wake.hyps(2) net_ok_def received_def)
  have m: "10 \<notin> set m" using wake.prems(1,3) wake.hyps(1) by fastforce
  note ok = tcpSend_ok [OF n(1) m wake.hyps(3), of b]
  have "framesTo b (sent s) = mset (received b (net s)) + framesTo b (xs @ (m, a) # ys) + framesTo b (lost s)"
    using wake.prems(4) wake.hyps(1) by simp
  moreover have "set (xs @ ys) \<subseteq> set (sent s)" using wake.prems(3) wake.hyps(1) by auto
  ultimately show ?case using ok n(2,3) by simp
next
  case (close s)
  then show ?case by (simp add: CloseAllConnInPool_def net_ok_def received_def)
qed

lemma net_run_ok:
  assumes "(net_step burst)\<^sup>*\<^sup>* startNet s" "\<forall>(m, a)\<in>set (sent s). 10 \<notin> set m"
  shows "net_ok (net s) \<and> set (asleep (net s)) \<subseteq> set (sent s) \<and>
    mset (received b (net s)) + framesTo b (asleep (net s)) + framesTo b (lost s) = framesTo b (sent s)"
  using assms
proof (induction rule: rtranclp_induct)
  case base
  then show ?case by (auto simp: startNet_def emptyNetwork_def net_ok_def received_def framed_def intro!: exI [of _ "[]"])
next
  case (step s s')
  have "\<forall>(m, a)\<in>set (sent s). 10 \<notin> set m" using net_step_sent [OF step(2)] step(4) by blast
  from step.IH [OF this] show ?case using net_step_ok [OF step(2,4), of b] by (elim conjE) simp
qed

section \<open>Properties\<close>

text \<open>C10. In every run of the network in which no connection fails during a write and no message contains a newline, whatever the delays of
  the goroutines, the outcomes of the dials and the reconnections, and for a positive bandwidth: the messages sent to an address are, each
  exactly once, either still asleep, or lost because their dial failed, or read at the address with their bytes unchanged and the
  newline that was appended. The order of sending is not promised. No goroutine is stuck in its write.\<close>

theorem messages_delivered_once:
  assumes "0 < burst" "(net_step burst)\<^sup>*\<^sup>* startNet s" "\<forall>(m, b)\<in>set (sent s). 10 \<notin> set m"
  shows "mset (received a (net s)) + framesTo a (asleep (net s)) + framesTo a (lost s) = framesTo a (sent s) \<and>
    (\<forall>alive dialed taken m b. tcpSend burst alive dialed taken m b (net s) \<noteq> None)"
proof -
  have "writeToConn burst taken p c n \<noteq> None" for taken p c n
    using rateLimitedWrite_total [OF assms(1), of p] by (auto simp: writeToConn_def)
  then have "tcpSend burst alive dialed taken m b n \<noteq> None" for alive dialed taken m b n
    by (auto simp: tcpSend_def split: prod.splits option.splits)
  then show ?thesis using net_run_ok [OF assms(2,3), of a] by blast
qed

lemma net_into: "(net_step burst)\<^sup>*\<^sup>* s s1 \<Longrightarrow> net_step burst s1 s2 \<Longrightarrow> (net_step burst)\<^sup>*\<^sup>* s s2"
  by (rule rtranclp.rtrancl_into_rtrancl)

text \<open>Two messages are sent and the goroutine of the second wakes first: they arrive in the other order.\<close>

definition reordered :: Network where
  "reordered = \<lparr>connectionPool = [''ip'' \<mapsto> 0], opened = 1, peer = (\<lambda>c. [])(0 := ''ip''), streams = (\<lambda>c. [])(0 := [2, 10, 1, 10]), asleep = []\<rparr>"

lemma write4: "\<exists>ws. waitLoop 4 (Suc (Suc 0)) = Some ws"
  using waitLoop_total [of 4 "Suc (Suc 0)"] by auto

lemma reordered_run: "(net_step 4)\<^sup>*\<^sup>* startNet \<lparr>net = reordered, sent = [([1], ''ip''), ([2], ''ip'')], lost = []\<rparr>"
proof -
  obtain ws where ws: "waitLoop 4 (Suc (Suc 0)) = Some ws" using write4 by blast
  let ?n2 = "emptyNetwork\<lparr>asleep := [([1], ''ip''), ([2], ''ip'')]\<rparr>"
  let ?n3 = "reordered\<lparr>streams := (\<lambda>c. [])(0 := [2, 10]), asleep := [([1], ''ip'')]\<rparr>"
  let ?s1 = "\<lparr>net = emptyNetwork\<lparr>asleep := [([1], ''ip'')]\<rparr>, sent = [([1], ''ip'')], lost = []\<rparr>"
  let ?s2 = "\<lparr>net = ?n2, sent = [([1], ''ip''), ([2], ''ip'')], lost = []\<rparr>"
  let ?s3 = "?s2\<lparr>net := ?n3\<rparr>"
  have 1: "net_step 4 startNet ?s1" using net_step.dial [of 4 startNet "[1]" "''ip''"] by (simp add: startNet_def TcpDial_def emptyNetwork_def)
  have 2: "net_step 4 ?s1 ?s2" using net_step.dial [of 4 ?s1 "[2]" "''ip''"] by (simp add: TcpDial_def emptyNetwork_def)
  have "tcpSend 4 True True (Suc (Suc 0)) [2] ''ip'' (?n2\<lparr>asleep := [([1], ''ip'')]\<rparr>) = Some ?n3"
    by (simp add: tcpSend_def getConn_def dialConn_def writeToConn_def rateLimitedWrite_def frame_def emptyNetwork_def reordered_def ws)
  then have 3: "net_step 4 ?s2 ?s3"
    using net_step.wake [of ?s2 "[([1], ''ip'')]" "[2]" "''ip''" "[]" "?n2\<lparr>asleep := [([1], ''ip'')]\<rparr>" 4 True True ?n3]
    by (simp add: frame_def getConn_def dialConn_def emptyNetwork_def)
  have "tcpSend 4 True True (Suc (Suc 0)) [1] ''ip'' (?n3\<lparr>asleep := []\<rparr>) = Some reordered"
    by (simp add: tcpSend_def getConn_def writeToConn_def rateLimitedWrite_def frame_def reordered_def ws)
  then have 4: "net_step 4 ?s3 (?s2\<lparr>net := reordered\<rparr>)"
    using net_step.wake [of ?s3 "[]" "[1]" "''ip''" "[]" "?n3\<lparr>asleep := []\<rparr>" 4 True True reordered]
    by (simp add: frame_def getConn_def reordered_def)
  have "(net_step 4)\<^sup>*\<^sup>* startNet ?s1" using 1 by (rule r_into_rtranclp)
  from net_into [OF net_into [OF net_into [OF this 2] 3] 4] show ?thesis by simp
qed

theorem messages_delivered_once_witness:
  "(net_step 4)\<^sup>*\<^sup>* startNet \<lparr>net = reordered, sent = [([1], ''ip''), ([2], ''ip'')], lost = []\<rparr> \<and>
   mset (received ''ip'' reordered) = {#[1, 10], [2, 10]#} \<and> received ''ip'' reordered = [[2, 10], [1, 10]]"
proof -
  have "received ''ip'' reordered = [[2, 10], [1, 10]]" by (simp add: received_def reordered_def readMessages_def)
  moreover have "mset (received ''ip'' reordered) = {#[1, 10], [2, 10]#}"
    using messages_delivered_once [OF _ reordered_run, of "''ip''"] by (simp add: reordered_def frame_def)
  ultimately show ?thesis using reordered_run by blast
qed

text \<open>C15. With a bandwidth of 0, which \<^verbatim>\<open>InitNetworkTools\<close> accepts (it only replaces negative values), the
  limiter's burst is 0 and the write loop never returns: no message is ever sent. The goroutine of \<^verbatim>\<open>TcpDial\<close> returns only when
  its dial fails; otherwise it keeps the lock of the connection pool for ever.\<close>

theorem zero_bandwidth_never_sends:
  "rateLimitedWrite 0 (frame context) = None \<and>
   tcpSend 0 alive dialed taken context addr n =
     (case getConn alive dialed addr n of (None, n1) \<Rightarrow> Some n1 | (Some c, n1) \<Rightarrow> None)"
proof -
  have "rateLimitedWrite 0 (frame context) = None" by (simp add: rateLimitedWrite_def frame_def waitLoop_zero)
  then show ?thesis by (simp add: tcpSend_def writeToConn_def split: prod.split option.split)
qed

end
