(* ===== verification/Clpa.thy ===== *)
theory Clpa
  imports Aster_Core
begin

text \<open>
  \<^verbatim>\<open>src/partition/\<close>: the transaction graph and the constrained label propagation (CLPA) that moves
  accounts between shards.

  A vertex is its address. Go visits the entries of a map in an arbitrary order: the edge map is a
  list of entries and the vertex set a list, and \<open>CLPA_Partition\<close> takes the orders in which its
  iterations visit the vertices as an argument. The floating-point score and its comparison are an
  argument too (\<open>float_ops\<close>), so that the theorems hold for every rounding. Counters are \<open>int\<close>: they
  are bounded by the number of edges.
\<close>

section \<open>The graph\<close>

record Graph =
  VertexSet :: "string list"
  EdgeSet :: "(string \<times> string list) list option"

definition edges :: "Graph \<Rightarrow> (string \<times> string list) list" where
  "edges g = (case EdgeSet g of None \<Rightarrow> [] | Some es \<Rightarrow> es)"

abbreviation adj :: "Graph \<Rightarrow> string \<Rightarrow> string list" where
  "adj g v \<equiv> assoc_list (edges g) v"

definition graph_AddVertex :: "string \<Rightarrow> Graph \<Rightarrow> Graph" where
  "graph_AddVertex v g =
     (if v \<in> set (VertexSet g) then g else g\<lparr>VertexSet := VertexSet g @ [v]\<rparr>)"

definition graph_AddEdge :: "string \<Rightarrow> string \<Rightarrow> Graph \<Rightarrow> Graph" where
  "graph_AddEdge u v g =
     (let g1 = (if u \<in> set (VertexSet g) then g else graph_AddVertex u g);
          g2 = (if v \<in> set (VertexSet g1) then g1 else graph_AddVertex v g1)
      in g2\<lparr>EdgeSet := Some (assoc_append v u (assoc_append u v (edges g2)))\<rparr>)"

definition CopyGraph :: "Graph \<Rightarrow> Graph \<Rightarrow> Graph" where
  "CopyGraph src dst =
     (let d1 = dst\<lparr>VertexSet := VertexSet src\<rparr> in
      case EdgeSet src of
        None \<Rightarrow> d1
      | Some es \<Rightarrow> d1\<lparr>EdgeSet := Some (map (\<lambda>v. (v, adj src v)) (VertexSet src))\<rparr>)"

section \<open>The state of the algorithm\<close>

record 'f float_ops =
  f_start :: 'f
  f_less :: "'f \<Rightarrow> 'f \<Rightarrow> bool"
  f_score :: "nat \<Rightarrow> nat \<Rightarrow> 'f \<Rightarrow> int \<Rightarrow> int \<Rightarrow> 'f"

text \<open>\<open>f_start\<close> is \<^verbatim>\<open>-9999.0\<close>, \<open>f_less\<close> is \<^verbatim>\<open><\<close>, and \<open>f_score e d w k m\<close> is
  \<^verbatim>\<open>e / d * (1 - w * k / m)\<close>.\<close>

record 'f CLPAState =
  NetGraph :: Graph
  PartitionMap :: "string \<rightharpoonup> int"
  Edges2Shard :: "int list"
  VertexsNumInShard :: "int list"
  WeightPenalty :: 'f
  MinEdges2Shard :: int
  MaxIterations :: int
  CrossShardEdgeNum :: int
  ShardNum :: int

text \<open>Reading a missing key of a Go map gives 0.\<close>

definition shardOf :: "('f, 'z) CLPAState_scheme \<Rightarrow> string \<Rightarrow> int" where
  "shardOf cs v = (case PartitionMap cs v of None \<Rightarrow> 0 | Some s \<Rightarrow> s)"

definition add_at :: "int \<Rightarrow> int \<Rightarrow> int list \<Rightarrow> int list res" where
  "add_at i d xs =
     (if 0 \<le> i \<and> i < int (length xs) then Inr (xs[nat i := xs ! nat i + d]) else Inl Panic)"

text \<open>\<open>sn\<close> is \<^verbatim>\<open>params.ShardNum\<close>, which \<^verbatim>\<open>Addr2Shard\<close> reads instead of the field of the state.\<close>

definition clpa_AddVertex :: "int \<Rightarrow> string \<Rightarrow> 'f CLPAState \<Rightarrow> 'f CLPAState res" where
  "clpa_AddVertex sn v cs =
     (let cs1 = cs\<lparr>NetGraph := graph_AddVertex v (NetGraph cs)\<rparr> in
      bindR (case PartitionMap cs v of None \<Rightarrow> Addr2Shard sn v | Some val \<Rightarrow> Inr val) (\<lambda>s.
        bindR (add_at s 1 (VertexsNumInShard cs)) (\<lambda>ns.
          Inr (cs1\<lparr>PartitionMap := (PartitionMap cs)(v \<mapsto> s), VertexsNumInShard := ns\<rparr>))))"

definition clpa_AddEdge :: "int \<Rightarrow> string \<Rightarrow> string \<Rightarrow> 'f CLPAState \<Rightarrow> 'f CLPAState res" where
  "clpa_AddEdge sn u v cs =
     bindR (if u \<in> set (VertexSet (NetGraph cs)) then Inr cs else clpa_AddVertex sn u cs) (\<lambda>cs1.
       bindR (if v \<in> set (VertexSet (NetGraph cs1)) then Inr cs1 else clpa_AddVertex sn v cs1) (\<lambda>cs2.
         Inr (cs2\<lparr>NetGraph := graph_AddEdge u v (NetGraph cs2)\<rparr>)))"

text \<open>The copy shares the slice \<^verbatim>\<open>VertexsNumInShard\<close> with its source; as a value it is the same list.\<close>

definition CopyCLPA :: "'f CLPAState \<Rightarrow> 'f CLPAState \<Rightarrow> 'f CLPAState res" where
  "CopyCLPA src dst =
     (if ShardNum src < 0 then Inl Panic else Inr (
     dst\<lparr>NetGraph := CopyGraph (NetGraph src) (NetGraph dst), PartitionMap := PartitionMap src,
         Edges2Shard := take (nat (ShardNum src)) (Edges2Shard src) @
                        replicate (nat (ShardNum src) - length (Edges2Shard src)) 0,
         VertexsNumInShard := VertexsNumInShard src, WeightPenalty := WeightPenalty src,
         MinEdges2Shard := MinEdges2Shard src, MaxIterations := MaxIterations src,
         ShardNum := ShardNum src\<rparr>))"

section \<open>Counting the edges of each shard\<close>

text \<open>The two counters per shard: edges that enter it from another shard, and edges inside it.\<close>

fun edgeLoop :: "(string \<Rightarrow> int) \<Rightarrow> int \<Rightarrow> string list \<Rightarrow> int list \<times> int list \<Rightarrow> (int list \<times> int list) res" where
  "edgeLoop pm vShard [] acc = Inr acc"
| "edgeLoop pm vShard (u # lst) (e, inn) =
     (if vShard \<noteq> pm u
      then bindR (add_at (pm u) 1 e) (\<lambda>e'. edgeLoop pm vShard lst (e', inn))
      else bindR (add_at (pm u) 1 inn) (\<lambda>i'. edgeLoop pm vShard lst (e, i')))"

fun vertexLoop ::
  "(string \<Rightarrow> int) \<Rightarrow> (string \<times> string list) list \<Rightarrow> int list \<times> int list \<Rightarrow> (int list \<times> int list) res"
where
  "vertexLoop pm [] acc = Inr acc"
| "vertexLoop pm ((v, lst) # es) acc = bindR (edgeLoop pm (pm v) lst acc) (vertexLoop pm es)"

definition minLoop :: "int \<Rightarrow> int list \<Rightarrow> int" where
  "minLoop m xs = foldl (\<lambda>m val. if val < m then val else m) m xs"

definition ComputeEdges2Shard :: "'f CLPAState \<Rightarrow> 'f CLPAState res" where
  "ComputeEdges2Shard cs =
     (if ShardNum cs < 0 then Inl Panic
      else let zero = replicate (nat (ShardNum cs)) 0 in
        bindR (vertexLoop (shardOf cs) (edges (NetGraph cs)) (zero, zero)) (\<lambda>(e, inn).
          let e2s = map2 (\<lambda>x y. x + y div 2) e inn in
          Inr (cs\<lparr>Edges2Shard := e2s, CrossShardEdgeNum := sum_list e div 2,
                  MinEdges2Shard := minLoop 0x7fffffff e2s\<rparr>)))"

fun recomputeLoop ::
  "(string \<Rightarrow> int) \<Rightarrow> int \<Rightarrow> int \<Rightarrow> string list \<Rightarrow> int list \<times> int \<Rightarrow> (int list \<times> int) res"
where
  "recomputeLoop pm new old [] acc = Inr acc"
| "recomputeLoop pm new old (u # us) (e, cross) =
     (let nb = pm u in
      if nb \<noteq> new \<and> nb \<noteq> old then
        bindR (add_at new 1 e) (\<lambda>e1. bindR (add_at old (-1) e1) (\<lambda>e2.
          recomputeLoop pm new old us (e2, cross)))
      else if nb = new then
        bindR (add_at old (-1) e) (\<lambda>e1. recomputeLoop pm new old us (e1, cross - 1))
      else
        bindR (add_at new 1 e) (\<lambda>e1. recomputeLoop pm new old us (e1, cross + 1)))"

definition changeShardRecompute :: "string \<Rightarrow> int \<Rightarrow> 'f CLPAState \<Rightarrow> 'f CLPAState res" where
  "changeShardRecompute v old cs =
     bindR (recomputeLoop (shardOf cs) (shardOf cs v) old (adj (NetGraph cs) v)
              (Edges2Shard cs, CrossShardEdgeNum cs)) (\<lambda>(e, cross).
       Inr (cs\<lparr>Edges2Shard := e, CrossShardEdgeNum := cross,
               MinEdges2Shard := minLoop 0x7ffffffff e\<rparr>))"

section \<open>Initial partitions\<close>

definition Init_CLPAState :: "'f \<Rightarrow> int \<Rightarrow> int \<Rightarrow> 'f CLPAState \<Rightarrow> 'f CLPAState res" where
  "Init_CLPAState wp mIter sn cs =
     (if sn < 0 then Inl Panic
      else Inr (cs\<lparr>WeightPenalty := wp, MaxIterations := mIter, ShardNum := sn,
                   VertexsNumInShard := replicate (nat sn) 0, PartitionMap := Map.empty\<rparr>))"

text \<open>\<^verbatim>\<open>strconv.ParseInt\<close> of eight hexadecimal digits (a sign is read as well).\<close>

definition ParseInt8 :: "string \<Rightarrow> int option" where
  "ParseInt8 s =
     (case s of
        c # cs \<Rightarrow>
          if c = CHR ''-'' then map_option (\<lambda>n. - int n) (ParseUint cs)
          else if c = CHR ''+'' then map_option int (ParseUint cs)
          else map_option int (ParseUint s)
      | [] \<Rightarrow> None)"

fun initLoop :: "int \<Rightarrow> string list \<Rightarrow> (string \<rightharpoonup> int) \<times> int list \<Rightarrow> ((string \<rightharpoonup> int) \<times> int list) res" where
  "initLoop sn [] acc = Inr acc"
| "initLoop sn (v # vs) (pm, ns) =
     (if length v < 8 then Inl Panic
      else case ParseInt8 (drop (length v - 8) v) of
             None \<Rightarrow> Inl Panic
           | Some num \<Rightarrow>
               if sn = 0 then Inl Panic
               else bindR (add_at (num smod sn) 1 ns) (\<lambda>ns'. initLoop sn vs (pm(v \<mapsto> num smod sn), ns')))"

definition Init_Partition :: "'f CLPAState \<Rightarrow> 'f CLPAState res" where
  "Init_Partition cs =
     (if ShardNum cs < 0 then Inl Panic
      else bindR (initLoop (ShardNum cs) (VertexSet (NetGraph cs))
                    (Map.empty, replicate (nat (ShardNum cs)) 0)) (\<lambda>(pm, ns).
             ComputeEdges2Shard (cs\<lparr>PartitionMap := pm, VertexsNumInShard := ns\<rparr>)))"

fun stableLoop ::
  "int \<Rightarrow> int \<Rightarrow> string list \<Rightarrow> (string \<rightharpoonup> int) \<times> int list \<Rightarrow> ((string \<rightharpoonup> int) \<times> int list) res"
where
  "stableLoop sn cnt [] acc = Inr acc"
| "stableLoop sn cnt (v # vs) (pm, ns) =
     (if sn = 0 then Inl Panic
      else bindR (add_at (cnt smod sn) 1 ns) (\<lambda>ns'.
             stableLoop sn (cnt + 1) vs (pm(v \<mapsto> cnt smod sn), ns')))"

definition Stable_Init_Partition :: "'f CLPAState \<Rightarrow> 'f CLPAState res" where
  "Stable_Init_Partition cs =
     (if int (length (VertexSet (NetGraph cs))) < ShardNum cs
      then Inl (ErrMsg ''too many shards, number of shards should be less than nodes. '')
      else if ShardNum cs < 0 then Inl Panic
      else bindR (stableLoop (ShardNum cs) 0 (VertexSet (NetGraph cs))
                    (Map.empty, replicate (nat (ShardNum cs)) 0)) (\<lambda>(pm, ns).
             ComputeEdges2Shard (cs\<lparr>PartitionMap := pm, VertexsNumInShard := ns\<rparr>)))"

section \<open>Label propagation\<close>

definition getShard_score :: "'f float_ops \<Rightarrow> string \<Rightarrow> int \<Rightarrow> 'f CLPAState \<Rightarrow> 'f res" where
  "getShard_score F v uShard cs =
     (let nbs = adj (NetGraph cs) v;
          toShard = length (filter (\<lambda>item. shardOf cs item = uShard) nbs)
      in if 0 \<le> uShard \<and> uShard < int (length (Edges2Shard cs))
         then Inr (f_score F toShard (length nbs) (WeightPenalty cs) (Edges2Shard cs ! nat uShard)
                     (MinEdges2Shard cs))
         else Inl Panic)"

fun scoreLoop ::
  "'f float_ops \<Rightarrow> 'f CLPAState \<Rightarrow> string \<Rightarrow> string list \<Rightarrow> int list \<Rightarrow> 'f \<Rightarrow> int \<Rightarrow> int res"
where
  "scoreLoop F cs v [] computed max_score max_shard = Inr max_shard"
| "scoreLoop F cs v (u # us) computed max_score max_shard =
     (let uShard = shardOf cs u in
      if uShard \<in> set computed then scoreLoop F cs v us computed max_score max_shard
      else bindR (getShard_score F v uShard cs) (\<lambda>sc.
             if f_less F max_score sc
             then scoreLoop F cs v us (uShard # computed) sc uShard
             else scoreLoop F cs v us (uShard # computed) max_score max_shard))"

type_synonym 'f clpa_run = "'f CLPAState \<times> (string \<rightharpoonup> uint64) \<times> (string \<Rightarrow> nat)"

definition moveVertex :: "string \<Rightarrow> int \<Rightarrow> int \<Rightarrow> 'f clpa_run \<Rightarrow> 'f clpa_run res" where
  "moveVertex v now best st =
     (case st of (cs, res, thr) \<Rightarrow>
        bindR (add_at now (-1) (VertexsNumInShard cs)) (\<lambda>n1.
          bindR (add_at best 1 n1) (\<lambda>n2.
            bindR (changeShardRecompute v now
                     (cs\<lparr>PartitionMap := (PartitionMap cs)(v \<mapsto> best), VertexsNumInShard := n2\<rparr>)) (\<lambda>cs'.
              Inr (cs', res(v \<mapsto> word_of_int best), thr(v := thr v + 1))))))"

definition visitVertex :: "'f float_ops \<Rightarrow> string \<Rightarrow> 'f clpa_run \<Rightarrow> 'f clpa_run res" where
  "visitVertex F v st =
     (case st of (cs, res, thr) \<Rightarrow>
        if 50 \<le> thr v then Inr st
        else let now = shardOf cs v in
             bindR (scoreLoop F cs v (adj (NetGraph cs) v) [] (f_start F) now) (\<lambda>best.
               if now = best then Inr st
               else if 0 \<le> now \<and> now < int (length (VertexsNumInShard cs)) then
                 (if 1 < VertexsNumInShard cs ! nat now then moveVertex v now best st else Inr st)
               else Inl Panic))"

fun visitAll :: "'f float_ops \<Rightarrow> string list \<Rightarrow> 'f clpa_run \<Rightarrow> 'f clpa_run res" where
  "visitAll F [] st = Inr st"
| "visitAll F (v # vs) st = bindR (visitVertex F v st) (visitAll F vs)"

text \<open>\<open>order i\<close> lists the vertices in the order in which iteration \<open>i\<close> ranges over the vertex set.\<close>

definition CLPA_Partition ::
  "'f float_ops \<Rightarrow> (nat \<Rightarrow> string list) \<Rightarrow> 'f CLPAState \<Rightarrow> (((string \<rightharpoonup> uint64) \<times> int) \<times> 'f CLPAState) res"
where
  "CLPA_Partition F order cs =
     bindR (ComputeEdges2Shard cs) (\<lambda>cs1.
       bindR (visitAll F (concat (map order [0..<nat (MaxIterations cs)])) (cs1, Map.empty, \<lambda>_. 0)) (\<lambda>(cs2, res, thr).
         bindR (ComputeEdges2Shard cs2) (\<lambda>cs3. Inr ((res, CrossShardEdgeNum cs3), cs3))))"

definition EraseEdges :: "'f CLPAState \<Rightarrow> 'f CLPAState" where
  "EraseEdges cs = cs\<lparr>NetGraph := (NetGraph cs)\<lparr>EdgeSet := Some []\<rparr>\<rparr>"

end
