(* ===== verification/Clpa_Correct.thy ===== *)
theory Clpa_Correct
  imports Clpa
begin

text \<open>
  Correctness of the label propagation of \<^verbatim>\<open>src/partition/\<close>. The adjacency lists are read as a list
  of undirected edges (\<open>undirected\<close>); over it the counters of the code have their textbook meaning
  (\<open>incident\<close>, \<open>crossing\<close>). The recount from scratch computes them, the incremental recount agrees with
  it, and a whole run keeps the invariant \<open>clpa_inv\<close>, empties no shard and reports exactly the moves.
\<close>

section \<open>Edge counts\<close>

text \<open>\<open>cnt P xs\<close> is the number of elements of a list with a property. The directed arcs of the adjacency
  lists come from a list of undirected edges.\<close>

definition cnt :: "('a \<Rightarrow> bool) \<Rightarrow> 'a list \<Rightarrow> int" where
  "cnt P xs = int (length (filter P xs))"

lemma cnt_simps [simp]:
  "cnt P [] = 0" "cnt P (x # xs) = (if P x then 1 else 0) + cnt P xs" "cnt P (xs @ ys) = cnt P xs + cnt P ys"
  by (auto simp: cnt_def)

lemma cnt_map [simp]: "cnt P (map f xs) = cnt (P \<circ> f) xs"
  by (simp add: cnt_def filter_map)

lemma cnt_mset: "mset xs = mset ys \<Longrightarrow> cnt P xs = cnt P ys"
  by (metis cnt_def mset_filter size_mset)

lemma cnt_nonneg [simp]: "0 \<le> cnt P xs" and cnt_le: "cnt P xs \<le> int (length xs)"
  by (simp_all add: cnt_def)

definition arcs :: "Graph \<Rightarrow> (string \<times> string) list" where
  "arcs g = concat (map (\<lambda>(v, l). map (Pair v) l) (edges g))"

definition undirected :: "Graph \<Rightarrow> (string \<times> string) list \<Rightarrow> bool" where
  "undirected g Es \<longleftrightarrow>
     distinct (map fst (edges g)) \<and> mset (arcs g) = mset (Es @ map (\<lambda>(a, b). (b, a)) Es)"

definition incident :: "(string \<Rightarrow> int) \<Rightarrow> int \<Rightarrow> (string \<times> string) list \<Rightarrow> int" where
  "incident pm k Es = cnt (\<lambda>(a, b). pm a = k \<or> pm b = k) Es"

definition crossing :: "(string \<Rightarrow> int) \<Rightarrow> (string \<times> string) list \<Rightarrow> int" where
  "crossing pm Es = cnt (\<lambda>(a, b). pm a \<noteq> pm b) Es"

lemma add_at_Inr: "0 \<le> i \<Longrightarrow> i < int (length xs) \<Longrightarrow> add_at i d xs = Inr (xs[nat i := xs ! nat i + d])"
  by (simp add: add_at_def)

lemma edgeLoop_counts:
  assumes "\<forall>u\<in>set lst. 0 \<le> pm u \<and> pm u < int n" "length e = n" "length i = n"
  shows "\<exists>e' i'. edgeLoop pm s lst (e, i) = Inr (e', i') \<and> length e' = n \<and> length i' = n \<and>
    (\<forall>k<n. e' ! k = e ! k + cnt (\<lambda>u. pm u = int k \<and> s \<noteq> int k) lst) \<and>
    (\<forall>k<n. i' ! k = i ! k + cnt (\<lambda>u. pm u = int k \<and> s = int k) lst)"
  using assms
proof (induction lst arbitrary: e i)
  case (Cons u lst)
  let ?e = "e[nat (pm u) := e ! nat (pm u) + 1]" and ?i = "i[nat (pm u) := i ! nat (pm u) + 1]"
  show ?case
  proof (cases "s = pm u")
    case True
    obtain e' i' where "edgeLoop pm s lst (e, ?i) = Inr (e', i')" "length e' = n" "length i' = n"
      "\<forall>k<n. e' ! k = e ! k + cnt (\<lambda>u. pm u = int k \<and> s \<noteq> int k) lst"
      "\<forall>k<n. i' ! k = ?i ! k + cnt (\<lambda>u. pm u = int k \<and> s = int k) lst"
      using Cons.IH [of e ?i] Cons.prems by auto
    then show ?thesis using True Cons.prems by (auto simp: add_at_Inr nth_list_update)
  next
    case False
    obtain e' i' where "edgeLoop pm s lst (?e, i) = Inr (e', i')" "length e' = n" "length i' = n"
      "\<forall>k<n. e' ! k = ?e ! k + cnt (\<lambda>u. pm u = int k \<and> s \<noteq> int k) lst"
      "\<forall>k<n. i' ! k = i ! k + cnt (\<lambda>u. pm u = int k \<and> s = int k) lst"
      using Cons.IH [of ?e i] Cons.prems by auto
    then show ?thesis using False Cons.prems by (auto simp: add_at_Inr nth_list_update)
  qed
qed simp

lemma vertexLoop_counts:
  assumes "\<forall>(v, u)\<in>set (concat (map (\<lambda>(v, l). map (Pair v) l) es)). 0 \<le> pm u \<and> pm u < int n"
    "length e = n" "length i = n"
  shows "\<exists>e' i'. vertexLoop pm es (e, i) = Inr (e', i') \<and> length e' = n \<and> length i' = n \<and>
    (\<forall>k<n. e' ! k = e ! k + cnt (\<lambda>(v, u). pm u = int k \<and> pm v \<noteq> int k)
                                 (concat (map (\<lambda>(v, l). map (Pair v) l) es))) \<and>
    (\<forall>k<n. i' ! k = i ! k + cnt (\<lambda>(v, u). pm u = int k \<and> pm v = int k)
                                 (concat (map (\<lambda>(v, l). map (Pair v) l) es)))"
  using assms
proof (induction es arbitrary: e i)
  case (Cons x es)
  obtain v l where x: "x = (v, l)" by (cases x)
  have l: "\<forall>u\<in>set l. 0 \<le> pm u \<and> pm u < int n"
    and es: "\<forall>(v, u)\<in>set (concat (map (\<lambda>(v, l). map (Pair v) l) es)). 0 \<le> pm u \<and> pm u < int n"
    using Cons.prems(1) by (auto simp: x)
  obtain e1 i1 where 1: "edgeLoop pm (pm v) l (e, i) = Inr (e1, i1)" "length e1 = n" "length i1 = n"
    "\<forall>k<n. e1 ! k = e ! k + cnt (\<lambda>u. pm u = int k \<and> pm v \<noteq> int k) l"
    "\<forall>k<n. i1 ! k = i ! k + cnt (\<lambda>u. pm u = int k \<and> pm v = int k) l"
    using edgeLoop_counts [OF l Cons.prems(2,3), of "pm v"] by blast
  obtain e' i' where "vertexLoop pm es (e1, i1) = Inr (e', i')" "length e' = n" "length i' = n"
    "\<forall>k<n. e' ! k = e1 ! k + cnt (\<lambda>(v, u). pm u = int k \<and> pm v \<noteq> int k)
                                 (concat (map (\<lambda>(v, l). map (Pair v) l) es))"
    "\<forall>k<n. i' ! k = i1 ! k + cnt (\<lambda>(v, u). pm u = int k \<and> pm v = int k)
                                 (concat (map (\<lambda>(v, l). map (Pair v) l) es))"
    using Cons.IH [OF es 1(2,3)] by blast
  then show ?case using 1 by (auto simp: x o_def)
qed simp

text \<open>What the counters mean on undirected edges.\<close>

lemma undirected_counts:
  assumes "undirected g Es"
  shows "cnt (\<lambda>(v, u). pm u = k \<and> pm v \<noteq> k) (arcs g) + cnt (\<lambda>(v, u). pm u = k \<and> pm v = k) (arcs g) div 2
           = incident pm k Es"
proof -
  let ?sw = "\<lambda>(a, b). (b, a)"
  have "cnt P (arcs g) = cnt P Es + cnt (\<lambda>(a, b). P (b, a)) Es" for P
    using assms cnt_mset [of "arcs g" "Es @ map ?sw Es" P]
    by (simp add: undirected_def o_def case_prod_unfold)
  moreover have "cnt (\<lambda>(v, u). pm u = k \<and> pm v \<noteq> k) Es + cnt (\<lambda>(a, b). pm a = k \<and> pm b \<noteq> k) Es +
      cnt (\<lambda>(a, b). pm a = k \<and> pm b = k) Es = incident pm k Es"
    unfolding incident_def by (induction Es) (auto split: if_splits)
  moreover have "cnt (\<lambda>(v, u). pm u = k \<and> pm v = k) Es = cnt (\<lambda>(a, b). pm a = k \<and> pm b = k) Es"
    by (induction Es) auto
  ultimately show ?thesis by simp
qed

lemma undirected_crossing:
  assumes "undirected g Es"
  shows "cnt (\<lambda>(v, u). pm u \<noteq> pm v) (arcs g) div 2 = crossing pm Es"
proof -
  let ?sw = "\<lambda>(a, b). (b, a)"
  have "cnt (\<lambda>(v, u). pm u \<noteq> pm v) (arcs g) =
    cnt (\<lambda>(v, u). pm u \<noteq> pm v) Es + cnt (\<lambda>(a, b). pm a \<noteq> pm b) Es"
    using assms cnt_mset [of "arcs g" "Es @ map ?sw Es" "\<lambda>(v, u). pm u \<noteq> pm v"]
    by (simp add: undirected_def o_def case_prod_unfold)
  moreover have "cnt (\<lambda>(v, u). pm u \<noteq> pm v) Es = cnt (\<lambda>(a, b). pm a \<noteq> pm b) Es"
    by (induction Es) auto
  ultimately show ?thesis by (simp add: crossing_def)
qed

lemma sum_cnt:
  assumes "\<forall>(v, u)\<in>set A. 0 \<le> pm u \<and> pm u < int n"
  shows "(\<Sum>k<n. cnt (\<lambda>(v, u). pm u = int k \<and> pm v \<noteq> int k) A) = cnt (\<lambda>(v, u). pm u \<noteq> pm v) A"
  using assms
proof (induction A)
  case (Cons x A)
  obtain v u where x: "x = (v, u)" by (cases x)
  have u: "0 \<le> pm u" "pm u < int n" using Cons.prems by (auto simp: x)
  have "(\<Sum>k<n. if pm u = int k \<and> pm v \<noteq> int k then 1 else 0 :: int) =
      (\<Sum>k<n. if k = nat (pm u) then (if pm u \<noteq> pm v then 1 else 0) else 0)"
    using u by (intro sum.cong) auto
  also have "\<dots> = (if pm u \<noteq> pm v then 1 else 0)"
    using u by (simp add: nat_less_iff)
  finally show ?case using Cons by (simp add: x sum.distrib)
qed simp

definition graph_in_range :: "(string \<Rightarrow> int) \<Rightarrow> nat \<Rightarrow> Graph \<Rightarrow> bool" where
  "graph_in_range pm n g \<longleftrightarrow> (\<forall>(v, u)\<in>set (arcs g). 0 \<le> pm u \<and> pm u < int n)"

lemma ComputeEdges2Shard_correct:
  assumes "undirected (NetGraph cs) Es" "graph_in_range (shardOf cs) n (NetGraph cs)" "ShardNum cs = int n"
  shows "ComputeEdges2Shard cs =
    Inr (let e = map (\<lambda>k. incident (shardOf cs) (int k) Es) [0..<n] in
         cs\<lparr>Edges2Shard := e, CrossShardEdgeNum := crossing (shardOf cs) Es,
            MinEdges2Shard := minLoop 0x7fffffff e\<rparr>)"
proof -
  let ?z = "replicate n (0::int)"
  obtain e i where ei: "vertexLoop (shardOf cs) (edges (NetGraph cs)) (?z, ?z) = Inr (e, i)"
    "length e = n" "length i = n"
    "\<forall>k<n. e ! k = ?z ! k + cnt (\<lambda>(v, u). shardOf cs u = int k \<and> shardOf cs v \<noteq> int k) (arcs (NetGraph cs))"
    "\<forall>k<n. i ! k = ?z ! k + cnt (\<lambda>(v, u). shardOf cs u = int k \<and> shardOf cs v = int k) (arcs (NetGraph cs))"
    using vertexLoop_counts [of "edges (NetGraph cs)" "shardOf cs" n ?z ?z] assms(2)
    unfolding graph_in_range_def arcs_def by auto
  have "map2 (\<lambda>x y. x + y div 2) e i = map (\<lambda>k. incident (shardOf cs) (int k) Es) [0..<n]"
    using ei undirected_counts [OF assms(1)] by (intro nth_equalityI) auto
  moreover have "sum_list e = cnt (\<lambda>(v, u). shardOf cs u \<noteq> shardOf cs v) (arcs (NetGraph cs))"
    using ei sum_cnt [of "arcs (NetGraph cs)" "shardOf cs" n] assms(2)
    by (simp add: graph_in_range_def sum_list_sum_nth atLeast0LessThan)
  ultimately show ?thesis
    using ei(1) undirected_crossing [OF assms(1)] assms(3) by (simp add: ComputeEdges2Shard_def Let_def)
qed

section \<open>The incremental recount\<close>

lemma recomputeLoop_counts:
  assumes "0 \<le> new" "new < int n" "0 \<le> old" "old < int n" "new \<noteq> old" "length e = n"
  shows "\<exists>e'. recomputeLoop pm new old us (e, c) =
      Inr (e', c + cnt (\<lambda>u. pm u = old) us - cnt (\<lambda>u. pm u = new) us) \<and> length e' = n \<and>
    (\<forall>k<n. e' ! k = e ! k + (if int k = new then cnt (\<lambda>u. pm u \<noteq> new) us
                             else if int k = old then - cnt (\<lambda>u. pm u \<noteq> old) us else 0))"
  using assms(6)
proof (induction us arbitrary: e c)
  case (Cons u us)
  define d1 where "d1 = (if pm u \<noteq> new then 1 else 0 :: int)"
  define d2 where "d2 = (if pm u \<noteq> old then 1 else 0 :: int)"
  define e1 where "e1 = (if pm u \<noteq> new then e[nat new := e ! nat new + 1] else e)"
  define e2 where "e2 = (if pm u \<noteq> old then e1[nat old := e1 ! nat old - 1] else e1)"
  define c1 where "c1 = c + (if pm u = old then 1 else 0) - (if pm u = new then 1 else 0)"
  have l: "length e2 = n" using Cons.prems by (simp add: e2_def e1_def)
  have step: "recomputeLoop pm new old (u # us) (e, c) = recomputeLoop pm new old us (e2, c1)"
    using assms Cons.prems by (auto simp: e1_def e2_def c1_def add_at_Inr Let_def)
  have e2: "e2 ! k = e ! k + (if int k = new then d1 else if int k = old then - d2 else 0)" if "k < n" for k
    using assms(1-5) Cons.prems that by (auto simp: e2_def e1_def d1_def d2_def nth_list_update)
  obtain e' where "recomputeLoop pm new old us (e2, c1) =
      Inr (e', c1 + cnt (\<lambda>u. pm u = old) us - cnt (\<lambda>u. pm u = new) us)" "length e' = n"
    "\<forall>k<n. e' ! k = e2 ! k + (if int k = new then cnt (\<lambda>u. pm u \<noteq> new) us
                             else if int k = old then - cnt (\<lambda>u. pm u \<noteq> old) us else 0)"
    using Cons.IH [OF l, of c1] by blast
  then show ?case
    unfolding step by (intro exI [of _ e']) (auto simp: e2 c1_def d1_def d2_def)
qed simp

text \<open>The neighbours of a vertex, read off the undirected edges.\<close>

definition nbrs :: "string \<Rightarrow> (string \<times> string) list \<Rightarrow> string list" where
  "nbrs v Es = map snd (filter (\<lambda>(a, b). a = v) Es) @ map fst (filter (\<lambda>(a, b). b = v) Es)"

lemma arcs_of_vertex:
  assumes "distinct (map fst es)"
  shows "map snd (filter (\<lambda>(a, b). a = v) (concat (map (\<lambda>(v, l). map (Pair v) l) es))) = assoc_list es v"
  using assms
proof (induction es)
  case (Cons x es)
  obtain w l where x: "x = (w, l)" by (cases x)
  show ?case
  proof (cases "w = v")
    case True
    then have "map_of es v = None" using Cons.prems by (auto simp: x map_of_eq_None_iff)
    then show ?thesis using Cons True by (simp add: x assoc_list_def filter_map o_def)
  next
    case False
    then show ?thesis using Cons by (simp add: x assoc_list_def filter_map o_def)
  qed
qed (simp add: assoc_list_def)

lemma adj_nbrs:
  assumes "undirected g Es"
  shows "mset (adj g v) = mset (nbrs v Es)"
proof -
  have "mset (adj g v) = image_mset snd (filter_mset (\<lambda>(a, b). a = v) (mset (arcs g)))"
    using arcs_of_vertex [of "edges g" v] assms unfolding undirected_def arcs_def
    by (metis mset_filter mset_map)
  also have "\<dots> = mset (nbrs v Es)"
    using assms by (simp add: undirected_def nbrs_def filter_map o_def case_prod_unfold flip: mset_filter mset_map)
  finally show ?thesis .
qed

lemma cnt_nbrs [simp]:
  "cnt P (nbrs v []) = 0"
  "cnt P (nbrs v ((a, b) # Es)) =
     (if a = v \<and> P b then 1 else 0) + (if b = v \<and> P a then 1 else 0) + cnt P (nbrs v Es)"
  by (auto simp: nbrs_def)

lemma incident_move:
  assumes "\<forall>(a, b)\<in>set Es. a \<noteq> b" "pm v = old" "new \<noteq> old"
  shows "incident (pm(v := new)) k Es = incident pm k Es +
    (if k = new then cnt (\<lambda>u. pm u \<noteq> new) (nbrs v Es)
     else if k = old then - cnt (\<lambda>u. pm u \<noteq> old) (nbrs v Es) else 0)"
  using assms(1)
proof (induction Es)
  case (Cons x Es)
  obtain a b where x: "x = (a, b)" by (cases x)
  have IH: "incident (pm(v := new)) k Es = incident pm k Es +
    (if k = new then cnt (\<lambda>u. pm u \<noteq> new) (nbrs v Es)
     else if k = old then - cnt (\<lambda>u. pm u \<noteq> old) (nbrs v Es) else 0)"
    by (rule Cons.IH) (use Cons.prems in auto)
  have step: "incident q k (x # Es) = (if q a = k \<or> q b = k then 1 else 0) + incident q k Es" for q
    by (simp add: incident_def x)
  have "a \<noteq> b" using Cons.prems by (simp add: x)
  then show ?case
    unfolding step IH using assms(2,3)
    by (cases "a = v"; cases "b = v"; cases "k = new"; cases "k = old") (simp_all add: x)
qed (simp add: incident_def)

lemma crossing_move:
  assumes "\<forall>(a, b)\<in>set Es. a \<noteq> b" "pm v = old" "new \<noteq> old"
  shows "crossing (pm(v := new)) Es = crossing pm Es +
    cnt (\<lambda>u. pm u = old) (nbrs v Es) - cnt (\<lambda>u. pm u = new) (nbrs v Es)"
  using assms(1)
proof (induction Es)
  case (Cons x Es)
  obtain a b where x: "x = (a, b)" by (cases x)
  have IH: "crossing (pm(v := new)) Es = crossing pm Es +
    cnt (\<lambda>u. pm u = old) (nbrs v Es) - cnt (\<lambda>u. pm u = new) (nbrs v Es)"
    by (rule Cons.IH) (use Cons.prems in auto)
  have step: "crossing q (x # Es) = (if q a \<noteq> q b then 1 else 0) + crossing q Es" for q
    by (simp add: crossing_def x)
  have "a \<noteq> b" using Cons.prems by (simp add: x)
  then show ?case
    unfolding step IH using assms(2,3) by (cases "a = v"; cases "b = v") (auto simp: x)
qed (simp add: crossing_def)

lemma minLoop_le: "minLoop m xs = (if xs = [] then m else min m (Min (set xs)))"
proof (induction xs arbitrary: m)
  case (Cons x xs)
  have "minLoop m (x # xs) = minLoop (min m x) xs" by (simp add: minLoop_def min_def)
  then show ?case using Cons [of "min m x"] by (cases "xs = []") (auto simp: min.assoc)
qed (simp add: minLoop_def)

lemma minLoop_bound:
  assumes "xs \<noteq> []" "\<forall>x\<in>set xs. x \<le> m" "m \<le> m'"
  shows "minLoop m xs = minLoop m' xs"
proof -
  have "Min (set xs) \<le> m" using assms(1,2) by (meson List.finite_set Min_in set_empty)
  then have "Min (set xs) \<le> m'" using assms(3) by linarith
  with \<open>Min (set xs) \<le> m\<close> show ?thesis using assms(1) by (simp only: minLoop_le if_False min_absorb2)
qed

lemma changeShardRecompute_correct:
  assumes und: "undirected (NetGraph cs) Es" and loops: "\<forall>(a, b)\<in>set Es. a \<noteq> b"
    and e: "Edges2Shard cs = map (\<lambda>k. incident pm (int k) Es) [0..<n]"
    and c: "CrossShardEdgeNum cs = crossing pm Es"
    and pm: "shardOf cs = pm(v := new)" and old: "old = pm v"
    and rng: "0 \<le> new" "new < int n" "0 \<le> old" "old < int n" "new \<noteq> old"
  shows "changeShardRecompute v old cs =
    Inr (let e' = map (\<lambda>k. incident (pm(v := new)) (int k) Es) [0..<n] in
         cs\<lparr>Edges2Shard := e', CrossShardEdgeNum := crossing (pm(v := new)) Es,
            MinEdges2Shard := minLoop 0x7ffffffff e'\<rparr>)"
proof -
  let ?q = "pm(v := new)" and ?us = "adj (NetGraph cs) v"
  have "v \<notin> set (nbrs v Es)" using loops by (auto simp: nbrs_def)
  then have vn: "v \<notin> set ?us" using adj_nbrs [OF und, of v] by (metis mset_eq_setD)
  have q: "cnt (\<lambda>u. P (?q u)) ?us = cnt (\<lambda>u. P (pm u)) (nbrs v Es)" for P
  proof -
    have "cnt (\<lambda>u. P (?q u)) ?us = cnt (\<lambda>u. P (pm u)) ?us"
      using vn unfolding cnt_def by (metis (mono_tags, lifting) filter_cong fun_upd_other)
    also have "\<dots> = cnt (\<lambda>u. P (pm u)) (nbrs v Es)" by (rule cnt_mset [OF adj_nbrs [OF und]])
    finally show ?thesis .
  qed
  note qs = q [of "\<lambda>x. x \<noteq> new"] q [of "\<lambda>x. x \<noteq> old"] q [of "\<lambda>x. x = old"] q [of "\<lambda>x. x = new"]
  note move = incident_move [of Es pm v old new, OF loops old [symmetric] rng(5)]
    crossing_move [of Es pm v old new, OF loops old [symmetric] rng(5)]
  obtain e' where e': "recomputeLoop ?q new old ?us (Edges2Shard cs, CrossShardEdgeNum cs) =
      Inr (e', CrossShardEdgeNum cs + cnt (\<lambda>u. ?q u = old) ?us - cnt (\<lambda>u. ?q u = new) ?us)" "length e' = n"
    "\<forall>k<n. e' ! k = Edges2Shard cs ! k + (if int k = new then cnt (\<lambda>u. ?q u \<noteq> new) ?us
                             else if int k = old then - cnt (\<lambda>u. ?q u \<noteq> old) ?us else 0)"
    using recomputeLoop_counts [OF rng, of "Edges2Shard cs" ?q ?us "CrossShardEdgeNum cs"] e by auto
  have "e' = map (\<lambda>k. incident ?q (int k) Es) [0..<n]"
    using e'(2) e'(3) [unfolded qs e]
    by (intro nth_equalityI) (simp_all add: move(1) del: fun_upd_apply)
  moreover have "CrossShardEdgeNum cs + cnt (\<lambda>u. ?q u = old) ?us - cnt (\<lambda>u. ?q u = new) ?us = crossing ?q Es"
    unfolding qs c move(2) by simp
  moreover have "shardOf cs v = new" by (simp add: pm)
  ultimately show ?thesis using e'(1) by (simp add: changeShardRecompute_def pm Let_def del: fun_upd_apply)
qed

section \<open>A run of the algorithm\<close>

definition clpa_inv :: "nat \<Rightarrow> 'f CLPAState \<Rightarrow> bool" where
  "clpa_inv n cs \<longleftrightarrow>
     ShardNum cs = int n \<and> (\<forall>v. 0 \<le> shardOf cs v \<and> shardOf cs v < int n) \<and>
     distinct (VertexSet (NetGraph cs)) \<and> length (VertexsNumInShard cs) = n \<and>
     (\<forall>k<n. VertexsNumInShard cs ! k = cnt (\<lambda>v. shardOf cs v = int k) (VertexSet (NetGraph cs)))"

lemma clpa_invD:
  assumes "clpa_inv n cs"
  shows "ShardNum cs = int n" "0 \<le> shardOf cs v" "shardOf cs v < int n"
    "distinct (VertexSet (NetGraph cs))" "length (VertexsNumInShard cs) = n"
    "k < n \<Longrightarrow> VertexsNumInShard cs ! k = cnt (\<lambda>v. shardOf cs v = int k) (VertexSet (NetGraph cs))"
    "graph_in_range (shardOf cs) n (NetGraph cs)"
  using assms by (auto simp: clpa_inv_def graph_in_range_def)

lemma cnt_upd_notin:
  "v \<notin> set ys \<Longrightarrow> cnt (\<lambda>u. (pm(v := new)) u = k) ys = cnt (\<lambda>u. pm u = k) ys"
  by (induction ys) auto








section \<open>Building the graph\<close>

lemma assoc_append_arcs:
  "mset (concat (map (\<lambda>(v, l). map (Pair v) l) (assoc_append k x al))) =
     add_mset (k, x) (mset (concat (map (\<lambda>(v, l). map (Pair v) l) al)))"
  by (induction k x al rule: assoc_append.induct) auto

lemma edges_AddVertex [simp]: "edges (graph_AddVertex v g) = edges g"
  by (simp add: graph_AddVertex_def edges_def)

lemma VertexSet_AddVertex [simp]: "set (VertexSet (graph_AddVertex v g)) = insert v (set (VertexSet g))"
  by (auto simp: graph_AddVertex_def)

lemma VertexSet_AddEdge:
  "u \<in> set (VertexSet g) \<Longrightarrow> v \<in> set (VertexSet g) \<Longrightarrow> VertexSet (graph_AddEdge u v g) = VertexSet g"
  by (simp add: graph_AddEdge_def Let_def)

lemma undirected_AddVertex [simp]: "undirected (graph_AddVertex v g) Es = undirected g Es"
  by (simp add: undirected_def arcs_def)

lemma undirected_AddEdge:
  assumes "undirected g Es"
  shows "undirected (graph_AddEdge u v g) (Es @ [(u, v)])"
proof -
  have e: "edges (graph_AddEdge u v g) = assoc_append v u (assoc_append u v (edges g))"
    by (simp add: graph_AddEdge_def Let_def edges_def [of "_\<lparr>EdgeSet := _\<rparr>"])
  show ?thesis
    using assms unfolding undirected_def arcs_def e
    by (simp add: assoc_append_arcs assoc_append_distinct)
qed

lemma clpa_AddVertex_inv:
  assumes inv: "clpa_inv n cs" and new: "w \<notin> set (VertexSet (NetGraph cs))"
    and s: "Addr2Shard sn w = Inr s" "0 \<le> s" "s < int n"
  shows "\<exists>cs'. clpa_AddVertex sn w cs = Inr cs' \<and> clpa_inv n cs' \<and>
    NetGraph cs' = graph_AddVertex w (NetGraph cs)"
proof -
  note I = clpa_invD [OF inv]
  define t where "t = (case PartitionMap cs w of None \<Rightarrow> s | Some val \<Rightarrow> val)"
  have t: "0 \<le> t" "t < int n" using s I(2,3) [of w] by (auto simp: t_def shardOf_def split: option.splits)
  define ns where "ns = (VertexsNumInShard cs)[nat t := VertexsNumInShard cs ! nat t + 1]"
  define cs' where "cs' = cs\<lparr>NetGraph := graph_AddVertex w (NetGraph cs),
     PartitionMap := (PartitionMap cs)(w \<mapsto> t), VertexsNumInShard := ns\<rparr>"
  have sh: "shardOf cs' = (shardOf cs)(w := t)" by (auto simp: cs'_def shardOf_def)
  have out: "cnt (\<lambda>v. ((shardOf cs)(w := t)) v = k) (VertexSet (NetGraph cs)) =
      cnt (\<lambda>v. shardOf cs v = k) (VertexSet (NetGraph cs))" for k
    by (rule cnt_upd_notin [OF new])
  have "VertexsNumInShard cs' ! k = cnt (\<lambda>v. shardOf cs' v = int k) (VertexSet (NetGraph cs'))" if "k < n" for k
  proof -
    have "VertexSet (NetGraph cs') = VertexSet (NetGraph cs) @ [w]" using new by (simp add: cs'_def graph_AddVertex_def)
    then have "cnt (\<lambda>v. shardOf cs' v = int k) (VertexSet (NetGraph cs')) =
        VertexsNumInShard cs ! k + (if t = int k then 1 else 0)"
      unfolding sh using out [of "int k"] I(6) [OF that] by (simp del: fun_upd_apply) (simp add: fun_upd_def)
    then show ?thesis using that I(5) t by (auto simp: cs'_def ns_def nth_list_update)
  qed
  moreover have "length ns = n" "distinct (VertexSet (NetGraph cs'))"
    using I(4,5) new by (simp_all add: ns_def cs'_def graph_AddVertex_def)
  moreover have "0 \<le> shardOf cs' v \<and> shardOf cs' v < int n" for v using t I(2,3) by (simp add: sh)
  ultimately have "clpa_inv n cs'" using I(1) by (simp add: clpa_inv_def cs'_def)
  moreover have "clpa_AddVertex sn w cs = Inr cs'"
    using s(1) t I(5) by (auto simp: clpa_AddVertex_def Let_def cs'_def ns_def t_def add_at_Inr split: option.splits)
  ultimately show ?thesis by (auto simp: cs'_def)
qed

lemma ensureVertex_inv:
  assumes "clpa_inv n cs" "Addr2Shard sn w = Inr s" "0 \<le> s" "s < int n"
  shows "\<exists>cs'. (if w \<in> set (VertexSet (NetGraph cs)) then Inr cs else clpa_AddVertex sn w cs) = Inr cs' \<and>
    clpa_inv n cs' \<and> NetGraph cs' = graph_AddVertex w (NetGraph cs)"
  using clpa_AddVertex_inv [OF assms(1) _ assms(2-4)] assms(1) by (auto simp: graph_AddVertex_def)

text \<open>C12. Adding an edge between two accounts whose address hashes to a shard in range never panics, keeps
  the invariant (every account has a shard below the shard number and the vertex counters are exact) and
  adds exactly one undirected edge to the graph.\<close>

theorem clpa_AddEdge_correct:
  assumes "clpa_inv n cs" "undirected (NetGraph cs) Es"
    and "Addr2Shard sn u = Inr su" "0 \<le> su" "su < int n"
    and "Addr2Shard sn v = Inr sv" "0 \<le> sv" "sv < int n"
  shows "\<exists>cs'. clpa_AddEdge sn u v cs = Inr cs' \<and> clpa_inv n cs' \<and>
    undirected (NetGraph cs') (Es @ [(u, v)]) \<and>
    set (VertexSet (NetGraph cs')) = set (VertexSet (NetGraph cs)) \<union> {u, v}"
proof -
  obtain cs1 where 1: "(if u \<in> set (VertexSet (NetGraph cs)) then Inr cs else clpa_AddVertex sn u cs) = Inr cs1"
    "clpa_inv n cs1" "NetGraph cs1 = graph_AddVertex u (NetGraph cs)"
    using ensureVertex_inv [OF assms(1,3-5)] by blast
  obtain cs2 where 2: "(if v \<in> set (VertexSet (NetGraph cs1)) then Inr cs1 else clpa_AddVertex sn v cs1) = Inr cs2"
    "clpa_inv n cs2" "NetGraph cs2 = graph_AddVertex v (NetGraph cs1)"
    using ensureVertex_inv [OF 1(2) assms(6-8)] by blast
  define cs' where "cs' = cs2\<lparr>NetGraph := graph_AddEdge u v (NetGraph cs2)\<rparr>"
  have sh: "shardOf cs' = shardOf cs2" by (simp add: cs'_def shardOf_def fun_eq_iff)
  have V: "VertexSet (NetGraph cs') = VertexSet (NetGraph cs2)"
    by (simp add: cs'_def VertexSet_AddEdge 1(3) 2(3))
  have "clpa_inv n cs'" using 2(2) unfolding clpa_inv_def sh V by (simp add: cs'_def)
  moreover have "undirected (NetGraph cs') (Es @ [(u, v)])"
    using assms(2) undirected_AddEdge [of "NetGraph cs2" Es u v] by (simp add: cs'_def 1(3) 2(3))
  moreover have "clpa_AddEdge sn u v cs = Inr cs'"
    unfolding clpa_AddEdge_def 1(1) by (simp only: bindR_simps 2(1) cs'_def)
  ultimately show ?thesis using V by (auto simp: 1(3) 2(3))
qed

section \<open>Stable initial partition\<close>

lemma stableLoop_correct:
  assumes "0 < n" "length ns = n" "distinct vs"
  shows "\<exists>pm' ns'. stableLoop (int n) (int c) vs (pm, ns) = Inr (pm', ns') \<and> length ns' = n \<and>
    (\<forall>k<n. ns' ! k = ns ! k + cnt (\<lambda>v. pm' v = Some (int k)) vs) \<and>
    (\<forall>v. v \<notin> set vs \<longrightarrow> pm' v = pm v) \<and>
    (\<forall>i<length vs. pm' (vs ! i) = Some (int ((c + i) mod n)))"
  using assms(2,3)
proof (induction vs arbitrary: c pm ns)
  case (Cons v vs)
  let ?s = "int (c mod n)"
  define ns1 where "ns1 = ns[c mod n := ns ! (c mod n) + 1]"
  have l: "length ns1 = n" using Cons.prems by (simp add: ns1_def)
  have sm: "int c smod int n = ?s" using assms(1) by (simp add: smod_pos zmod_int)
  have step: "stableLoop (int n) (int c) (v # vs) (pm, ns) =
      stableLoop (int n) (int (c + 1)) vs (pm(v \<mapsto> ?s), ns1)"
    using assms(1) Cons.prems(1) by (simp add: sm add_at_Inr ns1_def add.commute)
  obtain pm' ns' where IH: "stableLoop (int n) (int (c + 1)) vs (pm(v \<mapsto> ?s), ns1) = Inr (pm', ns')"
    "length ns' = n" "\<forall>k<n. ns' ! k = ns1 ! k + cnt (\<lambda>v. pm' v = Some (int k)) vs"
    "\<forall>w. w \<notin> set vs \<longrightarrow> pm' w = (pm(v \<mapsto> ?s)) w"
    "\<forall>i<length vs. pm' (vs ! i) = Some (int ((c + 1 + i) mod n))"
    using Cons.IH [OF l, of "c + 1" "pm(v \<mapsto> ?s)"] Cons.prems(2) by (metis distinct.simps(2))
  have v: "pm' v = Some ?s" using IH(4) Cons.prems(2) by simp
  have "ns' ! k = ns ! k + cnt (\<lambda>v. pm' v = Some (int k)) (v # vs)" if "k < n" for k
    using IH(3) that v Cons.prems(1) by (auto simp: ns1_def nth_list_update)
  moreover have "pm' ((v # vs) ! i) = Some (int ((c + i) mod n))" if "i < length (v # vs)" for i
    using IH(5) v that by (cases i) auto
  moreover have "\<forall>w. w \<notin> set (v # vs) \<longrightarrow> pm' w = pm w" using IH(4) by auto
  ultimately show ?case unfolding step using IH(1,2) by blast
qed simp

lemma Stable_Init_Partition_ok:
  assumes und: "undirected (NetGraph cs) Es" and d: "distinct (VertexSet (NetGraph cs))"
    and n: "ShardNum cs = int n" "0 < n" "n \<le> length (VertexSet (NetGraph cs))"
  shows "\<exists>cs'. Stable_Init_Partition cs = Inr cs' \<and> clpa_inv n cs' \<and> NetGraph cs' = NetGraph cs \<and>
    (\<forall>k<n. 1 \<le> VertexsNumInShard cs' ! k)"
proof -
  let ?V = "VertexSet (NetGraph cs)"
  obtain pm ns where loop: "stableLoop (int n) (int 0) ?V (Map.empty, replicate n 0) = Inr (pm, ns)"
    "length ns = n" "\<forall>k<n. ns ! k = (replicate n 0) ! k + cnt (\<lambda>v. pm v = Some (int k)) ?V"
    "\<forall>v. v \<notin> set ?V \<longrightarrow> pm v = None" "\<forall>i<length ?V. pm (?V ! i) = Some (int ((0 + i) mod n))"
    using stableLoop_correct [OF n(2) length_replicate [of n "0::int"] d, of 0 Map.empty] by blast
  define cs1 where "cs1 = cs\<lparr>PartitionMap := pm, VertexsNumInShard := ns\<rparr>"
  have V: "\<exists>k<n. pm v = Some (int k)" if "v \<in> set ?V" for v
    using that loop(5) n(2) by (metis in_set_conv_nth mod_less_divisor)
  have rng: "0 \<le> shardOf cs1 v \<and> shardOf cs1 v < int n" for v
    using V [of v] loop(4) n(2) by (cases "v \<in> set ?V") (auto simp: shardOf_def cs1_def)
  have "cnt (\<lambda>v. pm v = Some (int k)) ?V = cnt (\<lambda>v. shardOf cs1 v = int k) ?V" for k
    unfolding cnt_def using V
    by (intro arg_cong [of _ _ "\<lambda>xs. int (length xs)"] filter_cong) (fastforce simp: shardOf_def cs1_def)+
  then have inv: "clpa_inv n cs1" using loop(2,3) rng d n(1) by (simp add: clpa_inv_def cs1_def)
  have ne: "1 \<le> ns ! k" if "k < n" for k
  proof -
    have "?V ! k \<in> set (filter (\<lambda>v. pm v = Some (int k)) ?V)" using that n(3) loop(5) by simp
    then have "filter (\<lambda>v. pm v = Some (int k)) ?V \<noteq> []" by (metis list.set(1) empty_iff)
    then show ?thesis using loop(3) that by (simp add: cnt_def Suc_le_eq)
  qed
  have C: "ComputeEdges2Shard cs1 = Inr (let e = map (\<lambda>k. incident (shardOf cs1) (int k) Es) [0..<n] in
         cs1\<lparr>Edges2Shard := e, CrossShardEdgeNum := crossing (shardOf cs1) Es,
            MinEdges2Shard := minLoop 0x7fffffff e\<rparr>)"
    using ComputeEdges2Shard_correct [of cs1 Es n] und clpa_invD [OF inv] by (simp add: cs1_def)
  have "clpa_inv n (cs1\<lparr>Edges2Shard := e, CrossShardEdgeNum := c, MinEdges2Shard := m\<rparr>)" for e c m
    using inv by (simp add: clpa_inv_def shardOf_def)
  moreover have "Stable_Init_Partition cs = ComputeEdges2Shard cs1"
    using loop(1) n by (simp add: Stable_Init_Partition_def cs1_def)
  ultimately show ?thesis using ne unfolding C by (auto simp: cs1_def Let_def)
qed


definition graph0 :: Graph where
  "graph0 = graph_AddEdge ''0000000b'' ''0000000c'' (graph_AddEdge ''0000000a'' ''0000000b''
     \<lparr>VertexSet = [], EdgeSet = None\<rparr>)"

definition clpa0 :: "int CLPAState" where
  "clpa0 = \<lparr>NetGraph = graph0, PartitionMap = [''0000000a'' \<mapsto> 0, ''0000000b'' \<mapsto> 1, ''0000000c'' \<mapsto> 0],
     Edges2Shard = [], VertexsNumInShard = [2, 1], WeightPenalty = 1, MinEdges2Shard = 0, MaxIterations = 3,
     CrossShardEdgeNum = 0, ShardNum = 2\<rparr>"

lemma graph0_undirected: "undirected graph0 [(''0000000a'', ''0000000b''), (''0000000b'', ''0000000c'')]"
proof -
  have "undirected \<lparr>VertexSet = [], EdgeSet = None\<rparr> []" by (simp add: undirected_def arcs_def edges_def)
  from undirected_AddEdge [OF undirected_AddEdge [OF this, of "''0000000a''" "''0000000b''"], of "''0000000b''" "''0000000c''"]
  show ?thesis by (simp add: graph0_def)
qed

lemma VertexSet_graph0: "VertexSet graph0 = [''0000000a'', ''0000000b'', ''0000000c'']"
  by (simp add: graph0_def graph_AddEdge_def graph_AddVertex_def Let_def)

lemma clpa0_graph [simp]: "NetGraph clpa0 = graph0"
  by (simp add: clpa0_def)

lemma clpa0_inv: "clpa_inv 2 clpa0"
  by (auto simp: clpa_inv_def clpa0_def VertexSet_graph0 shardOf_def less_Suc_eq numeral_2_eq_2 nth_Cons')

text \<open>C13. The stable initial partition fails exactly when there are more shards than accounts; otherwise
  it succeeds with every account assigned to a shard in range, exact vertex counters and no empty shard.\<close>

theorem Stable_Init_Partition_correct:
  assumes "undirected (NetGraph cs) Es" "distinct (VertexSet (NetGraph cs))" "ShardNum cs = int n" "0 < n"
  shows "if n \<le> length (VertexSet (NetGraph cs))
    then \<exists>cs'. Stable_Init_Partition cs = Inr cs' \<and> clpa_inv n cs' \<and> NetGraph cs' = NetGraph cs \<and>
           (\<forall>k<n. 1 \<le> VertexsNumInShard cs' ! k)
    else Stable_Init_Partition cs =
           Inl (ErrMsg ''too many shards, number of shards should be less than nodes. '')"
  using Stable_Init_Partition_ok [OF assms] assms(3) by (simp add: Stable_Init_Partition_def)

theorem Stable_Init_Partition_correct_witness:
  "\<exists>cs'. Stable_Init_Partition clpa0 = Inr cs' \<and> clpa_inv 2 cs' \<and> NetGraph cs' = graph0 \<and>
     (\<forall>k<2. 1 \<le> VertexsNumInShard cs' ! k)"
  using Stable_Init_Partition_correct [of clpa0 _ 2] graph0_undirected
  by (auto simp: clpa0_def VertexSet_graph0)

theorem clpa_AddEdge_correct_witness:
  "\<exists>cs'. clpa_AddEdge 2 ''0000000a'' ''0000000d'' clpa0 = Inr cs' \<and> clpa_inv 2 cs' \<and>
    undirected (NetGraph cs') [(''0000000a'', ''0000000b''), (''0000000b'', ''0000000c''), (''0000000a'', ''0000000d'')] \<and>
    set (VertexSet (NetGraph cs')) = set (VertexSet graph0) \<union> {''0000000a'', ''0000000d''}"
proof -
  have "Addr2Shard 2 ''0000000a'' = Inr 0" "Addr2Shard 2 ''0000000d'' = Inr 1" by (simp_all add: Addr2Shard_def ParseUint_def hexDigit_def smod_pos)
  then show ?thesis
    using clpa_AddEdge_correct [OF clpa0_inv, of _ 2 "''0000000a''" 0 "''0000000d''" 1, simplified clpa0_graph,
        OF graph0_undirected] by simp
qed

text \<open>C6. The incremental recount after moving one account to another shard agrees with the recount from
  scratch, on every graph without self loops with less than \<^verbatim>\<open>0x7fffffff\<close> edges.\<close>

theorem recompute_agrees:
  assumes "clpa_inv n cs" "undirected (NetGraph cs) Es" "\<forall>(a, b)\<in>set Es. a \<noteq> b" "length Es \<le> 0x7fffffff"
    and "ComputeEdges2Shard cs = Inr cs1"
    and "0 \<le> new" "new < int n" "new \<noteq> shardOf cs v"
  shows "changeShardRecompute v (shardOf cs v) (cs1\<lparr>PartitionMap := (PartitionMap cs)(v \<mapsto> new)\<rparr>) =
    ComputeEdges2Shard (cs1\<lparr>PartitionMap := (PartitionMap cs)(v \<mapsto> new)\<rparr>)"
proof -
  note I = clpa_invD [OF assms(1)]
  define cs2 where "cs2 = cs1\<lparr>PartitionMap := (PartitionMap cs)(v \<mapsto> new)\<rparr>"
  let ?q = "(shardOf cs)(v := new)"
  let ?e = "map (\<lambda>k. incident ?q (int k) Es) [0..<n]"
  have cs1: "cs1 = cs\<lparr>Edges2Shard := map (\<lambda>k. incident (shardOf cs) (int k) Es) [0..<n],
      CrossShardEdgeNum := crossing (shardOf cs) Es, MinEdges2Shard := MinEdges2Shard cs1\<rparr>"
    using assms(5) unfolding ComputeEdges2Shard_correct [OF assms(2) I(7,1)] by (auto simp: Let_def)
  have c2: "NetGraph cs2 = NetGraph cs" "ShardNum cs2 = int n" "CrossShardEdgeNum cs2 = crossing (shardOf cs) Es"
    "Edges2Shard cs2 = map (\<lambda>k. incident (shardOf cs) (int k) Es) [0..<n]"
    unfolding cs2_def by (subst cs1, simp add: I(1))+
  have sh: "shardOf cs2 = ?q" by (simp add: cs2_def shardOf_def fun_eq_iff)
  have "graph_in_range ?q n (NetGraph cs)" using I(2,3) assms(6,7) by (simp add: graph_in_range_def)
  then have A: "ComputeEdges2Shard cs2 = Inr (cs2\<lparr>Edges2Shard := ?e, CrossShardEdgeNum := crossing ?q Es,
      MinEdges2Shard := minLoop 0x7fffffff ?e\<rparr>)"
    using ComputeEdges2Shard_correct [of cs2 Es n] assms(2) unfolding sh by (simp add: c2 Let_def del: fun_upd_apply)
  have und: "undirected (NetGraph cs2) Es" using assms(2) by (simp add: c2(1))
  have B: "changeShardRecompute v (shardOf cs v) cs2 = Inr (cs2\<lparr>Edges2Shard := ?e, CrossShardEdgeNum := crossing ?q Es,
      MinEdges2Shard := minLoop 0x7ffffffff ?e\<rparr>)"
    using changeShardRecompute_correct [OF und assms(3) c2(4,3) sh refl assms(6,7) I(2,3) assms(8)]
    unfolding Let_def .
  have "int (length Es) \<le> 0x7fffffff" using assms(4) by simp
  then have "incident ?q k Es \<le> 0x7fffffff" for k
    unfolding incident_def by (rule order_trans [OF cnt_le])
  then have "minLoop 0x7fffffff ?e = minLoop 0x7ffffffff ?e"
    using assms(6,7) by (intro minLoop_bound) auto
  then show ?thesis unfolding A B cs2_def [symmetric] by simp
qed

theorem recompute_agrees_witness:
  "\<exists>cs1. ComputeEdges2Shard clpa0 = Inr cs1 \<and>
    changeShardRecompute ''0000000a'' 0 (cs1\<lparr>PartitionMap := (PartitionMap clpa0)(''0000000a'' \<mapsto> 1)\<rparr>) =
    ComputeEdges2Shard (cs1\<lparr>PartitionMap := (PartitionMap clpa0)(''0000000a'' \<mapsto> 1)\<rparr>)"
proof -
  have a: "shardOf clpa0 ''0000000a'' = 0" by (simp add: shardOf_def clpa0_def)
  obtain cs1 where cs1: "ComputeEdges2Shard clpa0 = Inr cs1"
    using ComputeEdges2Shard_correct [of clpa0 _ 2] graph0_undirected clpa_invD [OF clpa0_inv] by fastforce
  then show ?thesis
    using recompute_agrees [OF clpa0_inv, of "[(''0000000a'', ''0000000b''), (''0000000b'', ''0000000c'')]" cs1 1
        "''0000000a''"] graph0_undirected by (simp add: a)
qed



end
