(* ===== verification/Hex_Encoding.thy ===== *)
theory Hex_Encoding
  imports Aster_Prelude
begin

text \<open>
  \<^verbatim>\<open>src/trie/encoding.go\<close>: the three key encodings of the Merkle Patricia trie (key bytes, hex
  nibbles with an optional terminator 16, and the compact encoding used on disk), one function
  per function of the file. An access out of range, which panics in Go, is \<open>None\<close> or \<open>Inl Panic\<close>.
  The lemmas are the round trips between the encodings, the agreement of the in-place encoder
  with the allocating one, and that the hex form of distinct keys is prefix free.
\<close>

section \<open>Definitions\<close>

definition hasTerm :: "bytes \<Rightarrow> bool" where
  "hasTerm s \<longleftrightarrow> 0 < length s \<and> s ! (length s - 1) = 16"

text \<open>The loop fills the buffer from its front; an odd number of nibbles or a short buffer
  is an index out of range.\<close>

fun decodeNibbles :: "bytes \<Rightarrow> bytes \<Rightarrow> bytes option" where
  "decodeNibbles [] buf = Some buf"
| "decodeNibbles [n1] buf = None"
| "decodeNibbles (n1 # n2 # ns) [] = None"
| "decodeNibbles (n1 # n2 # ns) (b # bs) =
     map_option ((#) (push_bit 4 n1 OR n2)) (decodeNibbles ns bs)"

definition hexToCompact :: "bytes \<Rightarrow> bytes option" where
  "hexToCompact hex =
     (let terminator = (if hasTerm hex then 1 else 0 :: byte);
          hex = (if hasTerm hex then take (length hex - 1) hex else hex);
          rest = replicate (length hex div 2) 0;
          b0 = push_bit 5 terminator
      in if odd (length hex)
         then map_option ((#) ((b0 OR push_bit 4 1) OR hex ! 0)) (decodeNibbles (drop 1 hex) rest)
         else map_option ((#) b0) (decodeNibbles hex rest))"

text \<open>The in-place encoder reads two nibbles at \<open>ni\<close> and writes their byte at \<open>bi\<close> of the same
  buffer.\<close>

function inPlaceLoop :: "bytes \<Rightarrow> nat \<Rightarrow> nat \<Rightarrow> nat \<Rightarrow> bytes option" where
  "inPlaceLoop hex hexLen ni bi =
     (if ni < hexLen then
        (if ni + 1 < length hex \<and> bi < length hex
         then inPlaceLoop (hex[bi := push_bit 4 (hex ! ni) OR hex ! (ni + 1)]) hexLen (ni + 2) (bi + 1)
         else None)
      else Some hex)"
  by pat_completeness auto
termination
  by (relation "measure (\<lambda>(hex, hexLen, ni, bi). hexLen - ni)") auto

declare inPlaceLoop.simps [simp del]

definition hexToCompactInPlace :: "bytes \<Rightarrow> (bytes \<times> nat) option" where
  "hexToCompactInPlace hex =
     (let term = (0 < length hex \<and> hex ! (length hex - 1) = 16);
          hexLen = (if term then length hex - 1 else length hex);
          firstByte = (if term then push_bit 5 1 else 0 :: byte);
          binLen = hexLen div 2 + 1;
          firstByte' = (if odd hexLen then (firstByte OR push_bit 4 1) OR hex ! 0 else firstByte);
          ni = (if odd hexLen then 1 else 0)
      in case inPlaceLoop hex hexLen ni 1 of
           None \<Rightarrow> None
         | Some h \<Rightarrow> (if 0 < length h then Some (h[0 := firstByte'], binLen) else None))"

fun keybytesToHex :: "bytes \<Rightarrow> bytes" where
  "keybytesToHex [] = [16]"
| "keybytesToHex (b # bs) = (b div 16) # (b mod 16) # keybytesToHex bs"

definition compactToHex :: "bytes \<Rightarrow> bytes" where
  "compactToHex compact =
     (if compact = [] then compact
      else let base = keybytesToHex compact;
               base' = (if base ! 0 < 2 then take (length base - 1) base else base);
               chop = unat (2 - (base' ! 0 AND 1))
           in drop chop base')"

definition hexToKeybytes :: "bytes \<Rightarrow> bytes res" where
  "hexToKeybytes hex =
     (let hex = (if hasTerm hex then take (length hex - 1) hex else hex)
      in if odd (length hex) then Inl Panic
         else case decodeNibbles hex (replicate (length hex div 2) 0) of
                None \<Rightarrow> Inl Panic | Some key \<Rightarrow> Inr key)"

fun prefixLen :: "bytes \<Rightarrow> bytes \<Rightarrow> nat" where
  "prefixLen (a # as) (b # bs) = (if a \<noteq> b then 0 else Suc (prefixLen as bs))"
| "prefixLen _ _ = 0"

section \<open>Hex keys\<close>

text \<open>A nibble path, and a hex key: a nibble path closed by the terminator.\<close>

definition nibs :: "bytes \<Rightarrow> bool" where
  "nibs ns \<longleftrightarrow> (\<forall>n\<in>set ns. n < 16)"

definition hexkey :: "bytes \<Rightarrow> bool" where
  "hexkey k \<longleftrightarrow> k \<noteq> [] \<and> nibs (butlast k) \<and> last k = 16"

lemma nibs_simps [simp]:
  "nibs []" "nibs (n # ns) \<longleftrightarrow> n < 16 \<and> nibs ns" "nibs (xs @ ys) \<longleftrightarrow> nibs xs \<and> nibs ys"
  by (auto simp: nibs_def)

lemma hexkey_Nil [simp]: "\<not> hexkey []"
  by (simp add: hexkey_def)

lemma hexkey_Cons: "hexkey (n # k) \<longleftrightarrow> (if k = [] then n = 16 else n < 16 \<and> hexkey k)"
  by (auto simp: hexkey_def)

lemma hexkey_append: "k \<noteq> [] \<Longrightarrow> hexkey (p @ k) \<longleftrightarrow> nibs p \<and> hexkey k"
  by (auto simp: hexkey_def butlast_append)

lemma hexkey_keybytesToHex [simp]: "hexkey (keybytesToHex k)"
  by (induction k) (auto simp: hexkey_Cons)

lemma keybytesToHex_not_Nil [simp]: "keybytesToHex k \<noteq> []"
  by (cases k) auto

lemma length_keybytesToHex: "length (keybytesToHex k) = 2 * length k + 1"
  by (induction k) auto

text \<open>The terminator keeps hex keys prefix free: no hex key is a proper prefix of another.\<close>

lemma hexkey_prefix_free: "hexkey k \<Longrightarrow> hexkey (k @ r) \<Longrightarrow> r = []"
proof (induction k)
  case (Cons n k)
  then show ?case by (cases "k = []"; cases "r = []") (auto simp: hexkey_Cons)
qed simp

lemma keybytesToHex_inj: "keybytesToHex a = keybytesToHex b \<Longrightarrow> a = b"
proof (induction a arbitrary: b)
  case Nil
  then show ?case by (cases b) auto
next
  case (Cons x a)
  then obtain y b' where b: "b = y # b'" by (cases b) auto
  with Cons.prems have eq: "x div 16 = y div 16" "x mod 16 = y mod 16" by simp_all
  have "x = push_bit 4 (x div 16) OR (x mod 16)" by (simp add: nibble_simps)
  also have "\<dots> = y" by (simp add: eq nibble_simps)
  finally show ?case using Cons b by auto
qed

lemma hasTerm_last: "hasTerm s \<longleftrightarrow> s \<noteq> [] \<and> last s = 16"
  by (auto simp: hasTerm_def last_conv_nth)

lemma nibs_not_hasTerm: "nibs s \<Longrightarrow> \<not> hasTerm s"
  by (induction s rule: rev_induct) (auto simp: hasTerm_last)

lemma hexkey_hasTerm: "hexkey k \<Longrightarrow> hasTerm k"
  by (simp add: hexkey_def hasTerm_last)

lemma hexkey_snoc: "hexkey k \<Longrightarrow> \<exists>ns. k = ns @ [16] \<and> nibs ns"
  by (metis append_butlast_last_id hexkey_def)

section \<open>Round trips\<close>

lemma decodeNibbles_keybytes:
  "decodeNibbles (butlast (keybytesToHex k)) (replicate (length k) 0) = Some k"
  by (induction k) (auto simp: nibble_simps)

text \<open>What the nibble loop computes: consecutive pairs packed into bytes.\<close>

fun packNibbles :: "bytes \<Rightarrow> bytes" where
  "packNibbles (x # y # ns) = (push_bit 4 x OR y) # packNibbles ns"
| "packNibbles _ = []"

lemma decodeNibbles_pack:
  "even (length ns) \<Longrightarrow> length buf = length ns div 2 \<Longrightarrow>
     decodeNibbles ns buf = Some (packNibbles ns)"
  by (induction ns buf rule: decodeNibbles.induct) auto

lemma length_packNibbles: "length (packNibbles ns) = length ns div 2"
  by (induction ns rule: packNibbles.induct) auto

lemma keybytesToHex_pack:
  "even (length ns) \<Longrightarrow> nibs ns \<Longrightarrow> keybytesToHex (packNibbles ns) = ns @ [16]"
  by (induction ns rule: packNibbles.induct) (auto simp: nibble_simps)

lemma pack_keybytesToHex: "packNibbles (butlast (keybytesToHex k)) = k"
  by (induction k) (auto simp: nibble_simps)

text \<open>The compact form of a hex path, by cases on the parity of its nibbles.\<close>

definition termFlag :: "bytes \<Rightarrow> byte" where
  "termFlag hex = (if hasTerm hex then 32 else 0)"

definition stripTerm :: "bytes \<Rightarrow> bytes" where
  "stripTerm hex = (if hasTerm hex then butlast hex else hex)"

lemma stripTerm_take: "(if hasTerm hex then take (length hex - 1) hex else hex) = stripTerm hex"
  by (simp add: stripTerm_def butlast_conv_take)

lemma hexToCompact_even:
  "even (length (stripTerm hex)) \<Longrightarrow>
     hexToCompact hex = Some (termFlag hex # packNibbles (stripTerm hex))"
  unfolding hexToCompact_def stripTerm_take Let_def
  by (simp add: decodeNibbles_pack termFlag_def)

lemma hexToCompact_odd:
  assumes "stripTerm hex = n # ns" and "even (length ns)"
  shows "hexToCompact hex = Some (((termFlag hex OR 16) OR n) # packNibbles ns)"
proof -
  have "decodeNibbles ns (replicate (length ns div 2) 0) = Some (packNibbles ns)"
    by (rule decodeNibbles_pack) (use assms(2) in simp_all)
  moreover have "Suc (length ns) div 2 = length ns div 2"
    using assms(2) by simp
  ultimately show ?thesis
    unfolding hexToCompact_def stripTerm_take Let_def
    using assms by (simp add: termFlag_def)
qed

lemma hexToCompact_total: "\<exists>bs. hexToCompact hex = Some bs"
proof (cases "even (length (stripTerm hex))")
  case False
  then obtain n ns where "stripTerm hex = n # ns" "even (length ns)"
    by (cases "stripTerm hex") auto
  then show ?thesis by (blast intro: hexToCompact_odd)
qed (blast intro: hexToCompact_even)

lemma stripTerm_split: "hex = stripTerm hex @ (if hasTerm hex then [16] else [])"
  by (auto simp: stripTerm_def hasTerm_last) (metis append_butlast_last_id)

lemma compactToHex_even:
  assumes "even (length ns)" "nibs ns"
  shows "compactToHex (0 # packNibbles ns) = ns"
    and "compactToHex (32 # packNibbles ns) = ns @ [16]"
  using assms by (simp_all add: compactToHex_def Let_def keybytesToHex_pack butlast_conv_take [symmetric])

lemma compactToHex_odd:
  assumes "even (length ns)" "nibs ns" "n < 16"
  shows "compactToHex ((push_bit 4 1 OR n) # packNibbles ns) = n # ns"
    and "compactToHex ((push_bit 4 3 OR n) # packNibbles ns) = n # ns @ [16]"
proof -
  have *: "(push_bit 4 1 OR n) div 16 = 1" "(push_bit 4 1 OR n) mod 16 = n"
       "(push_bit 4 3 OR n) div 16 = 3" "(push_bit 4 3 OR n) mod 16 = n"
    by (rule join_div16 join_mod16; use assms in \<open>simp add: word_less_nat_alt\<close>)+
  have k: "keybytesToHex ((push_bit 4 1 OR n) # packNibbles ns) = 1 # n # ns @ [16]"
          "keybytesToHex ((push_bit 4 3 OR n) # packNibbles ns) = 3 # n # ns @ [16]"
    using assms by (simp_all only: keybytesToHex.simps * keybytesToHex_pack)
  show "compactToHex ((push_bit 4 1 OR n) # packNibbles ns) = n # ns"
    unfolding compactToHex_def Let_def k by simp
  show "compactToHex ((push_bit 4 3 OR n) # packNibbles ns) = n # ns @ [16]"
    unfolding compactToHex_def Let_def k by simp
qed

lemma compact_inverse:
  assumes "nibs hex \<or> hexkey hex"
  shows "\<exists>c. hexToCompact hex = Some c \<and> compactToHex c = hex"
proof -
  let ?s = "stripTerm hex"
  have s: "nibs ?s"
    using assms nibs_not_hasTerm [of hex] by (auto simp: stripTerm_def hexkey_def hasTerm_last)
  show ?thesis
  proof (cases "even (length ?s)")
    case True
    then show ?thesis
      using compactToHex_even [OF True s] stripTerm_split [of hex]
      by (auto simp: hexToCompact_even termFlag_def)
  next
    case False
    then obtain n ns where ns: "?s = n # ns" "even (length ns)" by (cases ?s) auto
    have f: "(termFlag hex OR 16) OR n = push_bit 4 (if hasTerm hex then 3 else 1) OR n"
      by (simp add: termFlag_def)
    show ?thesis
      using compactToHex_odd [of ns n] ns s stripTerm_split [of hex]
      by (auto simp: hexToCompact_odd [OF ns] f)
  qed
qed

text \<open>C16. Decoding the compact form of a nibble path, with or without the terminator, gives the
  path back, and the encoder never panics on it.\<close>

theorem compact_roundtrip:
  assumes "nibs hex \<or> hexkey hex"
  shows "\<exists>c. hexToCompact hex = Some c \<and> compactToHex c = hex"
  by (rule compact_inverse [OF assms])

theorem compact_roundtrip_witness:
  "hexkey [1, 10, 5, 16] \<and>
   (\<exists>c. hexToCompact [1, 10, 5, 16] = Some c \<and> compactToHex c = [1, 10, 5, 16])"
proof -
  have h: "hexkey [1, 10, 5, 16]" by (simp add: hexkey_def)
  show ?thesis using h compact_roundtrip [OF disjI2, OF h] by simp
qed

text \<open>Turning key bytes into hex nibbles and back returns the key: \<^verbatim>\<open>hexToKeybytes\<close> never
  panics on the output of \<^verbatim>\<open>keybytesToHex\<close>.\<close>

theorem hexToKeybytes_keybytesToHex: "hexToKeybytes (keybytesToHex k) = Inr k"
proof -
  have h: "hasTerm (keybytesToHex k)" by (simp add: hexkey_hasTerm)
  have "stripTerm (keybytesToHex k) = butlast (keybytesToHex k)"
    by (simp add: stripTerm_def h)
  moreover have "length (butlast (keybytesToHex k)) = 2 * length k"
    by (simp add: length_keybytesToHex)
  ultimately show ?thesis
    unfolding hexToKeybytes_def stripTerm_take Let_def
    by (simp add: decodeNibbles_keybytes length_keybytesToHex)
qed

section \<open>The in-place encoder\<close>

lemma inPlaceLoop_result:
  assumes "even (hexLen - ni)" "hexLen \<le> length h" "bi \<le> ni + 1" "ni \<le> hexLen"
  shows "inPlaceLoop h hexLen ni bi =
     Some (take bi h @ packNibbles (take (hexLen - ni) (drop ni h)) @ drop (bi + (hexLen - ni) div 2) h)"
  using assms
proof (induction h hexLen ni bi rule: inPlaceLoop.induct)
  case (1 h hexLen ni bi)
  show ?case
  proof (cases "ni < hexLen")
    case False
    with 1 show ?thesis by (simp add: inPlaceLoop.simps)
  next
    case True
    with 1 have l: "ni + 2 \<le> hexLen" by presburger
    let ?x = "push_bit 4 (h ! ni) OR h ! (ni + 1)"
    let ?h = "h[bi := ?x]"
    have b: "bi < length h" "ni + 1 < length h" using 1 l by auto
    have d: "drop ni h = h ! ni # h ! (ni + 1) # drop (ni + 2) h"
      using b by (simp add: Cons_nth_drop_Suc)
    have t: "take (hexLen - ni) (drop ni h) = h ! ni # h ! (ni + 1) # take (hexLen - (ni + 2)) (drop (ni + 2) h)"
      using l by (simp add: d take_Cons' )
    have m: "(hexLen - ni) div 2 = Suc ((hexLen - (ni + 2)) div 2)" using l by presburger
    have "inPlaceLoop ?h hexLen (ni + 2) (bi + 1) =
      Some (take (bi + 1) ?h @ packNibbles (take (hexLen - (ni + 2)) (drop (ni + 2) ?h))
        @ drop (bi + 1 + (hexLen - (ni + 2)) div 2) ?h)"
      using 1 True b l by (intro "1.IH") auto
    moreover have "take (bi + 1) ?h = take bi h @ [?x]"
      using b by (simp add: take_Suc_conv_app_nth)
    ultimately show ?thesis
      using True b 1 by (subst inPlaceLoop.simps) (simp add: t m)
  qed
qed

text \<open>C17. The in-place compact encoder, which overwrites the buffer it still reads from, leaves in
  the first \<open>n\<close> bytes of the buffer exactly what the allocating encoder returns. Only the empty
  buffer is excluded: there the Go code indexes out of range.\<close>

theorem inPlace_agrees:
  assumes "hex \<noteq> []"
  shows "\<exists>buf n. hexToCompactInPlace hex = Some (buf, n) \<and> n \<le> length buf \<and>
           length buf = length hex \<and> hexToCompact hex = Some (take n buf)"
proof -
  let ?l = "length (stripTerm hex)"
  have len: "(if 0 < length hex \<and> hex ! (length hex - 1) = 16 then length hex - 1 else length hex) = ?l"
    by (auto simp: stripTerm_def hasTerm_def)
  have flag: "(if 0 < length hex \<and> hex ! (length hex - 1) = 16 then push_bit 5 1 else 0 :: byte) = termFlag hex"
    by (simp add: termFlag_def hasTerm_def)
  have pre: "take ?l hex = stripTerm hex" "?l \<le> length hex" 
    by (auto simp: stripTerm_def butlast_conv_take)
  have up: "(take 1 hex @ ys)[0 := b] = b # ys" for ys b
    using assms by (cases hex) auto
  show ?thesis
  proof (cases "even ?l")
    case True
    have "inPlaceLoop hex ?l 0 1 = Some (take 1 hex @ packNibbles (stripTerm hex) @ drop (1 + ?l div 2) hex)"
      using True pre by (simp add: inPlaceLoop_result)
    moreover have "Suc (?l div 2) \<le> length hex"
    proof -
      from assms have "0 < length hex" by simp
      with True pre(2) show ?thesis by presburger
    qed
    ultimately show ?thesis
      unfolding hexToCompactInPlace_def Let_def len flag
      using True assms by (auto simp: hexToCompact_even up [simplified] length_packNibbles min_def)
  next
    case False
    then obtain n ns where ns: "stripTerm hex = n # ns" "even (length ns)"
      by (cases "stripTerm hex") auto
    then obtain m ms where hex: "hex = m # ms" "m = n" "take (length ns) ms = ns"
      using pre by (cases hex) auto
    have "inPlaceLoop hex ?l 1 1 = Some (take 1 hex @ packNibbles ns @ drop (1 + (?l - 1) div 2) hex)"
      using ns pre hex by (subst inPlaceLoop_result) auto
    with False show ?thesis
      unfolding hexToCompactInPlace_def Let_def len flag
      using assms ns pre hex by (auto simp: hexToCompact_odd length_packNibbles)
  qed
qed

theorem inPlace_agrees_witness:
  "([3, 7, 9, 16] :: bytes) \<noteq> [] \<and>
   (\<exists>buf n. hexToCompactInPlace [3, 7, 9, 16] = Some (buf, n) \<and> n \<le> length buf \<and>
      length buf = length ([3, 7, 9, 16] :: bytes) \<and>
      hexToCompact [3, 7, 9, 16] = Some (take n buf))"
  using inPlace_agrees [of "[3, 7, 9, 16]"] by simp

section \<open>Common prefixes\<close>

lemma prefixLen_le: "prefixLen a b \<le> length a" "prefixLen a b \<le> length b"
  by (induction a b rule: prefixLen.induct) auto

lemma prefixLen_take: "take (prefixLen a b) a = take (prefixLen a b) b"
  by (induction a b rule: prefixLen.induct) auto

lemma prefixLen_differ:
  "prefixLen a b < length a \<Longrightarrow> prefixLen a b < length b \<Longrightarrow> a ! prefixLen a b \<noteq> b ! prefixLen a b"
  by (induction a b rule: prefixLen.induct) auto

lemma prefixLen_same [simp]: "prefixLen (p @ a) p = length p"
  by (induction p) (cases a; simp)+

lemma prefixLen_full_iff: "prefixLen a b = length b \<longleftrightarrow> (\<exists>r. a = b @ r)"
proof
  assume "prefixLen a b = length b"
  then have "a = b @ drop (length b) a"
    by (metis append_take_drop_id prefixLen_take take_all_iff order_refl)
  then show "\<exists>r. a = b @ r" by blast
qed auto

text \<open>Two lists split at their common prefix.\<close>

lemma prefixLen_split:
  obtains p ra rb where "a = p @ ra" "b = p @ rb" "prefixLen a b = length p"
    "ra \<noteq> [] \<Longrightarrow> rb \<noteq> [] \<Longrightarrow> hd ra \<noteq> hd rb"
proof
  let ?n = "prefixLen a b"
  show "a = take ?n a @ drop ?n a" by simp
  show "b = take ?n a @ drop ?n b" by (metis append_take_drop_id prefixLen_take)
  show "?n = length (take ?n a)" by (simp add: prefixLen_le)
  show "drop ?n a \<noteq> [] \<Longrightarrow> drop ?n b \<noteq> [] \<Longrightarrow> hd (drop ?n a) \<noteq> hd (drop ?n b)"
    using prefixLen_differ [of a b] by (simp add: hd_drop_conv_nth)
qed

end
