(* ===== verification/Trie_Node.thy ===== *)
theory Trie_Node
  imports Hex_Encoding
begin

text \<open>
  \<^verbatim>\<open>src/trie/node.go\<close> and \<^verbatim>\<open>src/trie/node_enc.go\<close>: the in-memory nodes of the Merkle Patricia
  trie, their RLP encoding and the decoder of a stored node.

  The RLP library (\<^verbatim>\<open>github.com/ethereum/go-ethereum/rlp\<close>) is not part of the repository. The
  functions the code calls are the fields of \<open>rlp_lib\<close>, an argument of the definitions; what is
  relied on is stated by \<open>rlp_ok\<close>.
\<close>

section \<open>The RLP library as a parameter\<close>

datatype rlp_kind = RByte | RString | RList

record rlp_lib =
  SplitList :: "bytes \<Rightarrow> (bytes \<times> bytes) option"
  CountValues :: "bytes \<Rightarrow> nat"
  SplitString :: "bytes \<Rightarrow> (bytes \<times> bytes) option"
  Split :: "bytes \<Rightarrow> (rlp_kind \<times> bytes \<times> bytes) option"
  WriteBytes :: "bytes \<Rightarrow> bytes"
  WriteList :: "bytes \<Rightarrow> bytes"
  EmptyString :: bytes

text \<open>\<open>WriteBytes s\<close> is what \<^verbatim>\<open>EncoderBuffer.WriteBytes\<close> appends for the string \<open>s\<close>; \<open>WriteList p\<close>
  is what \<^verbatim>\<open>List\<close> and \<^verbatim>\<open>ListEnd\<close> make of the payload \<open>p\<close> written between them.\<close>

section \<open>Nodes\<close>

record nodeFlag =
  flag_hash :: "bytes option"
  flag_dirty :: bool

datatype node =
    NilNode
  | FullNode (Children: "node list") nodeFlag
  | ShortNode bytes node nodeFlag
  | HashNode bytes
  | ValueNode bytes

text \<open>The method \<^verbatim>\<open>cache\<close>; calling it on a nil interface panics, which no caller modelled here
  does.\<close>

fun node_cache :: "node \<Rightarrow> bytes option \<times> bool" where
  "node_cache (FullNode cs f) = (flag_hash f, flag_dirty f)"
| "node_cache (ShortNode k v f) = (flag_hash f, flag_dirty f)"
| "node_cache (HashNode h) = (None, True)"
| "node_cache (ValueNode v) = (None, True)"
| "node_cache NilNode = (None, True)"

definition newFlag :: nodeFlag where
  "newFlag = \<lparr>flag_hash = None, flag_dirty = True\<rparr>"

section \<open>Encoding\<close>

text \<open>\<^verbatim>\<open>encode\<close> of each node type. A nil child is written as the empty string.\<close>

fun node_encode :: "rlp_lib \<Rightarrow> node \<Rightarrow> bytes" where
  "node_encode R NilNode = EmptyString R"
| "node_encode R (FullNode cs f) = WriteList R (concat (map (node_encode R) cs))"
| "node_encode R (ShortNode k v f) = WriteList R (WriteBytes R k @ node_encode R v)"
| "node_encode R (HashNode h) = WriteBytes R h"
| "node_encode R (ValueNode v) = WriteBytes R v"

definition nodeToBytes :: "rlp_lib \<Rightarrow> node \<Rightarrow> bytes" where
  "nodeToBytes R n = node_encode R n"

section \<open>Decoding\<close>

text \<open>The decoders take the decoder \<open>dn\<close> of an embedded node as an argument; \<open>decodeNodeUnsafe\<close>
  ties the knot with one unit of fuel per nesting level. The context that \<^verbatim>\<open>wrapError\<close> adds to an
  error message for debugging is left out.\<close>

definition decodeRef :: "rlp_lib \<Rightarrow> (bytes \<Rightarrow> node res) \<Rightarrow> bytes \<Rightarrow> (node \<times> bytes) res" where
  "decodeRef R dn buf =
     (case Split R buf of
        None \<Rightarrow> Inl (ErrMsg ''rlp'')
      | Some (kind, val, rest) \<Rightarrow>
          if kind = RList then
            (if 32 < int (length buf) - int (length rest)
             then Inl (ErrMsg ''oversized embedded node'')
             else bindR (dn buf) (\<lambda>n. Inr (n, rest)))
          else if kind = RString \<and> length val = 0 then Inr (NilNode, rest)
          else if kind = RString \<and> length val = 32 then Inr (HashNode val, rest)
          else Inl (ErrMsg ''invalid RLP string size''))"

definition decodeShort :: "rlp_lib \<Rightarrow> (bytes \<Rightarrow> node res) \<Rightarrow> bytes option \<Rightarrow> bytes \<Rightarrow> node res" where
  "decodeShort R dn hash elems =
     (case SplitString R elems of
        None \<Rightarrow> Inl (ErrMsg ''rlp'')
      | Some (kbuf, rest) \<Rightarrow>
          let flag = \<lparr>flag_hash = hash, flag_dirty = False\<rparr>;
              key = compactToHex kbuf
          in if hasTerm key then
               (case SplitString R rest of
                  None \<Rightarrow> Inl (ErrMsg ''invalid value node'')
                | Some (val, _) \<Rightarrow> Inr (ShortNode key (ValueNode val) flag))
             else bindR (decodeRef R dn rest) (\<lambda>(r, _). Inr (ShortNode key r flag)))"

fun decodeRefs :: "rlp_lib \<Rightarrow> (bytes \<Rightarrow> node res) \<Rightarrow> nat \<Rightarrow> bytes \<Rightarrow> (node list \<times> bytes) res" where
  "decodeRefs R dn 0 elems = Inr ([], elems)"
| "decodeRefs R dn (Suc i) elems =
     bindR (decodeRef R dn elems) (\<lambda>(cld, rest).
       bindR (decodeRefs R dn i rest) (\<lambda>(clds, rest'). Inr (cld # clds, rest')))"

definition decodeFull :: "rlp_lib \<Rightarrow> (bytes \<Rightarrow> node res) \<Rightarrow> bytes option \<Rightarrow> bytes \<Rightarrow> node res" where
  "decodeFull R dn hash elems =
     bindR (decodeRefs R dn 16 elems) (\<lambda>(clds, rest).
       (case SplitString R rest of
          None \<Rightarrow> Inl (ErrMsg ''rlp'')
        | Some (val, _) \<Rightarrow>
            Inr (FullNode (clds @ [if 0 < length val then ValueNode val else NilNode])
                   \<lparr>flag_hash = hash, flag_dirty = False\<rparr>)))"

fun decodeNodeUnsafe :: "rlp_lib \<Rightarrow> nat \<Rightarrow> bytes option \<Rightarrow> bytes \<Rightarrow> node res" where
  "decodeNodeUnsafe R 0 hash buf = Inl OutOfFuel"
| "decodeNodeUnsafe R (Suc fuel) hash buf =
     (if length buf = 0 then Inl (ErrMsg ''unexpected EOF'')
      else case SplitList R buf of
             None \<Rightarrow> Inl (ErrMsg ''decode error'')
           | Some (elems, _) \<Rightarrow>
               let c = CountValues R elems in
               if c = 2 then decodeShort R (decodeNodeUnsafe R fuel None) hash elems
               else if c = 17 then decodeFull R (decodeNodeUnsafe R fuel None) hash elems
               else Inl (ErrMsg ''invalid number of list elements''))"

text \<open>An embedded node is shorter than its parent, so the length of the blob bounds the nesting.\<close>

definition decodeNode :: "rlp_lib \<Rightarrow> bytes option \<Rightarrow> bytes \<Rightarrow> node res" where
  "decodeNode R hash buf = decodeNodeUnsafe R (Suc (length buf)) hash buf"

definition mustDecodeNode :: "rlp_lib \<Rightarrow> bytes option \<Rightarrow> bytes \<Rightarrow> node res" where
  "mustDecodeNode R hash buf =
     (case decodeNode R hash buf of Inl e \<Rightarrow> Inl Panic | Inr n \<Rightarrow> Inr n)"

section \<open>Shape of a decoded node\<close>

definition is_hash :: "node \<Rightarrow> bool" where
  "is_hash n = (case n of HashNode h \<Rightarrow> True | _ \<Rightarrow> False)"

lemma is_hash_simps [simp]:
  "is_hash (HashNode h)" "\<not> is_hash NilNode" "\<not> is_hash (FullNode cs f)"
  "\<not> is_hash (ShortNode k v f)" "\<not> is_hash (ValueNode b)"
  by (simp_all add: is_hash_def)

lemma decodeShort_shape:
  "decodeShort R dn hash elems = Inr n \<Longrightarrow>
     \<exists>k v. n = ShortNode k v \<lparr>flag_hash = hash, flag_dirty = False\<rparr>"
  by (auto simp: decodeShort_def Let_def split: option.splits if_splits)

lemma length_decodeRefs: "decodeRefs R dn i elems = Inr (clds, rest) \<Longrightarrow> length clds = i"
  by (induction i arbitrary: elems clds rest) auto

lemma decodeFull_shape:
  "decodeFull R dn hash elems = Inr n \<Longrightarrow>
     \<exists>cs. length cs = 17 \<and> n = FullNode cs \<lparr>flag_hash = hash, flag_dirty = False\<rparr>"
  by (fastforce simp: decodeFull_def dest: length_decodeRefs split: option.splits)

lemma decodeNode_shape:
  assumes "decodeNode R hash buf = Inr n"
  shows "(\<exists>k v. n = ShortNode k v \<lparr>flag_hash = hash, flag_dirty = False\<rparr>) \<or>
         (\<exists>cs. length cs = 17 \<and> n = FullNode cs \<lparr>flag_hash = hash, flag_dirty = False\<rparr>)"
  using assms
  by (auto simp: decodeNode_def Let_def split: option.splits if_splits
           dest!: decodeShort_shape decodeFull_shape)

lemma mustDecodeNode_not_hash: "mustDecodeNode R hash buf = Inr n \<Longrightarrow> \<not> is_hash n"
  by (auto simp: mustDecodeNode_def dest: decodeNode_shape split: sum.splits)

end
