(* ===== verification/Trie_Ops.thy ===== *)
theory Trie_Ops
  imports Trie_Node
begin

text \<open>
  \<^verbatim>\<open>src/trie/tracer.go\<close>, \<^verbatim>\<open>src/trie/trie_reader.go\<close> and the operations of \<^verbatim>\<open>src/trie/trie.go\<close>:
  \<^verbatim>\<open>Get\<close>, \<^verbatim>\<open>GetNode\<close>, \<^verbatim>\<open>Update\<close> and \<^verbatim>\<open>Delete\<close> with the recursions behind them.

  A recursion threads the tracer and returns its result or the first error; its first argument
  after the libraries is fuel, one unit per call. \<open>trie_fuel\<close> gives what a key needs: a short or a
  full node consumes at least one nibble, and a hash node costs one call more.

  The backing store is the Go interface \<^verbatim>\<open>Reader\<close>, a function from the owner, the path and the hash
  to the blob. \<^verbatim>\<open>common.BytesToHash\<close>, the identity on the 32 bytes of a hash node, is left to it.
\<close>

section \<open>The tracer\<close>

record tracer =
  inserts :: "bytes set"
  deletes :: "bytes set"
  accessList :: "bytes \<rightharpoonup> bytes"

definition newTracer :: tracer where
  "newTracer = \<lparr>inserts = {}, deletes = {}, accessList = Map.empty\<rparr>"

definition onRead :: "bytes \<Rightarrow> bytes \<Rightarrow> tracer \<Rightarrow> tracer" where
  "onRead path val t = t\<lparr>accessList := (accessList t)(path \<mapsto> val)\<rparr>"

definition onInsert :: "bytes \<Rightarrow> tracer \<Rightarrow> tracer" where
  "onInsert path t =
     (if path \<in> deletes t then t\<lparr>deletes := deletes t - {path}\<rparr>
      else t\<lparr>inserts := insert path (inserts t)\<rparr>)"

definition onDelete :: "bytes \<Rightarrow> tracer \<Rightarrow> tracer" where
  "onDelete path t =
     (if path \<in> inserts t then t\<lparr>inserts := inserts t - {path}\<rparr>
      else t\<lparr>deletes := insert path (deletes t)\<rparr>)"

definition tracer_reset :: "tracer \<Rightarrow> tracer" where
  "tracer_reset t = t\<lparr>inserts := {}, deletes := {}, accessList := Map.empty\<rparr>"

section \<open>The trie reader\<close>

record trieReader =
  rd_owner :: bytes
  rd_reader :: "(bytes \<Rightarrow> bytes \<Rightarrow> bytes \<Rightarrow> bytes res) option"
  rd_banned :: "bytes set option"

definition newEmptyReader :: trieReader where
  "newEmptyReader = \<lparr>rd_owner = replicate 32 0, rd_reader = None, rd_banned = None\<rparr>"

definition nodeBlob :: "trieReader \<Rightarrow> bytes \<Rightarrow> bytes \<Rightarrow> bytes res" where
  "nodeBlob r path hash =
     (if (case rd_banned r of None \<Rightarrow> False | Some bs \<Rightarrow> path \<in> bs)
      then Inl (MissingNode path hash)
      else case rd_reader r of
             None \<Rightarrow> Inl (MissingNode path hash)
           | Some f \<Rightarrow>
               (case f (rd_owner r) path hash of
                  Inl e \<Rightarrow> Inl (MissingNode path hash)
                | Inr blob \<Rightarrow> if length blob = 0 then Inl (MissingNode path hash) else Inr blob))"

definition resolveAndTrack ::
  "rlp_lib \<Rightarrow> trieReader \<Rightarrow> bytes \<Rightarrow> bytes \<Rightarrow> (tracer, node) est" where
  "resolveAndTrack R rd n prefix =
     (\<lambda>t. case nodeBlob rd prefix n of
            Inl e \<Rightarrow> (Inl e, t)
          | Inr blob \<Rightarrow> (mustDecodeNode R (Some n) blob, onRead prefix blob t))"

definition resolve :: "rlp_lib \<Rightarrow> trieReader \<Rightarrow> node \<Rightarrow> bytes \<Rightarrow> (tracer, node) est" where
  "resolve R rd n prefix =
     (case n of HashNode h \<Rightarrow> resolveAndTrack R rd h prefix | _ \<Rightarrow> returnS n)"

section \<open>Lookup\<close>

text \<open>The result is the value (\<open>None\<close> for the nil slice), the node with the resolved nodes in place,
  and whether something was resolved.\<close>

fun trie_get ::
  "rlp_lib \<Rightarrow> trieReader \<Rightarrow> nat \<Rightarrow> node \<Rightarrow> bytes \<Rightarrow> nat \<Rightarrow> (tracer, bytes option \<times> node \<times> bool) est"
where
  "trie_get R rd 0 n key pos = throwS OutOfFuel"
| "trie_get R rd (Suc fuel) NilNode key pos = returnS (None, NilNode, False)"
| "trie_get R rd (Suc fuel) (ValueNode v) key pos = returnS (Some v, ValueNode v, False)"
| "trie_get R rd (Suc fuel) (ShortNode k v fl) key pos =
     (if length key < pos + length k \<or> k \<noteq> take (length k) (drop pos key)
      then returnS (None, ShortNode k v fl, False)
      else bindS (trie_get R rd fuel v key (pos + length k)) (\<lambda>(val, nn, didResolve).
             returnS (val, if didResolve then ShortNode k nn fl else ShortNode k v fl, didResolve)))"
| "trie_get R rd (Suc fuel) (FullNode cs fl) key pos =
     (if pos < length key \<and> unat (key ! pos) < length cs
      then bindS (trie_get R rd fuel (cs ! unat (key ! pos)) key (pos + 1))
             (\<lambda>(val, nn, didResolve).
                returnS (val, if didResolve then FullNode (cs[unat (key ! pos) := nn]) fl
                              else FullNode cs fl, didResolve))
      else throwS Panic)"
| "trie_get R rd (Suc fuel) (HashNode h) key pos =
     bindS (resolveAndTrack R rd h (take pos key)) (\<lambda>child.
       bindS (trie_get R rd fuel child key pos) (\<lambda>(val, nn, _). returnS (val, nn, True)))"

text \<open>\<^verbatim>\<open>getNode\<close>: the blob stored at a path, read back by hash, with the number of nodes resolved (the
  count that the code returns next to an error is left out).\<close>

fun trie_getNode ::
  "rlp_lib \<Rightarrow> trieReader \<Rightarrow> nat \<Rightarrow> node \<Rightarrow> bytes \<Rightarrow> nat \<Rightarrow> (tracer, bytes option \<times> node \<times> nat) est"
where
  "trie_getNode R rd 0 n path pos = throwS OutOfFuel"
| "trie_getNode R rd (Suc fuel) n path pos =
     (if n = NilNode then returnS (None, NilNode, 0)
      else if length path \<le> pos then
        (case (case n of HashNode h \<Rightarrow> Some h | _ \<Rightarrow> fst (node_cache n)) of
           None \<Rightarrow> throwS (ErrMsg ''non-consensus node'')
         | Some hash \<Rightarrow>
             (case nodeBlob rd path hash of
                Inl e \<Rightarrow> throwS e
              | Inr blob \<Rightarrow> returnS (Some blob, n, 1)))
      else case n of
        ValueNode v \<Rightarrow> returnS (None, NilNode, 0)
      | ShortNode k v fl \<Rightarrow>
          if length path < pos + length k \<or> k \<noteq> take (length k) (drop pos path)
          then returnS (None, n, 0)
          else bindS (trie_getNode R rd fuel v path (pos + length k)) (\<lambda>(item, nn, resolved).
                 returnS (item, if 0 < resolved then ShortNode k nn fl else n, resolved))
      | FullNode cs fl \<Rightarrow>
          if unat (path ! pos) < length cs
          then bindS (trie_getNode R rd fuel (cs ! unat (path ! pos)) path (pos + 1))
                 (\<lambda>(item, nn, resolved).
                    returnS (item, if 0 < resolved then FullNode (cs[unat (path ! pos) := nn]) fl
                                   else n, resolved))
          else throwS Panic
      | HashNode h \<Rightarrow>
          bindS (resolveAndTrack R rd h (take pos path)) (\<lambda>child.
            bindS (trie_getNode R rd fuel child path pos) (\<lambda>(item, nn, resolved).
              returnS (item, nn, resolved + 1))))"

section \<open>Insertion\<close>

fun trie_insert ::
  "rlp_lib \<Rightarrow> trieReader \<Rightarrow> nat \<Rightarrow> node \<Rightarrow> bytes \<Rightarrow> bytes \<Rightarrow> node \<Rightarrow> (tracer, bool \<times> node) est"
where
  "trie_insert R rd 0 n prefix key val = throwS OutOfFuel"
| "trie_insert R rd (Suc fuel) n prefix key val =
     (if length key = 0 then
        (case n of
           ValueNode v \<Rightarrow>
             (case val of ValueNode v' \<Rightarrow> returnS (v \<noteq> v', val) | _ \<Rightarrow> throwS Panic)
         | _ \<Rightarrow> returnS (True, val))
      else case n of
        ShortNode k v fl \<Rightarrow>
          let matchlen = prefixLen key k in
          if matchlen = length k then
            bindS (trie_insert R rd fuel v (prefix @ take matchlen key) (drop matchlen key) val)
              (\<lambda>(dirty, nn).
                 if \<not> dirty then returnS (False, n)
                 else returnS (True, ShortNode k nn newFlag))
          else if matchlen < length key then
            (if unat (k ! matchlen) < 17 \<and> unat (key ! matchlen) < 17 then
               bindS (trie_insert R rd fuel NilNode (prefix @ take (matchlen + 1) k)
                        (drop (matchlen + 1) k) v) (\<lambda>(_, c1).
               bindS (trie_insert R rd fuel NilNode (prefix @ take (matchlen + 1) key)
                        (drop (matchlen + 1) key) val) (\<lambda>(_, c2).
                 let branch = FullNode ((replicate 17 NilNode)
                                [unat (k ! matchlen) := c1, unat (key ! matchlen) := c2]) newFlag
                 in if matchlen = 0 then returnS (True, branch)
                    else bindS (modifyS (onInsert (prefix @ take matchlen key))) (\<lambda>_.
                           returnS (True, ShortNode (take matchlen key) branch newFlag))))
             else throwS Panic)
          else throwS Panic
      | FullNode cs fl \<Rightarrow>
          if unat (key ! 0) < length cs then
            bindS (trie_insert R rd fuel (cs ! unat (key ! 0)) (prefix @ [key ! 0]) (drop 1 key) val)
              (\<lambda>(dirty, nn).
                 if \<not> dirty then returnS (False, n)
                 else returnS (True, FullNode (cs[unat (key ! 0) := nn]) newFlag))
          else throwS Panic
      | NilNode \<Rightarrow>
          bindS (modifyS (onInsert prefix)) (\<lambda>_. returnS (True, ShortNode key val newFlag))
      | HashNode h \<Rightarrow>
          bindS (resolveAndTrack R rd h prefix) (\<lambda>rn.
            bindS (trie_insert R rd fuel rn prefix key val) (\<lambda>(dirty, nn).
              if \<not> dirty then returnS (False, rn) else returnS (True, nn)))
      | ValueNode v \<Rightarrow> throwS Panic)"

section \<open>Deletion\<close>

text \<open>The loop that looks for the single child left: its index, or -1 when there is none and -2 when
  there are several.\<close>

fun singlePos :: "nat \<Rightarrow> int \<Rightarrow> node list \<Rightarrow> int" where
  "singlePos i pos [] = pos"
| "singlePos i pos (cld # clds) =
     (if cld \<noteq> NilNode then (if pos = -1 then singlePos (i + 1) (int i) clds else -2)
      else singlePos (i + 1) pos clds)"

definition reduceFull ::
  "rlp_lib \<Rightarrow> trieReader \<Rightarrow> bytes \<Rightarrow> node list \<Rightarrow> (tracer, bool \<times> node) est"
where
  "reduceFull R rd prefix cs =
     (let pos = singlePos 0 (-1) cs in
      if 0 \<le> pos then
        (let one = returnS (True, ShortNode [word_of_int pos] (cs ! nat pos) newFlag) in
         if pos \<noteq> 16 then
           bindS (resolve R rd (cs ! nat pos) (prefix @ [word_of_int pos])) (\<lambda>cnode.
             case cnode of
               ShortNode ck cv cfl \<Rightarrow>
                 bindS (modifyS (onDelete (prefix @ [word_of_int pos]))) (\<lambda>_.
                   returnS (True, ShortNode (word_of_int pos # ck) cv newFlag))
             | _ \<Rightarrow> one)
         else one)
      else returnS (True, FullNode cs newFlag))"

fun trie_delete ::
  "rlp_lib \<Rightarrow> trieReader \<Rightarrow> nat \<Rightarrow> node \<Rightarrow> bytes \<Rightarrow> bytes \<Rightarrow> (tracer, bool \<times> node) est"
where
  "trie_delete R rd 0 n prefix key = throwS OutOfFuel"
| "trie_delete R rd (Suc fuel) (ShortNode k v fl) prefix key =
     (let matchlen = prefixLen key k in
      if matchlen < length k then returnS (False, ShortNode k v fl)
      else if matchlen = length key then
        bindS (modifyS (onDelete prefix)) (\<lambda>_. returnS (True, NilNode))
      else
        bindS (trie_delete R rd fuel v (prefix @ take (length k) key) (drop (length k) key))
          (\<lambda>(dirty, child).
             if \<not> dirty then returnS (False, ShortNode k v fl)
             else case child of
               ShortNode ck cv cfl \<Rightarrow>
                 bindS (modifyS (onDelete (prefix @ k))) (\<lambda>_.
                   returnS (True, ShortNode (k @ ck) cv newFlag))
             | _ \<Rightarrow> returnS (True, ShortNode k child newFlag)))"
| "trie_delete R rd (Suc fuel) (FullNode cs fl) prefix key =
     (if 0 < length key \<and> unat (key ! 0) < length cs then
        bindS (trie_delete R rd fuel (cs ! unat (key ! 0)) (prefix @ [key ! 0]) (drop 1 key))
          (\<lambda>(dirty, nn).
             if \<not> dirty then returnS (False, FullNode cs fl)
             else let cs' = cs[unat (key ! 0) := nn] in
                  if nn \<noteq> NilNode then returnS (True, FullNode cs' newFlag)
                  else reduceFull R rd prefix cs')
      else throwS Panic)"
| "trie_delete R rd (Suc fuel) (ValueNode v) prefix key = returnS (True, NilNode)"
| "trie_delete R rd (Suc fuel) NilNode prefix key = returnS (False, NilNode)"
| "trie_delete R rd (Suc fuel) (HashNode h) prefix key =
     bindS (resolveAndTrack R rd h prefix) (\<lambda>rn.
       bindS (trie_delete R rd fuel rn prefix key) (\<lambda>(dirty, nn).
         if \<not> dirty then returnS (False, rn) else returnS (True, nn)))"

section \<open>The trie\<close>

record Trie =
  root :: node
  owner :: bytes
  unhashed :: nat
  reader :: trieReader
  tr_tracer :: tracer

definition trie_fuel :: "bytes \<Rightarrow> nat" where
  "trie_fuel hex = 2 * length hex + 2"

definition Get :: "rlp_lib \<Rightarrow> Trie \<Rightarrow> bytes \<Rightarrow> bytes option res \<times> Trie" where
  "Get R t key =
     (let k = keybytesToHex key in
      case trie_get R (reader t) (trie_fuel k) (root t) k 0 (tr_tracer t) of
        (Inl e, tr) \<Rightarrow> (Inl e, t\<lparr>tr_tracer := tr\<rparr>)
      | (Inr (val, newroot, didResolve), tr) \<Rightarrow>
          (Inr val, t\<lparr>tr_tracer := tr, root := if didResolve then newroot else root t\<rparr>))"

definition MustGet :: "rlp_lib \<Rightarrow> Trie \<Rightarrow> bytes \<Rightarrow> bytes option \<times> Trie" where
  "MustGet R t key =
     (case Get R t key of (Inl e, t') \<Rightarrow> (None, t') | (Inr v, t') \<Rightarrow> (v, t'))"

definition GetNode :: "rlp_lib \<Rightarrow> Trie \<Rightarrow> bytes \<Rightarrow> (bytes option \<times> nat) res \<times> Trie" where
  "GetNode R t path =
     (let p = compactToHex path in
      case trie_getNode R (reader t) (trie_fuel p) (root t) p 0 (tr_tracer t) of
        (Inl e, tr) \<Rightarrow> (Inl e, t\<lparr>tr_tracer := tr\<rparr>)
      | (Inr (item, newroot, resolved), tr) \<Rightarrow>
          (Inr (item, resolved),
           t\<lparr>tr_tracer := tr, root := if 0 < resolved then newroot else root t\<rparr>))"

definition Delete :: "rlp_lib \<Rightarrow> Trie \<Rightarrow> bytes \<Rightarrow> unit res \<times> Trie" where
  "Delete R t key =
     (let k = keybytesToHex key;
          t1 = t\<lparr>unhashed := unhashed t + 1\<rparr> in
      case trie_delete R (reader t) (trie_fuel k) (root t) [] k (tr_tracer t) of
        (Inl e, tr) \<Rightarrow> (Inl e, t1\<lparr>tr_tracer := tr\<rparr>)
      | (Inr (_, n), tr) \<Rightarrow> (Inr (), t1\<lparr>tr_tracer := tr, root := n\<rparr>))"

definition Update :: "rlp_lib \<Rightarrow> Trie \<Rightarrow> bytes \<Rightarrow> bytes \<Rightarrow> unit res \<times> Trie" where
  "Update R t key val =
     (let k = keybytesToHex key;
          t1 = t\<lparr>unhashed := unhashed t + 1\<rparr> in
      case (if length val \<noteq> 0
            then trie_insert R (reader t) (trie_fuel k) (root t) [] k (ValueNode val) (tr_tracer t)
            else trie_delete R (reader t) (trie_fuel k) (root t) [] k (tr_tracer t)) of
        (Inl e, tr) \<Rightarrow> (Inl e, t1\<lparr>tr_tracer := tr\<rparr>)
      | (Inr (_, n), tr) \<Rightarrow> (Inr (), t1\<lparr>tr_tracer := tr, root := n\<rparr>))"

text \<open>\<^verbatim>\<open>New\<close> with a reader already found: \<^verbatim>\<open>emptyRoot\<close> stands for \<^verbatim>\<open>types.EmptyRootHash\<close> of
  go-ethereum.\<close>

definition trie_New :: "rlp_lib \<Rightarrow> bytes \<Rightarrow> bytes \<Rightarrow> trieReader \<Rightarrow> Trie res" where
  "trie_New R emptyRoot rootHash rd =
     (let t = \<lparr>root = NilNode, owner = rd_owner rd, unhashed = 0, reader = rd,
               tr_tracer = newTracer\<rparr> in
      if rootHash \<noteq> replicate 32 0 \<and> rootHash \<noteq> emptyRoot then
        (case resolveAndTrack R rd rootHash [] newTracer of
           (Inl e, tr) \<Rightarrow> Inl e
         | (Inr n, tr) \<Rightarrow> Inr (t\<lparr>root := n, tr_tracer := tr\<rparr>))
      else Inr t)"

definition trie_Reset :: "Trie \<Rightarrow> Trie" where
  "trie_Reset t = t\<lparr>root := NilNode, owner := replicate 32 0, unhashed := 0,
                    tr_tracer := tracer_reset (tr_tracer t)\<rparr>"

end
