(* ===== verification/Trie_Spec.thy ===== *)
theory Trie_Spec
  imports Hex_Encoding
begin

text \<open>
  The abstract Patricia trie: a tree with no hash nodes, no flags and no store, on which lookup,
  insertion and deletion are plain recursions. It is the reference the operations of
  \<^verbatim>\<open>src/trie/trie.go\<close> are proved to refine, and what the root hash is a function of.

  \<open>pwf\<close> is the canonical shape: a leaf key ends in the terminator, an extension leads to a branch, a
  branch has 17 slots of which at least two are used. \<open>pget_ext\<close> shows that two canonical tries with
  the same contents are equal.
\<close>

datatype ptrie = PNil | PVal bytes | PShort bytes ptrie | PFull "ptrie list"

lemma size_nth_less [termination_simp]: "i < length ps \<Longrightarrow> size (ps ! i) < Suc (size_list size ps)"
  by (metis less_Suc_eq_le nth_mem order_refl size_list_estimation')

fun pget :: "ptrie \<Rightarrow> bytes \<Rightarrow> bytes option" where
  "pget PNil k = None"
| "pget (PVal v) k = (if k = [] then Some v else None)"
| "pget (PShort s p) k = (if take (length s) k = s then pget p (drop (length s) k) else None)"
| "pget (PFull ps) [] = None"
| "pget (PFull ps) (b # k) = (if unat b < length ps then pget (ps ! unat b) k else None)"

text \<open>A node that carries \<open>q\<close> below the key \<open>k\<close>.\<close>

definition pshort :: "bytes \<Rightarrow> ptrie \<Rightarrow> ptrie" where
  "pshort k q = (if k = [] then q else PShort k q)"

definition pbranch :: "byte \<Rightarrow> ptrie \<Rightarrow> byte \<Rightarrow> ptrie \<Rightarrow> ptrie" where
  "pbranch a p b q = PFull ((replicate 17 PNil)[unat a := p, unat b := q])"

fun pinsert :: "ptrie \<Rightarrow> bytes \<Rightarrow> ptrie \<Rightarrow> ptrie" where
  "pinsert p [] q = q"
| "pinsert PNil (b # k) q = PShort (b # k) q"
| "pinsert (PVal v) (b # k) q = PVal v"
| "pinsert (PShort s p) (b # k) q =
     (let key = b # k; m = prefixLen key s in
      if m = length s then PShort s (pinsert p (drop m key) q)
      else pshort (take m key)
             (pbranch (s ! m) (pshort (drop (m + 1) s) p) (key ! m) (pshort (drop (m + 1) key) q)))"
| "pinsert (PFull ps) (b # k) q =
     (if unat b < length ps then PFull (ps[unat b := pinsert (ps ! unat b) k q]) else PFull ps)"

text \<open>Put a nibble path in front of a trie, merging short nodes.\<close>

fun pjoin :: "bytes \<Rightarrow> ptrie \<Rightarrow> ptrie" where
  "pjoin s (PShort s' p) = PShort (s @ s') p"
| "pjoin s p = PShort s p"

definition pused :: "ptrie list \<Rightarrow> nat list" where
  "pused ps = filter (\<lambda>i. ps ! i \<noteq> PNil) [0..<length ps]"

definition preduce :: "ptrie list \<Rightarrow> ptrie" where
  "preduce ps = (case pused ps of [i] \<Rightarrow> pjoin [word_of_nat i] (ps ! i) | _ \<Rightarrow> PFull ps)"

fun pdelete :: "ptrie \<Rightarrow> bytes \<Rightarrow> ptrie" where
  "pdelete PNil k = PNil"
| "pdelete (PVal v) k = PNil"
| "pdelete (PShort s p) k =
     (let m = prefixLen k s in
      if m < length s then PShort s p
      else if m = length k then PNil
      else pjoin s (pdelete p (drop (length s) k)))"
| "pdelete (PFull ps) [] = PFull ps"
| "pdelete (PFull ps) (b # k) =
     (if unat b < length ps then preduce (ps[unat b := pdelete (ps ! unat b) k]) else PFull ps)"

section \<open>Canonical shape\<close>

inductive pwf :: "ptrie \<Rightarrow> bool" where
  pwf_leaf: "hexkey k \<Longrightarrow> v \<noteq> [] \<Longrightarrow> pwf (PShort k (PVal v))"
| pwf_ext: "nibs k \<Longrightarrow> k \<noteq> [] \<Longrightarrow> pwf (PFull ps) \<Longrightarrow> pwf (PShort k (PFull ps))"
| pwf_full: "length ps = 17 \<Longrightarrow> \<forall>i<16. ps ! i = PNil \<or> pwf (ps ! i) \<Longrightarrow>
     ps ! 16 = PNil \<or> (\<exists>v. v \<noteq> [] \<and> ps ! 16 = PVal v) \<Longrightarrow> 2 \<le> length (pused ps) \<Longrightarrow> pwf (PFull ps)"

inductive_cases pwf_FullE: "pwf (PFull ps)"
inductive_cases pwf_ShortE: "pwf (PShort k p)"
inductive_simps pwf_simps [simp]: "pwf PNil" "pwf (PVal v)"
inductive_simps pwf_short_iff: "pwf (PShort k p)"

text \<open>\<open>pok p k\<close>: the subtrie \<open>p\<close> may be reached with the key suffix \<open>k\<close> left.\<close>

definition pok :: "ptrie \<Rightarrow> bytes \<Rightarrow> bool" where
  "pok p k \<longleftrightarrow> (if k = [] then p = PNil \<or> (\<exists>v. v \<noteq> [] \<and> p = PVal v) else hexkey k \<and> (p = PNil \<or> pwf p))"

lemma byte_index_hex:
  "hexkey (b # k) \<Longrightarrow> k = [] \<and> b = 16 \<and> unat b = 16 \<or> k \<noteq> [] \<and> unat b < 16 \<and> hexkey k"
  by (auto simp: hexkey_Cons word_less_nat_alt split: if_splits)

lemma pok_full:
  assumes "pwf (PFull ps)" "hexkey (b # k)"
  shows "unat b < length ps" "pok (ps ! unat b) k"
  using assms(1) byte_index_hex [OF assms(2)] by (auto elim!: pwf_FullE simp: pok_def)

lemma pok_short:
  assumes "pwf (PShort s p)" "hexkey k" "take (length s) k = s"
  shows "pok p (drop (length s) k)" "s \<noteq> []"
proof -
  have k: "k = s @ drop (length s) k" by (metis append_take_drop_id assms(3))
  have "hexkey s \<Longrightarrow> drop (length s) k = []"
    using assms(2) hexkey_prefix_free k by metis
  moreover have "nibs s \<Longrightarrow> drop (length s) k \<noteq> [] \<and> hexkey (drop (length s) k)"
    using assms(2) k by (metis append_Nil2 hexkey_append hexkey_hasTerm nibs_not_hasTerm)
  ultimately show "pok p (drop (length s) k)" "s \<noteq> []"
    using assms(1) by (auto elim!: pwf_ShortE simp: pok_def)
qed

section \<open>Used slots of a branch\<close>

lemma set_pused: "set (pused ps) = {i. i < length ps \<and> ps ! i \<noteq> PNil}"
  by (auto simp: pused_def)

lemma distinct_pused: "distinct (pused ps)"
  by (simp add: pused_def)

lemma pused2_iff:
  "2 \<le> length (pused ps) \<longleftrightarrow>
     (\<exists>i j. i \<noteq> j \<and> i < length ps \<and> j < length ps \<and> ps ! i \<noteq> PNil \<and> ps ! j \<noteq> PNil)"
proof
  assume "2 \<le> length (pused ps)"
  then obtain i j zs where "pused ps = i # j # zs"
    by (metis Suc_le_length_iff numeral_2_eq_2)
  then show "\<exists>i j. i \<noteq> j \<and> i < length ps \<and> j < length ps \<and> ps ! i \<noteq> PNil \<and> ps ! j \<noteq> PNil"
    using set_pused [of ps] distinct_pused [of ps] by auto
next
  assume "\<exists>i j. i \<noteq> j \<and> i < length ps \<and> j < length ps \<and> ps ! i \<noteq> PNil \<and> ps ! j \<noteq> PNil"
  then obtain i j where "i \<noteq> j" and s: "{i, j} \<subseteq> set (pused ps)" by (auto simp: set_pused)
  then have "card {i, j} \<le> length (pused ps)"
    by (metis List.finite_set card_mono distinct_card distinct_pused)
  with \<open>i \<noteq> j\<close> show "2 \<le> length (pused ps)" by simp
qed

lemma pused2_I:
  "i \<noteq> j \<Longrightarrow> i < length ps \<Longrightarrow> j < length ps \<Longrightarrow> ps ! i \<noteq> PNil \<Longrightarrow> ps ! j \<noteq> PNil \<Longrightarrow>
     2 \<le> length (pused ps)"
  unfolding pused2_iff by blast

text \<open>What slot \<open>i\<close> of a branch may hold when it is used.\<close>

definition pslot :: "nat \<Rightarrow> ptrie \<Rightarrow> bool" where
  "pslot i q \<longleftrightarrow> (if i = 16 then \<exists>v. v \<noteq> [] \<and> q = PVal v else i < 16 \<and> pwf q)"

lemma pslot_not_Nil: "pslot i q \<Longrightarrow> q \<noteq> PNil" and pslot_bound: "pslot i q \<Longrightarrow> i < 17"
  by (auto simp: pslot_def split: if_splits)

lemma pwf_full_iff:
  "pwf (PFull ps) \<longleftrightarrow>
     length ps = 17 \<and> (\<forall>i<17. ps ! i = PNil \<or> pslot i (ps ! i)) \<and> 2 \<le> length (pused ps)"
  (is "_ \<longleftrightarrow> ?L \<and> ?S \<and> ?U")
proof
  assume "pwf (PFull ps)"
  then show "?L \<and> ?S \<and> ?U"
    by (rule pwf_FullE) (auto simp: pslot_def less_Suc_eq numeral_eq_Suc)
next
  assume *: "?L \<and> ?S \<and> ?U"
  then have "ps ! i = PNil \<or> pwf (ps ! i)" if "i < 16" for i
    using that by (auto simp: pslot_def dest: spec [of _ i])
  moreover have "ps ! 16 = PNil \<or> (\<exists>v. v \<noteq> [] \<and> ps ! 16 = PVal v)"
    using * by (auto simp: pslot_def dest: spec [of _ 16])
  ultimately show "pwf (PFull ps)" using * by (simp add: pwf_full)
qed

lemma pwf_pbranch:
  assumes "pslot (unat a) p" "pslot (unat b) q" "a \<noteq> b"
  shows "pwf (pbranch a p b q)"
proof -
  have ab: "unat a \<noteq> unat b" "unat a < 17" "unat b < 17"
    using assms by (auto dest: pslot_bound simp: word_unat_eq_iff)
  then have "2 \<le> length (pused ((replicate 17 PNil)[unat a := p, unat b := q]))"
    using pslot_not_Nil [OF assms(1)] pslot_not_Nil [OF assms(2)]
    by (intro pused2_I [of "unat a" "unat b"]) auto
  then show ?thesis
    using ab assms by (auto simp: pbranch_def pwf_full_iff nth_list_update)
qed

lemma pslot_suffix:
  assumes "pwf (PShort s p)" "m < length s"
  shows "pslot (unat (s ! m)) (pshort (drop (m + 1) s) p)"
proof -
  define u b r where "u = take m s" and "b = s ! m" and "r = drop (m + 1) s"
  have s: "s = u @ b # r" using assms(2) by (simp add: u_def b_def r_def id_take_nth_drop)
  have h: "hexkey s \<longleftrightarrow> nibs u \<and> hexkey (b # r)" by (simp add: s hexkey_append)
  have n: "nibs s \<Longrightarrow> nibs r \<and> unat b < 16" by (auto simp: s word_less_nat_alt)
  show ?thesis
    unfolding b_def [symmetric] r_def [symmetric]
    using assms(1) h n
    by (auto dest!: byte_index_hex simp: pwf_short_iff pslot_def pshort_def intro: pwf_leaf pwf_ext)
qed

section \<open>Insertion\<close>

lemma hexkey_appendI: "nibs p \<Longrightarrow> hexkey k \<Longrightarrow> hexkey (p @ k)"
  by (cases "k = []") (simp_all add: hexkey_append)

lemma hexkey_not_nibs: "hexkey k \<Longrightarrow> \<not> nibs k"
  using hexkey_hasTerm nibs_not_hasTerm by blast

lemma prefixLen_self [simp]: "prefixLen s s = length s"
  using prefixLen_same [of s "[]"] by simp

text \<open>How a key meets a short node: it leaves the node's key at some nibble, ends with a leaf key, or
  runs through an extension.\<close>

lemma short_cases:
  assumes w: "pwf (PShort s p)" and h: "hexkey k"
  obtains
    (differ) u a t b r where "s = u @ a # t" "k = u @ b # r" "a \<noteq> b" "nibs u" "hexkey (b # r)"
      "prefixLen k s = length u"
  | (leaf) v where "k = s" "p = PVal v" "v \<noteq> []" "hexkey s" "prefixLen k s = length s"
  | (ext) ps r where "k = s @ r" "hexkey r" "p = PFull ps" "pwf (PFull ps)" "nibs s" "s \<noteq> []"
      "prefixLen k s = length s"
proof -
  obtain u rk rs where u: "k = u @ rk" "s = u @ rs" "prefixLen k s = length u"
    "rk \<noteq> [] \<Longrightarrow> rs \<noteq> [] \<Longrightarrow> hd rk \<noteq> hd rs"
    using prefixLen_split [of k s] by blast
  from w consider v where "hexkey s" "p = PVal v" "v \<noteq> []"
    | ps where "nibs s" "s \<noteq> []" "p = PFull ps" "pwf (PFull ps)"
    by (auto simp: pwf_short_iff)
  note C = this
  have rk: "rk = [] \<Longrightarrow> rs = []"
    by (rule C) (use h u hexkey_prefix_free nibs_not_hasTerm hexkey_hasTerm in \<open>auto\<close>)
  show thesis
  proof (cases rs)
    case (Cons a t)
    with rk obtain b r where "rk = b # r" by (cases rk) auto
    with Cons u h show thesis by (intro differ [of u a t b r]) (auto simp: hexkey_append)
  next
    case Nil
    show thesis
    proof (rule C)
      fix v assume "hexkey s" "p = PVal v" "v \<noteq> []"
      then show thesis using Nil u h hexkey_prefix_free [of s rk] by (intro leaf) auto
    next
      fix ps assume *: "nibs s" "s \<noteq> []" "p = PFull ps" "pwf (PFull ps)"
      then have "rk \<noteq> []" using Nil u h hexkey_not_nibs by auto
      then show thesis using * Nil u h by (intro ext [of rk]) (auto simp: hexkey_append)
    qed
  qed
qed

lemma pinsert_PShort:
  "k \<noteq> [] \<Longrightarrow> pinsert (PShort s p) k q =
     (let m = prefixLen k s in
      if m = length s then PShort s (pinsert p (drop m k) q)
      else pshort (take m k)
             (pbranch (s ! m) (pshort (drop (m + 1) s) p) (k ! m) (pshort (drop (m + 1) k) q)))"
  by (cases k) (simp_all only: pinsert.simps Let_def, simp)

lemma pinsert_differ:
  assumes "s = u @ a # t" "k = u @ b # r" "a \<noteq> b" "prefixLen k s = length u"
  shows "pinsert (PShort s p) k q = pshort u (pbranch a (pshort t p) b (pshort r q))"
  using assms(4) unfolding assms(1,2) by (simp add: pinsert_PShort Let_def nth_append)

lemma pinsert_short:
  assumes "prefixLen (s @ r) s = length s" "s \<noteq> []"
  shows "pinsert (PShort s p) (s @ r) q = PShort s (pinsert p r q)"
  using assms by (simp add: pinsert_PShort Let_def)

lemma pinsert_leaf: "hexkey s \<Longrightarrow> pinsert (PShort s (PVal u)) s q = PShort s q"
  using pinsert_short [of s "[]" "PVal u" q] by (cases "s = []") simp_all

lemma pinsert_full:
  "unat b < length ps \<Longrightarrow> pinsert (PFull ps) (b # k) q = PFull (ps[unat b := pinsert (ps ! unat b) k q])"
  by simp

lemma pwf_pshort: "nibs u \<Longrightarrow> pwf (PFull ps) \<Longrightarrow> pwf (pshort u (PFull ps))"
  by (simp add: pshort_def pwf_ext)

lemma pwf_pshort_branch:
  "nibs u \<Longrightarrow> pwf (pbranch a p b q) \<Longrightarrow> pwf (pshort u (pbranch a p b q))"
  by (simp add: pbranch_def pwf_pshort)

lemma pslot_leaf: "hexkey (b # r) \<Longrightarrow> v \<noteq> [] \<Longrightarrow> pslot (unat b) (pshort r (PVal v))"
  using pslot_suffix [of "b # r" "PVal v" 0] by (simp add: pwf_leaf)

lemma pinsert_shape: "pinsert (PFull ps) (b # k) q = PFull (ps[unat b := pinsert (ps ! unat b) k q]) \<or>
   pinsert (PFull ps) (b # k) q = PFull ps"
  by simp

lemma pwf_update:
  assumes "pwf (PFull ps)" "i < 17" "pslot i q"
  shows "pwf (PFull (ps[i := q]))"
proof -
  obtain j j' where "j \<noteq> j'" "j < 17" "j' < 17" "ps ! j \<noteq> PNil" "ps ! j' \<noteq> PNil"
    using assms(1) by (auto simp: pwf_full_iff pused2_iff)
  then have "2 \<le> length (pused (ps[i := q]))"
    using assms pslot_not_Nil [OF assms(3)]
    by (intro pused2_I [of j j']) (auto simp: pwf_full_iff nth_list_update)
  then show ?thesis
    using assms by (auto simp: pwf_full_iff nth_list_update)
qed

lemma pinsert_pok:
  assumes "pok p k" "v \<noteq> []"
  shows "if k = [] then pinsert p k (PVal v) = PVal v else pwf (pinsert p k (PVal v))"
  using assms
proof (induction p arbitrary: k)
  case (PShort s p)
  then have w: "pwf (PShort s p)" and h: "hexkey k" and k: "k \<noteq> []"
    by (auto simp: pok_def split: if_splits)
  from w h have "pwf (pinsert (PShort s p) k (PVal v))"
  proof (cases rule: short_cases)
    case (differ u a t b r)
    have "pslot (unat a) (pshort t p)"
      using pslot_suffix [OF w, of "length u"] differ by (simp add: nth_append)
    then have "pwf (pbranch a (pshort t p) b (pshort r (PVal v)))"
      using differ PShort.prems by (intro pwf_pbranch pslot_leaf) auto
    then show ?thesis
      using differ(4) by (simp add: pinsert_differ [OF differ(1-3,6)] pwf_pshort_branch)
  next
    case (leaf u)
    then show ?thesis using PShort.prems by (simp add: pinsert_leaf pwf_leaf)
  next
    case (ext ps r)
    then have r: "r \<noteq> []" "pok p r" by (auto simp: pok_def)
    then obtain b r' where b: "r = b # r'" by (cases r) auto
    show ?thesis
      using ext r PShort.IH [OF r(2) PShort.prems(2)] pinsert_shape [of ps b r' "PVal v"]
      by (auto simp: pinsert_short b intro!: pwf_ext)
  qed
  with k show ?case by simp
next
  case (PFull ps)
  then obtain b r where k: "k = b # r" "hexkey (b # r)" and w: "pwf (PFull ps)"
    by (cases k) (auto simp: pok_def)
  note o = pok_full [OF w k(2)]
  have "pslot (unat b) (pinsert (ps ! unat b) r (PVal v))"
    using PFull.IH [OF nth_mem [OF o(1)] o(2) PFull.prems(2)] byte_index_hex [OF k(2)] PFull.prems
    by (auto simp: pslot_def)
  then show ?case
    using w o pwf_update by (auto simp: k pwf_full_iff)
next
  case PNil
  then show ?case by (cases k) (auto simp: pok_def intro: pwf_leaf)
qed (auto simp: pok_def)

lemma pget_pshort:
  "pget (pshort s p) k = (if take (length s) k = s then pget p (drop (length s) k) else None)"
  by (simp add: pshort_def)

lemma pget_pbranch:
  assumes "a \<noteq> b" "unat a < 17" "unat b < 17"
  shows "pget (pbranch a p b q) (c # k) =
           (if c = b then pget q k else if c = a then pget p k else None)"
  using assms by (auto simp: pbranch_def nth_list_update word_unat_eq_iff [symmetric])

lemma pget_pbranch_Nil [simp]: "pget (pbranch a p b q) [] = None"
  by (simp add: pbranch_def)

lemma take_length_eq: "take (length s) k = s \<longleftrightarrow> (\<exists>r. k = s @ r)"
  by (metis append_eq_conv_conj)

lemma pget_PShort_append [simp]: "pget (PShort s p) (s @ r) = pget p r"
  by simp

lemma pget_PShort_None: "(\<And>r. k \<noteq> s @ r) \<Longrightarrow> pget (PShort s p) k = None"
  by (auto simp: take_length_eq)

lemma pget_leaf: "pget (PShort k (PVal v)) k' = (if k' = k then Some v else None)"
  by (auto simp: take_length_eq)

lemma pget_pinsert:
  assumes "pok p k" "pok p k'" "k = [] \<longleftrightarrow> k' = []"
  shows "pget (pinsert p k (PVal v)) k' = (if k' = k then Some v else pget p k')"
  using assms
proof (induction p arbitrary: k k')
  case PNil
  then show ?case by (cases k) (auto simp: pget_leaf simp del: pget.simps(3))
next
  case (PVal u)
  then show ?case by (cases "k = []") (auto simp: pok_def)
next
  case (PShort s p)
  then have w: "pwf (PShort s p)" and h: "hexkey k" and h': "hexkey k'"
    by (auto simp: pok_def split: if_splits)
  from w h show ?case
  proof (cases rule: short_cases)
    case (differ u a t b r)
    have bnd: "unat a < 17" "unat b < 17"
      using pslot_bound [OF pslot_suffix [OF w, of "length u"]] differ byte_index_hex [of b r]
      by (auto simp: nth_append)
    show ?thesis
    proof (cases "\<exists>c r'. k' = u @ c # r'")
      case True
      then obtain c r' where k': "k' = u @ c # r'" by auto
      show ?thesis
        unfolding pinsert_differ [OF differ(1-3,6)]
        using differ bnd by (auto simp: pget_pshort pget_pbranch k' take_length_eq)
    next
      case False
      then have "drop (length u) k' = [] \<or> take (length u) k' \<noteq> u"
        by (metis append_take_drop_id neq_Nil_conv)
      moreover have "pget (PShort s p) k' = None"
        using False differ by (intro pget_PShort_None) auto
      ultimately show ?thesis
        unfolding pinsert_differ [OF differ(1-3,6)]
        using differ False by (auto simp: pget_pshort)
    qed
  next
    case (leaf u)
    then show ?thesis by (simp add: pinsert_leaf pget_leaf del: pget.simps(3))
  next
    case (ext ps r)
    show ?thesis
    proof (cases "\<exists>r'. k' = s @ r'")
      case True
      then obtain r' where k': "k' = s @ r'" by auto
      have "pok p r'" "r' \<noteq> []"
        using pok_short(1) [OF w h'] ext by (auto simp: k' pok_def split: if_splits)
      then show ?thesis
        using PShort.IH [of r r'] ext
        by (cases "r = []") (auto simp: pinsert_short k' pok_def)
    next
      case False
      then show ?thesis using ext by (auto simp: pinsert_short take_length_eq)
    qed
  qed
next
  case (PFull ps)
  then obtain b r b' r' where k: "k = b # r" "hexkey (b # r)" "k' = b' # r'" "hexkey (b' # r')"
    and w: "pwf (PFull ps)"
    by (cases k; cases k') (auto simp: pok_def)
  note o = pok_full [OF w k(2)] and o' = pok_full [OF w k(4)]
  show ?case
    using PFull.IH [OF nth_mem [OF o(1)] o(2), of r'] o o' k byte_index_hex [OF k(2)] byte_index_hex [OF k(4)]
    by (cases "b = b'") (auto simp: nth_list_update word_unat_eq_iff)
qed

section \<open>Deletion\<close>

lemma pget_pjoin: "pget (pjoin s q) k = pget (PShort s q) k"
proof (cases q)
  case (PShort s' p)
  show ?thesis
  proof (cases "\<exists>r. k = s @ r")
    case True
    then show ?thesis using PShort by (auto simp: take_length_eq)
  next
    case False
    then show ?thesis
      using PShort by (auto simp: pget_PShort_None simp del: pget.simps intro!: pget_PShort_None)
  qed
qed auto

lemma pwf_pjoin: "nibs s \<Longrightarrow> s \<noteq> [] \<Longrightarrow> pwf q \<Longrightarrow> pwf (pjoin s q)"
  by (cases q) (auto simp: pwf_short_iff intro: pwf_ext hexkey_appendI)

lemma pjoin_not_Nil [simp]: "pjoin s q \<noteq> PNil"
  by (cases q) auto

lemma pwf_pjoin_slot:
  assumes q: "pslot i q"
  shows "pwf (pjoin [word_of_nat i] q)"
proof (cases "i = 16")
  case True
  with q show ?thesis by (auto simp: pslot_def intro!: pwf_leaf) (simp add: hexkey_def)
next
  case False
  with q show ?thesis by (auto simp: pslot_def word_less_nat_alt intro!: pwf_pjoin)
qed

lemma pwf_preduce:
  assumes "length ps = 17" "\<forall>i<17. ps ! i = PNil \<or> pslot i (ps ! i)" "pused ps \<noteq> []"
  shows "pwf (preduce ps)"
proof (cases "pused ps" rule: remdups_adj.cases)
  case (2 i)
  then have "i < 17" "ps ! i \<noteq> PNil" using set_pused [of ps] assms(1) by auto
  then show ?thesis using assms(2) by (auto simp: preduce_def 2 intro: pwf_pjoin_slot)
next
  case (3 i j zs)
  then show ?thesis using assms by (simp add: preduce_def pwf_full_iff)
qed (use assms in simp)

lemma pget_preduce:
  assumes "length ps = 17"
  shows "pget (preduce ps) k = pget (PFull ps) k"
proof (cases "pused ps" rule: remdups_adj.cases)
  case (2 i)
  have i: "i < 17" "\<And>j. j < 17 \<Longrightarrow> j \<noteq> i \<Longrightarrow> ps ! j = PNil"
    using set_pused [of ps] assms by (auto simp: 2)
  have w: "word_of_nat i = (b :: byte) \<longleftrightarrow> unat b = i" for b
    using i(1) by auto
  show ?thesis
  proof (cases k)
    case (Cons b r)
    then show ?thesis
      using i assms w [of b] by (cases "unat b = i") (auto simp: preduce_def 2 pget_pjoin)
  qed (simp add: preduce_def 2 pget_pjoin)
qed (simp_all add: preduce_def)

lemma pused_nonempty: "i < length ps \<Longrightarrow> ps ! i \<noteq> PNil \<Longrightarrow> pused ps \<noteq> []"
  using set_pused [of ps] by fastforce

lemma pused_update:
  assumes "pwf (PFull ps)"
  shows "pused (ps[i := q]) \<noteq> []"
proof -
  obtain j j' where "j \<noteq> j'" "j < length ps" "j' < length ps" "ps ! j \<noteq> PNil" "ps ! j' \<noteq> PNil"
    using assms by (auto simp: pwf_full_iff pused2_iff)
  then show ?thesis
    using pused_nonempty [of j "ps[i := q]"] pused_nonempty [of j' "ps[i := q]"]
    by (cases "i = j") auto
qed

lemma pdelete_pok:
  assumes "pok p k"
  shows "if k = [] then pdelete p k = PNil
         else (pdelete p k = PNil \<or> pwf (pdelete p k)) \<and> (\<forall>ps. p = PFull ps \<longrightarrow> pwf (pdelete p k))"
  using assms
proof (induction p arbitrary: k)
  case (PShort s p)
  then have w: "pwf (PShort s p)" and h: "hexkey k" and k: "k \<noteq> []"
    by (auto simp: pok_def split: if_splits)
  from w h have "pdelete (PShort s p) k = PNil \<or> pwf (pdelete (PShort s p) k)"
  proof (cases rule: short_cases)
    case (differ u a t b r)
    then show ?thesis using w by (simp add: Let_def)
  next
    case (leaf u)
    then show ?thesis by (simp add: Let_def)
  next
    case (ext ps r)
    then have r: "r \<noteq> []" "pok p r" by (auto simp: pok_def)
    then show ?thesis using ext PShort.IH [OF r(2)] by (auto simp: Let_def intro: pwf_pjoin)
  qed
  with k show ?case by simp
next
  case (PFull ps)
  then obtain b r where k: "k = b # r" "hexkey (b # r)" and w: "pwf (PFull ps)"
    by (cases k) (auto simp: pok_def)
  note o = pok_full [OF w k(2)]
  have "ps[unat b := q] ! i = PNil \<or> pslot i (ps[unat b := q] ! i)"
    if "q = pdelete (ps ! unat b) r" "i < 17" for i q
    using PFull.IH [OF nth_mem [OF o(1)] o(2)] byte_index_hex [OF k(2)] that w
    by (auto simp: pslot_def pwf_full_iff nth_list_update split: if_splits)
  then have "pwf (pdelete (PFull ps) k)"
    using w o by (auto simp: k pwf_full_iff intro!: pwf_preduce pused_update [OF w])
  then show ?case by (simp add: k)
qed (auto simp: pok_def)

lemma pget_pdelete:
  assumes "pok p k" "pok p k'" "k = [] \<longleftrightarrow> k' = []"
  shows "pget (pdelete p k) k' = (if k' = k then None else pget p k')"
  using assms
proof (induction p arbitrary: k k')
  case (PVal u)
  then show ?case by (cases "k = []") (auto simp: pok_def)
next
  case (PShort s p)
  then have w: "pwf (PShort s p)" and h: "hexkey k" and h': "hexkey k'"
    by (auto simp: pok_def split: if_splits)
  from w h show ?case
  proof (cases rule: short_cases)
    case (differ u a t b r)
    have "pget (PShort s p) k = None" using differ by (intro pget_PShort_None) auto
    then show ?thesis using differ by (auto simp: Let_def)
  next
    case (leaf u)
    then show ?thesis by (auto simp: Let_def pget_leaf simp del: pget.simps(3))
  next
    case (ext ps r)
    have d: "pdelete (PShort s p) k = pjoin s (pdelete p r)"
      using ext by (cases "r = []") (auto simp: Let_def)
    show ?thesis
    proof (cases "\<exists>r'. k' = s @ r'")
      case True
      then obtain r' where k': "k' = s @ r'" by auto
      have "pok p r'" "r' \<noteq> []"
        using pok_short(1) [OF w h'] ext by (auto simp: k' pok_def split: if_splits)
      then show ?thesis
        using PShort.IH [of r r'] ext by (cases "r = []") (auto simp: d pget_pjoin k' pok_def)
    next
      case False
      then show ?thesis
        using ext by (auto simp: d pget_pjoin pget_PShort_None simp del: pget.simps(3))
    qed
  qed
next
  case (PFull ps)
  then obtain b r b' r' where k: "k = b # r" "hexkey (b # r)" "k' = b' # r'" "hexkey (b' # r')"
    and w: "pwf (PFull ps)"
    by (cases k; cases k') (auto simp: pok_def)
  note o = pok_full [OF w k(2)] and o' = pok_full [OF w k(4)]
  have "length ps = 17" using w by (simp add: pwf_full_iff)
  then show ?case
    using PFull.IH [OF nth_mem [OF o(1)] o(2), of r'] o o' k byte_index_hex [OF k(2)] byte_index_hex [OF k(4)]
    by (cases "b = b'") (auto simp: pget_preduce nth_list_update word_unat_eq_iff)
qed auto

text \<open>Deleting a key that is not there leaves the trie as it is.\<close>

lemma pdelete_absent:
  assumes "pok p k" "pget p k = None"
  shows "pdelete p k = p"
  using assms
proof (induction p arbitrary: k)
  case (PShort s p)
  then have w: "pwf (PShort s p)" and h: "hexkey k" by (auto simp: pok_def split: if_splits)
  from w h show ?case
  proof (cases rule: short_cases)
    case (ext ps r)
    then have "pdelete (PShort s p) k = pjoin s (pdelete p r)" "pdelete p r = p"
      using PShort.IH [of r] PShort.prems by (cases "r = []"; auto simp: Let_def pok_def)+
    then show ?thesis using ext by simp
  qed (use PShort.prems in \<open>auto simp: Let_def\<close>)
next
  case (PFull ps)
  then obtain b r where k: "k = b # r" "hexkey (b # r)" and w: "pwf (PFull ps)"
    by (cases k) (auto simp: pok_def)
  note o = pok_full [OF w k(2)]
  have "pdelete (ps ! unat b) r = ps ! unat b"
    using PFull.IH [OF nth_mem [OF o(1)] o(2)] PFull.prems o by (simp add: k)
  moreover have "preduce ps = PFull ps"
    using w by (auto simp: preduce_def pwf_full_iff split: list.splits)
  ultimately show ?case using o by (simp add: k)
next
  case (PVal x)
  then show ?case by (auto simp: pok_def split: if_splits)
qed auto

section \<open>Canonicity\<close>

lemma pwf_inhabited: "pwf p \<Longrightarrow> \<exists>k. hexkey k \<and> pget p k \<noteq> None"
proof (induction rule: pwf.induct)
  case (pwf_leaf k v)
  then show ?case by (intro exI [of _ k]) (simp add: pget_leaf)
next
  case (pwf_ext k ps)
  then obtain r where "hexkey r" "pget (PFull ps) r \<noteq> None" by blast
  then show ?case using pwf_ext by (intro exI [of _ "k @ r"]) (simp add: hexkey_appendI)
next
  case (pwf_full ps)
  then obtain i where i: "i < 17" "ps ! i \<noteq> PNil" by (auto simp: pused2_iff)
  show ?case
  proof (cases "i = 16")
    case True
    then show ?thesis using pwf_full i by (intro exI [of _ "[16]"]) (auto simp: hexkey_def)
  next
    case False
    with i have "i < 16" by simp
    with i pwf_full obtain r where "hexkey r" "pget (ps ! i) r \<noteq> None" by blast
    with \<open>i < 16\<close> show ?thesis
      using pwf_full by (intro exI [of _ "word_of_nat i # r"]) (auto simp: hexkey_Cons word_less_nat_alt)
  qed
qed

lemma pslot_inhabited:
  assumes "pslot i q"
  shows "\<exists>r. hexkey (word_of_nat i # r) \<and> pget q r \<noteq> None"
proof (cases "i = 16")
  case True
  with assms show ?thesis by (intro exI [of _ "[]"]) (auto simp: pslot_def hexkey_def)
next
  case False
  with assms have "pwf q" "i < 16" by (auto simp: pslot_def)
  then obtain r where "hexkey r" "pget q r \<noteq> None" "i < 16"
    using pwf_inhabited by blast
  then show ?thesis by (intro exI [of _ r]) (auto simp: hexkey_Cons word_less_nat_alt)
qed

lemma branch_two_keys:
  assumes "pwf (PFull ps)"
  obtains b r b' r' where "b \<noteq> b'" "hexkey (b # r)" "hexkey (b' # r')"
    "pget (PFull ps) (b # r) \<noteq> None" "pget (PFull ps) (b' # r') \<noteq> None"
proof -
  from assms obtain i j where ij: "i \<noteq> j" "i < 17" "j < 17" "pslot i (ps ! i)" "pslot j (ps ! j)"
    and l: "length ps = 17"
    by (metis pused2_iff pwf_full_iff)
  obtain r r' where "hexkey (word_of_nat i # r)" "pget (ps ! i) r \<noteq> None"
    "hexkey (word_of_nat j # r')" "pget (ps ! j) r' \<noteq> None"
    using pslot_inhabited ij by metis
  moreover have "(word_of_nat i :: byte) \<noteq> word_of_nat j"
    using ij by (simp add: word_unat_eq_iff)
  ultimately show thesis using that ij l by auto
qed

lemma pshort_prefix:
  assumes "pwf (PFull ps)" "nibs s"
    "\<And>k. hexkey k \<Longrightarrow> pget (pshort s (PFull ps)) k \<noteq> None \<Longrightarrow> \<exists>t. k = s' @ t"
  shows "\<exists>t. s = s' @ t"
proof -
  obtain b r b' r' where b: "b \<noteq> b'" "hexkey (b # r)" "hexkey (b' # r')"
    "pget (PFull ps) (b # r) \<noteq> None" "pget (PFull ps) (b' # r') \<noteq> None"
    using branch_two_keys [OF assms(1)] by metis
  have "\<exists>t. s @ b # r = s' @ t" "\<exists>t. s @ b' # r' = s' @ t"
    using b assms(2) by (auto intro!: assms(3) hexkey_appendI simp: pget_pshort simp del: pget.simps)
  then obtain t t' where t: "s @ b # r = s' @ t" "s @ b' # r' = s' @ t'" by blast
  show ?thesis
  proof (rule ccontr)
    assume n: "\<nexists>t. s = s' @ t"
    with t(1) obtain u where u: "s' = s @ u" by (auto simp: append_eq_append_conv2)
    with n obtain c u' where "u = c # u'" by (cases u) auto
    with t u b(1) show False by simp
  qed
qed

lemma pshort_branch_key:
  assumes "pwf (PFull ps)" "pwf (PFull ps')" "nibs s" "nibs s'"
    "\<And>k. hexkey k \<Longrightarrow> pget (pshort s (PFull ps)) k = pget (pshort s' (PFull ps')) k"
  shows "s = s'"
proof -
  have "\<exists>t. s = s' @ t"
    using assms by (intro pshort_prefix [OF assms(1,3)]) (auto simp: pget_pshort take_length_eq split: if_splits)
  moreover have "\<exists>t. s' = s @ t"
    using assms(5) [symmetric] by (intro pshort_prefix [OF assms(2,4)]) (auto simp: pget_pshort take_length_eq split: if_splits)
  ultimately show ?thesis by auto
qed

lemma pwf_cases2:
  assumes "pwf p"
  obtains (leaf) k v where "p = PShort k (PVal v)" "hexkey k" "v \<noteq> []"
  | (branch) s ps where "p = pshort s (PFull ps)" "nibs s" "pwf (PFull ps)"
  using assms
proof (cases rule: pwf.cases)
  case (pwf_full ps)
  then show thesis using branch [of "[]" ps] assms by (simp add: pshort_def)
next
  case (pwf_ext k ps)
  then show thesis using branch [of k ps] by (simp add: pshort_def)
qed (use leaf in blast)

lemma leaf_not_branch:
  assumes "nibs s" "pwf (PFull ps)" "\<And>k. hexkey k \<Longrightarrow> pget (PShort l (PVal v)) k = pget (pshort s (PFull ps)) k"
  shows False
proof -
  obtain b r b' r' where b: "b \<noteq> b'" "hexkey (b # r)" "hexkey (b' # r')"
    "pget (PFull ps) (b # r) \<noteq> None" "pget (PFull ps) (b' # r') \<noteq> None"
    using branch_two_keys [OF assms(2)] by metis
  have "s @ b # r = l" "s @ b' # r' = l"
    using assms(3) [of "s @ b # r"] assms(3) [of "s @ b' # r'"] b assms(1)
    by (auto simp: pget_pshort pget_leaf hexkey_appendI simp del: pget.simps split: if_splits)
  with b show False by auto
qed

lemma branch_ext:
  assumes w: "pwf (PFull ps)" "pwf (PFull ps')"
    and eq: "\<And>k. hexkey k \<Longrightarrow> pget (PFull ps) k = pget (PFull ps') k"
    and IH: "\<And>i q. i < 16 \<Longrightarrow> ps ! i = PNil \<or> pwf (ps ! i) \<Longrightarrow> q = PNil \<or> pwf q \<Longrightarrow>
               (\<And>k. hexkey k \<Longrightarrow> pget (ps ! i) k = pget q k) \<Longrightarrow> ps ! i = q"
  shows "ps = ps'"
proof (rule nth_equalityI)
  have l: "length ps = 17" "length ps' = 17"
    and slots: "\<And>i. i < 17 \<Longrightarrow> ps ! i = PNil \<or> pslot i (ps ! i)"
      "\<And>i. i < 17 \<Longrightarrow> ps' ! i = PNil \<or> pslot i (ps' ! i)"
    using w by (auto simp: pwf_full_iff)
  show "length ps = length ps'" using l by simp
  fix i assume "i < length ps"
  then have i: "i < 17" using l by simp
  have g: "hexkey (word_of_nat i # r) \<Longrightarrow> pget (ps ! i) r = pget (ps' ! i) r" for r
    using eq [of "word_of_nat i # r"] l i by simp
  show "ps ! i = ps' ! i"
  proof (cases "i = 16")
    case True
    then show ?thesis
      using g [of "[]"] slots [of 16] by (auto simp: pslot_def hexkey_def)
  next
    case False
    then have "i < 16" using i by simp
    have "pget (ps ! i) k = pget (ps' ! i) k" if "hexkey k" for k
      using that \<open>i < 16\<close> by (intro g) (auto simp: hexkey_Cons word_less_nat_alt)
    then show ?thesis
      using slots [OF i] \<open>i < 16\<close> by (intro IH) (auto simp: pslot_def)
  qed
qed

lemma pget_eq_not_Nil:
  assumes "pwf p" "\<And>k. hexkey k \<Longrightarrow> pget p k = pget q k"
  shows "q \<noteq> PNil"
  using assms pwf_inhabited [OF assms(1)] by auto

lemma pget_ext:
  assumes "p = PNil \<or> pwf p" "q = PNil \<or> pwf q" "\<And>k. hexkey k \<Longrightarrow> pget p k = pget q k"
  shows "p = q"
  using assms
proof (induction p arbitrary: q)
  case (PShort s p)
  then have w: "pwf (PShort s p)" by simp
  have "q \<noteq> PNil" by (rule pget_eq_not_Nil [OF w PShort.prems(3)])
  then have "pwf q" using PShort.prems by blast
  from w show ?case
    unfolding pwf_short_iff
  proof (elim disjE exE conjE)
    fix v assume p: "p = PVal v" "hexkey s"
    from \<open>pwf q\<close> show ?thesis
    proof (cases rule: pwf_cases2)
      case (leaf k v')
      then show ?thesis
        using PShort.prems(3) [of s] PShort.prems(3) [of k] p
        by (auto simp: pget_leaf simp del: pget.simps(3) split: if_splits)
    next
      case (branch t ps)
      have False
        by (rule leaf_not_branch [OF branch(2,3), of s v])
          (use PShort.prems(3) p branch(1) in \<open>simp only:\<close>)
      then show ?thesis ..
    qed
  next
    fix ps assume p: "p = PFull ps" "nibs s" "s \<noteq> []" "pwf (PFull ps)"
    from \<open>pwf q\<close> show ?thesis
    proof (cases rule: pwf_cases2)
      case (leaf k v)
      have False
        by (rule leaf_not_branch [OF p(2,4), of k v])
          (use PShort.prems(3) [symmetric] p leaf(1) in \<open>simp only: pshort_def if_False\<close>)
      then show ?thesis ..
    next
      case (branch t ps')
      have "s = t"
        by (rule pshort_branch_key [OF p(4) branch(3) p(2) branch(2)])
          (use PShort.prems(3) p(1,3) branch(1) in \<open>simp only: pshort_def if_False\<close>)
      moreover have "pget p r = pget (PFull ps') r" if "hexkey r" for r
        using PShort.prems(3) [of "s @ r"] p branch(1) \<open>s = t\<close> hexkey_appendI [OF p(2) that]
        by (simp add: pshort_def del: pget.simps)
      then have "p = PFull ps'" using p branch by (intro PShort.IH) auto
      ultimately show ?thesis using branch p by (simp add: pshort_def)
    qed
  qed
next
  case (PFull ps)
  then have w: "pwf (PFull ps)" by simp
  have "q \<noteq> PNil" by (rule pget_eq_not_Nil [OF w PFull.prems(3)])
  then have "pwf q" using PFull.prems by blast
  then show ?case
  proof (cases rule: pwf_cases2)
    case (leaf k v)
    have False
      by (rule leaf_not_branch [of "[]" ps k v])
        (use PFull.prems(3) [symmetric] w leaf(1) in \<open>simp_all only: pshort_def if_True nibs_simps simp_thms\<close>)
    then show ?thesis ..
  next
    case (branch t ps')
    have t: "[] = t"
      by (rule pshort_branch_key [OF w branch(3) _ branch(2)])
        (use PFull.prems(3) branch(1) in \<open>simp_all only: pshort_def if_True nibs_simps simp_thms\<close>)
    have "length ps = 17" using w by (simp add: pwf_full_iff)
    have "ps = ps'"
    proof (rule branch_ext [OF w branch(3)])
      show "pget (PFull ps) k = pget (PFull ps') k" if "hexkey k" for k
        using PFull.prems(3) [OF that] by (simp only: branch(1) t [symmetric] pshort_def if_True simp_thms)
      show "ps ! i = q" if "i < 16" "ps ! i = PNil \<or> pwf (ps ! i)" "q = PNil \<or> pwf q"
        "\<And>k. hexkey k \<Longrightarrow> pget (ps ! i) k = pget q k" for i q
        by (rule PFull.IH [OF nth_mem]) (use that \<open>length ps = 17\<close> in auto)
    qed
    with branch(1) t show ?thesis by (simp add: pshort_def)
  qed
next
  case PNil
  then show ?case using pget_eq_not_Nil [of q PNil] by metis
qed auto

end
