(* ===== verification/Trie_Refine.thy ===== *)
theory Trie_Refine
  imports Trie_Ops Trie_Spec
begin

text \<open>
  The operations of \<^verbatim>\<open>src/trie/trie.go\<close> refine those of the abstract trie. \<open>rep\<close> relates a node at a
  path to the abstract trie it stands for, with hash nodes read from the store; the lemmas
  \<open>get_refines\<close>, \<open>insert_refines\<close> and \<open>delete_refines\<close> show that on a canonical trie whose nodes are all
  in the store an operation returns, within its fuel, what the abstract operation gives.
\<close>

section \<open>Representation\<close>

definition resolves :: "rlp_lib \<Rightarrow> trieReader \<Rightarrow> bytes \<Rightarrow> bytes \<Rightarrow> node res" where
  "resolves R rd path h =
     (case nodeBlob rd path h of Inl e \<Rightarrow> Inl e | Inr blob \<Rightarrow> mustDecodeNode R (Some h) blob)"

lemma resolveAndTrack_Inr:
  assumes "resolves R rd path h = Inr n"
  obtains t' where "resolveAndTrack R rd h path t = (Inr n, t')"
  using assms by (auto simp: resolves_def resolveAndTrack_def split: sum.splits)

lemma resolves_not_hash: "resolves R rd path h = Inr n \<Longrightarrow> \<not> is_hash n"
  by (auto simp: resolves_def dest: mustDecodeNode_not_hash split: sum.splits)

text \<open>\<open>F path p fl\<close> is what is known of the cached flags \<open>fl\<close> of a node that stands for \<open>p\<close>; a hash node
  counts as a clean node with that hash.\<close>

type_synonym flag_pred = "bytes \<Rightarrow> ptrie \<Rightarrow> nodeFlag \<Rightarrow> bool"

inductive rep :: "flag_pred \<Rightarrow> rlp_lib \<Rightarrow> trieReader \<Rightarrow> bytes \<Rightarrow> node \<Rightarrow> ptrie \<Rightarrow> bool"
  for F :: flag_pred and R :: rlp_lib and rd :: trieReader
where
  rep_nil: "rep F R rd path NilNode PNil"
| rep_value: "rep F R rd path (ValueNode v) (PVal v)"
| rep_short: "rep F R rd (path @ k) n p \<Longrightarrow> F path (PShort k p) fl \<Longrightarrow>
    rep F R rd path (ShortNode k n fl) (PShort k p)"
| rep_full: "length cs = length ps \<Longrightarrow>
    (\<And>i. i < length cs \<Longrightarrow> rep F R rd (path @ [word_of_nat i]) (cs ! i) (ps ! i)) \<Longrightarrow>
    F path (PFull ps) fl \<Longrightarrow>
    rep F R rd path (FullNode cs fl) (PFull ps)"
| rep_hash: "resolves R rd path h = Inr n \<Longrightarrow> rep F R rd path n p \<Longrightarrow>
    F path p \<lparr>flag_hash = Some h, flag_dirty = False\<rparr> \<Longrightarrow> rep F R rd path (HashNode h) p"

inductive_cases rep_ShortE: "rep F R rd path (ShortNode k n fl) p"
inductive_cases rep_FullE: "rep F R rd path (FullNode cs fl) p"
inductive_simps rep_simps: "rep F R rd path NilNode p" "rep F R rd path (ValueNode v) p"

text \<open>A stored node is a short or a full node.\<close>

lemma rep_resolved:
  assumes "resolves R rd path h = Inr n" "rep F R rd path n p"
  shows "(\<exists>k q. p = PShort k q) \<or> (\<exists>ps. p = PFull ps)"
  using assms
  by (auto simp: resolves_def mustDecodeNode_def dest!: decodeNode_shape split: sum.splits
           elim: rep_ShortE rep_FullE)

lemma rep_not_nil: "rep F R rd path n p \<Longrightarrow> n = NilNode \<longleftrightarrow> p = PNil"
proof (induction rule: rep.induct)
  case (rep_hash path h n p)
  then show ?case using rep_resolved by blast
qed auto

text \<open>A node stands for at most one abstract trie.\<close>

inductive_cases rep_HashE: "rep F R rd path (HashNode h) p"

lemma rep_mono:
  assumes "rep F R rd path n p" "\<And>path p fl. F path p fl \<Longrightarrow> G path p fl"
  shows "rep G R rd path n p"
  using assms(1) by (induction rule: rep.induct) (auto intro: rep.intros assms(2))

lemma rep_fun: "rep F R rd path n p \<Longrightarrow> rep G R rd path n q \<Longrightarrow> p = q"
proof (induction arbitrary: q rule: rep.induct)
  case (rep_short path k n p fl)
  from rep_short.prems show ?case
    by (rule rep_ShortE) (use rep_short.IH in simp)
next
  case (rep_full cs ps path fl)
  show ?case
  proof (rule rep_FullE [OF rep_full.prems])
    fix ps' assume q: "q = PFull ps'" and l: "length cs = length ps'"
      and r: "\<And>i. i < length ps' \<Longrightarrow> rep G R rd (path @ [word_of_nat i]) (cs ! i) (ps' ! i)"
    have "ps = ps'"
      by (rule nth_equalityI) (use rep_full.hyps(1) l rep_full.IH [OF _ r] in simp_all)
    with q show ?thesis by simp
  qed
next
  case (rep_hash path h n p)
  show ?case
    by (rule rep_HashE [OF rep_hash.prems]) (use rep_hash.hyps(1) rep_hash.IH in simp)
qed (simp_all add: rep_simps)

lemma rep_full_update:
  assumes "rep F R rd path (FullNode cs fl) (PFull ps)" "rep F R rd (path @ [b]) n p"
    "F path (PFull (ps[unat b := p])) fl'"
  shows "rep F R rd path (FullNode (cs[unat b := n]) fl') (PFull (ps[unat b := p]))"
proof -
  have l: "length cs = length ps"
    and c: "\<And>i. i < length cs \<Longrightarrow> rep F R rd (path @ [word_of_nat i]) (cs ! i) (ps ! i)"
    using assms(1) by (auto elim: rep_FullE)
  have "rep F R rd (path @ [word_of_nat i]) (cs[unat b := n] ! i) (ps[unat b := p] ! i)"
    if "i < length cs" for i
    using c [OF that] assms(2) that l by (cases "i = unat b") auto
  then show ?thesis using l assms(3) by (auto intro: rep.rep_full)
qed

section \<open>Lookup\<close>

definition need :: "node \<Rightarrow> bytes \<Rightarrow> nat" where
  "need n key = 2 * length key + (if is_hash n then 2 else 1)"

lemma need_pos: "need n key \<le> fuel \<Longrightarrow> \<exists>f. fuel = Suc f"
  by (cases fuel) (auto simp: need_def split: if_splits)

lemma need_child:
  "need n key \<le> Suc f \<Longrightarrow> \<not> is_hash n \<Longrightarrow> length key' < length key \<Longrightarrow> need m key' \<le> f"
  by (auto simp: need_def split: if_splits)

lemma need_drop:
  "need n (drop pos key) \<le> Suc f \<Longrightarrow> \<not> is_hash n \<Longrightarrow> 0 < j \<Longrightarrow> pos + j \<le> length key \<Longrightarrow>
     need m (drop (pos + j) key) \<le> f"
  by (rule need_child [of n "drop pos key"]) auto

lemma need_resolved: "need (HashNode h) key \<le> Suc f \<Longrightarrow> \<not> is_hash m \<Longrightarrow> need m key \<le> f"
  by (auto simp: need_def)

lemma take_snoc_nth: "pos < length key \<Longrightarrow> take pos key @ [key ! pos] = take (Suc pos) key"
  by (simp add: take_Suc_conv_app_nth)

definition get_ok ::
  "flag_pred \<Rightarrow> rlp_lib \<Rightarrow> trieReader \<Rightarrow> bytes \<Rightarrow> ptrie \<Rightarrow> node \<Rightarrow> bytes option \<Rightarrow>
   (bytes option \<times> node \<times> bool) res \<times> tracer \<Rightarrow> bool"
where
  "get_ok F R rd path p n v result \<longleftrightarrow>
     (\<exists>n' d t'. result = (Inr (v, n', d), t') \<and> rep F R rd path n' p \<and> (\<not> d \<longrightarrow> n' = n))"

lemma get_okI:
  "result = (Inr (v, n', d), t') \<Longrightarrow> rep F R rd path n' p \<Longrightarrow> (\<not> d \<Longrightarrow> n' = n) \<Longrightarrow>
     get_ok F R rd path p n v result"
  by (auto simp: get_ok_def)

lemma get_okE:
  assumes "get_ok F R rd path p n v result"
  obtains n' d t' where "result = (Inr (v, n', d), t')" "rep F R rd path n' p" "\<not> d \<longrightarrow> n' = n"
  using assms by (auto simp: get_ok_def)

lemma get_refines:
  assumes "rep F R rd path n p" "path = take pos key" "pos \<le> length key"
    "pok p (drop pos key)" "need n (drop pos key) \<le> fuel"
  shows "get_ok F R rd path p n (pget p (drop pos key)) (trie_get R rd fuel n key pos t)"
  using assms
proof (induction arbitrary: pos fuel t rule: rep.induct)
  case (rep_nil path)
  then obtain f where "fuel = Suc f" using need_pos by blast
  then show ?case by (auto simp: get_ok_def intro: rep.rep_nil)
next
  case (rep_value path v)
  then obtain f where "fuel = Suc f" using need_pos by blast
  moreover have "drop pos key = []" using rep_value by (simp add: pok_def split: if_splits)
  ultimately show ?case by (auto simp: get_ok_def intro: rep.rep_value)
next
  case (rep_short path k n p fl)
  obtain f where f: "fuel = Suc f" using need_pos [OF rep_short.prems(4)] by blast
  have w: "pwf (PShort k p)" "hexkey (drop pos key)"
    using rep_short.prems(3) by (auto simp: pok_def split: if_splits)
  show ?case
  proof (cases "take (length k) (drop pos key) = k")
    case False
    then show ?thesis
      using rep.rep_short [OF rep_short.hyps] by (auto simp: f get_ok_def)
  next
    case True
    note o = pok_short [OF w True]
    have "length (take (length k) (drop pos key)) = length k" using True by simp
    then have l: "pos + length k \<le> length key" using rep_short.prems(2) by simp
    have "path @ k = take (pos + length k) key"
      using True rep_short.prems(1) by (simp add: take_add)
    moreover have "need n (drop (pos + length k) key) \<le> f"
      using need_drop [of "ShortNode k n fl" pos key f "length k"] rep_short.prems(4) o(2) l f
      by simp
    ultimately have "get_ok F R rd (path @ k) p n (pget p (drop (pos + length k) key))
        (trie_get R rd f n key (pos + length k) t)"
      using l o(1) by (intro rep_short.IH) (simp_all add: add.commute)
    then obtain n' d t' where
      g: "trie_get R rd f n key (pos + length k) t = (Inr (pget p (drop (pos + length k) key), n', d), t')"
      "rep F R rd (path @ k) n' p" "\<not> d \<longrightarrow> n' = n"
      by (rule get_okE)
    have "trie_get R rd fuel (ShortNode k n fl) key pos t =
      (Inr (pget (PShort k p) (drop pos key), if d then ShortNode k n' fl else ShortNode k n fl, d), t')"
      using True l g(1) by (simp add: f add.commute)
    then show ?thesis by (rule get_okI) (use g rep_short.hyps(2) in \<open>auto intro: rep.rep_short\<close>)
  qed
next
  case (rep_full cs ps path fl)
  obtain f where f: "fuel = Suc f" using need_pos [OF rep_full.prems(4)] by blast
  have w: "pwf (PFull ps)" "hexkey (drop pos key)"
    using rep_full.prems(3) by (auto simp: pok_def split: if_splits)
  then have pos: "pos < length key" by (metis drop_all hexkey_Nil not_le)
  define b r where "b = key ! pos" and "r = drop (Suc pos) key"
  have k: "drop pos key = b # r" using pos by (simp add: b_def r_def Cons_nth_drop_Suc)
  note o = pok_full [OF w(1), of b r]
  have b: "unat b < length cs" "pok (ps ! unat b) r" using o w(2) rep_full.hyps(1) by (auto simp: k)
  have "path @ [word_of_nat (unat b)] = take (Suc pos) key"
    using rep_full.prems(1) pos by (simp add: b_def take_Suc_conv_app_nth)
  moreover have "need (cs ! unat b) r \<le> f"
    using need_child [of "FullNode cs fl" "drop pos key" f r] rep_full.prems(4) f by (simp add: k)
  ultimately have "get_ok F R rd (path @ [word_of_nat (unat b)]) (ps ! unat b) (cs ! unat b)
      (pget (ps ! unat b) (drop (Suc pos) key)) (trie_get R rd f (cs ! unat b) key (Suc pos) t)"
    using b pos by (intro rep_full.IH) (simp_all add: r_def)
  then obtain n' d t' where
    g: "trie_get R rd f (cs ! unat b) key (Suc pos) t = (Inr (pget (ps ! unat b) r, n', d), t')"
    "rep F R rd (path @ [word_of_nat (unat b)]) n' (ps ! unat b)" "\<not> d \<longrightarrow> n' = cs ! unat b"
    unfolding r_def by (rule get_okE)
  have "trie_get R rd fuel (FullNode cs fl) key pos t =
    (Inr (pget (PFull ps) (drop pos key),
          if d then FullNode (cs[unat b := n']) fl else FullNode cs fl, d), t')"
    using g(1) b(1) pos rep_full.hyps(1) by (simp add: f k b_def [symmetric])
  moreover have fr: "rep F R rd path (FullNode cs fl) (PFull ps)"
    using rep_full.hyps by (rule rep.rep_full)
  moreover have "rep F R rd path (FullNode (cs[unat b := n']) fl) (PFull ps)"
    using rep_full_update [OF fr, of b n' "ps ! unat b" fl] g(2) rep_full.hyps(3) by simp
  ultimately show ?case by (cases d) (auto simp: get_ok_def)
next
  case (rep_hash path h n p)
  obtain f where f: "fuel = Suc f" using need_pos [OF rep_hash.prems(4)] by blast
  obtain t1 where t1: "resolveAndTrack R rd h path t = (Inr n, t1)"
    using rep_hash.hyps(1) by (rule resolveAndTrack_Inr)
  have "need n (drop pos key) \<le> f"
    using need_resolved [of h _ f n] rep_hash.prems(4) resolves_not_hash [OF rep_hash.hyps(1)]
    by (simp add: f)
  then have "get_ok F R rd path p n (pget p (drop pos key)) (trie_get R rd f n key pos t1)"
    using rep_hash.prems by (intro rep_hash.IH)
  then obtain n' d t' where
    g: "trie_get R rd f n key pos t1 = (Inr (pget p (drop pos key), n', d), t')" "rep F R rd path n' p"
    by (rule get_okE)
  have "trie_get R rd fuel (HashNode h) key pos t = (Inr (pget p (drop pos key), n', True), t')"
    using rep_hash.prems(1) t1 g(1) by (simp add: f)
  then show ?case by (rule get_okI) (use g in auto)
qed

section \<open>Insertion\<close>

definition edit_ok ::
  "flag_pred \<Rightarrow> rlp_lib \<Rightarrow> trieReader \<Rightarrow> bytes \<Rightarrow> ptrie \<Rightarrow> ptrie \<Rightarrow> (bool \<times> node) res \<times> tracer \<Rightarrow> bool"
where
  "edit_ok F R rd path p p' result \<longleftrightarrow>
     (\<exists>d n' t'. result = (Inr (d, n'), t') \<and> rep F R rd path n' p' \<and>
        (d \<longrightarrow> \<not> is_hash n') \<and> (\<not> d \<longrightarrow> p' = p))"

lemma edit_okI:
  "result = (Inr (d, n'), t') \<Longrightarrow> rep F R rd path n' p' \<Longrightarrow> (d \<Longrightarrow> \<not> is_hash n') \<Longrightarrow>
     (\<not> d \<Longrightarrow> p' = p) \<Longrightarrow> edit_ok F R rd path p p' result"
  by (auto simp: edit_ok_def)

lemma edit_okE:
  assumes "edit_ok F R rd path p p' result"
  obtains d n' t' where "result = (Inr (d, n'), t')" "rep F R rd path n' p'" "d \<longrightarrow> \<not> is_hash n'"
    "\<not> d \<longrightarrow> p' = p"
  using assms by (auto simp: edit_ok_def)

declare trie_insert.simps(2) [simp del]

lemma insert_nil:
  "trie_insert R rd (Suc f) NilNode path key v t =
     (if key = [] then (Inr (True, v), t)
      else (Inr (True, ShortNode key v newFlag), onInsert path t))"
  by (simp add: trie_insert.simps(2) bindS_apply)

text \<open>What is known of the flags must hold of a node that has just been made.\<close>

locale flag_policy =
  fixes F :: flag_pred
  assumes new_ok: "F path p newFlag"
begin

lemma rep_pshort:
  "rep F R rd (path @ k) v p \<Longrightarrow> rep F R rd path (if k = [] then v else ShortNode k v newFlag) (pshort k p)"
  by (auto simp: pshort_def intro: rep.rep_short new_ok)

lemma rep_branch:
  assumes "rep F R rd (path @ [a]) n p" "rep F R rd (path @ [b]) m q"
  shows "rep F R rd path (FullNode ((replicate 17 NilNode)[unat a := n, unat b := m]) newFlag) (pbranch a p b q)"
proof -
  have "rep F R rd path (FullNode (replicate 17 NilNode) newFlag) (PFull (replicate 17 PNil))"
    by (rule rep.rep_full) (simp_all add: rep.rep_nil new_ok)
  from rep_full_update [OF rep_full_update [OF this assms(1) new_ok] assms(2) new_ok] show ?thesis
    by (simp add: pbranch_def)
qed

lemma insert_differ:
  assumes "s = u @ a # s'" "key = u @ b # r" "a \<noteq> b" "prefixLen key s = length u"
    "unat a < 17" "unat b < 17" "rep F R rd (path @ s) n p"
  shows "edit_ok F R rd path (PShort s p) (pinsert (PShort s p) key (PVal v))
           (trie_insert R rd (Suc (Suc f)) (ShortNode s n fl) path key (ValueNode v) t)"
proof -
  let ?c1 = "if s' = [] then n else ShortNode s' n newFlag"
  let ?c2 = "if r = [] then ValueNode v else ShortNode r (ValueNode v) newFlag"
  let ?br = "FullNode ((replicate 17 NilNode)[unat a := ?c1, unat b := ?c2]) newFlag"
  have "rep F R rd (path @ u @ [a]) ?c1 (pshort s' p)"
    using rep_pshort [of R rd "path @ u @ [a]" s' n p] assms(1,7) by simp
  moreover have "rep F R rd (path @ u @ [b]) ?c2 (pshort r (PVal v))"
    by (rule rep_pshort) (rule rep.rep_value)
  ultimately have br: "rep F R rd (path @ u) ?br (pbranch a (pshort s' p) b (pshort r (PVal v)))"
    using rep_branch [of R rd "path @ u"] by simp
  define t1 where "t1 = (if s' = [] then t else onInsert (path @ u @ [a]) t)"
  define t2 where "t2 = (if r = [] then t1 else onInsert (path @ u @ [b]) t1)"
  have A: "trie_insert R rd (Suc f) NilNode (path @ u @ [a]) s' n t = (Inr (True, ?c1), t1)"
    by (simp only: insert_nil t1_def split: if_split) simp
  have B: "trie_insert R rd (Suc f) NilNode (path @ u @ [b]) r (ValueNode v) t1 = (Inr (True, ?c2), t2)"
    by (simp only: insert_nil t2_def split: if_split) simp
  have idx: "s ! length u = a" "key ! length u = b" "take (length u + 1) s = u @ [a]"
    "take (length u + 1) key = u @ [b]" "drop (length u + 1) s = s'" "drop (length u + 1) key = r"
    "take (length u) key = u" "length u < length key" "length u \<noteq> length s" "length key \<noteq> 0"
    unfolding assms(1,2) by simp_all
  have "trie_insert R rd (Suc (Suc f)) (ShortNode s n fl) path key (ValueNode v) t =
    (if u = [] then (Inr (True, ?br), t2)
     else (Inr (True, ShortNode u ?br newFlag), onInsert (path @ u) t2))"
    unfolding trie_insert.simps(2) [of R rd "Suc f"]
    by (simp only: node.case Let_def assms(4) idx assms(5,6) if_True if_False simp_thms
          bindS_apply A B prod.case sum.case)
       simp
  moreover have "rep F R rd path (if u = [] then ?br else ShortNode u ?br newFlag)
      (pinsert (PShort s p) key (PVal v))"
    unfolding pinsert_differ [OF assms(1-4)] by (rule rep_pshort [OF br])
  ultimately show ?thesis by (cases "u = []") (auto simp: edit_ok_def)
qed

lemma insert_refines:
  assumes "rep F R rd path n p" "pok p key" "need n key \<le> fuel" "v \<noteq> []"
  shows "edit_ok F R rd path p (pinsert p key (PVal v)) (trie_insert R rd fuel n path key (ValueNode v) t)"
  using assms(1-3)
proof (induction arbitrary: key fuel t rule: rep.induct)
  case (rep_nil path)
  obtain f where f: "fuel = Suc f" using need_pos [OF rep_nil(2)] by blast
  have "rep F R rd path (if key = [] then ValueNode v else ShortNode key (ValueNode v) newFlag)
          (pshort key (PVal v))"
    by (rule rep_pshort) (rule rep.rep_value)
  then show ?case
    by (cases key) (auto simp: f insert_nil edit_ok_def pshort_def)
next
  case (rep_value path u)
  obtain f where f: "fuel = Suc f" using need_pos [OF rep_value(2)] by blast
  have "key = []" using rep_value by (simp add: pok_def split: if_splits)
  then show ?case by (auto simp: f trie_insert.simps(2) edit_ok_def intro: rep.rep_value)
next
  case (rep_short path s n p fl)
  obtain f where f: "fuel = Suc f" using need_pos [OF rep_short.prems(2)] by blast
  have w: "pwf (PShort s p)" "hexkey key"
    using rep_short.prems(1) by (auto simp: pok_def split: if_splits)
  have step: "edit_ok F R rd path (PShort s p) (PShort s (pinsert p r (PVal v)))
      (trie_insert R rd fuel (ShortNode s n fl) path key (ValueNode v) t)"
    if k: "key = s @ r" and o: "pok p r" and s: "s \<noteq> []" for r
  proof -
    have "need n r \<le> f"
      using need_child [of "ShortNode s n fl" key f r n] rep_short.prems(2) s by (simp add: f k)
    then obtain d n' t' where
      g: "trie_insert R rd f n (path @ s) r (ValueNode v) t = (Inr (d, n'), t')"
      "rep F R rd (path @ s) n' (pinsert p r (PVal v))" "\<not> d \<longrightarrow> pinsert p r (PVal v) = p"
      using rep_short.IH [OF o] by (metis edit_okE)
    have "trie_insert R rd fuel (ShortNode s n fl) path key (ValueNode v) t =
      (Inr (d, if d then ShortNode s n' newFlag else ShortNode s n fl), t')"
      using s by (simp add: f trie_insert.simps(2) k Let_def bindS_apply g(1))
    then show ?thesis
      by (rule edit_okI) (use g rep_short.hyps in \<open>auto intro: rep.rep_short new_ok\<close>)
  qed
  from w show ?case
  proof (cases rule: short_cases)
    case (differ u a s' b r)
    have "unat a < 17" "unat b < 17"
      using pslot_bound [OF pslot_suffix [OF w(1), of "length u"]] differ byte_index_hex [of b r]
      by (auto simp: nth_append)
    moreover obtain f' where "fuel = Suc (Suc f')"
      using rep_short.prems(2) differ(2) f by (cases f) (auto simp: need_def)
    ultimately show ?thesis
      using insert_differ [OF differ(1,2,3,6) _ _ rep_short.hyps(1), of v _ fl] by simp
  next
    case (leaf u)
    have "pok (PVal u) []" using leaf by (simp add: pok_def)
    then show ?thesis
      using step [of "[]"] leaf by (cases "s = []") (auto simp: pinsert_leaf)
  next
    case (ext ps r)
    then have "pok p r" by (cases "r = []") (auto simp: pok_def)
    then show ?thesis using step [of r] ext by (simp add: pinsert_short)
  qed
next
  case (rep_full cs ps path fl)
  obtain f where f: "fuel = Suc f" using need_pos [OF rep_full.prems(2)] by blast
  obtain b r where k: "key = b # r" and w: "pwf (PFull ps)" "hexkey (b # r)"
    using rep_full.prems(1) by (cases key) (auto simp: pok_def)
  note o = pok_full [OF w]
  have "need (cs ! unat b) r \<le> f"
    using need_child [of "FullNode cs fl" key f r] rep_full.prems(2) f by (simp add: k)
  then obtain d n' t' where
    g: "trie_insert R rd f (cs ! unat b) (path @ [b]) r (ValueNode v) t = (Inr (d, n'), t')"
    "rep F R rd (path @ [b]) n' (pinsert (ps ! unat b) r (PVal v))"
    "\<not> d \<longrightarrow> pinsert (ps ! unat b) r (PVal v) = ps ! unat b"
    using rep_full.IH [OF _ o(2), of f t] o(1) rep_full.hyps(1) by (auto elim!: edit_okE)
  have "trie_insert R rd fuel (FullNode cs fl) path key (ValueNode v) t =
    (Inr (d, if d then FullNode (cs[unat b := n']) newFlag else FullNode cs fl), t')"
    using o(1) rep_full.hyps(1) by (simp add: f trie_insert.simps(2) k bindS_apply g(1))
  moreover have fr: "rep F R rd path (FullNode cs fl) (PFull ps)"
    using rep_full.hyps by (rule rep.rep_full)
  moreover have "rep F R rd path (FullNode (cs[unat b := n']) newFlag)
      (PFull (ps[unat b := pinsert (ps ! unat b) r (PVal v)]))"
    by (rule rep_full_update [OF fr g(2) new_ok])
  ultimately show ?case using o(1) g(3) by (cases d) (auto simp: edit_ok_def k)
next
  case (rep_hash path h n p)
  obtain f where f: "fuel = Suc f" using need_pos [OF rep_hash.prems(2)] by blast
  obtain t1 where t1: "resolveAndTrack R rd h path t = (Inr n, t1)"
    using rep_hash.hyps(1) by (rule resolveAndTrack_Inr)
  have "need n key \<le> f"
    using need_resolved [of h _ f n] rep_hash.prems(2) resolves_not_hash [OF rep_hash.hyps(1)]
    by (simp add: f)
  then obtain d n' t' where
    g: "trie_insert R rd f n path key (ValueNode v) t1 = (Inr (d, n'), t')"
    "rep F R rd path n' (pinsert p key (PVal v))" "d \<longrightarrow> \<not> is_hash n'"
    "\<not> d \<longrightarrow> pinsert p key (PVal v) = p"
    using rep_hash.IH [OF rep_hash.prems(1), of f t1] by (metis edit_okE)
  have "key \<noteq> []"
    using rep_hash.prems(1) rep_resolved [OF rep_hash.hyps(1,2)] by (auto simp: pok_def)
  then have "trie_insert R rd fuel (HashNode h) path key (ValueNode v) t =
    (Inr (d, if d then n' else n), t')"
    by (simp add: f trie_insert.simps(2) bindS_apply t1 g(1))
  then show ?case
    by (rule edit_okI) (use g rep_hash.hyps in auto)
qed

section \<open>Deletion\<close>

lemma singlePos_found:
  "0 \<le> pos \<Longrightarrow> singlePos i pos cs = (if \<forall>c\<in>set cs. c = NilNode then pos else -2)"
  by (induction cs arbitrary: i) auto

lemma singlePos_one:
  assumes "j < length cs" "cs ! j \<noteq> NilNode" "\<And>k. k < length cs \<Longrightarrow> k \<noteq> j \<Longrightarrow> cs ! k = NilNode"
  shows "singlePos i (-1) cs = int (i + j)"
  using assms
proof (induction cs arbitrary: i j)
  case (Cons c cs)
  show ?case
  proof (cases j)
    case 0
    have "\<forall>c\<in>set cs. c = NilNode"
      using Cons.prems(3) [of "Suc _"] 0 by (auto simp: in_set_conv_nth)
    then show ?thesis using Cons.prems 0 by (simp add: singlePos_found)
  next
    case (Suc j')
    then have "c = NilNode" using Cons.prems(3) [of 0] by simp
    then show ?thesis
      using Cons.IH [of j' "Suc i"] Cons.prems(1,2) Cons.prems(3) [of "Suc _"] Suc by simp
  qed
qed simp

lemma singlePos_many:
  assumes "j < length cs" "k < length cs" "j < k" "cs ! j \<noteq> NilNode" "cs ! k \<noteq> NilNode"
  shows "singlePos i (-1) cs = -2"
  using assms
proof (induction cs arbitrary: i j k)
  case (Cons c cs)
  obtain k' where k: "k = Suc k'" using Cons.prems(3) by (cases k) auto
  show ?case
  proof (cases "c = NilNode")
    case True
    then obtain j' where "j = Suc j'" using Cons.prems(4) by (cases j) auto
    then show ?thesis using Cons.IH [of j' k' "Suc i"] Cons.prems True k by simp
  next
    case False
    have "cs ! k' \<in> set cs" using Cons.prems(2) k by simp
    then show ?thesis using False Cons.prems(5) k by (auto simp: singlePos_found)
  qed
qed simp

lemma resolve_refines:
  assumes "rep F R rd path n p"
  shows "\<exists>n' t'. resolve R rd n path t = (Inr n', t') \<and> rep F R rd path n' p \<and> \<not> is_hash n'"
proof (cases n)
  case (HashNode h)
  show ?thesis
  proof (rule rep_HashE [OF assms [unfolded HashNode]])
    fix n' assume n': "resolves R rd path h = Inr n'" "rep F R rd path n' p"
    obtain t' where "resolveAndTrack R rd h path t = (Inr n', t')"
      using n'(1) by (rule resolveAndTrack_Inr)
    then show ?thesis
      using n' resolves_not_hash by (auto simp: resolve_def HashNode)
  qed
qed (use assms in \<open>auto simp: resolve_def\<close>)

lemma rep_not_hash_cases:
  assumes "rep F R rd path n p" "\<not> is_hash n"
  shows "p = PShort s q \<Longrightarrow> \<exists>v fl. n = ShortNode s v fl \<and> rep F R rd (path @ s) v q"
    and "p = PFull ps \<Longrightarrow> \<exists>cs fl. n = FullNode cs fl"
  using assms by (auto elim: rep.cases)

lemma pdelete_slots:
  assumes "pwf (PFull ps)" "hexkey (b # r)" "i < 17"
  shows "ps[unat b := pdelete (ps ! unat b) r] ! i = PNil \<or>
         pslot i (ps[unat b := pdelete (ps ! unat b) r] ! i)"
  using pdelete_pok [OF pok_full(2) [OF assms(1,2)]] byte_index_hex [OF assms(2)] assms(1,3)
  by (auto simp: pslot_def pwf_full_iff nth_list_update split: if_splits)

lemma rep_pused:
  assumes "rep F R rd path (FullNode cs fl) (PFull ps)"
  shows "length cs = length ps" "i < length cs \<Longrightarrow> rep F R rd (path @ [word_of_nat i]) (cs ! i) (ps ! i)"
    "i < length cs \<Longrightarrow> cs ! i = NilNode \<longleftrightarrow> ps ! i = PNil"
proof -
  show l: "length cs = length ps" using assms by (auto elim: rep_FullE)
  show r: "rep F R rd (path @ [word_of_nat i]) (cs ! i) (ps ! i)" if "i < length cs" for i
    using assms that l by (auto elim: rep_FullE)
  show "i < length cs \<Longrightarrow> cs ! i = NilNode \<longleftrightarrow> ps ! i = PNil"
    by (rule rep_not_nil [OF r])
qed

text \<open>Merging a short node with its child.\<close>

lemma rep_merge:
  assumes "rep F R rd (path @ s) n q" "\<not> is_hash n"
  shows "rep F R rd path
           (case n of ShortNode ck cv cfl \<Rightarrow> ShortNode (s @ ck) cv newFlag | _ \<Rightarrow> ShortNode s n newFlag)
           (pjoin s q)"
  using assms(1)
proof (cases rule: rep.cases)
  case (rep_short k m p fl')
  then show ?thesis using rep.rep_short [of F R rd path "s @ k" m p newFlag] new_ok by simp
qed (use assms in \<open>auto intro: rep.rep_short new_ok\<close>)

lemma reduceFull_many:
  assumes "rep F R rd path (FullNode cs fl) (PFull ps)" "pused ps = i # j # zs"
  shows "edit_ok F R rd path p (preduce ps) (reduceFull R rd path cs t)"
proof -
  note r = rep_pused [OF assms(1)]
  have ij: "{i, j} \<subseteq> {i. i < length ps \<and> ps ! i \<noteq> PNil}" "i \<noteq> j"
    using set_pused [of ps] distinct_pused [of ps] assms(2) by auto
  then have "singlePos 0 (-1) cs = -2"
    using r singlePos_many [of i cs j 0] singlePos_many [of j cs i 0] by (cases i j rule: linorder_cases) auto
  then have "reduceFull R rd path cs t = (Inr (True, FullNode cs newFlag), t)"
    by (simp add: reduceFull_def)
  moreover have "rep F R rd path (FullNode cs newFlag) (PFull ps)"
    by (rule rep.rep_full) (use r new_ok in auto)
  ultimately show ?thesis by (auto simp: edit_ok_def preduce_def assms(2))
qed

lemma reduceFull_one:
  assumes rp: "rep F R rd path (FullNode cs fl) (PFull ps)" and u: "pused ps = [i]"
    and l: "length ps = 17" and sl: "pslot i (ps ! i)"
  shows "edit_ok F R rd path p (preduce ps) (reduceFull R rd path cs t)"
proof -
  note r = rep_pused [OF rp]
  have i: "i < 17" "ps ! i \<noteq> PNil" "\<And>k. k < 17 \<Longrightarrow> k \<noteq> i \<Longrightarrow> ps ! k = PNil"
    using set_pused [of ps] u l by auto
  have pos: "singlePos 0 (-1) cs = int i"
    using r i l singlePos_one [of i cs 0] by simp
  have ci: "rep F R rd (path @ [word_of_nat i]) (cs ! i) (ps ! i)" using r i l by simp
  let ?one = "ShortNode [word_of_nat i] (cs ! i) newFlag"
  have one: "rep F R rd path ?one (PShort [word_of_nat i] (ps ! i))" using ci new_ok by (rule rep.rep_short)
  have pr: "preduce ps = pjoin [word_of_nat i] (ps ! i)" by (simp add: preduce_def u)
  show ?thesis
  proof (cases "i = 16")
    case True
    then obtain v where "ps ! i = PVal v" using sl by (auto simp: pslot_def)
    then show ?thesis using one True pos by (auto simp: edit_ok_def pr reduceFull_def)
  next
    case False
    obtain c t1 where c: "resolve R rd (cs ! i) (path @ [word_of_nat i]) t = (Inr c, t1)"
      "rep F R rd (path @ [word_of_nat i]) c (ps ! i)" "\<not> is_hash c"
      using resolve_refines [OF ci] by blast
    have "reduceFull R rd path cs t =
      (case c of ShortNode ck cv cfl \<Rightarrow>
         (Inr (True, ShortNode (word_of_nat i # ck) cv newFlag), onDelete (path @ [word_of_nat i]) t1)
       | _ \<Rightarrow> (Inr (True, ?one), t1))"
      using False c(1) pos by (simp add: reduceFull_def Let_def bindS_apply split: node.split)
    note eq = this
    from False sl have "pwf (ps ! i)" by (simp add: pslot_def)
    then consider s q where "ps ! i = PShort s q" | qs where "ps ! i = PFull qs"
      by (cases rule: pwf.cases) auto
    then show ?thesis
    proof cases
      case 1
      obtain cv cfl where "c = ShortNode s cv cfl" "rep F R rd (path @ [word_of_nat i] @ s) cv q"
        using rep_not_hash_cases(1) [OF c(2,3) 1] by auto
      then show ?thesis
        using rep.rep_short [of F R rd path "word_of_nat i # s" cv q newFlag] new_ok
        by (auto simp: edit_ok_def pr eq 1)
    next
      case 2
      obtain cs' cfl where "c = FullNode cs' cfl" using rep_not_hash_cases(2) [OF c(2,3) 2] by auto
      then show ?thesis using one by (auto simp: edit_ok_def pr eq 2)
    qed
  qed
qed

lemma pused2_update:
  assumes "pwf (PFull ps)" "q \<noteq> PNil"
  shows "2 \<le> length (pused (ps[i := q]))"
proof -
  obtain j k where "j \<noteq> k" "j < length ps" "k < length ps" "ps ! j \<noteq> PNil" "ps ! k \<noteq> PNil"
    using assms(1) by (auto simp: pwf_full_iff pused2_iff)
  moreover have "ps[i := q] ! m \<noteq> PNil" if "m < length ps" "ps ! m \<noteq> PNil" for m
    using that assms(2) by (cases "i = m") auto
  ultimately show ?thesis by (intro pused2_I [of j k]) auto
qed

lemma preduce_used2: "2 \<le> length (pused ps) \<Longrightarrow> preduce ps = PFull ps"
  by (auto simp: preduce_def split: list.splits)

text \<open>The branch that is left when a slot has been emptied.\<close>

lemma reduceFull_refines:
  assumes rp: "rep F R rd path (FullNode cs fl) (PFull (ps[unat b := pdelete (ps ! unat b) r]))"
    and w: "pwf (PFull ps)" and h: "hexkey (b # r)"
  shows "edit_ok F R rd path p (preduce (ps[unat b := pdelete (ps ! unat b) r])) (reduceFull R rd path cs t)"
    (is "edit_ok _ _ _ _ _ (preduce ?ps) _")
proof (cases "pused ?ps" rule: remdups_adj.cases)
  case 1
  then show ?thesis using pused_update [OF w] by simp
next
  case (2 i)
  have i: "i < 17" "?ps ! i \<noteq> PNil" using set_pused [of ?ps] w by (auto simp: 2 pwf_full_iff)
  then show ?thesis
    using reduceFull_one [OF rp 2] pdelete_slots [OF w h, of i] w by (simp add: pwf_full_iff)
next
  case (3 i j zs)
  then show ?thesis by (rule reduceFull_many [OF rp])
qed

lemma delete_refines:
  assumes "rep F R rd path n p" "pok p key" "need n key \<le> fuel"
  shows "edit_ok F R rd path p (pdelete p key) (trie_delete R rd fuel n path key t)"
  using assms
proof (induction arbitrary: key fuel t rule: rep.induct)
  case (rep_nil path)
  obtain f where f: "fuel = Suc f" using need_pos [OF rep_nil(2)] by blast
  then show ?case by (auto simp: edit_ok_def intro: rep.rep_nil)
next
  case (rep_value path u)
  obtain f where f: "fuel = Suc f" using need_pos [OF rep_value(2)] by blast
  then show ?case by (auto simp: edit_ok_def intro: rep.rep_nil)
next
  case (rep_short path s n p fl)
  obtain f where f: "fuel = Suc f" using need_pos [OF rep_short.prems(2)] by blast
  have w: "pwf (PShort s p)" "hexkey key"
    using rep_short.prems(1) by (auto simp: pok_def split: if_splits)
  from w show ?case
  proof (cases rule: short_cases)
    case (differ u a s' b r)
    then show ?thesis
      using rep.rep_short [OF rep_short.hyps] by (auto simp: f Let_def edit_ok_def)
  next
    case (leaf u)
    then show ?thesis by (auto simp: f Let_def edit_ok_def bindS_apply intro: rep.rep_nil)
  next
    case (ext ps r)
    then have o: "pok p r" and r: "r \<noteq> []" by (cases "r = []"; auto simp: pok_def)+
    have "need n r \<le> f"
      using need_child [of "ShortNode s n fl" key f r n] rep_short.prems(2) ext by (simp add: f)
    then obtain d n' t' where
      g: "trie_delete R rd f n (path @ s) r t = (Inr (d, n'), t')"
      "rep F R rd (path @ s) n' (pdelete p r)" "d \<longrightarrow> \<not> is_hash n'" "\<not> d \<longrightarrow> pdelete p r = p"
      using rep_short.IH [OF o] by (metis edit_okE)
    let ?m = "case n' of ShortNode ck cv cfl \<Rightarrow> ShortNode (s @ ck) cv newFlag
                       | _ \<Rightarrow> ShortNode s n' newFlag"
    let ?t = "case n' of ShortNode ck cv cfl \<Rightarrow> onDelete (path @ s) t' | _ \<Rightarrow> t'"
    have eq: "trie_delete R rd fuel (ShortNode s n fl) path key t =
      (if \<not> d then (Inr (False, ShortNode s n fl), t') else (Inr (True, ?m), ?t))"
      using ext r by (cases d; cases n') (simp_all add: f Let_def bindS_apply g(1))
    have pd: "pdelete (PShort s p) key = pjoin s (pdelete p r)" using ext r by (simp add: Let_def)
    show ?thesis
    proof (cases d)
      case True
      then show ?thesis
        using rep_merge [OF g(2)] g(3)
        unfolding pd eq by (auto simp: edit_ok_def split: node.splits)
    next
      case False
      then show ?thesis
        using g(4) rep.rep_short [OF rep_short.hyps] ext unfolding pd eq by (auto simp: edit_ok_def)
    qed
  qed
next
  case (rep_full cs ps path fl)
  obtain f where f: "fuel = Suc f" using need_pos [OF rep_full.prems(2)] by blast
  obtain b r where k: "key = b # r" and w: "pwf (PFull ps)" "hexkey (b # r)"
    using rep_full.prems(1) by (cases key) (auto simp: pok_def)
  note o = pok_full [OF w]
  have "need (cs ! unat b) r \<le> f"
    using need_child [of "FullNode cs fl" key f r] rep_full.prems(2) f by (simp add: k)
  then obtain d n' t' where
    g: "trie_delete R rd f (cs ! unat b) (path @ [b]) r t = (Inr (d, n'), t')"
    "rep F R rd (path @ [b]) n' (pdelete (ps ! unat b) r)"
    "\<not> d \<longrightarrow> pdelete (ps ! unat b) r = ps ! unat b"
    using rep_full.IH [OF _ o(2), of f t] o(1) rep_full.hyps(1) by (auto elim!: edit_okE)
  let ?ps = "ps[unat b := pdelete (ps ! unat b) r]"
  have fr: "rep F R rd path (FullNode cs fl) (PFull ps)"
    using rep_full.hyps by (rule rep.rep_full)
  have up: "rep F R rd path (FullNode (cs[unat b := n']) newFlag) (PFull ?ps)"
    by (rule rep_full_update [OF fr g(2) new_ok])
  have eq: "trie_delete R rd fuel (FullNode cs fl) path key t =
    (if \<not> d then (Inr (False, FullNode cs fl), t')
     else if n' \<noteq> NilNode then (Inr (True, FullNode (cs[unat b := n']) newFlag), t')
     else reduceFull R rd path (cs[unat b := n']) t')"
    using o(1) rep_full.hyps(1) by (simp add: f k bindS_apply g(1) Let_def)
  have pd: "pdelete (PFull ps) key = preduce ?ps" using o(1) by (simp add: k)
  show ?case
  proof (cases "d \<and> n' = NilNode")
    case True
    then show ?thesis unfolding pd eq using reduceFull_refines [OF up] w o(2) k by simp
  next
    case False
    have "preduce ?ps = PFull ?ps"
    proof (cases d)
      case False
      then show ?thesis using g(3) w by (simp add: preduce_used2 pwf_full_iff)
    next
      case True
      with False have "pdelete (ps ! unat b) r \<noteq> PNil" using rep_not_nil [OF g(2)] by simp
      then show ?thesis by (intro preduce_used2 pused2_update w)
    qed
    with False show ?thesis
      using up fr g(3) unfolding pd eq by (auto simp: edit_ok_def)
  qed
next
  case (rep_hash path h n p)
  obtain f where f: "fuel = Suc f" using need_pos [OF rep_hash.prems(2)] by blast
  obtain t1 where t1: "resolveAndTrack R rd h path t = (Inr n, t1)"
    using rep_hash.hyps(1) by (rule resolveAndTrack_Inr)
  have "need n key \<le> f"
    using need_resolved [of h _ f n] rep_hash.prems(2) resolves_not_hash [OF rep_hash.hyps(1)]
    by (simp add: f)
  then obtain d n' t' where
    g: "trie_delete R rd f n path key t1 = (Inr (d, n'), t')"
    "rep F R rd path n' (pdelete p key)" "d \<longrightarrow> \<not> is_hash n'" "\<not> d \<longrightarrow> pdelete p key = p"
    using rep_hash.IH [OF rep_hash.prems(1), of f t1] by (metis edit_okE)
  have "trie_delete R rd fuel (HashNode h) path key t = (Inr (d, if d then n' else n), t')"
    by (simp add: f bindS_apply t1 g(1))
  then show ?case
    by (rule edit_okI) (use g rep_hash.hyps in auto)
qed

end

interpretation any: flag_policy "\<lambda>_ _ _. True"
  by unfold_locales simp

end
