(* ===== verification/Trie_Map.thy ===== *)
theory Trie_Map
  imports Trie_Refine
begin

text \<open>
  The trie as a finite map. \<open>trie_abs R t m\<close> says that the trie \<open>t\<close> is canonical, that all its nodes
  are in the store, and that it holds the map \<open>m\<close> from keys to non-empty values (\<open>trie_holds F\<close> adds what \<open>F\<close>
  says of the cached flags). \<^verbatim>\<open>Get\<close>, \<^verbatim>\<open>Update\<close> and
  \<^verbatim>\<open>Delete\<close> of \<^verbatim>\<open>src/trie/trie.go\<close> are then lookup, update and removal.

  The locale \<open>kv_store\<close> is what the account code relies on: a store that a lookup does not change and
  in which an update is seen by the lookups that follow. It is interpreted by the trie.
\<close>

text \<open>A canonical trie that holds the hex forms of byte keys only; it is determined by its contents.\<close>

definition canon :: "ptrie \<Rightarrow> bool" where
  "canon p \<longleftrightarrow> (p = PNil \<or> pwf p) \<and> (\<forall>k. hexkey k \<and> pget p k \<noteq> None \<longrightarrow> k \<in> range keybytesToHex)"

lemma canon_pwf: "canon p \<Longrightarrow> p = PNil \<or> pwf p"
  by (simp add: canon_def)

lemma canon_ext:
  assumes "canon p" "canon q" "\<And>k. pget p (keybytesToHex k) = pget q (keybytesToHex k)"
  shows "p = q"
proof (rule pget_ext)
  fix k assume k: "hexkey k"
  show "pget p k = pget q k"
  proof (cases "k \<in> range keybytesToHex")
    case False
    then have "pget p k = None" "pget q k = None" using assms(1,2) k by (auto simp: canon_def)
    then show ?thesis by simp
  qed (use assms(3) in auto)
qed (use assms(1,2) in \<open>simp_all add: canon_def\<close>)

definition trie_holds :: "flag_pred \<Rightarrow> rlp_lib \<Rightarrow> Trie \<Rightarrow> (bytes \<rightharpoonup> bytes) \<Rightarrow> bool" where
  "trie_holds F R t m \<longleftrightarrow>
     (\<exists>p. rep F R (reader t) [] (root t) p \<and> canon p \<and> m = (\<lambda>k. pget p (keybytesToHex k)))"

definition trie_abs :: "rlp_lib \<Rightarrow> Trie \<Rightarrow> (bytes \<rightharpoonup> bytes) \<Rightarrow> bool" where
  "trie_abs = trie_holds (\<lambda>_ _ _. True)"

lemma trie_holdsI:
  "rep F R (reader t) [] (root t) p \<Longrightarrow> canon p \<Longrightarrow>
     trie_holds F R t (\<lambda>k. pget p (keybytesToHex k))"
  unfolding trie_holds_def by blast

lemma trie_holdsE:
  assumes "trie_holds F R t m"
  obtains p where "rep F R (reader t) [] (root t) p" "canon p"
    "m = (\<lambda>k. pget p (keybytesToHex k))"
  using assms unfolding trie_holds_def by blast

lemma trie_holds_abs: "trie_holds F R t m \<Longrightarrow> trie_abs R t m"
  unfolding trie_abs_def trie_holds_def by (elim exE conjE) (intro exI conjI, erule rep_mono, auto)

lemma pok_hexkey: "canon p \<Longrightarrow> hexkey k \<Longrightarrow> pok p k"
  by (auto simp: pok_def canon_def)

lemma pok_hex: "canon p \<Longrightarrow> pok p (keybytesToHex k)"
  by (rule pok_hexkey) simp_all

lemma canon_PNil [simp]: "canon PNil"
  by (simp add: canon_def)

lemma canon_pinsert:
  assumes "canon p" "v \<noteq> []"
  shows "canon (pinsert p (keybytesToHex key) (PVal v))"
  unfolding canon_def
proof (intro conjI allI impI; (elim conjE)?)
  show "pinsert p (keybytesToHex key) (PVal v) = PNil \<or> pwf (pinsert p (keybytesToHex key) (PVal v))"
    using pinsert_pok [OF pok_hex [OF assms(1)] assms(2), of key] by simp
  fix k assume k: "hexkey k" "pget (pinsert p (keybytesToHex key) (PVal v)) k \<noteq> None"
  then show "k \<in> range keybytesToHex"
    using pget_pinsert [OF pok_hex [OF assms(1)] pok_hexkey [OF assms(1) k(1)], of key] assms(1)
    by (cases "k = []") (auto simp: canon_def split: if_splits)
qed

lemma canon_pdelete:
  assumes "canon p"
  shows "canon (pdelete p (keybytesToHex key))"
  unfolding canon_def
proof (intro conjI allI impI; (elim conjE)?)
  show "pdelete p (keybytesToHex key) = PNil \<or> pwf (pdelete p (keybytesToHex key))"
    using pdelete_pok [OF pok_hex [OF assms], of key] by simp
  fix k assume k: "hexkey k" "pget (pdelete p (keybytesToHex key)) k \<noteq> None"
  then show "k \<in> range keybytesToHex"
    using pget_pdelete [OF pok_hex [OF assms] pok_hexkey [OF assms k(1)], of key] assms
    by (cases "k = []") (auto simp: canon_def split: if_splits)
qed

lemma need_fuel: "need n hex \<le> trie_fuel hex"
  by (simp add: need_def trie_fuel_def)

lemma keybytesToHex_eq [simp]: "keybytesToHex a = keybytesToHex b \<longleftrightarrow> a = b"
  using keybytesToHex_inj by blast

lemma trie_holds_unique: "trie_holds F R t m \<Longrightarrow> trie_holds G R t m' \<Longrightarrow> m = m'"
  unfolding trie_holds_def using rep_fun by blast

lemma trie_holds_empty: "root t = NilNode \<Longrightarrow> trie_holds F R t Map.empty"
  using trie_holdsI [of F R t PNil] by (simp add: rep.rep_nil)

lemma trie_abs_empty: "root t = NilNode \<Longrightarrow> trie_abs R t Map.empty"
  unfolding trie_abs_def by (rule trie_holds_empty)

text \<open>A value held is never the empty slice, so that \<^verbatim>\<open>nil\<close> means absent.\<close>

lemma pget_not_empty: "pwf p \<Longrightarrow> pget p k = Some v \<Longrightarrow> v \<noteq> []"
proof (induction p arbitrary: k)
  case (PFull ps)
  then obtain b r where k: "k = b # r" and b: "unat b < length ps" "pget (ps ! unat b) r = Some v"
    by (cases k) (auto split: if_splits)
  then have "pslot (unat b) (ps ! unat b)"
    using PFull.prems(1) by (auto simp: pwf_full_iff)
  then show ?case
    using PFull.IH [OF nth_mem [OF b(1)]] b(2) by (auto simp: pslot_def split: if_splits)
next
  case (PShort s p)
  then show ?case by (auto simp: pwf_short_iff split: if_splits)
qed auto

lemma trie_holds_not_empty: "trie_holds F R t m \<Longrightarrow> m k \<noteq> Some []"
  by (auto simp: trie_holds_def dest!: canon_pwf dest: pget_not_empty)

section \<open>The operations\<close>

context flag_policy
begin

lemma Get_law:
  assumes "trie_holds F R t m"
  shows "\<exists>t'. Get R t key = (Inr (m key), t') \<and> trie_holds F R t' m \<and> reader t' = reader t"
proof -
  let ?k = "keybytesToHex key"
  obtain p where p: "rep F R (reader t) [] (root t) p" "canon p"
    "m = (\<lambda>k. pget p (keybytesToHex k))"
    using assms by (rule trie_holdsE)
  have "get_ok F R (reader t) [] p (root t) (pget p (drop 0 ?k))
          (trie_get R (reader t) (trie_fuel ?k) (root t) ?k 0 (tr_tracer t))"
    by (rule get_refines [OF p(1)]) (use p(2) pok_hex need_fuel in auto)
  then obtain n' d tr where g: "trie_get R (reader t) (trie_fuel ?k) (root t) ?k 0 (tr_tracer t) =
      (Inr (m key, n', d), tr)" "rep F R (reader t) [] n' p"
    unfolding p(3) drop_0 by (rule get_okE)
  let ?t = "t\<lparr>tr_tracer := tr, root := if d then n' else root t\<rparr>"
  have "trie_holds F R ?t m" unfolding p(3) by (rule trie_holdsI) (use p g in auto)
  then show ?thesis using g(1) by (simp add: Get_def)
qed

lemma edit_law:
  assumes "edit_ok F R (reader t) [] p p' (result, tr)" "canon p'"
  shows "\<exists>d n. result = Inr (d, n) \<and>
           trie_holds F R (t\<lparr>unhashed := u, tr_tracer := tr, root := n\<rparr>) (\<lambda>k. pget p' (keybytesToHex k))"
proof -
  obtain d n where "result = Inr (d, n)" "rep F R (reader t) [] n p'"
    using assms(1) by (auto simp: edit_ok_def)
  moreover have "trie_holds F R (t\<lparr>unhashed := u, tr_tracer := tr, root := n\<rparr>) (\<lambda>k. pget p' (keybytesToHex k))"
    by (rule trie_holdsI) (use calculation assms(2) in auto)
  ultimately show ?thesis by blast
qed

lemma delete_law:
  assumes "trie_holds F R t m"
  shows "\<exists>d n tr. trie_delete R (reader t) (trie_fuel (keybytesToHex key)) (root t) []
             (keybytesToHex key) (tr_tracer t) = (Inr (d, n), tr) \<and>
           trie_holds F R (t\<lparr>unhashed := u, tr_tracer := tr, root := n\<rparr>) (m(key := None))"
proof -
  let ?k = "keybytesToHex key"
  obtain p where p: "rep F R (reader t) [] (root t) p" "canon p"
    "m = (\<lambda>k. pget p (keybytesToHex k))"
    using assms by (rule trie_holdsE)
  obtain result tr where r: "trie_delete R (reader t) (trie_fuel ?k) (root t) [] ?k (tr_tracer t) = (result, tr)"
    by fastforce
  have "(\<lambda>k. pget (pdelete p ?k) (keybytesToHex k)) = m(key := None)"
    using pget_pdelete [OF pok_hex [OF p(2)] pok_hex [OF p(2)]] by (auto simp: p(3) fun_eq_iff)
  moreover have "edit_ok F R (reader t) [] p (pdelete p ?k) (result, tr)"
    unfolding r [symmetric] by (rule delete_refines [OF p(1) pok_hex [OF p(2)] need_fuel])
  moreover have "canon (pdelete p ?k)" by (rule canon_pdelete [OF p(2)])
  ultimately show ?thesis using edit_law [of R t p "pdelete p ?k" result tr u] r by fastforce
qed

lemma insert_law:
  assumes "trie_holds F R t m" "v \<noteq> []"
  shows "\<exists>d n tr. trie_insert R (reader t) (trie_fuel (keybytesToHex key)) (root t) []
             (keybytesToHex key) (ValueNode v) (tr_tracer t) = (Inr (d, n), tr) \<and>
           trie_holds F R (t\<lparr>unhashed := u, tr_tracer := tr, root := n\<rparr>) (m(key \<mapsto> v))"
proof -
  let ?k = "keybytesToHex key"
  obtain p where p: "rep F R (reader t) [] (root t) p" "canon p"
    "m = (\<lambda>k. pget p (keybytesToHex k))"
    using assms(1) by (rule trie_holdsE)
  obtain result tr where
    r: "trie_insert R (reader t) (trie_fuel ?k) (root t) [] ?k (ValueNode v) (tr_tracer t) = (result, tr)"
    by fastforce
  have "(\<lambda>k. pget (pinsert p ?k (PVal v)) (keybytesToHex k)) = m(key \<mapsto> v)"
    using pget_pinsert [OF pok_hex [OF p(2)] pok_hex [OF p(2)]] by (auto simp: p(3) fun_eq_iff)
  moreover have "edit_ok F R (reader t) [] p (pinsert p ?k (PVal v)) (result, tr)"
    unfolding r [symmetric] by (rule insert_refines [OF p(1) pok_hex [OF p(2)] need_fuel assms(2)])
  moreover have "canon (pinsert p ?k (PVal v))" by (rule canon_pinsert [OF p(2) assms(2)])
  ultimately show ?thesis using edit_law [of R t p "pinsert p ?k (PVal v)" result tr u] r by fastforce
qed

lemma Update_law:
  assumes "trie_holds F R t m"
  shows "\<exists>t'. Update R t key v = (Inr (), t') \<and> trie_holds F R t' (m(key := if v = [] then None else Some v)) \<and>
           reader t' = reader t"
proof (cases "v = []")
  case True
  then show ?thesis using delete_law [OF assms, of key "unhashed t + 1"] by (auto simp: Update_def Let_def)
next
  case False
  then show ?thesis using insert_law [OF assms False, of key "unhashed t + 1"] by (auto simp: Update_def Let_def)
qed

lemma Delete_law:
  assumes "trie_holds F R t m"
  shows "\<exists>t'. Delete R t key = (Inr (), t') \<and> trie_holds F R t' (m(key := None)) \<and> reader t' = reader t"
  using delete_law [OF assms, of key "unhashed t + 1"] by (auto simp: Delete_def Let_def)

end

section \<open>The interface of a key-value store\<close>

text \<open>Writing a list of entries, as the loops over \<^verbatim>\<open>st.Update\<close> do: the error that a write may return is
  not looked at.\<close>

fun put_all :: "('s \<Rightarrow> 'k \<Rightarrow> 'v \<Rightarrow> unit res \<times> 's) \<Rightarrow> 's \<Rightarrow> ('k \<times> 'v) list \<Rightarrow> 's" where
  "put_all put s [] = s"
| "put_all put s ((k, v) # kvs) = put_all put (snd (put s k v)) kvs"

locale kv_store =
  fixes abs :: "'s \<Rightarrow> ('k \<rightharpoonup> 'v) \<Rightarrow> bool"
    and get :: "'s \<Rightarrow> 'k \<Rightarrow> 'v option res \<times> 's"
    and put :: "'s \<Rightarrow> 'k \<Rightarrow> 'v \<Rightarrow> unit res \<times> 's"
    and storable :: "'v \<Rightarrow> bool"
  assumes get_law: "abs s m \<Longrightarrow> \<exists>s'. get s k = (Inr (m k), s') \<and> abs s' m"
    and put_law: "abs s m \<Longrightarrow> storable v \<Longrightarrow> \<exists>s'. put s k v = (Inr (), s') \<and> abs s' (m(k \<mapsto> v))"
    and abs_fun: "abs s m \<Longrightarrow> abs s m' \<Longrightarrow> m = m'"
begin

lemma get_put:
  assumes "abs s m" "storable v"
  shows "fst (get (snd (put s k v)) k') = Inr (if k' = k then Some v else m k')"
proof -
  obtain s' where s': "put s k v = (Inr (), s')" "abs s' (m(k \<mapsto> v))"
    using put_law [OF assms, of k] by blast
  then show ?thesis using get_law [OF s'(2), of k'] by auto
qed

lemma abs_put_all:
  assumes "abs s m" "\<forall>(k, v)\<in>set kvs. storable v"
  shows "abs (put_all put s kvs) (m ++ map_of (rev kvs))"
  using assms
proof (induction kvs arbitrary: s m)
  case (Cons kv kvs)
  obtain k v where kv: "kv = (k, v)" by (cases kv)
  with Cons.prems obtain s' where s': "put s k v = (Inr (), s')" "abs s' (m(k \<mapsto> v))"
    using put_law [of s m v k] by auto
  have eq: "m(k \<mapsto> v) ++ map_of (rev kvs) = m ++ map_of (rev (kv # kvs))"
    by (auto simp: kv map_add_def fun_eq_iff split: option.splits)
  have "abs (put_all put s' kvs) (m(k \<mapsto> v) ++ map_of (rev kvs))"
    by (rule Cons.IH [OF s'(2)]) (use Cons.prems(2) in auto)
  then show ?case unfolding eq by (simp only: kv put_all.simps s'(1) snd_conv)
qed simp

lemma get_put_all:
  assumes "abs s m" "\<forall>(k, v)\<in>set kvs. storable v"
  shows "fst (get (put_all put s kvs) k) = Inr ((m ++ map_of (rev kvs)) k)"
  using get_law [OF abs_put_all [OF assms], of k] by auto

end

sublocale flag_policy \<subseteq> kv: kv_store "trie_holds F R" "Get R" "Update R" "\<lambda>v. v \<noteq> []" for R
proof
  fix s m k v
  show "\<exists>s'. Get R s k = (Inr (m k), s') \<and> trie_holds F R s' m" if "trie_holds F R s m"
    using Get_law [OF that] by blast
  show "\<exists>s'. Update R s k v = (Inr (), s') \<and> trie_holds F R s' (m(k \<mapsto> v))"
    if "trie_holds F R s m" "v \<noteq> []"
    using Update_law [OF that(1), of k v] that(2) by auto
qed (rule trie_holds_unique)

section \<open>Properties\<close>

definition rlp0 :: rlp_lib where
  "rlp0 = \<lparr>SplitList = (\<lambda>_. None), CountValues = (\<lambda>_. 0), SplitString = (\<lambda>_. None),
     Split = (\<lambda>_. None), WriteBytes = (\<lambda>b. b), WriteList = (\<lambda>b. b), EmptyString = []\<rparr>"

definition trie0 :: Trie where
  "trie0 = \<lparr>root = NilNode, owner = replicate 32 0, unhashed = 0, reader = newEmptyReader,
     tr_tracer = newTracer\<rparr>"

text \<open>C1. \<^verbatim>\<open>Trie.Update\<close> on a trie that holds the map \<open>m\<close> succeeds and leaves a canonical trie that holds
  \<open>m\<close> with the key bound to the value, or with the key removed when the value is empty; no other
  key is touched. It neither panics, nor misses a node, nor runs out of fuel.\<close>

theorem Update_correct:
  assumes "trie_abs R t m"
  shows "fst (Update R t key v) = Inr () \<and>
         trie_abs R (snd (Update R t key v)) (m(key := if v = [] then None else Some v))"
  using any.Update_law [OF assms [unfolded trie_abs_def], of key v] by (auto simp: trie_abs_def)

theorem Update_correct_witness:
  "trie_abs rlp0 trie0 Map.empty \<and> fst (Update rlp0 trie0 [0x12, 0x34] [7]) = Inr () \<and>
   root (snd (Update rlp0 trie0 [0x12, 0x34] [7])) = ShortNode [1, 2, 3, 4, 16] (ValueNode [7]) newFlag"
proof -
  have "trie_abs rlp0 trie0 Map.empty" by (rule trie_abs_empty) (simp add: trie0_def)
  moreover have "fst (Update rlp0 trie0 [0x12, 0x34] [7]) = Inr ()"
    using Update_correct [OF calculation, of "[0x12, 0x34]" "[7]"] by blast
  moreover have "root (snd (Update rlp0 trie0 [0x12, 0x34] [7])) =
      ShortNode [1, 2, 3, 4, 16] (ValueNode [7]) newFlag"
    by code_simp
  ultimately show ?thesis by blast
qed

text \<open>C4. \<^verbatim>\<open>Trie.Get\<close> returns what the trie holds under the key (nil when it holds nothing) and does not
  change the contents, also when it loads nodes from the store on the way.\<close>

theorem Get_correct:
  assumes "trie_abs R t m"
  shows "fst (Get R t key) = Inr (m key) \<and> trie_abs R (snd (Get R t key)) m"
  using any.Get_law [OF assms [unfolded trie_abs_def], of key] by (auto simp: trie_abs_def)

theorem Get_correct_witness:
  "fst (Get rlp0 (snd (Update rlp0 (snd (Update rlp0 trie0 [0x12, 0x34] [7])) [0x12, 0x56] [9])) [0x12, 0x34])
     = Inr (Some [7])"
proof -
  have "trie_abs rlp0 trie0 Map.empty" by (rule trie_abs_empty) (simp add: trie0_def)
  then obtain t1 where t1: "Update rlp0 trie0 [0x12, 0x34] [7] = (Inr (), t1)"
    "trie_abs rlp0 t1 [[0x12, 0x34] \<mapsto> [7]]"
    using any.Update_law [folded trie_abs_def, of rlp0 trie0 Map.empty "[0x12, 0x34]" "[7]"] by auto
  then obtain t2 where t2: "Update rlp0 t1 [0x12, 0x56] [9] = (Inr (), t2)"
    "trie_abs rlp0 t2 ([[0x12, 0x34] \<mapsto> [7], [0x12, 0x56] \<mapsto> [9]])"
    using any.Update_law [folded trie_abs_def, of rlp0 t1 _ "[0x12, 0x56]" "[9]"] by auto
  show ?thesis using Get_correct [OF t2(2), of "[0x12, 0x34]"] by (simp add: t1(1) t2(1))
qed

text \<open>C5. \<^verbatim>\<open>Trie.Delete\<close> removes exactly the key: the trie stays canonical and every other key keeps its
  value.\<close>

theorem Delete_correct:
  assumes "trie_abs R t m"
  shows "fst (Delete R t key) = Inr () \<and> trie_abs R (snd (Delete R t key)) (m(key := None))"
  using any.Delete_law [OF assms [unfolded trie_abs_def], of key] by (auto simp: trie_abs_def)

theorem Delete_correct_witness:
  "fst (Delete rlp0 (snd (Update rlp0 trie0 [0x12] [7])) [0x12]) = Inr () \<and>
   trie_abs rlp0 (snd (Delete rlp0 (snd (Update rlp0 trie0 [0x12] [7])) [0x12])) Map.empty"
proof -
  have "trie_abs rlp0 trie0 Map.empty" by (rule trie_abs_empty) (simp add: trie0_def)
  then obtain t1 where t1: "Update rlp0 trie0 [0x12] [7] = (Inr (), t1)" "trie_abs rlp0 t1 [[0x12] \<mapsto> [7]]"
    using any.Update_law [folded trie_abs_def, of rlp0 trie0 Map.empty "[0x12]" "[7]"] by auto
  then show ?thesis using Delete_correct [OF t1(2), of "[0x12]"] by simp
qed

text \<open>After a batch of updates, as the account code writes them, a lookup returns the last value
  written under its key, and what was there before for a key not written.\<close>

theorem updates_then_get:
  assumes "trie_abs R t m" "\<forall>(k, v)\<in>set kvs. v \<noteq> []"
  shows "fst (Get R (put_all (Update R) t kvs) key) = Inr ((m ++ map_of (rev kvs)) key)"
  using assms unfolding trie_abs_def by (rule any.kv.get_put_all)

theorem updates_then_get_witness:
  "fst (Get rlp0 (put_all (Update rlp0) trie0 [([0x12], [7]), ([0x34], [8]), ([0x12], [9])]) [0x12])
     = Inr (Some [9])"
proof -
  have "trie_abs rlp0 trie0 Map.empty" by (rule trie_abs_empty) (simp add: trie0_def)
  from updates_then_get [OF this, of "[([0x12], [7]), ([0x34], [8]), ([0x12], [9])]" "[0x12]"]
  show ?thesis by simp
qed

end
