(* ===== verification/Trie_Raw.thy ===== *)
theory Trie_Raw
  imports Trie_Node
begin

text \<open>
  The stripped nodes of \<^verbatim>\<open>src/trie/database.go\<close> (\<^verbatim>\<open>rawNode\<close>, \<^verbatim>\<open>rawFullNode\<close>, \<^verbatim>\<open>rawShortNode\<close>), their
  encoding of \<^verbatim>\<open>src/trie/node_enc.go\<close>, and the conversions \<^verbatim>\<open>simplifyNode\<close> and \<^verbatim>\<open>expandNode\<close>. The main
  lemma is that decoding the encoding of a stripped node gives its expansion, so that a node read
  from the memory cache and one read from disk agree. It rests on \<open>rlp_ok\<close>, what is relied on of the
  RLP library.
\<close>

section \<open>Stripped nodes\<close>

datatype rnode =
    RawNil
  | RawFull "rnode list"
  | RawShort bytes rnode
  | RawHash bytes
  | RawValue bytes
  | RawNode bytes

text \<open>A stripped node keeps \<^verbatim>\<open>hashNode\<close> and \<^verbatim>\<open>valueNode\<close> as they are; \<open>RawNil\<close> is the nil interface.\<close>

fun raw_encode :: "rlp_lib \<Rightarrow> rnode \<Rightarrow> bytes" where
  "raw_encode R RawNil = EmptyString R"
| "raw_encode R (RawFull cs) = WriteList R (concat (map (raw_encode R) cs))"
| "raw_encode R (RawShort k v) = WriteList R (WriteBytes R k @ raw_encode R v)"
| "raw_encode R (RawHash h) = WriteBytes R h"
| "raw_encode R (RawValue v) = WriteBytes R v"
| "raw_encode R (RawNode blob) = blob"

fun simplifyNode :: "node \<Rightarrow> rnode res" where
  "simplifyNode (ShortNode k v fl) = bindR (simplifyNode v) (\<lambda>r. Inr (RawShort k r))"
| "simplifyNode (FullNode cs fl) =
     bindR (mapR (\<lambda>c. if c = NilNode then Inr RawNil else simplifyNode c) cs) (\<lambda>rs. Inr (RawFull rs))"
| "simplifyNode (ValueNode v) = Inr (RawValue v)"
| "simplifyNode (HashNode h) = Inr (RawHash h)"
| "simplifyNode NilNode = Inl Panic"

fun expandNode :: "bytes option \<Rightarrow> rnode \<Rightarrow> node res" where
  "expandNode hash (RawShort k v) =
     bindR (expandNode None v) (\<lambda>n. Inr (ShortNode (compactToHex k) n \<lparr>flag_hash = hash, flag_dirty = False\<rparr>))"
| "expandNode hash (RawFull cs) =
     bindR (mapR (\<lambda>c. if c = RawNil then Inr NilNode else expandNode None c) cs)
       (\<lambda>ns. Inr (FullNode ns \<lparr>flag_hash = hash, flag_dirty = False\<rparr>))"
| "expandNode hash (RawValue v) = Inr (ValueNode v)"
| "expandNode hash (RawHash h) = Inr (HashNode h)"
| "expandNode hash _ = Inl Panic"

text \<open>The hashes a stripped node refers to, in the order of the callbacks.\<close>

fun forGatherChildren :: "rnode \<Rightarrow> bytes list" where
  "forGatherChildren (RawShort k v) = forGatherChildren v"
| "forGatherChildren (RawFull cs) = concat (take 16 (map forGatherChildren cs))"
| "forGatherChildren (RawHash h) = [h]"
| "forGatherChildren _ = []"

section \<open>What is relied on of the RLP library\<close>

definition rlp_ok :: "rlp_lib \<Rightarrow> bool" where
  "rlp_ok R \<longleftrightarrow>
     EmptyString R = WriteBytes R [] \<and>
     (\<forall>s r. SplitString R (WriteBytes R s @ r) = Some (s, r)) \<and>
     (\<forall>s r. \<exists>k. Split R (WriteBytes R s @ r) = Some (k, s, r) \<and> k \<noteq> RList \<and> (length s \<noteq> 1 \<longrightarrow> k = RString)) \<and>
     (\<forall>p r. SplitList R (WriteList R p @ r) = Some (p, r)) \<and>
     (\<forall>p r. Split R (WriteList R p @ r) = Some (RList, p, r)) \<and>
     (\<forall>xs. set xs \<subseteq> range (WriteBytes R) \<union> range (WriteList R) \<longrightarrow> CountValues R (concat xs) = length xs) \<and>
     (\<forall>p. length p < length (WriteList R p))"

lemma rlp_okD:
  assumes "rlp_ok R"
  shows "EmptyString R = WriteBytes R []"
    "SplitString R (WriteBytes R s @ r) = Some (s, r)"
    "\<exists>k. Split R (WriteBytes R s @ r) = Some (k, s, r) \<and> k \<noteq> RList \<and> (length s \<noteq> 1 \<longrightarrow> k = RString)"
    "SplitList R (WriteList R p @ r) = Some (p, r)"
    "Split R (WriteList R p @ r) = Some (RList, p, r)"
    "set xs \<subseteq> range (WriteBytes R) \<union> range (WriteList R) \<Longrightarrow> CountValues R (concat xs) = length xs"
    "length p < length (WriteList R p)"
  using assms unfolding rlp_ok_def by blast+

section \<open>Decoding what was encoded\<close>

text \<open>The stripped nodes that a commit makes: a leaf has a terminated key and a value; another short node
  refers to a hash or an embedded node; a full node has sixteen references and a value slot. An
  embedded node is shorter than 32 bytes.\<close>

fun expand :: "bytes option \<Rightarrow> rnode \<Rightarrow> node" where
  "expand hash (RawShort k v) = ShortNode (compactToHex k) (expand None v) \<lparr>flag_hash = hash, flag_dirty = False\<rparr>"
| "expand hash (RawFull cs) = FullNode (map (expand None) cs) \<lparr>flag_hash = hash, flag_dirty = False\<rparr>"
| "expand hash (RawValue v) = ValueNode v"
| "expand hash (RawHash h) = HashNode h"
| "expand hash _ = NilNode"

inductive rref :: "rlp_lib \<Rightarrow> rnode \<Rightarrow> bool" and rwf :: "rlp_lib \<Rightarrow> rnode \<Rightarrow> bool" for R where
  "length h = 32 \<Longrightarrow> rref R (RawHash h)"
| "rwf R n \<Longrightarrow> length (raw_encode R n) < 32 \<Longrightarrow> rref R n"
| "hasTerm (compactToHex k) \<Longrightarrow> rwf R (RawShort k (RawValue v))"
| "\<not> hasTerm (compactToHex k) \<Longrightarrow> rref R v \<Longrightarrow> rwf R (RawShort k v)"
| "length cs = 16 \<Longrightarrow> (\<And>c. c \<in> set cs \<Longrightarrow> c = RawNil \<or> rref R c) \<Longrightarrow>
   v = RawNil \<or> (\<exists>b. b \<noteq> [] \<and> v = RawValue b) \<Longrightarrow> rwf R (RawFull (cs @ [v]))"

lemma rwf_shape: "rwf R n \<Longrightarrow> (\<exists>k v. n = RawShort k v) \<or> (\<exists>cs. n = RawFull cs)"
  by (auto elim: rwf.cases)

lemma raw_encode_item:
  assumes "rlp_ok R" "n = RawNil \<or> rref R n \<or> (\<exists>v. n = RawValue v)"
  shows "raw_encode R n \<in> range (WriteBytes R) \<union> range (WriteList R)"
  using assms rlp_okD(1) [OF assms(1)] by (auto elim!: rref.cases dest!: rwf_shape)

lemma expandNode_rwf:
  "rref R n \<Longrightarrow> expandNode hash n = Inr (expand hash n)"
  "rwf R n \<Longrightarrow> expandNode hash n = Inr (expand hash n)"
proof (induction arbitrary: hash and hash rule: rref_rwf.inducts)
  case (5 cs v)
  have "mapR (\<lambda>c. if c = RawNil then Inr NilNode else expandNode None c) (cs @ [v]) =
      Inr (map (expand None) (cs @ [v]))"
    by (rule mapR_Inr) (use 5 in auto)
  then show ?case by simp
qed auto

lemma decodeRef_bytes:
  assumes "rlp_ok R"
  shows "length h = 32 \<Longrightarrow> decodeRef R dn (WriteBytes R h @ rest) = Inr (HashNode h, rest)"
    and "decodeRef R dn (EmptyString R @ rest) = Inr (NilNode, rest)"
  using rlp_okD(3) [OF assms, of h rest] rlp_okD(3) [OF assms, of "[]" rest]
  by (auto simp: decodeRef_def rlp_okD(1) [OF assms])

lemma decodeRef_list:
  assumes "rlp_ok R" "rwf R n" "length (raw_encode R n) < 32"
    "dn (raw_encode R n @ rest) = Inr m"
  shows "decodeRef R dn (raw_encode R n @ rest) = Inr (m, rest)"
proof -
  obtain p where p: "raw_encode R n = WriteList R p" using rwf_shape [OF assms(2)] by auto
  then show ?thesis using assms(3,4) by (simp add: decodeRef_def rlp_okD(5) [OF assms(1)])
qed

lemma decodeRefs_correct:
  assumes "\<And>c rest. c \<in> set cs \<Longrightarrow> length (raw_encode R c @ rest) < fuel \<Longrightarrow>
      decodeRef R dn (raw_encode R c @ rest) = Inr (expand None c, rest)"
    and "length (concat (map (raw_encode R) cs) @ rest) < fuel"
  shows "decodeRefs R dn (length cs) (concat (map (raw_encode R) cs) @ rest) = Inr (map (expand None) cs, rest)"
  using assms
proof (induction cs)
  case (Cons c cs)
  have "decodeRefs R dn (length cs) (concat (map (raw_encode R) cs) @ rest) = Inr (map (expand None) cs, rest)"
    by (rule Cons.IH) (use Cons.prems in auto)
  moreover have "decodeRef R dn (raw_encode R c @ concat (map (raw_encode R) cs) @ rest) =
      Inr (expand None c, concat (map (raw_encode R) cs) @ rest)"
    by (rule Cons.prems(1)) (use Cons.prems(2) in auto)
  ultimately show ?case by simp
qed simp

lemma decode_unfold:
  assumes "rlp_ok R" "xs \<noteq> []" "set xs \<subseteq> range (WriteBytes R) \<union> range (WriteList R)"
  shows "decodeNodeUnsafe R (Suc f) hash (WriteList R (concat xs) @ rest) =
    (if length xs = 2 then decodeShort R (decodeNodeUnsafe R f None) hash (concat xs)
     else if length xs = 17 then decodeFull R (decodeNodeUnsafe R f None) hash (concat xs)
     else Inl (ErrMsg ''invalid number of list elements''))"
  using rlp_okD(7) [OF assms(1), of "concat xs"] rlp_okD(6) [OF assms(1,3)]
  by (auto simp: rlp_okD(4) [OF assms(1)] Let_def)

lemma decode_encode:
  assumes R: "rlp_ok R"
  shows "rref R n \<Longrightarrow> length (raw_encode R n @ rest) < fuel \<Longrightarrow>
      decodeRef R (decodeNodeUnsafe R fuel None) (raw_encode R n @ rest) = Inr (expand None n, rest)"
    and "rwf R n \<Longrightarrow> length (raw_encode R n @ rest) < fuel \<Longrightarrow>
      decodeNodeUnsafe R fuel hash (raw_encode R n @ rest) = Inr (expand hash n)"
proof (induction arbitrary: rest fuel and rest fuel hash rule: rref_rwf.inducts)
  case (1 h)
  then show ?case by (simp add: decodeRef_bytes [OF R])
next
  case (2 n)
  then show ?case by (intro decodeRef_list [OF R]) auto
next
  case (3 k v)
  obtain f where f: "fuel = Suc f" using 3(2) by (cases fuel) auto
  show ?case
    using 3(1) decode_unfold [OF R, of "[WriteBytes R k, WriteBytes R v]" f hash rest] rlp_okD(2) [OF R, of v "[]"]
    by (simp add: f decodeShort_def Let_def rlp_okD(2) [OF R])
next
  case (4 k v)
  obtain f where f: "fuel = Suc f" using 4(4) by (cases fuel) auto
  let ?p = "WriteBytes R k @ raw_encode R v"
  have "decodeRef R (decodeNodeUnsafe R f None) (raw_encode R v @ []) = Inr (expand None v, [])"
    using 4(4) rlp_okD(7) [OF R, of ?p] by (intro 4(3)) (simp add: f)
  then show ?case
    using 4(1) decode_unfold [OF R, of "[WriteBytes R k, raw_encode R v]" f hash rest]
      raw_encode_item [OF R, of v] 4(2)
    by (simp add: f decodeShort_def Let_def rlp_okD(2) [OF R])
next
  case (5 cs v)
  obtain f where f: "fuel = Suc f" using 5(4) by (cases fuel) auto
  let ?es = "map (raw_encode R) (cs @ [v])"
  have items: "set ?es \<subseteq> range (WriteBytes R) \<union> range (WriteList R)"
  proof -
    have "raw_encode R c \<in> range (WriteBytes R) \<union> range (WriteList R)" if "c \<in> set (cs @ [v])" for c
      by (rule raw_encode_item [OF R]) (use 5(3) [of c] 5(2) that in auto)
    then show ?thesis unfolding set_map by blast
  qed
  have l: "length (concat ?es) < f" using 5(4) rlp_okD(7) [OF R, of "concat ?es"] by (simp add: f)
  have refs: "decodeRefs R (decodeNodeUnsafe R f None) (length cs)
      (concat (map (raw_encode R) cs) @ raw_encode R v) = Inr (map (expand None) cs, raw_encode R v)"
  proof (rule decodeRefs_correct)
    fix c rest assume "c \<in> set cs" "length (raw_encode R c @ rest) < f"
    then show "decodeRef R (decodeNodeUnsafe R f None) (raw_encode R c @ rest) = Inr (expand None c, rest)"
      using 5(3) [of c] decodeRef_bytes(2) [OF R, of "decodeNodeUnsafe R f None" rest] by auto
  qed (use l in simp)
  have "SplitString R (raw_encode R v) = Some (case v of RawValue b \<Rightarrow> b | _ \<Rightarrow> [], [])"
    using 5(2) rlp_okD(2) [OF R, of _ "[]"] by (auto simp: rlp_okD(1) [OF R])
  then have "decodeFull R (decodeNodeUnsafe R f None) hash (concat ?es) = Inr (expand hash (RawFull (cs @ [v])))"
    using refs 5(1,2) by (auto simp: decodeFull_def)
  then show ?case
    using decode_unfold [OF R _ items, of f hash rest] 5(1) by (simp add: f)
qed

section \<open>An instance of the library\<close>

text \<open>A self-delimiting encoding with the laws: a tag, the bytes each behind a 1, and a closing 0.\<close>

fun unesc :: "bytes \<Rightarrow> (bytes \<times> bytes) option" where
  "unesc (x # xs) =
     (if x = 0 then Some ([], xs)
      else case xs of [] \<Rightarrow> None | b # r \<Rightarrow> map_option (\<lambda>(s, t). (b # s, t)) (unesc r))"
| "unesc [] = None"

definition esc :: "bytes \<Rightarrow> bytes" where
  "esc s = concat (map (\<lambda>b. [1, b]) s) @ [0]"

definition split1 :: "bytes \<Rightarrow> (rlp_kind \<times> bytes \<times> bytes) option" where
  "split1 xs = (case xs of [] \<Rightarrow> None
     | t # r \<Rightarrow> map_option (Pair (if t = 192 then RList else RString)) (unesc r))"

fun count1 :: "nat \<Rightarrow> bytes \<Rightarrow> nat" where
  "count1 0 xs = 0"
| "count1 (Suc f) xs = (case split1 xs of None \<Rightarrow> 0 | Some (_, _, r) \<Rightarrow> Suc (count1 f r))"

definition rlp1 :: rlp_lib where
  "rlp1 = \<lparr>SplitList = (\<lambda>xs. case split1 xs of Some (RList, y) \<Rightarrow> Some y | _ \<Rightarrow> None),
     CountValues = (\<lambda>xs. count1 (length xs) xs),
     SplitString = (\<lambda>xs. case split1 xs of Some (RString, y) \<Rightarrow> Some y | _ \<Rightarrow> None),
     Split = split1, WriteBytes = (\<lambda>s. 128 # esc s), WriteList = (\<lambda>p. 192 # esc p),
     EmptyString = [128, 0]\<rparr>"

lemma unesc_esc: "unesc (esc s @ r) = Some (s, r)"
  by (induction s) (auto simp: esc_def)

lemma split1_simps: "split1 (128 # esc s @ r) = Some (RString, s, r)" "split1 (192 # esc s @ r) = Some (RList, s, r)"
  by (simp_all add: split1_def unesc_esc)

lemma length_esc: "length (esc s) = 2 * length s + 1"
  by (induction s) (auto simp: esc_def)

lemma count1_items:
  "set xs \<subseteq> range (\<lambda>s. 128 # esc s) \<union> range (\<lambda>p. 192 # esc p) \<Longrightarrow> length (concat xs) \<le> f \<Longrightarrow>
     count1 f (concat xs) = length xs"
proof (induction xs arbitrary: f)
  case Nil
  then show ?case by (cases f) (simp_all add: split1_def)
next
  case (Cons x xs)
  then obtain s where x: "x = 128 # esc s \<or> x = 192 # esc s" by auto
  then obtain f' where f: "f = Suc f'" using Cons.prems(2) by (cases f) auto
  have "count1 f' (concat xs) = length xs" by (rule Cons.IH) (use Cons.prems x f in auto)
  then show ?case using x by (auto simp: f split1_simps)
qed

lemma rlp1_ok: "rlp_ok rlp1"
  unfolding rlp_ok_def
  by (auto simp: rlp1_def split1_simps length_esc count1_items esc_def [of "[]"])

section \<open>Properties\<close>

text \<open>C11. A node of the shape a commit makes is read back the same from disk and from the memory cache:
  decoding its RLP encoding succeeds and gives the node that \<^verbatim>\<open>expandNode\<close> makes of the cached one.\<close>

theorem stored_node_roundtrip:
  assumes "rlp_ok R" "rwf R n"
  shows "mustDecodeNode R hash (raw_encode R n) = expandNode hash n \<and> isInr (expandNode hash n)"
  using decode_encode(2) [OF assms, of "[]" "Suc (length (raw_encode R n))" hash] expandNode_rwf(2) [OF assms(2)]
  by (simp add: mustDecodeNode_def decodeNode_def isInr_def)

theorem stored_node_roundtrip_witness:
  "mustDecodeNode rlp1 None (raw_encode rlp1 (RawShort [0x20] (RawValue [7, 8]))) =
     Inr (ShortNode [16] (ValueNode [7, 8]) \<lparr>flag_hash = None, flag_dirty = False\<rparr>)"
proof -
  have k: "compactToHex [0x20] = [16]" by code_simp
  then have "rwf rlp1 (RawShort [0x20] (RawValue [7, 8]))"
    by (intro rref_rwf.intros) (simp add: hasTerm_def)
  from stored_node_roundtrip [OF rlp1_ok this, of None] show ?thesis by (simp add: k)
qed

end
