(* ===== verification/Trie_Hash.thy ===== *)
theory Trie_Hash
  imports Trie_Map Trie_Raw
begin

text \<open>
  \<^verbatim>\<open>src/trie/hasher.go\<close> and \<^verbatim>\<open>Trie.Hash\<close>. The hash function (Keccak-256) is a parameter \<open>K\<close>.

  \<open>pnode\<close> is the Merkle encoding of an abstract trie: every subtrie whose encoding has 32 bytes or more
  is replaced by its hash. The hasher, which works on nodes with cached hashes and stored
  subtries, computes exactly this encoding (\<open>hash_refines\<close>), so that the root hash is a function of
  the contents of the trie.
\<close>

section \<open>The hasher\<close>

text \<open>\<^verbatim>\<open>hexToCompact\<close> never panics (\<open>hexToCompact_total\<close>).\<close>

definition compactKey :: "bytes \<Rightarrow> bytes" where
  "compactKey k = (case hexToCompact k of None \<Rightarrow> [] | Some c \<Rightarrow> c)"

definition hashData :: "(bytes \<Rightarrow> bytes) \<Rightarrow> bytes \<Rightarrow> node" where
  "hashData K data = HashNode (K data)"

definition shortnodeToHash :: "rlp_lib \<Rightarrow> (bytes \<Rightarrow> bytes) \<Rightarrow> node \<Rightarrow> bool \<Rightarrow> node" where
  "shortnodeToHash R K n force =
     (let enc = node_encode R n in if length enc < 32 \<and> \<not> force then n else hashData K enc)"

definition fullnodeToHash :: "rlp_lib \<Rightarrow> (bytes \<Rightarrow> bytes) \<Rightarrow> node \<Rightarrow> bool \<Rightarrow> node" where
  "fullnodeToHash R K n force =
     (let enc = node_encode R n in if length enc < 32 \<and> \<not> force then n else hashData K enc)"

text \<open>The children are hashed by the argument \<open>hash\<close>. The parallel branch of the code writes the same
  sixteen slots from sixteen goroutines.\<close>

definition hashShortNodeChildren :: "(node \<Rightarrow> node \<times> node) \<Rightarrow> bytes \<Rightarrow> node \<Rightarrow> nodeFlag \<Rightarrow> node \<times> node" where
  "hashShortNodeChildren hash k v fl =
     (let (cv, cav) = (case v of
                         FullNode cs f \<Rightarrow> hash v
                       | ShortNode k' v' f \<Rightarrow> hash v
                       | _ \<Rightarrow> (v, v))
      in (ShortNode (compactKey k) cv fl, ShortNode k cav fl))"

definition hashFullNodeChildren :: "(node \<Rightarrow> node \<times> node) \<Rightarrow> node list \<Rightarrow> nodeFlag \<Rightarrow> node \<times> node" where
  "hashFullNodeChildren hash cs fl =
     (let hs = map (\<lambda>c. if c = NilNode then (ValueNode [], NilNode) else hash c) (take 16 cs)
      in (FullNode (map fst hs @ drop 16 cs) fl, FullNode (map snd hs @ drop 16 cs) fl))"

lemma hashShortNodeChildren_cong [fundef_cong]:
  "k = k' \<Longrightarrow> v = v' \<Longrightarrow> fl = fl' \<Longrightarrow> h v' = h' v' \<Longrightarrow>
     hashShortNodeChildren h k v fl = hashShortNodeChildren h' k' v' fl'"
  by (auto simp: hashShortNodeChildren_def split: node.splits)

lemma hashFullNodeChildren_cong [fundef_cong]:
  assumes "cs = cs'" "fl = fl'" "\<And>c. c \<in> set cs' \<Longrightarrow> h c = h' c"
  shows "hashFullNodeChildren h cs fl = hashFullNodeChildren h' cs' fl'"
proof -
  have "map (\<lambda>c. if c = NilNode then (ValueNode [], NilNode) else h c) (take 16 cs') =
      map (\<lambda>c. if c = NilNode then (ValueNode [], NilNode) else h' c) (take 16 cs')"
    using assms(3) by (intro map_cong) (auto dest: in_set_takeD)
  then show ?thesis by (simp only: hashFullNodeChildren_def assms(1,2))
qed

definition set_hash :: "node \<Rightarrow> node \<Rightarrow> node" where
  "set_hash hashed cached =
     (let h = (case hashed of HashNode h \<Rightarrow> Some h | _ \<Rightarrow> None) in
      case cached of
        ShortNode k v fl \<Rightarrow> ShortNode k v (fl\<lparr>flag_hash := h\<rparr>)
      | FullNode cs fl \<Rightarrow> FullNode cs (fl\<lparr>flag_hash := h\<rparr>)
      | n \<Rightarrow> n)"

fun hasher_hash :: "rlp_lib \<Rightarrow> (bytes \<Rightarrow> bytes) \<Rightarrow> node \<Rightarrow> bool \<Rightarrow> node \<times> node" where
  "hasher_hash R K (ShortNode k v fl) force =
     (case flag_hash fl of
        Some h \<Rightarrow> (HashNode h, ShortNode k v fl)
      | None \<Rightarrow>
          let (collapsed, cached) = hashShortNodeChildren (\<lambda>c. hasher_hash R K c False) k v fl;
              hashed = shortnodeToHash R K collapsed force
          in (hashed, set_hash hashed cached))"
| "hasher_hash R K (FullNode cs fl) force =
     (case flag_hash fl of
        Some h \<Rightarrow> (HashNode h, FullNode cs fl)
      | None \<Rightarrow>
          let (collapsed, cached) = hashFullNodeChildren (\<lambda>c. hasher_hash R K c False) cs fl;
              hashed = fullnodeToHash R K collapsed force
          in (hashed, set_hash hashed cached))"
| "hasher_hash R K n force = (n, n)"

definition proofHash :: "rlp_lib \<Rightarrow> (bytes \<Rightarrow> bytes) \<Rightarrow> node \<Rightarrow> node \<times> node" where
  "proofHash R K original =
     (case original of
        ShortNode k v fl \<Rightarrow>
          let sn = fst (hashShortNodeChildren (\<lambda>c. hasher_hash R K c False) k v fl)
          in (sn, shortnodeToHash R K sn False)
      | FullNode cs fl \<Rightarrow>
          let fn = fst (hashFullNodeChildren (\<lambda>c. hasher_hash R K c False) cs fl)
          in (fn, fullnodeToHash R K fn False)
      | n \<Rightarrow> (n, n))"

text \<open>\<^verbatim>\<open>hashRoot\<close> and \<^verbatim>\<open>Hash\<close>; \<open>er\<close> is \<^verbatim>\<open>types.EmptyRootHash\<close>. The type assertion on the hashed root is
  the branch that panics.\<close>

definition hashRoot :: "rlp_lib \<Rightarrow> (bytes \<Rightarrow> bytes) \<Rightarrow> bytes \<Rightarrow> Trie \<Rightarrow> (node \<times> node) \<times> Trie" where
  "hashRoot R K er t =
     (if root t = NilNode then ((HashNode er, NilNode), t)
      else (hasher_hash R K (root t) True, t\<lparr>unhashed := 0\<rparr>))"

definition trie_Hash :: "rlp_lib \<Rightarrow> (bytes \<Rightarrow> bytes) \<Rightarrow> bytes \<Rightarrow> Trie \<Rightarrow> bytes res \<times> Trie" where
  "trie_Hash R K er t =
     (let ((hash, cached), t1) = hashRoot R K er t;
          t2 = t1\<lparr>root := cached\<rparr>
      in case hash of HashNode h \<Rightarrow> (Inr h, t2) | _ \<Rightarrow> (Inl Panic, t2))"

section \<open>The Merkle encoding\<close>

definition cref :: "rlp_lib \<Rightarrow> (bytes \<Rightarrow> bytes) \<Rightarrow> rnode \<Rightarrow> rnode" where
  "cref R K n =
     (case n of
        RawShort k v \<Rightarrow> if length (raw_encode R n) < 32 then n else RawHash (K (raw_encode R n))
      | RawFull cs \<Rightarrow> if length (raw_encode R n) < 32 then n else RawHash (K (raw_encode R n))
      | _ \<Rightarrow> n)"

fun pnode :: "rlp_lib \<Rightarrow> (bytes \<Rightarrow> bytes) \<Rightarrow> ptrie \<Rightarrow> rnode" where
  "pnode R K PNil = RawNil"
| "pnode R K (PVal v) = RawValue v"
| "pnode R K (PShort k p) = RawShort (compactKey k) (cref R K (pnode R K p))"
| "pnode R K (PFull ps) = RawFull (map (\<lambda>p. cref R K (pnode R K p)) ps)"

abbreviation penc :: "rlp_lib \<Rightarrow> (bytes \<Rightarrow> bytes) \<Rightarrow> ptrie \<Rightarrow> bytes" where
  "penc R K p \<equiv> raw_encode R (pnode R K p)"

text \<open>The hash under which a subtrie at a path is stored, if it is not embedded in its parent; the root is
  always hashed.\<close>

definition hash_of :: "rlp_lib \<Rightarrow> (bytes \<Rightarrow> bytes) \<Rightarrow> bytes \<Rightarrow> ptrie \<Rightarrow> bytes option" where
  "hash_of R K path p =
     (case p of
        PNil \<Rightarrow> None
      | PVal v \<Rightarrow> None
      | _ \<Rightarrow> if path = [] \<or> 32 \<le> length (penc R K p) then Some (K (penc R K p)) else None)"

definition refraw :: "rlp_lib \<Rightarrow> (bytes \<Rightarrow> bytes) \<Rightarrow> bytes \<Rightarrow> ptrie \<Rightarrow> rnode" where
  "refraw R K path p = (case hash_of R K path p of Some h \<Rightarrow> RawHash h | None \<Rightarrow> pnode R K p)"

lemma hash_of_simps [simp]: "hash_of R K path PNil = None" "hash_of R K path (PVal v) = None"
  by (simp_all add: hash_of_def)

lemma cref_refraw: "path \<noteq> [] \<Longrightarrow> cref R K (pnode R K p) = refraw R K path p"
  by (cases p) (auto simp: cref_def refraw_def hash_of_def)

text \<open>The contents determine the root hash: the empty trie has the fixed hash, every other trie the hash of
  its encoding.\<close>

definition root_hash :: "rlp_lib \<Rightarrow> (bytes \<Rightarrow> bytes) \<Rightarrow> bytes \<Rightarrow> ptrie \<Rightarrow> bytes" where
  "root_hash R K er p = (if p = PNil then er else K (penc R K p))"

section \<open>The hasher computes the Merkle encoding\<close>

definition hash_sound :: "rlp_lib \<Rightarrow> (bytes \<Rightarrow> bytes) \<Rightarrow> flag_pred \<Rightarrow> bool" where
  "hash_sound R K F \<longleftrightarrow>
     (\<forall>path q fl h. F path q fl \<longrightarrow> flag_hash fl = Some h \<longrightarrow> hash_of R K path q = Some h)"

text \<open>A node that stands for \<open>p\<close> has been hashed: its encoding is that of the reference, and it is a hash
  node exactly when the subtrie is stored under that hash.\<close>

definition hashed_as :: "rlp_lib \<Rightarrow> (bytes \<Rightarrow> bytes) \<Rightarrow> bytes \<Rightarrow> ptrie \<Rightarrow> node \<Rightarrow> bool" where
  "hashed_as R K path p n \<longleftrightarrow>
     node_encode R n = raw_encode R (refraw R K path p) \<and>
     (case n of HashNode h \<Rightarrow> hash_of R K path p = Some h | _ \<Rightarrow> hash_of R K path p = None)"

lemma hashed_as_some: "hash_of R K path p = Some h \<Longrightarrow> hashed_as R K path p (HashNode h)"
  by (simp add: hashed_as_def refraw_def)

lemma toHash_hashed_as:
  assumes "node_encode R n = penc R K p" "\<not> is_hash n" "p \<noteq> PNil" "\<forall>v. p \<noteq> PVal v"
  shows "hashed_as R K path p (shortnodeToHash R K n (path = []))"
    and "fullnodeToHash R K n (path = []) = shortnodeToHash R K n (path = [])"
proof -
  have "hash_of R K path p = (if path = [] \<or> 32 \<le> length (penc R K p) then Some (K (penc R K p)) else None)"
    using assms(3,4) by (cases p) (auto simp: hash_of_def)
  then show "hashed_as R K path p (shortnodeToHash R K n (path = []))"
    using assms(1,2) by (cases n) (auto simp: hashed_as_def shortnodeToHash_def refraw_def hashData_def Let_def)
  show "fullnodeToHash R K n (path = []) = shortnodeToHash R K n (path = [])"
    by (simp add: fullnodeToHash_def shortnodeToHash_def)
qed

definition psub :: "ptrie \<Rightarrow> bool" where
  "psub p \<longleftrightarrow> p = PNil \<or> (\<exists>v. v \<noteq> [] \<and> p = PVal v) \<or> pwf p"

lemma psub_short: "pwf (PShort k p) \<Longrightarrow> psub p \<and> k \<noteq> []"
  by (auto simp: pwf_short_iff psub_def)

lemma psub_full: "pwf (PFull ps) \<Longrightarrow> length ps = 17 \<and> (\<forall>i<17. psub (ps ! i))"
  by (auto simp: pwf_full_iff psub_def pslot_def split: if_splits)

lemma slot16: "pwf (PFull ps) \<Longrightarrow> ps ! 16 = PNil \<or> (\<exists>v. v \<noteq> [] \<and> ps ! 16 = PVal v)"
  by (auto elim: pwf_FullE)

lemma canon_psub: "canon p \<Longrightarrow> psub p"
  by (auto simp: canon_def psub_def)

lemma hash_other: "\<not> (\<exists>k v fl. n = ShortNode k v fl) \<Longrightarrow> \<not> (\<exists>cs fl. n = FullNode cs fl) \<Longrightarrow>
    hasher_hash R K n force = (n, n)"
  by (cases n) auto

lemma rep_value_node: "rep F R rd path n (PVal v) \<Longrightarrow> n = ValueNode v"
  by (cases n) (auto elim!: rep_ShortE rep_FullE rep_HashE dest: rep_resolved simp: rep_simps)

text \<open>The cached hashes are those of the reference.\<close>

definition hash_pol :: "rlp_lib \<Rightarrow> (bytes \<Rightarrow> bytes) \<Rightarrow> flag_pred" where
  "hash_pol R K path q fl \<longleftrightarrow> (\<forall>h. flag_hash fl = Some h \<longrightarrow> hash_of R K path q = Some h)"

lemma hash_sound_pol: "hash_sound R K (hash_pol R K)"
  by (simp add: hash_sound_def hash_pol_def)

lemma hash_soundD: "hash_sound R K F \<Longrightarrow> F path q fl \<Longrightarrow> hash_pol R K path q fl"
  by (auto simp: hash_sound_def hash_pol_def)

lemma set_hash_rep:
  assumes "rep (hash_pol R K) R rd path n p" "hashed_as R K path p hashed"
  shows "rep (hash_pol R K) R rd path (set_hash hashed n) p"
proof -
  have "hash_pol R K path p (fl\<lparr>flag_hash := case hashed of HashNode h \<Rightarrow> Some h | _ \<Rightarrow> None\<rparr>)" for fl
    using assms(2) by (auto simp: hash_pol_def hashed_as_def split: node.splits)
  then show ?thesis
    using assms(1) by (cases n) (auto simp: set_hash_def Let_def intro: rep.intros elim!: rep_ShortE rep_FullE)
qed

lemma hash_short_children:
  "hashShortNodeChildren (\<lambda>c. hasher_hash R K c False) k v fl =
     (let (cv, cav) = hasher_hash R K v False in (ShortNode (compactKey k) cv fl, ShortNode k cav fl))"
  by (cases v) (simp_all add: hashShortNodeChildren_def)

lemma hash_full_encode:
  assumes R: "rlp_ok R" and w: "pwf (PFull ps)" and l: "length cs = length ps"
    and hs: "\<And>i. i < 16 \<Longrightarrow> hashed_as R K (path @ [word_of_nat i]) (ps ! i) (fst (hasher_hash R K (cs ! i) False))"
    and c16: "rep F R rd q (cs ! 16) (ps ! 16)"
  shows "node_encode R (fst (hashFullNodeChildren (\<lambda>c. hasher_hash R K c False) cs fl)) = penc R K (PFull ps)"
proof -
  let ?h = "\<lambda>c. if c = NilNode then (ValueNode [], NilNode) else hasher_hash R K c False"
  let ?L = "map (fst \<circ> ?h) (take 16 cs) @ drop 16 cs"
  note ps = psub_full [OF w]
  have "node_encode R (?L ! i) = raw_encode R (cref R K (pnode R K (ps ! i)))" if "i < 17" for i
  proof (cases "i = 16")
    case True
    have "node_encode R (cs ! 16) = raw_encode R (cref R K (pnode R K (ps ! 16)))"
      using slot16 [OF w]
    proof (elim disjE exE conjE)
      fix v assume "ps ! 16 = PVal v"
      then show ?thesis using rep_value_node [of F R rd q "cs ! 16" v] c16 by (simp add: cref_def)
    qed (use rep_not_nil [OF c16] in \<open>simp add: cref_def\<close>)
    then show ?thesis using True ps l by (simp add: nth_append)
  next
    case False
    then have i: "i < 16" using that by simp
    have nth: "?L ! i = fst (?h (cs ! i))" using i ps l by (simp add: nth_append)
    have "node_encode R (fst (hasher_hash R K (cs ! i) False)) = raw_encode R (cref R K (pnode R K (ps ! i)))"
      using hs [OF i] cref_refraw [of "path @ [word_of_nat i]" R K "ps ! i"] by (simp add: hashed_as_def)
    then show ?thesis unfolding nth using rlp_okD(1) [OF R] by (cases "cs ! i = NilNode") auto
  qed
  moreover have len: "length ?L = 17" using ps l by simp
  ultimately have "map (node_encode R) ?L = map (\<lambda>p. raw_encode R (cref R K (pnode R K p))) ps"
    using ps by (intro nth_equalityI) (simp_all only: length_map nth_map)
  then show ?thesis by (simp add: hashFullNodeChildren_def Let_def o_def)
qed

lemma hash_full_rep:
  assumes l: "length cs = length ps" "length ps = 17"
    and hs: "\<And>i. i < 16 \<Longrightarrow> rep G R rd (path @ [word_of_nat i]) (snd (hasher_hash R K (cs ! i) False)) (ps ! i)"
    and c16: "rep G R rd (path @ [16]) (cs ! 16) (ps ! 16)"
    and nil: "\<And>i. i < 16 \<Longrightarrow> cs ! i = NilNode \<Longrightarrow> ps ! i = PNil" and fl: "G path (PFull ps) fl"
  shows "rep G R rd path (snd (hashFullNodeChildren (\<lambda>c. hasher_hash R K c False) cs fl)) (PFull ps)"
proof -
  let ?h = "\<lambda>c. if c = NilNode then (ValueNode [], NilNode) else hasher_hash R K c False"
  let ?L = "map (snd \<circ> ?h) (take 16 cs) @ drop 16 cs"
  have "rep G R rd (path @ [word_of_nat i]) (?L ! i) (ps ! i)" if "i < 17" for i
  proof (cases "i = 16")
    case True
    then show ?thesis using c16 l by (simp add: nth_append)
  next
    case False
    then have i: "i < 16" using that by simp
    have nth: "?L ! i = snd (?h (cs ! i))" using i l by (simp add: nth_append)
    show ?thesis unfolding nth using hs [OF i] nil [OF i] by (auto intro: rep.rep_nil)
  qed
  then have "rep G R rd path (FullNode ?L fl) (PFull ps)"
    using l fl by (intro rep.rep_full) auto
  then show ?thesis by (simp add: hashFullNodeChildren_def Let_def)
qed

lemma hash_refines:
  assumes R: "rlp_ok R" and F: "hash_sound R K F" and rp: "rep F R rd path n p" and w: "psub p"
  shows "hashed_as R K path p (fst (hasher_hash R K n (path = []))) \<and>
    rep (hash_pol R K) R rd path (snd (hasher_hash R K n (path = []))) p"
  using rp w
proof (induction rule: rep.induct)
  case (rep_nil path)
  then show ?case by (simp add: hashed_as_def refraw_def rep.rep_nil)
next
  case (rep_value path v)
  then show ?case by (simp add: hashed_as_def refraw_def rep.rep_value)
next
  case (rep_short path k n p fl)
  have pw: "pwf (PShort k p)" using rep_short.prems by (simp add: psub_def)
  have k: "k \<noteq> []" "psub p" using psub_short [OF pw] by auto
  then have IH: "hashed_as R K (path @ k) p (fst (hasher_hash R K n False))"
    "rep (hash_pol R K) R rd (path @ k) (snd (hasher_hash R K n False)) p"
    using rep_short.IH by auto
  show ?case
  proof (cases "flag_hash fl")
    case (Some h)
    then have "hash_of R K path (PShort k p) = Some h"
      using F rep_short.hyps(2) by (auto simp: hash_sound_def)
    then show ?thesis
      using Some hashed_as_some rep.rep_short [OF rep_mono [OF rep_short.hyps(1)], of "hash_pol R K"]
        hash_soundD [OF F] rep_short.hyps(2) by auto
  next
    case None
    obtain cv cav where c: "hasher_hash R K n False = (cv, cav)" by fastforce
    let ?n = "ShortNode (compactKey k) cv fl"
    have "node_encode R ?n = penc R K (PShort k p)"
      using IH(1) cref_refraw [of "path @ k" R K p] k by (simp add: c hashed_as_def)
    then have "hashed_as R K path (PShort k p) (shortnodeToHash R K ?n (path = []))"
      by (intro toHash_hashed_as) auto
    moreover have "rep (hash_pol R K) R rd path (ShortNode k cav fl) (PShort k p)"
      using IH(2) hash_soundD [OF F rep_short.hyps(2)] by (auto simp: c intro: rep.rep_short)
    ultimately show ?thesis using None by (simp add: hash_short_children c Let_def set_hash_rep)
  qed
next
  case (rep_full cs ps path fl)
  have pw: "pwf (PFull ps)" using rep_full.prems by (simp add: psub_def)
  note ps = psub_full [OF pw]
  have IH: "hashed_as R K (path @ [word_of_nat i]) (ps ! i) (fst (hasher_hash R K (cs ! i) False))"
    "rep (hash_pol R K) R rd (path @ [word_of_nat i]) (snd (hasher_hash R K (cs ! i) False)) (ps ! i)" if "i < 16" for i
    using rep_full.IH [of i] that ps rep_full.hyps(1) by auto
  have c: "rep F R rd (path @ [word_of_nat i]) (cs ! i) (ps ! i)" if "i < 17" for i
    using rep_full.hyps that ps by simp
  show ?case
  proof (cases "flag_hash fl")
    case (Some h)
    then have "hash_of R K path (PFull ps) = Some h"
      using F rep_full.hyps(3) by (auto simp: hash_sound_def)
    moreover have "rep (hash_pol R K) R rd path (FullNode cs fl) (PFull ps)"
      by (rule rep.rep_full [OF rep_full.hyps(1) rep_mono [OF rep_full.hyps(2)]])
        (use hash_soundD [OF F] rep_full.hyps(3) in auto)
    ultimately show ?thesis using Some hashed_as_some by auto
  next
    case None
    let ?hc = "hashFullNodeChildren (\<lambda>c. hasher_hash R K c False) cs fl"
    have "node_encode R (fst ?hc) = penc R K (PFull ps)"
      by (rule hash_full_encode [OF R pw rep_full.hyps(1) IH(1) c [of 16]]) simp_all
    moreover have "\<not> is_hash (fst ?hc)" by (simp add: hashFullNodeChildren_def Let_def)
    ultimately have "hashed_as R K path (PFull ps) (shortnodeToHash R K (fst ?hc) (path = []))"
      and eq: "fullnodeToHash R K (fst ?hc) (path = []) = shortnodeToHash R K (fst ?hc) (path = [])"
      by (auto intro!: toHash_hashed_as)
    moreover have "rep (hash_pol R K) R rd path (snd ?hc) (PFull ps)"
    proof (rule hash_full_rep)
      show "rep (hash_pol R K) R rd (path @ [16]) (cs ! 16) (ps ! 16)"
        using rep_mono [OF c [of 16], of "hash_pol R K"] hash_soundD [OF F] by simp
      show "ps ! i = PNil" if "i < 16" "cs ! i = NilNode" for i
        using rep_not_nil [OF c [of i]] that by simp
    qed (use IH(2) ps rep_full.hyps(1) hash_soundD [OF F rep_full.hyps(3)] in auto)
    ultimately show ?thesis using None by (simp add: case_prod_unfold Let_def set_hash_rep)
  qed
next
  case (rep_hash path h n p)
  then have "hash_of R K path p = Some h" using F by (auto simp: hash_sound_def)
  moreover have "rep (hash_pol R K) R rd path (HashNode h) p"
    by (rule rep.rep_hash [OF rep_hash.hyps(1) rep_mono [OF rep_hash.hyps(2)]])
      (use hash_soundD [OF F] rep_hash.hyps(3) in auto)
  ultimately show ?case by (simp add: hashed_as_some)
qed

interpretation hp: flag_policy "hash_pol R K" for R K
  by unfold_locales (simp add: hash_pol_def newFlag_def)

lemma Hash_law:
  assumes "rlp_ok R" "rep (hash_pol R K) R (reader t) [] (root t) p" "canon p"
  shows "\<exists>t'. trie_Hash R K er t = (Inr (root_hash R K er p), t') \<and> reader t' = reader t \<and>
    rep (hash_pol R K) R (reader t) [] (root t') p"
proof (cases "root t = NilNode")
  case True
  then have "p = PNil" using rep_not_nil [OF assms(2)] by simp
  then show ?thesis using True by (simp add: trie_Hash_def hashRoot_def root_hash_def rep.rep_nil)
next
  case False
  obtain hashed cached where hc: "hasher_hash R K (root t) True = (hashed, cached)" by fastforce
  have pw: "pwf p" using False rep_not_nil [OF assms(2)] canon_pwf [OF assms(3)] by auto
  then have "hash_of R K [] p = Some (K (penc R K p))" by (cases p) (auto simp: hash_of_def)
  moreover have "hashed_as R K [] p hashed" "rep (hash_pol R K) R (reader t) [] cached p"
    using hash_refines [OF assms(1) hash_sound_pol assms(2) canon_psub [OF assms(3)]] hc by simp_all
  ultimately have "hashed = HashNode (root_hash R K er p)" "rep (hash_pol R K) R (reader t) [] cached p"
    using pw by (auto simp: hashed_as_def root_hash_def split: node.splits)
  then show ?thesis using False hc by (simp add: trie_Hash_def hashRoot_def)
qed

section \<open>Properties\<close>

text \<open>C3. \<^verbatim>\<open>Trie.Hash\<close> does not fail and keeps the contents. The hash it returns depends on the contents only:
  two tries that hold the same map have the same root hash, whatever the order of the updates that
  built them, and however much of them is in memory, cached or stored.\<close>

theorem Hash_history_independent:
  assumes "rlp_ok R" "trie_holds (hash_pol R K) R t m" "trie_holds (hash_pol R K) R u m"
  shows "isInr (fst (trie_Hash R K er t)) \<and> fst (trie_Hash R K er t) = fst (trie_Hash R K er u) \<and>
    trie_holds (hash_pol R K) R (snd (trie_Hash R K er t)) m"
proof -
  obtain p where p: "rep (hash_pol R K) R (reader t) [] (root t) p" "canon p" "m = (\<lambda>k. pget p (keybytesToHex k))"
    using assms(2) by (rule trie_holdsE)
  obtain q where q: "rep (hash_pol R K) R (reader u) [] (root u) q" "canon q" "m = (\<lambda>k. pget q (keybytesToHex k))"
    using assms(3) by (rule trie_holdsE)
  have "p = q" by (rule canon_ext [OF p(2) q(2)]) (metis p(3) q(3))
  then show ?thesis
    using Hash_law [OF assms(1) p(1,2), of er] Hash_law [OF assms(1) q(1,2), of er] p(2,3)
    by (auto intro: trie_holdsI)
qed

theorem Hash_history_independent_witness:
  "fst (trie_Hash rlp1 id [] (put_all (Update rlp1) trie0 [([0x12], [7]), ([0x34], [8])])) =
   fst (trie_Hash rlp1 id [] (put_all (Update rlp1) trie0 [([0x34], [8]), ([0x56], [1]), ([0x12], [7]), ([0x56], [])]))"
proof -
  have 0: "trie_holds (hash_pol rlp1 id) rlp1 trie0 Map.empty" by (rule trie_holds_empty) (simp add: trie0_def)
  have u: "trie_holds (hash_pol rlp1 id) rlp1 (snd (Update rlp1 t k v)) (m(k := if v = [] then None else Some v))"
    if "trie_holds (hash_pol rlp1 id) rlp1 t m" for t k v m
    using hp.Update_law [OF that, of k v] by auto
  show ?thesis
    using Hash_history_independent [OF rlp1_ok u [OF u [OF 0, of "[0x12]" "[7]"], of "[0x34]" "[8]"],
        of "put_all (Update rlp1) trie0 [([0x34], [8]), ([0x56], [1]), ([0x12], [7]), ([0x56], [])]" "[]"]
      u [OF u [OF u [OF u [OF 0, of "[0x34]" "[8]"], of "[0x56]" "[1]"], of "[0x12]" "[7]"], of "[0x56]" "[]"]
    by (simp add: fun_upd_twist fun_upd_idem)
qed

end
