(* ===== verification/Trie_Commit.thy ===== *)
theory Trie_Commit
  imports Trie_Hash "HOL-Library.List_Lexorder" "HOL-Library.Sublist"
begin

text \<open>
  \<^verbatim>\<open>src/trie/committer.go\<close>, \<^verbatim>\<open>src/trie/nodeset.go\<close>, \<^verbatim>\<open>tracer.markDeletions\<close> and \<^verbatim>\<open>Trie.Commit\<close>.

  A commit hashes the trie, collects every dirty node that is not embedded in its parent into a
  node set, keyed by path, and replaces the root by its hash. \<open>commit_correct\<close> shows that afterwards
  every stored node of the trie is either in the set, with its hash and its stripped form, or was
  in the store before.
\<close>

section \<open>The node set\<close>

record memoryNode =
  mn_hash :: bytes
  mn_size :: "16 word"
  mn_node :: rnode

definition zeroHash :: bytes where
  "zeroHash = replicate 32 0"

definition deletedNode :: memoryNode where
  "deletedNode = \<lparr>mn_hash = zeroHash, mn_size = 0, mn_node = RawNil\<rparr>"

definition isDeleted :: "memoryNode \<Rightarrow> bool" where
  "isDeleted n \<longleftrightarrow> mn_hash n = zeroHash"

record NodeSet =
  ns_owner :: bytes
  ns_nodes :: "(bytes \<times> memoryNode) list"
  ns_leaves :: "(bytes \<times> bytes) list"
  ns_updates :: nat
  ns_deletes :: nat
  ns_accessList :: "bytes \<rightharpoonup> bytes"

definition NewNodeSet :: "bytes \<Rightarrow> (bytes \<rightharpoonup> bytes) \<Rightarrow> NodeSet" where
  "NewNodeSet own accessed = \<lparr>ns_owner = own, ns_nodes = [], ns_leaves = [], ns_updates = 0, ns_deletes = 0,
     ns_accessList = accessed\<rparr>"

definition markUpdated :: "bytes \<Rightarrow> memoryNode \<Rightarrow> NodeSet \<Rightarrow> NodeSet" where
  "markUpdated path n ns = ns\<lparr>ns_nodes := AList.update path n (ns_nodes ns), ns_updates := ns_updates ns + 1\<rparr>"

definition markDeleted :: "bytes \<Rightarrow> NodeSet \<Rightarrow> NodeSet" where
  "markDeleted path ns = ns\<lparr>ns_nodes := AList.update path deletedNode (ns_nodes ns), ns_deletes := ns_deletes ns + 1\<rparr>"

definition addLeaf :: "bytes \<times> bytes \<Rightarrow> NodeSet \<Rightarrow> NodeSet" where
  "addLeaf lf ns = ns\<lparr>ns_leaves := ns_leaves ns @ [lf]\<rparr>"

text \<open>The loop over the deleted paths: the order of the range over the set does not matter for the map that
  results; it is taken to be the lexicographic one.\<close>

definition markDeletions :: "tracer \<Rightarrow> NodeSet \<Rightarrow> NodeSet" where
  "markDeletions t ns =
     fold (\<lambda>path s. if ns_accessList s path = None then s else markDeleted path s)
       (sorted_list_of_set (deletes t)) ns"

section \<open>The committer\<close>

fun estimateSize :: "node \<Rightarrow> nat res" where
  "estimateSize (ShortNode k v fl) = bindR (estimateSize v) (\<lambda>s. Inr (3 + length k + s))"
| "estimateSize (FullNode cs fl) =
     bindR (mapR (\<lambda>x. x) (take 16 (map (\<lambda>c. if c = NilNode then Inr 1 else estimateSize c) cs)))
       (\<lambda>ss. Inr (3 + sum_list ss))"
| "estimateSize (ValueNode v) = Inr (1 + length v)"
| "estimateSize (HashNode h) = Inr (1 + length h)"
| "estimateSize NilNode = Inl Panic"

definition store :: "bool \<Rightarrow> bytes \<Rightarrow> node \<Rightarrow> NodeSet \<Rightarrow> (node \<times> NodeSet) res" where
  "store collectLeaf path n ns =
     (case fst (node_cache n) of
        None \<Rightarrow> Inr (n, if ns_accessList ns path = None then ns else markDeleted path ns)
      | Some hash \<Rightarrow>
          bindR (estimateSize n) (\<lambda>size. bindR (simplifyNode n) (\<lambda>sn.
            let ns1 = markUpdated path \<lparr>mn_hash = hash, mn_size = word_of_nat size, mn_node = sn\<rparr> ns;
                ns2 = (case n of
                         ShortNode k (ValueNode val) fl \<Rightarrow> if collectLeaf then addLeaf (val, hash) ns1 else ns1
                       | _ \<Rightarrow> ns1)
            in Inr (HashNode hash, ns2))))"

text \<open>The loop over the children of a full node; the value in slot 16 is kept.\<close>

definition commitChild ::
  "(nat \<Rightarrow> node \<Rightarrow> NodeSet \<Rightarrow> (node \<times> NodeSet) res) \<Rightarrow> nat \<Rightarrow> node \<Rightarrow> NodeSet \<Rightarrow> (node \<times> NodeSet) res"
where
  "commitChild commit i c ns =
     (if 16 \<le> i then Inr (c, ns)
      else case c of
             NilNode \<Rightarrow> Inr (NilNode, ns)
           | HashNode h \<Rightarrow> Inr (HashNode h, ns)
           | _ \<Rightarrow> commit i c ns)"

fun commitChildren ::
  "(nat \<Rightarrow> node \<Rightarrow> NodeSet \<Rightarrow> (node \<times> NodeSet) res) \<Rightarrow> nat \<Rightarrow> node list \<Rightarrow> NodeSet \<Rightarrow> (node list \<times> NodeSet) res"
where
  "commitChildren commit i [] ns = Inr ([], ns)"
| "commitChildren commit i (c # cs) ns =
     bindR (commitChild commit i c ns) (\<lambda>(c', ns1).
       bindR (commitChildren commit (i + 1) cs ns1) (\<lambda>(cs', ns2). Inr (c' # cs', ns2)))"

lemma commitChildren_cong [fundef_cong]:
  assumes "i = j" "cs = cs'" "ns = ns'" "\<And>c k s. c \<in> set cs' \<Longrightarrow> f k c s = g k c s"
  shows "commitChildren f i cs ns = commitChildren g j cs' ns'"
proof -
  have "commitChildren f j cs' ns' = commitChildren g j cs' ns'"
    using assms(4)
  proof (induction cs' arbitrary: j ns')
    case (Cons c cs)
    have "commitChild f j c ns' = commitChild g j c ns'"
      using Cons.prems [of c] by (cases c) (simp_all add: commitChild_def)
    moreover have "commitChildren f k cs s = commitChildren g k cs s" for k s
      by (rule Cons.IH) (use Cons.prems in auto)
    ultimately show ?case by simp
  qed simp
  then show ?thesis by (simp add: assms)
qed

fun committer_commit :: "bool \<Rightarrow> bytes \<Rightarrow> node \<Rightarrow> NodeSet \<Rightarrow> (node \<times> NodeSet) res" where
  "committer_commit cl path (ShortNode k v fl) ns =
     (if flag_hash fl \<noteq> None \<and> \<not> flag_dirty fl then Inr (HashNode (the (flag_hash fl)), ns)
      else bindR (case v of FullNode cs f \<Rightarrow> committer_commit cl (path @ k) v ns | _ \<Rightarrow> Inr (v, ns)) (\<lambda>(cv, ns1).
             store cl path (ShortNode (compactKey k) cv fl) ns1))"
| "committer_commit cl path (FullNode cs fl) ns =
     (if flag_hash fl \<noteq> None \<and> \<not> flag_dirty fl then Inr (HashNode (the (flag_hash fl)), ns)
      else bindR (commitChildren (\<lambda>i c s. committer_commit cl (path @ [word_of_nat i]) c s) 0 cs ns) (\<lambda>(kids, ns1).
             store cl path (FullNode kids fl) ns1))"
| "committer_commit cl path (HashNode h) ns = Inr (HashNode h, ns)"
| "committer_commit cl path _ ns = Inl Panic"

text \<open>\<^verbatim>\<open>Trie.Commit\<close>: the root hash and the node set, which is nil when the trie was not changed. The tracer is
  reset in every case.\<close>

definition trie_Commit ::
  "rlp_lib \<Rightarrow> (bytes \<Rightarrow> bytes) \<Rightarrow> bytes \<Rightarrow> bool \<Rightarrow> Trie \<Rightarrow> (bytes \<times> NodeSet option) res \<times> Trie"
where
  "trie_Commit R K er collectLeaf t =
     (let nodes = markDeletions (tr_tracer t) (NewNodeSet (owner t) (accessList (tr_tracer t)));
          fin = (\<lambda>u. u\<lparr>tr_tracer := tracer_reset (tr_tracer u)\<rparr>)
      in if root t = NilNode then (Inr (er, Some nodes), fin t)
         else case trie_Hash R K er t of
                (Inl e, t1) \<Rightarrow> (Inl e, fin t1)
              | (Inr rootHash, t1) \<Rightarrow>
                  (case node_cache (root t1) of (hashedNode, dirty) \<Rightarrow>
                     if \<not> dirty
                     then (Inr (rootHash, None),
                           fin (t1\<lparr>root := HashNode (case hashedNode of None \<Rightarrow> [] | Some h \<Rightarrow> h)\<rparr>))
                     else (case committer_commit collectLeaf [] (root t1) nodes of
                            Inl e \<Rightarrow> (Inl e, fin t1)
                          | Inr (HashNode h, ns) \<Rightarrow> (Inr (rootHash, Some ns), fin (t1\<lparr>root := HashNode h\<rparr>))
                          | Inr _ \<Rightarrow> (Inl Panic, fin t1))))"

section \<open>Which nodes are stored\<close>

fun subtries :: "bytes \<Rightarrow> ptrie \<Rightarrow> (bytes \<times> ptrie) set" where
  "subtries path (PShort k p) = insert (path, PShort k p) (subtries (path @ k) p)"
| "subtries path (PFull ps) =
     insert (path, PFull ps) (\<Union>i\<in>{..<length ps}. subtries (path @ [word_of_nat i]) (ps ! i))"
| "subtries path _ = {}"

text \<open>Every node of the trie that is not embedded is saved under its hash. What that means is an argument,
  a predicate on the path, the subtrie and the hash: readable for a client, in the cache or on
  disk for the database.\<close>

type_synonym saved = "bytes \<Rightarrow> ptrie \<Rightarrow> bytes \<Rightarrow> bool"

definition avail :: "rlp_lib \<Rightarrow> (bytes \<Rightarrow> bytes) \<Rightarrow> saved \<Rightarrow> bytes \<Rightarrow> ptrie \<Rightarrow> bool" where
  "avail R K sv path p \<longleftrightarrow>
     (\<forall>(pa, q)\<in>subtries path p. \<forall>h. hash_of R K pa q = Some h \<longrightarrow> sv pa q h)"

text \<open>What is known of the flags between two commits: a dirty node has no hash, a clean one has the hash of
  its subtrie and is stored.\<close>

definition commit_pol :: "rlp_lib \<Rightarrow> (bytes \<Rightarrow> bytes) \<Rightarrow> saved \<Rightarrow> flag_pred" where
  "commit_pol R K sv path q fl \<longleftrightarrow>
     (if flag_dirty fl then flag_hash fl = None
      else flag_hash fl = hash_of R K path q \<and> (flag_hash fl \<noteq> None \<longrightarrow> avail R K sv path q))"

interpretation cp: flag_policy "commit_pol R K sv" for R K sv
  by unfold_locales (simp add: commit_pol_def newFlag_def)

lemma hash_sound_commit_pol: "hash_sound R K (commit_pol R K sv)"
  by (auto simp: hash_sound_def commit_pol_def split: if_splits)

text \<open>After hashing: the dirty nodes have their hashes, and below a clean node nothing needs to be looked
  at.\<close>

inductive hrep :: "rlp_lib \<Rightarrow> (bytes \<Rightarrow> bytes) \<Rightarrow> saved \<Rightarrow> bytes \<Rightarrow> node \<Rightarrow> ptrie \<Rightarrow> bool"
  for R K sv
where
  hrep_nil: "hrep R K sv path NilNode PNil"
| hrep_value: "hrep R K sv path (ValueNode v) (PVal v)"
| hrep_hash: "hash_of R K path p = Some h \<Longrightarrow> avail R K sv path p \<Longrightarrow> hrep R K sv path (HashNode h) p"
| hrep_clean_short: "hash_of R K path (PShort k p) = Some h \<Longrightarrow> avail R K sv path (PShort k p) \<Longrightarrow>
    flag_hash fl = Some h \<Longrightarrow> \<not> flag_dirty fl \<Longrightarrow> hrep R K sv path (ShortNode k v fl) (PShort k p)"
| hrep_clean_full: "hash_of R K path (PFull ps) = Some h \<Longrightarrow> avail R K sv path (PFull ps) \<Longrightarrow>
    flag_hash fl = Some h \<Longrightarrow> \<not> flag_dirty fl \<Longrightarrow> hrep R K sv path (FullNode cs fl) (PFull ps)"
| hrep_short: "hrep R K sv (path @ k) n p \<Longrightarrow> flag_hash fl = hash_of R K path (PShort k p) \<Longrightarrow>
    flag_dirty fl \<or> flag_hash fl = None \<Longrightarrow> hrep R K sv path (ShortNode k n fl) (PShort k p)"
| hrep_full: "length cs = length ps \<Longrightarrow>
    (\<And>i. i < length cs \<Longrightarrow> hrep R K sv (path @ [word_of_nat i]) (cs ! i) (ps ! i)) \<Longrightarrow>
    flag_hash fl = hash_of R K path (PFull ps) \<Longrightarrow> flag_dirty fl \<or> flag_hash fl = None \<Longrightarrow>
    hrep R K sv path (FullNode cs fl) (PFull ps)"

definition readable :: "rlp_lib \<Rightarrow> (bytes \<Rightarrow> bytes) \<Rightarrow> trieReader \<Rightarrow> saved" where
  "readable R K rd pa q h \<longleftrightarrow> nodeBlob rd pa h = Inr (penc R K q)"

section \<open>A commit\<close>

lemma hash_hrep:
  assumes R: "rlp_ok R" and rp: "rep (commit_pol R K sv) R rd path n p" and w: "psub p"
  shows "hrep R K sv path (snd (hasher_hash R K n (path = []))) p"
  using rp w
proof (induction rule: rep.induct)
  case (rep_short path k n p fl)
  have k: "k \<noteq> []" "psub p" using psub_short [of k p] rep_short.prems by (auto simp: psub_def)
  obtain cv cav where c: "hasher_hash R K n False = (cv, cav)" by fastforce
  let ?hashed = "shortnodeToHash R K (ShortNode (compactKey k) cv fl) (path = [])"
  show ?case
  proof (cases "flag_hash fl")
    case (Some h)
    then show ?thesis
      using rep_short.hyps(2) by (auto simp: commit_pol_def split: if_splits intro!: hrep_clean_short)
  next
    case None
    have eq: "hasher_hash R K (ShortNode k n fl) (path = []) = (?hashed, set_hash ?hashed (ShortNode k cav fl))"
      using None by (simp add: hash_short_children c Let_def)
    have "hashed_as R K path (PShort k p) ?hashed"
      using hash_refines [OF R hash_sound_commit_pol rep.rep_short [OF rep_short.hyps] rep_short.prems] eq by simp
    then have "(case ?hashed of HashNode h \<Rightarrow> Some h | _ \<Rightarrow> None) = hash_of R K path (PShort k p)"
      by (auto simp: hashed_as_def split: node.splits)
    moreover have "flag_dirty fl \<or> hash_of R K path (PShort k p) = None"
      using rep_short.hyps(2) None by (auto simp: commit_pol_def split: if_splits)
    moreover have "hrep R K sv (path @ k) cav p" using rep_short.IH k by (simp add: c)
    ultimately show ?thesis unfolding eq by (auto simp: set_hash_def Let_def intro: hrep.hrep_short)
  qed
next
  case (rep_full cs ps path fl)
  have pw: "pwf (PFull ps)" using rep_full.prems by (simp add: psub_def)
  note ps = psub_full [OF pw]
  let ?hc = "hashFullNodeChildren (\<lambda>c. hasher_hash R K c False) cs fl"
  let ?hashed = "fullnodeToHash R K (fst ?hc) (path = [])"
  show ?case
  proof (cases "flag_hash fl")
    case (Some h)
    then show ?thesis
      using rep_full.hyps(3) by (auto simp: commit_pol_def split: if_splits intro!: hrep_clean_full)
  next
    case None
    have eq: "hasher_hash R K (FullNode cs fl) (path = []) = (?hashed, set_hash ?hashed (snd ?hc))"
      using None by (simp add: case_prod_unfold Let_def)
    have "hashed_as R K path (PFull ps) ?hashed"
      using hash_refines [OF R hash_sound_commit_pol rep.rep_full [OF rep_full.hyps] rep_full.prems] eq by simp
    then have "(case ?hashed of HashNode h \<Rightarrow> Some h | _ \<Rightarrow> None) = hash_of R K path (PFull ps)"
      by (auto simp: hashed_as_def split: node.splits)
    moreover have "flag_dirty fl \<or> hash_of R K path (PFull ps) = None"
      using rep_full.hyps(3) None by (auto simp: commit_pol_def split: if_splits)
    moreover obtain kids where kids: "snd ?hc = FullNode kids fl" "length kids = 17"
      "\<And>i. i < 17 \<Longrightarrow> hrep R K sv (path @ [word_of_nat i]) (kids ! i) (ps ! i)"
    proof -
      let ?h = "\<lambda>c. if c = NilNode then (ValueNode [], NilNode) else hasher_hash R K c False"
      let ?L = "map (snd \<circ> ?h) (take 16 cs) @ drop 16 cs"
      have l: "length cs = 17" using rep_full.hyps(1) ps by simp
      have "hrep R K sv (path @ [word_of_nat i]) (?L ! i) (ps ! i)" if "i < 17" for i
      proof (cases "i = 16")
        case True
        have r16: "rep (commit_pol R K sv) R rd (path @ [word_of_nat 16]) (cs ! 16) (ps ! 16)"
          using rep_full.hyps(2) [of 16] l by simp
        have "hrep R K sv (path @ [word_of_nat 16]) (cs ! 16) (ps ! 16)"
          using slot16 [OF pw]
        proof (elim disjE exE conjE)
          fix v assume "ps ! 16 = PVal v"
          then show ?thesis using rep_value_node [OF r16 [unfolded \<open>ps ! 16 = PVal v\<close>]] by (simp add: hrep_value)
        qed (use rep_not_nil [OF r16] in \<open>simp add: hrep_nil\<close>)
        then show ?thesis using True l by (simp add: nth_append)
      next
        case False
        then have i: "i < 16" using that by simp
        have nth: "?L ! i = snd (?h (cs ! i))" using i l by (simp add: nth_append)
        show ?thesis
          unfolding nth using rep_full.IH [of i] i ps l rep_not_nil [OF rep_full.hyps(2) [of i]]
          by (auto intro: hrep_nil)
      qed
      moreover have "snd ?hc = FullNode ?L fl" by (simp add: hashFullNodeChildren_def Let_def)
      ultimately show ?thesis using that [of ?L] l by simp
    qed
    ultimately show ?thesis
      unfolding eq using ps by (auto simp: set_hash_def Let_def intro!: hrep.hrep_full)
  qed
next
  case (rep_hash path h n p)
  then show ?case by (auto simp: commit_pol_def intro: hrep.hrep_hash)
qed (auto intro: hrep_nil hrep_value)

lemma simplify_estimate: "simplifyNode n = Inr r \<Longrightarrow> \<exists>s. estimateSize n = Inr s"
proof (induction n arbitrary: r)
  case (FullNode cs fl)
  have "\<exists>ss. mapR (\<lambda>x. x) (map (\<lambda>c. if c = NilNode then Inr 1 else estimateSize c) ds) = Inr (ss :: nat list)"
    if "mapR (\<lambda>c. if c = NilNode then Inr RawNil else simplifyNode c) ds = Inr rs" "set ds \<subseteq> set cs" for ds rs
    using that
  proof (induction ds arbitrary: rs)
    case (Cons d ds)
    then obtain ss where "mapR (\<lambda>x. x) (map (\<lambda>c. if c = NilNode then Inr 1 else estimateSize c) ds) = Inr (ss :: nat list)"
      by auto
    then show ?case using Cons.prems FullNode.IH [of d] by (auto split: if_splits)
  qed simp
  moreover obtain rs where "mapR (\<lambda>c. if c = NilNode then Inr RawNil else simplifyNode c) cs = Inr rs"
    using FullNode.prems by auto
  moreover have "mapR (\<lambda>x. x) (take k (map f ds)) = Inr (take k ss)" if "mapR (\<lambda>x. x) (map f ds) = Inr ss"
    for k ss ds and f :: "node \<Rightarrow> nat res"
    using that by (induction ds arbitrary: k ss) (auto simp: take_Cons' )
  ultimately show ?case by fastforce
qed auto

text \<open>What the commit of a subtrie has done to the node set: its stored nodes are there or were in the store,
  and what is there is a node of the subtrie, a deletion mark, or was there before.\<close>

definition has_entries ::
  "rlp_lib \<Rightarrow> (bytes \<Rightarrow> bytes) \<Rightarrow> saved \<Rightarrow> (bytes \<times> ptrie) set \<Rightarrow> NodeSet \<Rightarrow> bool"
where
  "has_entries R K sv S ns \<longleftrightarrow>
     (\<forall>pa q h. (pa, q) \<in> S \<longrightarrow> hash_of R K pa q = Some h \<longrightarrow>
        sv pa q h \<or>
        (\<exists>sz. map_of (ns_nodes ns) pa = Some \<lparr>mn_hash = h, mn_size = sz, mn_node = pnode R K q\<rparr>))"

definition from_old ::
  "rlp_lib \<Rightarrow> (bytes \<Rightarrow> bytes) \<Rightarrow> (bytes \<times> ptrie) set \<Rightarrow> NodeSet \<Rightarrow> NodeSet \<Rightarrow> bool"
where
  "from_old R K S ns ns' \<longleftrightarrow>
     (\<forall>key mn. map_of (ns_nodes ns') key = Some mn \<longrightarrow> map_of (ns_nodes ns) key = Some mn \<or> mn = deletedNode \<or>
        (\<exists>q. (key, q) \<in> S \<and> mn_hash mn = K (penc R K q) \<and> mn_node mn = pnode R K q)) \<and>
     ns_accessList ns' = ns_accessList ns \<and> ns_owner ns' = ns_owner ns"

definition committed ::
  "rlp_lib \<Rightarrow> (bytes \<Rightarrow> bytes) \<Rightarrow> saved \<Rightarrow> bytes \<Rightarrow> ptrie \<Rightarrow> NodeSet \<Rightarrow> node \<Rightarrow> NodeSet \<Rightarrow> bool"
where
  "committed R K sv path p ns r ns' \<longleftrightarrow>
     (if r = NilNode then Inr RawNil else simplifyNode r) = Inr (refraw R K path p) \<and>
     (\<forall>h. r = HashNode h \<longleftrightarrow> hash_of R K path p = Some h) \<and>
     (\<forall>key. \<not> prefix path key \<longrightarrow> map_of (ns_nodes ns') key = map_of (ns_nodes ns) key) \<and>
     has_entries R K sv (subtries path p) ns' \<and> from_old R K (subtries path p) ns ns'"

lemma committed_refl:
  assumes "(if r = NilNode then Inr RawNil else simplifyNode r) = Inr (refraw R K path p)"
    "\<And>h. r = HashNode h \<longleftrightarrow> hash_of R K path p = Some h" "avail R K sv path p"
  shows "committed R K sv path p ns r ns"
  using assms by (auto simp: committed_def avail_def has_entries_def from_old_def)

lemma has_entries_upd:
  assumes "has_entries R K sv S ns" "\<And>pa q. (pa, q) \<in> S \<Longrightarrow> pa \<noteq> path"
    "\<And>key. key \<noteq> path \<Longrightarrow> map_of (ns_nodes ns') key = map_of (ns_nodes ns) key"
    "\<And>h. hash_of R K path p = Some h \<Longrightarrow>
       \<exists>sz. map_of (ns_nodes ns') path = Some \<lparr>mn_hash = h, mn_size = sz, mn_node = pnode R K p\<rparr>"
  shows "has_entries R K sv (insert (path, p) S) ns'"
  unfolding has_entries_def
proof (intro allI impI)
  fix pa q h assume in_S: "(pa, q) \<in> insert (path, p) S" and h: "hash_of R K pa q = Some h"
  show "sv pa q h \<or>
     (\<exists>sz. map_of (ns_nodes ns') pa = Some \<lparr>mn_hash = h, mn_size = sz, mn_node = pnode R K q\<rparr>)"
  proof (cases "(pa, q) \<in> S")
    case True
    then show ?thesis using assms(1) assms(2) [OF True] assms(3) [of pa] h by (simp add: has_entries_def)
  next
    case False
    then show ?thesis using in_S h assms(4) by simp
  qed
qed

lemma from_old_upd:
  assumes "from_old R K S ns ns1" "\<And>key. key \<noteq> path \<Longrightarrow> map_of (ns_nodes ns') key = map_of (ns_nodes ns1) key"
    "\<And>mn. map_of (ns_nodes ns') path = Some mn \<Longrightarrow> map_of (ns_nodes ns1) path = Some mn \<or> mn = deletedNode \<or>
       mn_hash mn = K (penc R K p) \<and> mn_node mn = pnode R K p"
    "ns_accessList ns' = ns_accessList ns1" "ns_owner ns' = ns_owner ns1"
  shows "from_old R K (insert (path, p) S) ns ns'"
  unfolding from_old_def
proof (intro conjI allI impI)
  fix key mn assume m: "map_of (ns_nodes ns') key = Some mn"
  show "map_of (ns_nodes ns) key = Some mn \<or> mn = deletedNode \<or>
        (\<exists>q. (key, q) \<in> insert (path, p) S \<and> mn_hash mn = K (penc R K q) \<and> mn_node mn = pnode R K q)"
  proof (cases "map_of (ns_nodes ns1) key = Some mn")
    case True
    then show ?thesis using assms(1) unfolding from_old_def by blast
  next
    case False
    then have k: "key = path" using assms(2) [of key] m by auto
    show ?thesis using assms(3) [of mn] m False unfolding k by auto
  qed
qed (use assms in \<open>simp_all add: from_old_def\<close>)

lemma subtries_prefix: "(pa, q) \<in> subtries path p \<Longrightarrow> prefix path pa"
proof (induction path p rule: subtries.induct)
  case (1 path k p)
  then show ?case by (auto intro: append_prefixD)
next
  case (2 path ps)
  then show ?case by (auto intro: append_prefixD)
qed auto

lemma subtries_shape: "(pa, q) \<in> subtries path p \<Longrightarrow> (\<exists>k p'. q = PShort k p') \<or> (\<exists>ps. q = PFull ps)"
  by (induction path p rule: subtries.induct) auto

text \<open>Storing the node itself, after the commit of what is below it.\<close>

lemma store_committed:
  assumes n: "n = ShortNode k v fl \<or> n = FullNode cs fl"
    and sn: "simplifyNode n = Inr (pnode R K p)" and fl: "flag_hash fl = hash_of R K path p"
    and p: "p \<noteq> PNil" "\<forall>v. p \<noteq> PVal v"
    and sub: "subtries path p = insert (path, p) S" "\<And>pa q. (pa, q) \<in> S \<Longrightarrow> pa \<noteq> path"
    and frame: "\<And>key. \<not> prefix path key \<Longrightarrow> map_of (ns_nodes ns1) key = map_of (ns_nodes ns) key"
    and ent: "has_entries R K sv S ns1" and old: "from_old R K S ns ns1"
  shows "\<exists>r ns'. store cl path n ns1 = Inr (r, ns') \<and> committed R K sv path p ns r ns'"
proof (cases "hash_of R K path p")
  case None
  define ns' where "ns' = (if ns_accessList ns1 path = None then ns1 else markDeleted path ns1)"
  have nn: "map_of (ns_nodes ns') key = (if key = path \<and> ns_accessList ns1 path \<noteq> None then Some deletedNode
      else map_of (ns_nodes ns1) key)" for key
    by (auto simp: ns'_def markDeleted_def update_conv')
  have a: "ns_accessList ns' = ns_accessList ns1" "ns_owner ns' = ns_owner ns1"
    by (simp_all add: ns'_def markDeleted_def)
  have "has_entries R K sv (insert (path, p) S) ns'"
    by (rule has_entries_upd [OF ent sub(2)]) (use None nn in auto)
  moreover have "from_old R K (insert (path, p) S) ns ns'"
    by (rule from_old_upd [OF old]) (use nn a in \<open>auto split: if_splits\<close>)
  moreover have "\<forall>key. \<not> prefix path key \<longrightarrow> map_of (ns_nodes ns') key = map_of (ns_nodes ns) key"
    using frame nn by auto
  ultimately have "committed R K sv path p ns n ns'"
    using n sn None unfolding committed_def sub(1) by (auto simp: refraw_def)
  moreover have "store cl path n ns1 = Inr (n, ns')" using n fl None by (auto simp: store_def ns'_def)
  ultimately show ?thesis by blast
next
  case (Some h)
  have h: "h = K (penc R K p)" using Some p by (auto simp: hash_of_def split: ptrie.splits if_splits)
  obtain size where size: "estimateSize n = Inr size" using simplify_estimate [OF sn] by blast
  define mn where "mn = \<lparr>mn_hash = h, mn_size = word_of_nat size, mn_node = pnode R K p\<rparr>"
  have "fst (node_cache n) = Some h" using n fl Some by auto
  then obtain ns' where st: "store cl path n ns1 = Inr (HashNode h, ns')"
    and nn: "map_of (ns_nodes ns') = (map_of (ns_nodes ns1))(path \<mapsto> mn)"
    and a: "ns_accessList ns' = ns_accessList ns1" "ns_owner ns' = ns_owner ns1"
    using size sn by (auto simp: store_def Let_def mn_def markUpdated_def addLeaf_def update_conv' split: node.splits)
  have "has_entries R K sv (insert (path, p) S) ns'"
    by (rule has_entries_upd [OF ent sub(2)]) (use Some nn in \<open>auto simp: mn_def\<close>)
  moreover have "from_old R K (insert (path, p) S) ns ns'"
    by (rule from_old_upd [OF old]) (use nn a h in \<open>auto simp: mn_def\<close>)
  moreover have "\<forall>key. \<not> prefix path key \<longrightarrow> map_of (ns_nodes ns') key = map_of (ns_nodes ns) key"
    using frame nn by auto
  ultimately have "committed R K sv path p ns (HashNode h) ns'"
    using Some unfolding committed_def sub(1) by (auto simp: refraw_def)
  with st show ?thesis by blast
qed

lemma has_entries_frame:
  assumes "has_entries R K sv S ns1" "\<And>pa q. (pa, q) \<in> S \<Longrightarrow> map_of (ns_nodes ns') pa = map_of (ns_nodes ns1) pa"
  shows "has_entries R K sv S ns'"
  unfolding has_entries_def
proof (intro allI impI)
  fix pa q h assume "(pa, q) \<in> S" "hash_of R K pa q = Some h"
  then show "sv pa q h \<or>
     (\<exists>sz. map_of (ns_nodes ns') pa = Some \<lparr>mn_hash = h, mn_size = sz, mn_node = pnode R K q\<rparr>)"
    using assms(1) assms(2) [of pa q] by (simp add: has_entries_def)
qed

lemma has_entries_Un: "has_entries R K sv S ns \<Longrightarrow> has_entries R K sv T ns \<Longrightarrow> has_entries R K sv (S \<union> T) ns"
  by (simp add: has_entries_def)

lemma from_old_trans:
  assumes "from_old R K S ns ns1" "from_old R K T ns1 ns'"
  shows "from_old R K (S \<union> T) ns ns'"
  unfolding from_old_def
proof (intro conjI allI impI)
  fix key mn assume "map_of (ns_nodes ns') key = Some mn"
  then consider "map_of (ns_nodes ns1) key = Some mn" | "mn = deletedNode"
    | q where "(key, q) \<in> T" "mn_hash mn = K (penc R K q)" "mn_node mn = pnode R K q"
    using assms(2) unfolding from_old_def by blast
  then show "map_of (ns_nodes ns) key = Some mn \<or> mn = deletedNode \<or>
        (\<exists>q. (key, q) \<in> S \<union> T \<and> mn_hash mn = K (penc R K q) \<and> mn_node mn = pnode R K q)"
  proof cases
    case 1
    then show ?thesis using assms(1) unfolding from_old_def by blast
  qed auto
qed (use assms in \<open>simp_all add: from_old_def\<close>)

lemma from_old_refl: "from_old R K S ns ns"
  by (simp add: from_old_def)

lemma prefix_snoc_eq:
  assumes "prefix (path @ [word_of_nat i :: byte]) key" "prefix (path @ [word_of_nat j]) key" "i < 17" "j < 17"
  shows "i = j"
proof -
  have "word_of_nat i = (word_of_nat j :: byte)" using assms(1,2) by (auto simp: prefix_def)
  then have "unat (word_of_nat i :: byte) = unat (word_of_nat j :: byte)" by simp
  then show ?thesis using assms(3,4) by simp
qed

lemma commitChildren_correct:
  assumes "\<And>j ns. j < length cs \<Longrightarrow> \<exists>r ns'. commitChild f (i + j) (cs ! j) ns = Inr (r, ns') \<and>
      committed R K sv (path @ [word_of_nat (i + j)]) (ps ! j) ns r ns'"
    and "length ps = length cs" "i + length cs \<le> 17"
  shows "\<exists>rs ns'. commitChildren f i cs ns = Inr (rs, ns') \<and> length rs = length cs \<and>
    (\<forall>j<length cs. (if rs ! j = NilNode then Inr RawNil else simplifyNode (rs ! j)) =
        Inr (refraw R K (path @ [word_of_nat (i + j)]) (ps ! j))) \<and>
    (\<forall>key. (\<forall>j<length cs. \<not> prefix (path @ [word_of_nat (i + j)]) key) \<longrightarrow>
        map_of (ns_nodes ns') key = map_of (ns_nodes ns) key) \<and>
    has_entries R K sv (\<Union>j\<in>{..<length cs}. subtries (path @ [word_of_nat (i + j)]) (ps ! j)) ns' \<and>
    from_old R K (\<Union>j\<in>{..<length cs}. subtries (path @ [word_of_nat (i + j)]) (ps ! j)) ns ns'"
  using assms
proof (induction cs arbitrary: i ps ns)
  case Nil
  then show ?case by (simp add: has_entries_def from_old_refl)
next
  case (Cons c cs)
  obtain p ps' where ps: "ps = p # ps'" using Cons.prems(2) by (cases ps) auto
  let ?S0 = "subtries (path @ [word_of_nat i]) p"
  let ?T = "\<Union>j\<in>{..<length cs}. subtries (path @ [word_of_nat (Suc i + j)]) (ps' ! j)"
  have S: "(\<Union>j\<in>{..<length (c # cs)}. subtries (path @ [word_of_nat (i + j)]) (ps ! j)) = ?S0 \<union> ?T"
    by (simp add: ps lessThan_Suc_eq_insert_0 del: of_nat_add of_nat_Suc)
  obtain r ns1 where r: "commitChild f i c ns = Inr (r, ns1)" "committed R K sv (path @ [word_of_nat i]) p ns r ns1"
    using Cons.prems(1) [of 0 ns] by (auto simp: ps)
  have "\<exists>r ns'. commitChild f (Suc i + j) (cs ! j) ns = Inr (r, ns') \<and>
      committed R K sv (path @ [word_of_nat (Suc i + j)]) (ps' ! j) ns r ns'" if "j < length cs" for j ns
    using Cons.prems(1) [of "Suc j" ns] that by (simp add: ps)
  moreover have "length ps' = length cs" "Suc i + length cs \<le> 17" using Cons.prems(2,3) by (simp_all add: ps)
  ultimately obtain rs ns' where rs: "commitChildren f (Suc i) cs ns1 = Inr (rs, ns')" "length rs = length cs"
    "\<forall>j<length cs. (if rs ! j = NilNode then Inr RawNil else simplifyNode (rs ! j)) =
        Inr (refraw R K (path @ [word_of_nat (Suc i + j)]) (ps' ! j))"
    "\<forall>key. (\<forall>j<length cs. \<not> prefix (path @ [word_of_nat (Suc i + j)]) key) \<longrightarrow>
        map_of (ns_nodes ns') key = map_of (ns_nodes ns1) key"
    "has_entries R K sv ?T ns'" "from_old R K ?T ns1 ns'"
    using Cons.IH [of "Suc i" ps' ns1] by blast
  have keep: "map_of (ns_nodes ns') pa = map_of (ns_nodes ns1) pa" if "(pa, q) \<in> ?S0" for pa q
  proof -
    have "prefix (path @ [word_of_nat i]) pa" by (rule subtries_prefix [OF that])
    then have "\<not> prefix (path @ [word_of_nat (Suc i + j)]) pa" if "j < length cs" for j
      using prefix_snoc_eq [of path i pa "Suc i + j"] Cons.prems(3) that by auto
    then show ?thesis using rs(4) by blast
  qed
  have "has_entries R K sv (?S0 \<union> ?T) ns'"
    using r(2) by (intro has_entries_Un rs(5) has_entries_frame [OF _ keep]) (auto simp: committed_def)
  moreover have "from_old R K (?S0 \<union> ?T) ns ns'"
    using r(2) by (intro from_old_trans [OF _ rs(6)]) (simp add: committed_def)
  moreover have "map_of (ns_nodes ns') key = map_of (ns_nodes ns) key"
    if "\<forall>j<length (c # cs). \<not> prefix (path @ [word_of_nat (i + j)]) key" for key
  proof -
    have "\<not> prefix (path @ [word_of_nat i]) key" using that [rule_format, of 0] by simp
    moreover have "\<forall>j<length cs. \<not> prefix (path @ [word_of_nat (Suc i + j)]) key"
      using that [rule_format, of "Suc _"] by simp
    ultimately show ?thesis using rs(4) r(2) by (simp add: committed_def)
  qed
  moreover have "(if (r # rs) ! j = NilNode then Inr RawNil else simplifyNode ((r # rs) ! j)) =
        Inr (refraw R K (path @ [word_of_nat (i + j)]) (ps ! j))" if "j < length (c # cs)" for j
  proof (cases j)
    case 0
    then show ?thesis using r(2) by (simp only: committed_def ps nth_Cons_0 add_0_right)
  next
    case (Suc m)
    then show ?thesis using rs(3) that by (simp only: ps nth_Cons_Suc add_Suc_right add_Suc length_Cons Suc_less_eq)
  qed
  ultimately show ?case unfolding S using r(1) rs(1,2) by auto
qed

text \<open>The child of a short node.\<close>

lemma commit_short_child:
  assumes h: "hrep R K sv (path @ k) n p" and pw: "pwf (PShort k p)"
    and IH: "\<And>qs. p = PFull qs \<Longrightarrow> \<exists>r ns'. committer_commit cl (path @ k) n ns = Inr (r, ns') \<and>
      committed R K sv (path @ k) p ns r ns'"
  shows "\<exists>r ns1. (case n of FullNode cs f \<Rightarrow> committer_commit cl (path @ k) n ns | _ \<Rightarrow> Inr (n, ns)) = Inr (r, ns1) \<and>
      committed R K sv (path @ k) p ns r ns1 \<and> r \<noteq> NilNode"
proof -
  from pw consider v where "p = PVal v" | qs where "p = PFull qs" by (auto simp: pwf_short_iff)
  then show ?thesis
  proof cases
    case 1
    then have "n = ValueNode v" using h by (auto elim: hrep.cases)
    moreover have "committed R K sv (path @ k) p ns (ValueNode v) ns"
      by (rule committed_refl) (simp_all add: 1 refraw_def avail_def)
    ultimately show ?thesis by simp
  next
    case 2
    obtain r ns1 where r: "committer_commit cl (path @ k) n ns = Inr (r, ns1)" "committed R K sv (path @ k) p ns r ns1"
      using IH [OF 2] by blast
    have "r \<noteq> NilNode" using r(2) by (auto simp: committed_def refraw_def 2 split: option.splits)
    moreover have "(\<exists>h. n = HashNode h) \<or> (\<exists>cs f. n = FullNode cs f)"
      using h 2 by (auto elim: hrep.cases)
    ultimately show ?thesis using r by auto
  qed
qed

text \<open>A child of a full node.\<close>

lemma commit_full_child:
  assumes hj: "hrep R K sv (path @ [word_of_nat j]) c (ps ! j)" and pw: "pwf (PFull ps)" and j: "j < 17"
    and IH: "psub (ps ! j) \<Longrightarrow> ps ! j \<noteq> PNil \<Longrightarrow> \<forall>v. ps ! j \<noteq> PVal v \<Longrightarrow>
      \<exists>r ns'. committer_commit cl (path @ [word_of_nat j]) c ns = Inr (r, ns') \<and>
        committed R K sv (path @ [word_of_nat j]) (ps ! j) ns r ns'"
  shows "\<exists>r ns'. commitChild (\<lambda>i c s. committer_commit cl (path @ [word_of_nat i]) c s) j c ns = Inr (r, ns') \<and>
      committed R K sv (path @ [word_of_nat j]) (ps ! j) ns r ns'"
proof (cases "ps ! j = PNil \<or> (\<exists>v. ps ! j = PVal v)")
  case True
  then have c: "(ps ! j = PNil \<and> c = NilNode) \<or> (\<exists>v. ps ! j = PVal v \<and> c = ValueNode v)"
    using hj by (auto elim: hrep.cases)
  have "\<exists>v. ps ! j = PVal v \<Longrightarrow> j = 16"
    using pw j by (auto simp: pwf_full_iff pslot_def split: if_splits)
  with c have "commitChild (\<lambda>i c s. committer_commit cl (path @ [word_of_nat i]) c s) j c ns = Inr (c, ns)"
    by (auto simp: commitChild_def)
  moreover have "committed R K sv (path @ [word_of_nat j]) (ps ! j) ns c ns"
    using c by (intro committed_refl) (auto simp: refraw_def avail_def)
  ultimately show ?thesis by blast
next
  case False
  then have "j < 16" using slot16 [OF pw] j by (cases "j = 16") auto
  then have "commitChild (\<lambda>i c s. committer_commit cl (path @ [word_of_nat i]) c s) j c ns =
      committer_commit cl (path @ [word_of_nat j]) c ns"
    using hj False by (auto simp: commitChild_def split: node.splits elim: hrep.cases)
  then show ?thesis using IH psub_full [OF pw] j False by auto
qed

lemma commit_correct:
  assumes "hrep R K sv path n p" "psub p" "p \<noteq> PNil" "\<forall>v. p \<noteq> PVal v"
  shows "\<exists>r ns'. committer_commit cl path n ns = Inr (r, ns') \<and> committed R K sv path p ns r ns'"
  using assms
proof (induction arbitrary: ns rule: hrep.induct)
  case (hrep_short path k n p fl)
  have pw: "pwf (PShort k p)" using hrep_short.prems(1) by (simp add: psub_def)
  have k: "k \<noteq> []" "psub p" using psub_short [OF pw] by auto
  have "\<exists>r ns1. (case n of FullNode cs f \<Rightarrow> committer_commit cl (path @ k) n ns | _ \<Rightarrow> Inr (n, ns)) = Inr (r, ns1) \<and>
      committed R K sv (path @ k) p ns r ns1 \<and> r \<noteq> NilNode"
    by (rule commit_short_child [OF hrep_short.hyps(1) pw]) (use hrep_short.IH [OF k(2)] in auto)
  then obtain r ns1 where r: "(case n of FullNode cs f \<Rightarrow> committer_commit cl (path @ k) n ns | _ \<Rightarrow> Inr (n, ns)) = Inr (r, ns1)"
    "committed R K sv (path @ k) p ns r ns1" "r \<noteq> NilNode"
    by blast
  have "\<exists>r' ns'. store cl path (ShortNode (compactKey k) r fl) ns1 = Inr (r', ns') \<and>
      committed R K sv path (PShort k p) ns r' ns'"
  proof (rule store_committed [where S = "subtries (path @ k) p"])
    show "simplifyNode (ShortNode (compactKey k) r fl) = Inr (pnode R K (PShort k p))"
      using r(2,3) cref_refraw [of "path @ k" R K p] k by (simp add: committed_def)
    show "pa \<noteq> path" if "(pa, q) \<in> subtries (path @ k) p" for pa q
      using subtries_prefix [OF that] k(1) by (auto simp: prefix_def)
    show "map_of (ns_nodes ns1) key = map_of (ns_nodes ns) key" if "\<not> prefix path key" for key
      using r(2) that append_prefixD [of path k key] by (auto simp: committed_def)
  qed (use r(2) hrep_short.hyps in \<open>auto simp: committed_def\<close>)
  then show ?case using hrep_short.hyps(3) by (auto simp: r(1))
next
  case (hrep_full cs ps path fl)
  have pw: "pwf (PFull ps)" using hrep_full.prems(1) by (simp add: psub_def)
  note ps = psub_full [OF pw]
  let ?f = "\<lambda>i c s. committer_commit cl (path @ [word_of_nat i]) c s"
  let ?S = "\<Union>j\<in>{..<length ps}. subtries (path @ [word_of_nat j]) (ps ! j)"
  have kid: "\<exists>r ns'. commitChild ?f (0 + j) (cs ! j) ns = Inr (r, ns') \<and>
      committed R K sv (path @ [word_of_nat (0 + j)]) (ps ! j) ns r ns'" if j: "j < length cs" for j ns
    using commit_full_child [OF hrep_full.hyps(2) [OF j] pw, of cl ns] hrep_full.IH [OF j, of ns] j ps hrep_full.hyps(1)
    by simp
  obtain rs ns1 where rs: "commitChildren ?f 0 cs ns = Inr (rs, ns1)" "length rs = length cs"
    "\<forall>j<length cs. (if rs ! j = NilNode then Inr RawNil else simplifyNode (rs ! j)) =
        Inr (refraw R K (path @ [word_of_nat (0 + j)]) (ps ! j))"
    "\<forall>key. (\<forall>j<length cs. \<not> prefix (path @ [word_of_nat (0 + j)]) key) \<longrightarrow>
        map_of (ns_nodes ns1) key = map_of (ns_nodes ns) key"
    "has_entries R K sv (\<Union>j\<in>{..<length cs}. subtries (path @ [word_of_nat (0 + j)]) (ps ! j)) ns1"
    "from_old R K (\<Union>j\<in>{..<length cs}. subtries (path @ [word_of_nat (0 + j)]) (ps ! j)) ns ns1"
    using commitChildren_correct [OF kid, of ns] hrep_full.hyps(1) ps by auto
  have "\<exists>r' ns'. store cl path (FullNode rs fl) ns1 = Inr (r', ns') \<and> committed R K sv path (PFull ps) ns r' ns'"
  proof (rule store_committed [where S = ?S])
    have "mapR (\<lambda>c. if c = NilNode then Inr RawNil else simplifyNode c) rs =
        Inr (map (\<lambda>p. cref R K (pnode R K p)) ps)"
      by (rule mapR_nth) (use rs(2,3) hrep_full.hyps(1) cref_refraw [of "path @ [word_of_nat _]"] in auto)
    then show "simplifyNode (FullNode rs fl) = Inr (pnode R K (PFull ps))" by simp
    show "pa \<noteq> path" if "(pa, q) \<in> ?S" for pa q
      using that subtries_prefix by (fastforce simp: prefix_def)
    show "map_of (ns_nodes ns1) key = map_of (ns_nodes ns) key" if "\<not> prefix path key" for key
      using rs(4) that append_prefixD [of path _ key] by auto
  qed (use rs(5,6) hrep_full.hyps(1,3) in auto)
  then show ?case using hrep_full.hyps(4) by (auto simp: rs(1))
qed (auto intro!: committed_refl simp: refraw_def)

lemma markDeletions_deleted:
  "map_of (ns_nodes (markDeletions tr (NewNodeSet own acc))) key = Some mn \<Longrightarrow> mn = deletedNode"
proof -
  have "\<forall>k mn. map_of (ns_nodes (fold (\<lambda>path s. if ns_accessList s path = None then s else markDeleted path s) ds ns)) k = Some mn
      \<longrightarrow> mn = deletedNode" if "\<forall>k mn. map_of (ns_nodes ns) k = Some mn \<longrightarrow> mn = deletedNode" for ds ns
    using that
  proof (induction ds arbitrary: ns)
    case (Cons d ds)
    have "\<forall>k mn. map_of (ns_nodes (if ns_accessList ns d = None then ns else markDeleted d ns)) k = Some mn \<longrightarrow> mn = deletedNode"
      using Cons.prems by (auto simp: markDeleted_def update_conv')
    from Cons.IH [OF this] show ?case by simp
  qed simp
  from this [of "NewNodeSet own acc"] show "map_of (ns_nodes (markDeletions tr (NewNodeSet own acc))) key = Some mn \<Longrightarrow> mn = deletedNode"
    unfolding markDeletions_def by (simp add: NewNodeSet_def)
qed

lemma markDeletions_owner: "ns_owner (markDeletions tr ns) = ns_owner ns"
proof -
  have "ns_owner (fold (\<lambda>path s. if ns_accessList s path = None then s else markDeleted path s) ds ns) = ns_owner ns" for ds
    by (induction ds arbitrary: ns) (auto simp: markDeleted_def)
  then show ?thesis by (simp add: markDeletions_def)
qed

text \<open>What \<^verbatim>\<open>Commit\<close> hands to the database.\<close>

definition commit_result ::
  "rlp_lib \<Rightarrow> (bytes \<Rightarrow> bytes) \<Rightarrow> saved \<Rightarrow> ptrie \<Rightarrow> NodeSet option \<Rightarrow> bool"
where
  "commit_result R K sv p nso = (case nso of
     None \<Rightarrow> p \<noteq> PNil \<and> avail R K sv [] p
   | Some ns \<Rightarrow> has_entries R K sv (subtries [] p) ns \<and>
       (\<forall>key mn. map_of (ns_nodes ns) key = Some mn \<longrightarrow> mn = deletedNode \<or>
          (\<exists>q. (key, q) \<in> subtries [] p \<and> mn_hash mn = K (penc R K q) \<and> mn_node mn = pnode R K q)))"

lemma Commit_law:
  assumes R: "rlp_ok R" and rp: "rep (commit_pol R K sv) R (reader t) [] (root t) p" and c: "canon p"
  shows "\<exists>nso t'. trie_Commit R K er cl t = (Inr (root_hash R K er p, nso), t') \<and>
    commit_result R K sv p nso \<and> (\<forall>ns. nso = Some ns \<longrightarrow> ns_owner ns = owner t)"
proof (cases "root t = NilNode")
  case True
  then have "p = PNil" using rep_not_nil [OF rp] by simp
  then show ?thesis
    using True markDeletions_deleted [of "tr_tracer t" "owner t" "accessList (tr_tracer t)"]
    by (auto simp: trie_Commit_def root_hash_def commit_result_def has_entries_def Let_def markDeletions_owner NewNodeSet_def)
next
  case False
  define nodes where "nodes = markDeletions (tr_tracer t) (NewNodeSet (owner t) (accessList (tr_tracer t)))"
  have pw: "pwf p" using False rep_not_nil [OF rp] canon_pwf [OF c] by auto
  have pn: "p \<noteq> PNil" "\<forall>v. p \<noteq> PVal v" using pw by auto
  have ho: "hash_of R K [] p = Some (root_hash R K er p)"
    using pw by (cases p) (auto simp: hash_of_def root_hash_def)
  obtain hashed cached where hc: "hasher_hash R K (root t) True = (hashed, cached)" by fastforce
  have H: "trie_Hash R K er t = (Inr (root_hash R K er p), t\<lparr>unhashed := 0, root := cached\<rparr>)"
  proof -
    have "hashed_as R K [] p hashed"
      using hash_refines [OF R hash_sound_commit_pol rp canon_psub [OF c]] hc by simp
    then have "hashed = HashNode (root_hash R K er p)"
      using ho by (auto simp: hashed_as_def split: node.splits)
    then show ?thesis using False hc by (simp add: trie_Hash_def hashRoot_def)
  qed
  have hr: "hrep R K sv [] cached p" using hash_hrep [OF R rp canon_psub [OF c]] hc by simp
  show ?thesis
  proof (cases "snd (node_cache cached)")
    case True
    obtain r ns where r: "committer_commit cl [] cached nodes = Inr (r, ns)" "committed R K sv [] p nodes r ns"
      using commit_correct [OF hr canon_psub [OF c] pn, of cl nodes] by blast
    then have "r = HashNode (root_hash R K er p)" using ho by (simp add: committed_def)
    moreover have "commit_result R K sv p (Some ns)"
      using r(2) markDeletions_deleted [of "tr_tracer t" "owner t" "accessList (tr_tracer t)"]
      unfolding commit_result_def committed_def from_old_def nodes_def by fastforce
    moreover have "ns_owner ns = owner t"
      using r(2) by (simp add: committed_def from_old_def nodes_def markDeletions_owner NewNodeSet_def)
    ultimately show ?thesis
      using r(1) H False True by (auto simp: trie_Commit_def Let_def nodes_def case_prod_unfold)
  next
    case False
    then have "avail R K sv [] p" using hr ho by (auto elim: hrep.cases)
    then show ?thesis
      using H \<open>root t \<noteq> NilNode\<close> False pn by (auto simp: trie_Commit_def Let_def case_prod_unfold commit_result_def)
  qed
qed

end
