(* ===== verification/Trie_Database.thy ===== *)
theory Trie_Database
  imports Trie_Commit
begin

text \<open>
  \<^verbatim>\<open>src/trie/database.go\<close> and \<^verbatim>\<open>src/trie/preimages.go\<close>: the cache of dirty nodes in front of the disk, with
  its reference counts and its flush list.

  The disk database is the map \<open>diskdb\<close> (the preimages, which have keys of their own, are \<open>diskPre\<close>);
  its writes do not fail. A write batch is the list of its puts; whether it has reached
  \<^verbatim>\<open>ethdb.IdealBatchSize\<close> is asked of the argument \<open>full\<close>. The clean cache is a map that does not evict.
  \<^verbatim>\<open>common.StorageSize\<close>, a float, is an \<open>int\<close>; the statistics that are only logged are left out.
\<close>

section \<open>The state\<close>

record cachedNode =
  cn_node :: rnode
  cn_size :: "16 word"
  cn_parents :: "32 word"
  cn_children :: "(bytes \<times> 16 word) list option"
  cn_flushPrev :: bytes
  cn_flushNext :: bytes

record Database =
  diskdb :: "bytes \<rightharpoonup> bytes"
  cleans :: "(bytes \<rightharpoonup> bytes) option"
  dirties :: "(bytes \<times> cachedNode) list"
  oldest :: bytes
  newest :: bytes
  dirtiesSize :: int
  childrenSize :: int
  preimages :: "((bytes \<times> bytes) list \<times> int) option"
  diskPre :: "bytes \<rightharpoonup> bytes"

definition cachedNodeChildrenSize :: int where
  "cachedNodeChildrenSize = 48"

definition NewDatabaseWithConfig :: "(bytes \<rightharpoonup> bytes) \<Rightarrow> (bytes \<rightharpoonup> bytes) \<Rightarrow> nat \<Rightarrow> bool \<Rightarrow> Database" where
  "NewDatabaseWithConfig disk pre cache withPreimages =
     \<lparr>diskdb = disk, cleans = (if 0 < cache then Some Map.empty else None),
      dirties = [(zeroHash, \<lparr>cn_node = RawNil, cn_size = 0, cn_parents = 0, cn_children = Some [],
                             cn_flushPrev = zeroHash, cn_flushNext = zeroHash\<rparr>)],
      oldest = zeroHash, newest = zeroHash, dirtiesSize = 0, childrenSize = 0,
      preimages = (if withPreimages then Some ([], 0) else None), diskPre = pre\<rparr>"

abbreviation dirty :: "Database \<Rightarrow> bytes \<Rightarrow> cachedNode option" where
  "dirty db \<equiv> map_of (dirties db)"

text \<open>The node of the meta root is nil, which cannot be encoded.\<close>

definition cached_rlp :: "rlp_lib \<Rightarrow> cachedNode \<Rightarrow> bytes res" where
  "cached_rlp R n = (if cn_node n = RawNil then Inl Panic else Inr (raw_encode R (cn_node n)))"

definition cached_obj :: "rlp_lib \<Rightarrow> bytes \<Rightarrow> cachedNode \<Rightarrow> node res" where
  "cached_obj R hash n =
     (case cn_node n of
        RawNode blob \<Rightarrow> mustDecodeNode R (Some hash) blob
      | r \<Rightarrow> expandNode (Some hash) r)"

definition forChilds :: "cachedNode \<Rightarrow> bytes list" where
  "forChilds n =
     (case cn_children n of None \<Rightarrow> [] | Some cs \<Rightarrow> map fst cs) @
     (case cn_node n of RawNode blob \<Rightarrow> [] | r \<Rightarrow> forGatherChildren r)"

text \<open>A write through the pointer \<^verbatim>\<open>db.dirties[hash]\<close>, which panics when it is nil.\<close>

definition upd_node :: "bytes \<Rightarrow> (cachedNode \<Rightarrow> cachedNode) \<Rightarrow> Database \<Rightarrow> Database res" where
  "upd_node hash f db =
     (case dirty db hash of
        None \<Rightarrow> Inl Panic
      | Some n \<Rightarrow> Inr (db\<lparr>dirties := AList.update hash (f n) (dirties db)\<rparr>))"

section \<open>Insertion and lookup\<close>

text \<open>The size added on insertion is computed in 16 bits, the size taken off on removal in 64.\<close>

definition addParent :: "bytes \<Rightarrow> Database \<Rightarrow> Database" where
  "addParent child db =
     (case dirty db child of
        None \<Rightarrow> db
      | Some c \<Rightarrow> db\<lparr>dirties := AList.update child (c\<lparr>cn_parents := cn_parents c + 1\<rparr>) (dirties db)\<rparr>)"

definition db_insert :: "bytes \<Rightarrow> 16 word \<Rightarrow> rnode \<Rightarrow> Database \<Rightarrow> Database res" where
  "db_insert hash sz n db =
     (if dirty db hash \<noteq> None then Inr db
      else let entry = \<lparr>cn_node = n, cn_size = sz, cn_parents = 0, cn_children = None,
                        cn_flushPrev = newest db, cn_flushNext = zeroHash\<rparr>;
               db1 = fold addParent (forChilds entry) db;
               db2 = db1\<lparr>dirties := AList.update hash entry (dirties db1)\<rparr>
           in bindR (if oldest db2 = zeroHash then Inr (db2\<lparr>oldest := hash, newest := hash\<rparr>)
                     else bindR (upd_node (newest db2) (\<lambda>c. c\<lparr>cn_flushNext := hash\<rparr>) db2) (\<lambda>db3.
                            Inr (db3\<lparr>newest := hash\<rparr>)))
                (\<lambda>db4. Inr (db4\<lparr>dirtiesSize := dirtiesSize db4 + uint (32 + sz)\<rparr>)))"

definition db_node :: "rlp_lib \<Rightarrow> bytes \<Rightarrow> Database \<Rightarrow> node res \<times> Database" where
  "db_node R hash db =
     (case (case cleans db of None \<Rightarrow> None | Some c \<Rightarrow> c hash) of
        Some enc \<Rightarrow> (mustDecodeNode R (Some hash) enc, db)
      | None \<Rightarrow>
          (case dirty db hash of
             Some d \<Rightarrow> (cached_obj R hash d, db)
           | None \<Rightarrow>
               (case diskdb db hash of
                  None \<Rightarrow> (Inr NilNode, db)
                | Some enc \<Rightarrow>
                    (mustDecodeNode R (Some hash) enc,
                     db\<lparr>cleans := map_option (\<lambda>c. c(hash \<mapsto> enc)) (cleans db)\<rparr>))))"

definition db_Node :: "rlp_lib \<Rightarrow> bytes \<Rightarrow> Database \<Rightarrow> bytes res \<times> Database" where
  "db_Node R hash db =
     (if hash = zeroHash then (Inl (ErrMsg ''not found''), db)
      else case (case cleans db of None \<Rightarrow> None | Some c \<Rightarrow> c hash) of
        Some enc \<Rightarrow> (Inr enc, db)
      | None \<Rightarrow>
          (case dirty db hash of
             Some d \<Rightarrow> (cached_rlp R d, db)
           | None \<Rightarrow>
               (case diskdb db hash of
                  None \<Rightarrow> (Inl (ErrMsg ''not found''), db)
                | Some enc \<Rightarrow>
                    if length enc \<noteq> 0
                    then (Inr enc, db\<lparr>cleans := map_option (\<lambda>c. c(hash \<mapsto> enc)) (cleans db)\<rparr>)
                    else (Inl (ErrMsg ''not found''), db))))"

definition Nodes :: "Database \<Rightarrow> bytes list" where
  "Nodes db = filter (\<lambda>h. h \<noteq> zeroHash) (map fst (dirties db))"

text \<open>The reader of a trie opened on the database. The effect of a read on the clean cache is not seen by
  the trie.\<close>

definition NodeBlob :: "rlp_lib \<Rightarrow> Database \<Rightarrow> bytes \<Rightarrow> bytes \<Rightarrow> bytes \<Rightarrow> bytes res" where
  "NodeBlob R db own path hash = (case fst (db_Node R hash db) of Inl e \<Rightarrow> Inr [] | Inr blob \<Rightarrow> Inr blob)"

definition newTrieReader :: "rlp_lib \<Rightarrow> Database \<Rightarrow> bytes \<Rightarrow> trieReader" where
  "newTrieReader R db own = \<lparr>rd_owner = own, rd_reader = Some (NodeBlob R db), rd_banned = None\<rparr>"

section \<open>References\<close>

definition db_reference :: "bytes \<Rightarrow> bytes \<Rightarrow> Database \<Rightarrow> Database res" where
  "db_reference child parent db =
     (if dirty db child = None then Inr db
      else case dirty db parent of
        None \<Rightarrow> Inl Panic
      | Some p \<Rightarrow>
          (let kids = (case cn_children p of None \<Rightarrow> [] | Some cs \<Rightarrow> cs);
               known = map_of kids child;
               extra = (if cn_children p = None then cachedNodeChildrenSize else 0)
           in if known \<noteq> None \<and> parent \<noteq> zeroHash then Inr db
              else let cnt = (case known of None \<Rightarrow> 0 | Some c \<Rightarrow> c) + 1 in
                   bindR (upd_node child (\<lambda>c. c\<lparr>cn_parents := cn_parents c + 1\<rparr>) db) (\<lambda>db1.
                     bindR (upd_node parent (\<lambda>c. c\<lparr>cn_children := Some (AList.update child cnt kids)\<rparr>) db1) (\<lambda>db2.
                       Inr (db2\<lparr>childrenSize := childrenSize db2 + extra + (if cnt = 1 then 34 else 0)\<rparr>)))))"

text \<open>Taking a node out of the flush list, as \<^verbatim>\<open>dereference\<close> and \<^verbatim>\<open>cleaner.Put\<close> do.\<close>

definition unlink :: "bytes \<Rightarrow> cachedNode \<Rightarrow> Database \<Rightarrow> Database res" where
  "unlink hash n db =
     (if hash = oldest db then
        upd_node (cn_flushNext n) (\<lambda>c. c\<lparr>cn_flushPrev := zeroHash\<rparr>) (db\<lparr>oldest := cn_flushNext n\<rparr>)
      else if hash = newest db then
        upd_node (cn_flushPrev n) (\<lambda>c. c\<lparr>cn_flushNext := zeroHash\<rparr>) (db\<lparr>newest := cn_flushPrev n\<rparr>)
      else
        bindR (upd_node (cn_flushPrev n) (\<lambda>c. c\<lparr>cn_flushNext := cn_flushNext n\<rparr>) db)
          (upd_node (cn_flushNext n) (\<lambda>c. c\<lparr>cn_flushPrev := cn_flushPrev n\<rparr>)))"

text \<open>\<^verbatim>\<open>dereference\<close>; a cascade goes down the trie, so its depth bounds the fuel.\<close>

fun db_dereference :: "nat \<Rightarrow> bytes \<Rightarrow> bytes \<Rightarrow> Database \<Rightarrow> Database res" where
  "db_dereference 0 child parent db = Inl OutOfFuel"
| "db_dereference (Suc fuel) child parent db =
     (case dirty db parent of
        None \<Rightarrow> Inl Panic
      | Some p \<Rightarrow>
          (let kids = (case cn_children p of None \<Rightarrow> [] | Some cs \<Rightarrow> cs);
               cnt = (case map_of kids child of None \<Rightarrow> 0 | Some c \<Rightarrow> c);
               db1 = (if 0 < cnt
                      then db\<lparr>dirties := AList.update parent
                                (p\<lparr>cn_children := Some (if cnt = 1 then AList.delete child kids
                                                         else AList.update child (cnt - 1) kids)\<rparr>) (dirties db),
                              childrenSize := childrenSize db - (if cnt = 1 then 34 else 0)\<rparr>
                      else db)
           in case dirty db1 child of
                None \<Rightarrow> Inr db1
              | Some n \<Rightarrow>
                  (let n' = n\<lparr>cn_parents := (if 0 < cn_parents n then cn_parents n - 1 else cn_parents n)\<rparr>;
                       db2 = db1\<lparr>dirties := AList.update child n' (dirties db1)\<rparr>
                   in if cn_parents n' = 0 then
                        bindR (unlink child n' db2) (\<lambda>db3.
                          bindR (foldR (\<lambda>h d. db_dereference fuel h child d) (forChilds n') db3) (\<lambda>db4.
                            Inr (db4\<lparr>dirties := AList.delete child (dirties db4),
                                     dirtiesSize := dirtiesSize db4 - (32 + uint (cn_size n')),
                                     childrenSize := childrenSize db4 -
                                       (if cn_children n' = None then 0 else cachedNodeChildrenSize)\<rparr>)))
                      else Inr db2)))"

definition Dereference :: "nat \<Rightarrow> bytes \<Rightarrow> Database \<Rightarrow> Database res" where
  "Dereference fuel rt db = (if rt = zeroHash then Inr db else db_dereference fuel rt zeroHash db)"

section \<open>Flushing\<close>

definition preimages_commit :: "bool \<Rightarrow> Database \<Rightarrow> Database" where
  "preimages_commit force db =
     (case preimages db of
        None \<Rightarrow> db
      | Some (ps, sz) \<Rightarrow>
          if sz \<le> 4 * 1024 * 1024 \<and> \<not> force then db
          else db\<lparr>diskPre := diskPre db ++ map_of ps, preimages := Some ([], 0)\<rparr>)"

fun insertPreimage :: "(bytes \<times> bytes) list \<Rightarrow> (bytes \<times> bytes) list \<times> int \<Rightarrow> (bytes \<times> bytes) list \<times> int" where
  "insertPreimage [] st = st"
| "insertPreimage ((h, p) # ps) (qs, sz) =
     insertPreimage ps (if map_of qs h \<noteq> None then (qs, sz) else ((h, p) # qs, sz + 32 + int (length p)))"

definition preimage :: "bytes \<Rightarrow> Database \<Rightarrow> bytes option" where
  "preimage hash db =
     (case preimages db of
        None \<Rightarrow> None
      | Some (ps, sz) \<Rightarrow> (case map_of ps hash of Some p \<Rightarrow> Some p | None \<Rightarrow> diskPre db hash))"

type_synonym batch = "(bytes \<times> bytes) list"

definition batch_Write :: "batch \<Rightarrow> Database \<Rightarrow> Database" where
  "batch_Write b db = db\<lparr>diskdb := diskdb db ++ map_of (rev b)\<rparr>"

definition cleaner_Put :: "bytes \<times> bytes \<Rightarrow> Database \<Rightarrow> Database res" where
  "cleaner_Put kv db =
     (case kv of (hash, rlp) \<Rightarrow>
        (case dirty db hash of
           None \<Rightarrow> Inr db
         | Some n \<Rightarrow>
             bindR (unlink hash n db) (\<lambda>db1.
               Inr (db1\<lparr>dirties := AList.delete hash (dirties db1),
                        dirtiesSize := dirtiesSize db1 - (32 + uint (cn_size n)),
                        childrenSize := childrenSize db1 -
                          (case cn_children n of None \<Rightarrow> 0 | Some cs \<Rightarrow> cachedNodeChildrenSize + int (length cs) * 34),
                        cleans := map_option (\<lambda>c. c(hash \<mapsto> rlp)) (cleans db1)\<rparr>))))"

text \<open>The recursion of \<^verbatim>\<open>commit\<close> over the children, children first; the state is the database with the batch.\<close>

definition flushBatch :: "batch \<Rightarrow> Database \<Rightarrow> Database res" where
  "flushBatch b db = foldR cleaner_Put b (batch_Write b db)"

fun db_commit :: "rlp_lib \<Rightarrow> (batch \<Rightarrow> bool) \<Rightarrow> nat \<Rightarrow> bytes \<Rightarrow> Database \<times> batch \<Rightarrow> (Database \<times> batch) res" where
  "db_commit R full 0 hash st = Inl OutOfFuel"
| "db_commit R full (Suc fuel) hash st =
     (case dirty (fst st) hash of
        None \<Rightarrow> Inr st
      | Some n \<Rightarrow>
          bindR (foldR (\<lambda>child s. db_commit R full fuel child s) (forChilds n) st) (\<lambda>(db, b).
            bindR (cached_rlp R n) (\<lambda>rlp.
              let b' = b @ [(hash, rlp)] in
              if full b' then bindR (flushBatch b' db) (\<lambda>db'. Inr (db', []))
              else Inr (db, b'))))"

definition db_Commit :: "rlp_lib \<Rightarrow> (batch \<Rightarrow> bool) \<Rightarrow> nat \<Rightarrow> bytes \<Rightarrow> Database \<Rightarrow> Database res" where
  "db_Commit R full fuel node db =
     bindR (db_commit R full fuel node (preimages_commit True db, [])) (\<lambda>(db', b). flushBatch b db')"

text \<open>\<^verbatim>\<open>Cap\<close>: the first loop writes the nodes of the flush list to disk until the size is below the limit and
  stops at \<open>old\<close>; the second takes what was written out of the cache. Both follow the flush list, so the
  number of dirty nodes bounds them. \<open>nsz\<close> is \<^verbatim>\<open>cachedNodeSize\<close>, the size of the Go struct.\<close>

definition childrenLen :: "cachedNode \<Rightarrow> int" where
  "childrenLen n = (case cn_children n of None \<Rightarrow> 0 | Some cs \<Rightarrow> int (length cs))"

definition childrenCost :: "cachedNode \<Rightarrow> int" where
  "childrenCost n = (if cn_children n = None then 0 else cachedNodeChildrenSize + childrenLen n * 34)"

fun capWrite ::
  "rlp_lib \<Rightarrow> (batch \<Rightarrow> bool) \<Rightarrow> int \<Rightarrow> int \<Rightarrow> nat \<Rightarrow> int \<Rightarrow> bytes \<Rightarrow> batch \<Rightarrow> Database \<Rightarrow> (bytes \<times> batch \<times> Database) res"
where
  "capWrite R full nsz limit fuel sz old b db =
     (if sz > limit \<and> old \<noteq> zeroHash then
        (case fuel of
           0 \<Rightarrow> Inl OutOfFuel
         | Suc fuel' \<Rightarrow>
             (case dirty db old of
                None \<Rightarrow> Inl Panic
              | Some n \<Rightarrow>
                  bindR (cached_rlp R n) (\<lambda>rlp.
                    let b' = b @ [(old, rlp)];
                        (b'', db') = (if full b' then ([], batch_Write b' db) else (b', db))
                    in capWrite R full nsz limit fuel' (sz - (32 + uint (cn_size n) + nsz) - childrenCost n)
                         (cn_flushNext n) b'' db')))
      else Inr (old, b, db))"

fun capUncache :: "nat \<Rightarrow> bytes \<Rightarrow> Database \<Rightarrow> Database res" where
  "capUncache fuel old db =
     (if oldest db \<noteq> old then
        (case fuel of
           0 \<Rightarrow> Inl OutOfFuel
         | Suc fuel' \<Rightarrow>
             (case dirty db (oldest db) of
                None \<Rightarrow> Inl Panic
              | Some n \<Rightarrow>
                  capUncache fuel' old
                    (db\<lparr>dirties := AList.delete (oldest db) (dirties db), oldest := cn_flushNext n,
                        dirtiesSize := dirtiesSize db - (32 + uint (cn_size n)),
                        childrenSize := childrenSize db - childrenCost n\<rparr>)))
      else Inr db)"

definition metarootRefs :: "Database \<Rightarrow> int res" where
  "metarootRefs db = (case dirty db zeroHash of None \<Rightarrow> Inl Panic | Some n \<Rightarrow> Inr (childrenLen n * 34))"

definition Cap :: "rlp_lib \<Rightarrow> (batch \<Rightarrow> bool) \<Rightarrow> int \<Rightarrow> int \<Rightarrow> Database \<Rightarrow> Database res" where
  "Cap R full nsz limit db =
     bindR (metarootRefs db) (\<lambda>refs.
       let sz = dirtiesSize db + (int (length (dirties db)) - 1) * nsz + (childrenSize db - refs);
           db1 = preimages_commit False db
       in bindR (capWrite R full nsz limit (length (dirties db)) sz (oldest db1) [] db1) (\<lambda>(old, b, db2).
            bindR (capUncache (length (dirties db)) old (batch_Write b db2)) (\<lambda>db3.
              if oldest db3 \<noteq> zeroHash then upd_node (oldest db3) (\<lambda>c. c\<lparr>cn_flushPrev := zeroHash\<rparr>) db3
              else Inr db3)))"

definition db_Size :: "int \<Rightarrow> Database \<Rightarrow> (int \<times> int) res" where
  "db_Size nsz db =
     bindR (metarootRefs db) (\<lambda>refs.
       Inr (dirtiesSize db + childrenSize db + (int (length (dirties db)) - 1) * nsz - refs,
            case preimages db of None \<Rightarrow> 0 | Some (ps, sz) \<Rightarrow> sz))"

section \<open>The update with a node set\<close>

type_synonym MergedNodeSet = "(bytes \<times> NodeSet) list"

definition Merge :: "MergedNodeSet \<Rightarrow> NodeSet option \<Rightarrow> MergedNodeSet res" where
  "Merge sets other =
     (case other of
        None \<Rightarrow> Inl Panic
      | Some ns \<Rightarrow> if map_of sets (ns_owner ns) \<noteq> None then Inl (ErrMsg ''duplicate trie for owner'')
                   else Inr (sets @ [(ns_owner ns, ns)]))"

definition NewWithNodeSet :: "NodeSet option \<Rightarrow> MergedNodeSet res" where
  "NewWithNodeSet ns = (case Merge [] ns of Inl (ErrMsg e) \<Rightarrow> Inr [] | r \<Rightarrow> r)"

definition forEachWithOrder :: "NodeSet \<Rightarrow> (bytes \<times> memoryNode) list" where
  "forEachWithOrder ns = map (\<lambda>path. (path, the (map_of (ns_nodes ns) path))) (rev (sort (map fst (ns_nodes ns))))"

definition insertSet :: "NodeSet \<Rightarrow> Database \<Rightarrow> Database res" where
  "insertSet ns = foldR (\<lambda>(path, n) d. if isDeleted n then Inr d else db_insert (mn_hash n) (mn_size n) (mn_node n) d)
     (forEachWithOrder ns)"

text \<open>\<open>decAccount\<close> stands for the RLP decoding of \<^verbatim>\<open>types.StateAccount\<close>, of which the field \<^verbatim>\<open>Root\<close> is used.\<close>

definition db_Update :: "(bytes \<Rightarrow> bytes res) \<Rightarrow> bytes \<Rightarrow> MergedNodeSet \<Rightarrow> Database \<Rightarrow> Database res" where
  "db_Update decAccount er sets db =
     (let order = filter (\<lambda>(own, ns). own \<noteq> zeroHash) sets @ filter (\<lambda>(own, ns). own = zeroHash) sets
      in bindR (foldR (\<lambda>(own, ns). insertSet ns) order db) (\<lambda>db1.
           case map_of sets zeroHash of
             None \<Rightarrow> Inr db1
           | Some ns \<Rightarrow>
               foldR (\<lambda>(blob, parent) d.
                 bindR (decAccount blob) (\<lambda>r. if r \<noteq> er then db_reference r parent d else Inr d))
                 (ns_leaves ns) db1))"

section \<open>Storing a state\<close>

text \<open>The steps that store a changed state trie: \<^verbatim>\<open>Commit(false)\<close>, \<^verbatim>\<open>triedb.Update(NewWithNodeSet(ns))\<close> and
  \<^verbatim>\<open>triedb.Commit(rt, false)\<close>, in \<^verbatim>\<open>GetUpdateStatusTrie\<close> of \<^verbatim>\<open>src/chain/blockchain.go\<close> and in the follower. A
  returned error is turned into a panic.\<close>

definition orPanic :: "'a res \<Rightarrow> 'a res" where
  "orPanic r = (case r of Inr a \<Rightarrow> Inr a | Inl OutOfFuel \<Rightarrow> Inl OutOfFuel | Inl e \<Rightarrow> Inl Panic)"

definition commitTrie ::
  "rlp_lib \<Rightarrow> (bytes \<Rightarrow> bytes) \<Rightarrow> bytes \<Rightarrow> (bytes \<Rightarrow> bytes res) \<Rightarrow> (batch \<Rightarrow> bool) \<Rightarrow> nat \<Rightarrow> Trie \<Rightarrow> Database \<Rightarrow>
    (bytes \<times> Database) res"
where
  "commitTrie R K er dec full fuel t db =
     bindR (fst (trie_Commit R K er False t)) (\<lambda>(rt, ns).
       bindR (NewWithNodeSet ns) (\<lambda>sets.
         bindR (orPanic (db_Update dec er sets db)) (\<lambda>db1.
           bindR (orPanic (db_Commit R full fuel rt db1)) (\<lambda>db2. Inr (rt, db2)))))"

end
