(* ===== verification/Trie_Reload.thy ===== *)
theory Trie_Reload
  imports Trie_Commit
begin

text \<open>
  Reading a committed trie back. The node a commit stores for a subtrie has the shape that the
  decoder accepts, so a trie opened on the root hash (\<^verbatim>\<open>New\<close> of \<^verbatim>\<open>src/trie/trie.go\<close>) over a store that
  has every stored node represents the same trie, with the flags of a trie that was just loaded.
\<close>

section \<open>Stored nodes are decodable\<close>

text \<open>What is relied on of Keccak here: a digest has 32 bytes.\<close>

definition hash32 :: "(bytes \<Rightarrow> bytes) \<Rightarrow> bool" where
  "hash32 K \<longleftrightarrow> (\<forall>x. length (K x) = 32)"

lemma compactKey_inverse: "nibs k \<or> hexkey k \<Longrightarrow> compactToHex (compactKey k) = k"
  using compact_inverse [of k] by (auto simp: compactKey_def)

lemma cref_rref:
  assumes "hash32 K" "rwf R (pnode R K q)"
  shows "rref R (cref R K (pnode R K q))"
  using rwf_shape [OF assms(2)] assms by (auto simp: cref_def hash32_def intro: rref_rwf.intros(2) intro!: rref_rwf.intros(1))

lemma pnode_rwf:
  assumes K: "hash32 K" and w: "pwf q"
  shows "rwf R (pnode R K q)"
  using w
proof (induction rule: pwf.induct)
  case (pwf_leaf k v)
  then show ?case
    by (auto simp: cref_def compactKey_inverse hexkey_hasTerm intro!: rref_rwf.intros(3))
next
  case (pwf_ext k ps)
  then show ?case
    using cref_rref [OF K pwf_ext.IH]
    by (auto simp: compactKey_inverse nibs_not_hasTerm intro!: rref_rwf.intros(4))
next
  case (pwf_full ps)
  have "ps = take 16 ps @ [ps ! 16]" using pwf_full(1) take_Suc_conv_app_nth [of 16 ps] by simp
  from arg_cong [OF this, of "map (\<lambda>p. cref R K (pnode R K p))"]
  have l: "map (\<lambda>p. cref R K (pnode R K p)) ps =
      map (\<lambda>p. cref R K (pnode R K p)) (take 16 ps) @ [cref R K (pnode R K (ps ! 16))]"
    by (simp only: map_append list.map)
  have "rwf R (RawFull (map (\<lambda>p. cref R K (pnode R K p)) (take 16 ps) @ [cref R K (pnode R K (ps ! 16))]))"
  proof (rule rref_rwf.intros(5))
    show "cref R K (pnode R K (ps ! 16)) = RawNil \<or> (\<exists>b. b \<noteq> [] \<and> cref R K (pnode R K (ps ! 16)) = RawValue b)"
      using pwf_full.hyps(2) by (auto simp: cref_def)
  next
    fix c assume "c \<in> set (map (\<lambda>p. cref R K (pnode R K p)) (take 16 ps))"
    then obtain i where i: "i < 16" "i < length ps" "c = cref R K (pnode R K (ps ! i))"
      by (auto simp: in_set_conv_nth)
    show "c = RawNil \<or> rref R c"
      unfolding i(3) using pwf_full.IH [rule_format, OF i(1)] cref_rref [OF K, of R "ps ! i"] by (elim disjE) (auto simp: cref_def [of R K RawNil])
  qed (use pwf_full(1) in simp)
  then show ?case by (simp only: pnode.simps l)
qed

lemma decode_pnode:
  assumes "rlp_ok R" "hash32 K" "pwf q"
  shows "mustDecodeNode R hash (penc R K q) = Inr (expand hash (pnode R K q))"
  using decode_encode(2) [OF assms(1) pnode_rwf [OF assms(2,3)], where rest = "[]" and
      fuel = "Suc (length (penc R K q))" and hash = hash]
  by (simp add: mustDecodeNode_def decodeNode_def)

section \<open>Loading\<close>

lemma avail_short: "avail R K sv path (PShort k q) \<Longrightarrow> avail R K sv (path @ k) q"
  by (auto simp: avail_def)

lemma avail_full: "avail R K sv path (PFull ps) \<Longrightarrow> i < length ps \<Longrightarrow> avail R K sv (path @ [word_of_nat i]) (ps ! i)"
  unfolding avail_def subtries.simps by blast

lemma avail_self: "avail R K sv path q \<Longrightarrow> hash_of R K path q = Some h \<Longrightarrow> sv path q h"
  by (cases q) (auto simp: avail_def)

lemma load_ref:
  assumes R: "rlp_ok R" and K: "hash32 K" and q: "psub q" and path: "path \<noteq> []"
    and sv: "avail R K sv path q" and rd: "avail R K (readable R K rd) path q"
    and IH: "pwf q \<Longrightarrow> rep (commit_pol R K sv) R rd path (expand (hash_of R K path q) (pnode R K q)) q"
  shows "rep (commit_pol R K sv) R rd path (expand None (cref R K (pnode R K q))) q"
proof (cases "pwf q")
  case True
  show ?thesis
  proof (cases "hash_of R K path q")
    case None
    then show ?thesis using IH [OF True] by (simp add: cref_refraw [OF path] refraw_def)
  next
    case (Some h)
    have "resolves R rd path h = Inr (expand (Some h) (pnode R K q))"
      using avail_self [OF rd Some] decode_pnode [OF R K True] by (simp add: readable_def resolves_def)
    moreover have "rep (commit_pol R K sv) R rd path (expand (Some h) (pnode R K q)) q" using IH [OF True] Some by simp
    ultimately have "rep (commit_pol R K sv) R rd path (HashNode h) q"
      by (rule rep_hash) (simp add: commit_pol_def Some sv)
    then show ?thesis using Some by (simp add: cref_refraw [OF path] refraw_def)
  qed
next
  case False
  then show ?thesis using q by (auto simp: psub_def cref_def intro: rep_nil rep_value)
qed

lemma load_rep:
  assumes R: "rlp_ok R" and K: "hash32 K"
  shows "pwf q \<Longrightarrow> avail R K sv path q \<Longrightarrow> avail R K (readable R K rd) path q \<Longrightarrow>
    rep (commit_pol R K sv) R rd path (expand (hash_of R K path q) (pnode R K q)) q"
proof (induction q arbitrary: path)
  case (PShort k q)
  have k: "k \<noteq> []" "psub q" using psub_short [OF PShort.prems(1)] by auto
  have "nibs k \<or> hexkey k" using PShort.prems(1) by (auto simp: pwf_short_iff)
  then have c: "compactToHex (compactKey k) = k" by (rule compactKey_inverse)
  have "rep (commit_pol R K sv) R rd (path @ k) (expand None (cref R K (pnode R K q))) q"
    using PShort.prems k by (intro load_ref [OF R K] PShort.IH) (auto intro: avail_short)
  then have "rep (commit_pol R K sv) R rd path
      (ShortNode k (expand None (cref R K (pnode R K q))) \<lparr>flag_hash = hash_of R K path (PShort k q), flag_dirty = False\<rparr>)
      (PShort k q)"
    by (rule rep_short) (simp add: commit_pol_def PShort.prems)
  then show ?case by (simp add: c)
next
  case (PFull ps)
  note ps = psub_full [OF PFull.prems(1)]
  let ?cs = "map (expand None \<circ> (\<lambda>p. cref R K (pnode R K p))) ps"
  have "rep (commit_pol R K sv) R rd path
      (FullNode ?cs \<lparr>flag_hash = hash_of R K path (PFull ps), flag_dirty = False\<rparr>) (PFull ps)"
  proof (rule rep_full)
    fix i assume "i < length ?cs"
    then have i: "i < length ps" by simp
    have "rep (commit_pol R K sv) R rd (path @ [word_of_nat i]) (expand None (cref R K (pnode R K (ps ! i)))) (ps ! i)"
      by (rule load_ref [OF R K]) (use i ps PFull.prems avail_full PFull.IH [of "ps ! i"] in auto)
    then show "rep (commit_pol R K sv) R rd (path @ [word_of_nat i]) (?cs ! i) (ps ! i)" using i by simp
  qed (simp_all add: commit_pol_def PFull.prems)
  then show ?case by (simp add: comp_def)
qed auto

text \<open>\<^verbatim>\<open>New\<close> on the root hash of a trie whose nodes can be read gives that trie.\<close>

lemma New_law:
  assumes R: "rlp_ok R" and K: "hash32 K" and p: "canon p"
    and sv: "avail R K sv [] p" and rd: "avail R K (readable R K rd) [] p"
    and er: "p \<noteq> PNil \<Longrightarrow> K (penc R K p) \<noteq> er" "p \<noteq> PNil \<Longrightarrow> K (penc R K p) \<noteq> zeroHash"
  shows "\<exists>t. trie_New R er (root_hash R K er p) rd = Inr t \<and> reader t = rd \<and> owner t = rd_owner rd \<and>
    rep (commit_pol R K sv) R rd [] (root t) p"
proof (cases "p = PNil")
  case True
  then show ?thesis by (simp add: trie_New_def root_hash_def Let_def rep_nil)
next
  case False
  then have w: "pwf p" using p by (auto simp: canon_def)
  then have h: "hash_of R K [] p = Some (K (penc R K p))" by (cases p) (auto simp: hash_of_def)
  have "resolves R rd [] (K (penc R K p)) = Inr (expand (hash_of R K [] p) (pnode R K p))"
    using avail_self [OF rd h] decode_pnode [OF R K w] by (simp add: readable_def resolves_def h)
  from resolveAndTrack_Inr [OF this] obtain tr where
    "resolveAndTrack R rd (K (penc R K p)) [] newTracer = (Inr (expand (hash_of R K [] p) (pnode R K p)), tr)" .
  moreover have "rep (commit_pol R K sv) R rd [] (expand (hash_of R K [] p) (pnode R K p)) p"
    by (rule load_rep [OF R K w sv rd])
  ultimately show ?thesis using False er by (simp add: trie_New_def root_hash_def zeroHash_def)
qed

end
