(* ===== verification/Database_Inv.thy ===== *)
theory Database_Inv
  imports Trie_Database Trie_Reload
begin

text \<open>
  The invariant of \<^verbatim>\<open>src/trie/database.go\<close>: the dirty nodes form a doubly linked list in the order of their
  insertion (\<open>flushlist\<close>), every dirty node is decodable, and the clean cache agrees with what is stored
  (\<open>db_ok\<close>). \<open>blob_at\<close> is the abstraction of the database: the blob under a hash. Unlinking a node, inserting
  one and the update with a node set keep the invariant, and never follow a nil pointer.
\<close>

declare capWrite.simps [simp del] capUncache.simps [simp del]

section \<open>The flush list\<close>

text \<open>\<open>chain nx pv xs e\<close>: the list \<open>xs\<close> is linked both ways and its last element points to \<open>e\<close>. The backward
  pointer of the first element is not looked at: the code leaves a stale one there.\<close>

fun chain :: "(bytes \<Rightarrow> bytes) \<Rightarrow> (bytes \<Rightarrow> bytes) \<Rightarrow> bytes list \<Rightarrow> bytes \<Rightarrow> bool" where
  "chain nx pv [] e = True"
| "chain nx pv [x] e = (nx x = e)"
| "chain nx pv (x # y # xs) e = (nx x = y \<and> pv y = x \<and> chain nx pv (y # xs) e)"

lemma in_set_tl: "x \<in> set (tl xs) \<Longrightarrow> x \<in> set xs"
  by (cases xs) auto

lemma chain_append:
  "chain nx pv (xs @ y # ys) e \<longleftrightarrow>
     chain nx pv xs y \<and> (xs \<noteq> [] \<longrightarrow> pv y = last xs) \<and> chain nx pv (y # ys) e"
proof (induction xs)
  case (Cons x xs)
  then show ?case by (cases xs) auto
qed simp

lemma chain_cong:
  "(\<And>x. x \<in> set xs \<Longrightarrow> nx x = nx' x) \<Longrightarrow> (\<And>x. x \<in> set (tl xs) \<Longrightarrow> pv x = pv' x) \<Longrightarrow>
     chain nx pv xs e \<longleftrightarrow> chain nx' pv' xs e"
  by (induction nx pv xs e rule: chain.induct) auto

lemma chain_end:
  assumes "chain nx pv xs e" "distinct xs" "nx' (last xs) = e'" "\<And>x. x \<in> set xs \<Longrightarrow> x \<noteq> last xs \<Longrightarrow> nx' x = nx x"
    "\<And>x. x \<in> set (tl xs) \<Longrightarrow> pv' x = pv x"
  shows "chain nx' pv' xs e'"
proof (cases xs rule: rev_cases)
  case (snoc ys y)
  have "chain nx pv ys y" "ys \<noteq> [] \<longrightarrow> pv y = last ys"
    using assms(1) by (simp_all add: snoc chain_append)
  moreover have "chain nx' pv' ys y \<longleftrightarrow> chain nx pv ys y"
    using assms(2,4,5) by (intro chain_cong; cases ys) (auto simp: snoc)
  moreover have "ys \<noteq> [] \<longrightarrow> pv' y = pv y" using assms(5) by (cases ys) (auto simp: snoc)
  ultimately show ?thesis using assms(3) by (simp add: snoc chain_append)
qed simp

definition nextOf :: "Database \<Rightarrow> bytes \<Rightarrow> bytes" where
  "nextOf db h = (case dirty db h of None \<Rightarrow> zeroHash | Some n \<Rightarrow> cn_flushNext n)"

definition prevOf :: "Database \<Rightarrow> bytes \<Rightarrow> bytes" where
  "prevOf db h = (case dirty db h of None \<Rightarrow> zeroHash | Some n \<Rightarrow> cn_flushPrev n)"

text \<open>\<open>xs\<close> are the dirty nodes in the order of their insertion.\<close>

definition flushlist :: "Database \<Rightarrow> bytes list \<Rightarrow> bool" where
  "flushlist db xs \<longleftrightarrow>
     distinct xs \<and> zeroHash \<notin> set xs \<and> dom (dirty db) = insert zeroHash (set xs) \<and>
     distinct (map fst (dirties db)) \<and> oldest db = hd (xs @ [zeroHash]) \<and> (xs \<noteq> [] \<longrightarrow> newest db = last xs) \<and>
     chain (nextOf db) (prevOf db) xs zeroHash"

definition nodeOf :: "Database \<Rightarrow> bytes \<Rightarrow> (rnode \<times> (bytes \<times> 16 word) list option) option" where
  "nodeOf db h = map_option (\<lambda>n. (cn_node n, cn_children n)) (dirty db h)"

lemma upd_node_simps:
  assumes "dirty db h = Some n"
  shows "upd_node h f db = Inr (db\<lparr>dirties := AList.update h (f n) (dirties db)\<rparr>)"
  using assms by (simp add: upd_node_def)

lemma flushlist_dirty: "flushlist db xs \<Longrightarrow> h = zeroHash \<or> h \<in> set xs \<Longrightarrow> \<exists>n. dirty db h = Some n"
  unfolding flushlist_def by (metis domD insert_iff)

lemma flushlist_None: "flushlist db xs \<Longrightarrow> dirty db h = None \<longleftrightarrow> h \<noteq> zeroHash \<and> h \<notin> set xs"
  unfolding flushlist_def by (metis domIff insert_iff)

text \<open>A write through a pointer, seen by the lookups.\<close>

lemma nextOf_update:
  "nextOf (db\<lparr>dirties := AList.update h n ds\<rparr>) x = (if x = h then cn_flushNext n else nextOf (db\<lparr>dirties := ds\<rparr>) x)"
  "prevOf (db\<lparr>dirties := AList.update h n ds\<rparr>) x = (if x = h then cn_flushPrev n else prevOf (db\<lparr>dirties := ds\<rparr>) x)"
  by (simp_all add: nextOf_def prevOf_def update_conv')

text \<open>\<open>same_nodes\<close>: only the links and the counters differ.\<close>

definition same_but :: "Database \<Rightarrow> Database \<Rightarrow> bool" where
  "same_but db db' \<longleftrightarrow> nodeOf db' = nodeOf db \<and> diskdb db' = diskdb db \<and> cleans db' = cleans db \<and>
     (distinct (map fst (dirties db)) \<longrightarrow> distinct (map fst (dirties db')))"

lemma same_but_refl: "same_but db db"
  by (simp add: same_but_def)

lemma same_but_trans: "same_but a b \<Longrightarrow> same_but b c \<Longrightarrow> same_but a c"
  by (simp add: same_but_def)

lemma nodeOf_dom: "nodeOf db' = nodeOf db \<Longrightarrow> dom (dirty db') = dom (dirty db)"
proof (rule set_eqI)
  fix h assume "nodeOf db' = nodeOf db"
  then have "nodeOf db' h = nodeOf db h" by simp
  then show "h \<in> dom (dirty db') \<longleftrightarrow> h \<in> dom (dirty db)" by (cases "dirty db h"; cases "dirty db' h") (auto simp: nodeOf_def domIff)
qed

lemma same_but_update:
  assumes "dirty db h = Some n" "cn_node n' = cn_node n" "cn_children n' = cn_children n"
    "dirties db' = AList.update h n' (dirties db)" "diskdb db' = diskdb db" "cleans db' = cleans db"
  shows "same_but db db'"
  using assms by (auto simp: same_but_def nodeOf_def fun_eq_iff update_conv' distinct_update)

definition uncache :: "bytes \<Rightarrow> Database \<Rightarrow> Database" where
  "uncache h db = db\<lparr>dirties := AList.delete h (dirties db)\<rparr>"

lemma uncache_links: "x \<noteq> h \<Longrightarrow> nextOf (uncache h db) x = nextOf db x" "x \<noteq> h \<Longrightarrow> prevOf (uncache h db) x = prevOf db x"
  by (simp_all add: nextOf_def prevOf_def uncache_def delete_conv')

lemma flushlist_uncacheI:
  assumes "flushlist db (ys @ h # zs)" "same_but db db1" "oldest db1 = hd (ys @ zs @ [zeroHash])"
    "ys @ zs \<noteq> [] \<Longrightarrow> newest db1 = last (ys @ zs)" "chain (nextOf db1) (prevOf db1) (ys @ zs) zeroHash"
  shows "flushlist (uncache h db1) (ys @ zs)"
proof -
  have h: "h \<notin> set (ys @ zs)" "h \<noteq> zeroHash" using assms(1) by (auto simp: flushlist_def)
  have "chain (nextOf (uncache h db1)) (prevOf (uncache h db1)) (ys @ zs) zeroHash \<longleftrightarrow>
      chain (nextOf db1) (prevOf db1) (ys @ zs) zeroHash"
    by (rule chain_cong; rule uncache_links) (use h in \<open>auto dest!: in_set_tl\<close>)
  moreover have "dom (dirty (uncache h db1)) = insert zeroHash (set (ys @ zs))"
    using nodeOf_dom [of db1 db] assms(1,2) h by (auto simp: same_but_def flushlist_def uncache_def delete_conv')
  ultimately show ?thesis
    using assms by (simp add: flushlist_def same_but_def uncache_def distinct_delete)
qed

lemma unlink_correct:
  assumes fl: "flushlist db (ys @ h # zs)" and n: "dirty db h = Some n"
  shows "\<exists>db1. unlink h n db = Inr db1 \<and> same_but db db1 \<and> flushlist (uncache h db1) (ys @ zs)"
proof -
  have d: "distinct (ys @ h # zs)" "zeroHash \<notin> set (ys @ h # zs)" using fl by (auto simp: flushlist_def)
  have old: "oldest db = hd (ys @ h # zs @ [zeroHash])" using fl by (auto simp: flushlist_def)
  have new: "newest db = last (h # zs)" using fl by (simp add: flushlist_def)
  have ch: "chain (nextOf db) (prevOf db) ys h" "ys \<noteq> [] \<Longrightarrow> prevOf db h = last ys"
    "chain (nextOf db) (prevOf db) (h # zs) zeroHash"
    using fl by (auto simp: flushlist_def chain_append)
  have next_h: "cn_flushNext n = hd (zs @ [zeroHash])" and prev_h: "ys \<noteq> [] \<Longrightarrow> cn_flushPrev n = last ys"
    using ch n by (cases zs; simp add: nextOf_def prevOf_def)+
  have czs: "chain (nextOf db) (prevOf db) zs zeroHash" using ch(3) by (cases zs) auto
  have in_dom: "\<exists>m. dirty db x = Some m" if "x = zeroHash \<or> x \<in> set (ys @ h # zs)" for x
    using flushlist_dirty [OF fl that] .
  show ?thesis
  proof (cases "ys = []")
    case True
    obtain m where m: "dirty db (hd (zs @ [zeroHash])) = Some m" using in_dom [of "hd (zs @ [zeroHash])"] by (cases zs) auto
    let ?db = "db\<lparr>oldest := cn_flushNext n, dirties := AList.update (cn_flushNext n) (m\<lparr>cn_flushPrev := zeroHash\<rparr>) (dirties db)\<rparr>"
    have "unlink h n db = Inr ?db" using True old m next_h by (simp add: unlink_def upd_node_def)
    moreover have "same_but db ?db" by (rule same_but_update [of db "cn_flushNext n" m]) (use m next_h in auto)
    moreover have "flushlist (uncache h ?db) (ys @ zs)"
    proof (rule flushlist_uncacheI [OF fl calculation(2)])
      have "chain (nextOf ?db) (prevOf ?db) zs zeroHash \<longleftrightarrow> chain (nextOf db) (prevOf db) zs zeroHash"
        using m next_h d by (intro chain_cong; cases zs) (auto simp: nextOf_def prevOf_def update_conv')
      then show "chain (nextOf ?db) (prevOf ?db) (ys @ zs) zeroHash" using True czs by simp
    qed (use True new next_h in auto)
    ultimately show ?thesis by blast
  next
    case ys: False
    then have "h \<noteq> oldest db" using old d by (cases ys) auto
    obtain m where m: "dirty db (last ys) = Some m" using in_dom [of "last ys"] ys by auto
    show ?thesis
    proof (cases "zs = []")
      case True
      let ?db = "db\<lparr>newest := last ys, dirties := AList.update (last ys) (m\<lparr>cn_flushNext := zeroHash\<rparr>) (dirties db)\<rparr>"
      have "unlink h n db = Inr ?db" using \<open>h \<noteq> oldest db\<close> new True m prev_h [OF ys] by (simp add: unlink_def upd_node_def)
      moreover have "same_but db ?db" by (rule same_but_update [of db "last ys" m]) (use m in auto)
      moreover have "flushlist (uncache h ?db) (ys @ zs)"
      proof (rule flushlist_uncacheI [OF fl calculation(2)])
        have "chain (nextOf ?db) (prevOf ?db) ys zeroHash"
          by (rule chain_end [OF ch(1)]) (use d m in \<open>auto simp: nextOf_def prevOf_def update_conv'\<close>)
        then show "chain (nextOf ?db) (prevOf ?db) (ys @ zs) zeroHash" using True by simp
      qed (use True ys old in \<open>auto simp: hd_append\<close>)
      ultimately show ?thesis by blast
    next
      case zs: False
      obtain k where k: "dirty db (hd zs) = Some k" using in_dom [of "hd zs"] zs by auto
      have ne: "last ys \<noteq> hd zs" "h \<noteq> newest db"
        using d ys zs new by (auto simp: disjoint_iff) (metis hd_in_set last_in_set)
      let ?ds = "AList.update (last ys) (m\<lparr>cn_flushNext := hd zs\<rparr>) (dirties db)"
      let ?db = "db\<lparr>dirties := AList.update (hd zs) (k\<lparr>cn_flushPrev := last ys\<rparr>) ?ds\<rparr>"
      have "unlink h n db = Inr ?db"
        using \<open>h \<noteq> oldest db\<close> ne m k prev_h [OF ys] next_h zs by (simp add: unlink_def upd_node_def update_conv')
      moreover have "same_but db ?db"
      proof (rule same_but_trans)
        show "same_but db (db\<lparr>dirties := ?ds\<rparr>)" by (rule same_but_update [of db "last ys" m]) (use m in auto)
        show "same_but (db\<lparr>dirties := ?ds\<rparr>) ?db"
          by (rule same_but_update [of _ "hd zs" k]) (use k ne in \<open>auto simp: update_conv'\<close>)
      qed
      moreover have "flushlist (uncache h ?db) (ys @ zs)"
      proof (rule flushlist_uncacheI [OF fl calculation(2)])
        have nx: "nextOf ?db x = (if x = last ys then hd zs else nextOf db x)"
          and pv: "prevOf ?db x = (if x = hd zs then last ys else prevOf db x)" for x
          using m k ne by (auto simp: nextOf_def prevOf_def update_conv')
        obtain z zs' where z: "zs = z # zs'" using zs by (cases zs) auto
        then have z': "hd zs = z" "z \<notin> set ys" "z \<notin> set zs'" "last ys \<notin> set zs'" "last ys \<noteq> z" "distinct ys"
          using d ys by (auto simp: disjoint_iff)
        have "chain (nextOf ?db) (prevOf ?db) ys z"
          by (rule chain_end [OF ch(1)]) (use z' in \<open>auto simp: nx pv dest!: in_set_tl\<close>)
        moreover have "chain (nextOf ?db) (prevOf ?db) (z # zs') zeroHash \<longleftrightarrow> chain (nextOf db) (prevOf db) (z # zs') zeroHash"
          using z' by (intro chain_cong) (auto simp: nx pv)
        moreover have "prevOf ?db z = last ys" unfolding pv by (simp add: z'(1))
        ultimately have "chain (nextOf ?db) (prevOf ?db) (ys @ z # zs') zeroHash" using czs z by (simp only: chain_append simp_thms)
        then show "chain (nextOf ?db) (prevOf ?db) (ys @ zs) zeroHash" by (simp only: z)
      qed (use ys zs old new in \<open>auto simp: hd_append\<close>)
      ultimately show ?thesis by blast
    qed
  qed
qed


section \<open>What the database holds\<close>

text \<open>The blob under a hash: the one of the dirty node, or the one on disk.\<close>

definition blob_at :: "rlp_lib \<Rightarrow> Database \<Rightarrow> bytes \<Rightarrow> bytes option" where
  "blob_at R db h =
     (if h = zeroHash then None
      else case dirty db h of Some n \<Rightarrow> Some (raw_encode R (cn_node n)) | None \<Rightarrow> diskdb db h)"

definition db_ok :: "rlp_lib \<Rightarrow> Database \<Rightarrow> bool" where
  "db_ok R db \<longleftrightarrow>
     (\<exists>xs. flushlist db xs) \<and>
     (\<forall>h n. dirty db h = Some n \<longrightarrow> h \<noteq> zeroHash \<longrightarrow> rwf R (cn_node n) \<and> cn_children n = None) \<and>
     (\<forall>h. diskdb db h \<noteq> Some []) \<and>
     (\<forall>c h b. cleans db = Some c \<longrightarrow> c h = Some b \<longrightarrow> blob_at R db h = Some b)"

lemma db_ok_New:
  "(\<forall>h. disk h \<noteq> Some []) \<Longrightarrow> db_ok R (NewDatabaseWithConfig disk pre cache wp)"
  by (auto simp: db_ok_def NewDatabaseWithConfig_def flushlist_def split: if_splits intro!: exI [of _ "[]"])

lemma rwf_encode: "rlp_ok R \<Longrightarrow> rwf R n \<Longrightarrow> n \<noteq> RawNil \<and> raw_encode R n \<noteq> []"
proof -
  assume "rlp_ok R" "rwf R n"
  have "WriteList R p \<noteq> []" for p using rlp_okD(7) [OF \<open>rlp_ok R\<close>, of p] by auto
  then show ?thesis using rwf_shape [OF \<open>rwf R n\<close>] by auto
qed

lemma blob_nonempty: "rlp_ok R \<Longrightarrow> db_ok R db \<Longrightarrow> blob_at R db h \<noteq> Some []"
  using rwf_encode [of R] by (auto simp: blob_at_def db_ok_def split: option.splits)

lemma cached_rlp_ok:
  "rlp_ok R \<Longrightarrow> db_ok R db \<Longrightarrow> dirty db h = Some n \<Longrightarrow> h \<noteq> zeroHash \<Longrightarrow> cached_rlp R n = Inr (raw_encode R (cn_node n))"
  using rwf_encode [of R "cn_node n"] by (auto simp: cached_rlp_def db_ok_def)

lemma db_Node_blob:
  assumes R: "rlp_ok R" and ok: "db_ok R db"
  shows "fst (db_Node R h db) = (case blob_at R db h of None \<Rightarrow> Inl (ErrMsg ''not found'') | Some b \<Rightarrow> Inr b)"
proof (cases "h = zeroHash")
  case False
  have rlp: "cached_rlp R n = Inr (raw_encode R (cn_node n))" if "dirty db h = Some n" for n
    by (rule cached_rlp_ok [OF R ok that False])
  have disk: "diskdb db h \<noteq> Some []" using ok by (simp add: db_ok_def)
  show ?thesis
  proof (cases "case cleans db of None \<Rightarrow> None | Some c \<Rightarrow> c h")
    case None
    then show ?thesis using False rlp disk by (auto simp: db_Node_def blob_at_def split: option.splits)
  next
    case (Some b)
    then have "blob_at R db h = Some b" using ok by (auto simp: db_ok_def split: option.splits)
    then show ?thesis using Some False by (simp add: db_Node_def)
  qed
qed (simp add: db_Node_def blob_at_def)

lemma nodeBlob_db:
  assumes "rlp_ok R" "db_ok R db"
  shows "nodeBlob (newTrieReader R db own) path h = Inr b \<longleftrightarrow> blob_at R db h = Some b"
  using blob_nonempty [OF assms, of h]
  by (auto simp: nodeBlob_def newTrieReader_def NodeBlob_def db_Node_blob [OF assms] split: option.splits)

section \<open>The children of a blob\<close>

text \<open>Two stored nodes with the same encoding have the same children.\<close>

fun gather :: "node \<Rightarrow> bytes list" where
  "gather (ShortNode k v fl) = gather v"
| "gather (FullNode cs fl) = concat (take 16 (map gather cs))"
| "gather (HashNode h) = [h]"
| "gather _ = []"

lemma gather_expand:
  "rref R r \<Longrightarrow> gather (expand hash r) = forGatherChildren r"
  "rwf R r \<Longrightarrow> gather (expand hash r) = forGatherChildren r"
proof (induction arbitrary: hash and hash rule: rref_rwf.inducts)
  case (5 cs v)
  have "map (\<lambda>c. gather (expand None c)) cs = map forGatherChildren cs"
  proof (rule map_cong)
    fix c assume "c \<in> set cs"
    then show "gather (expand None c) = forGatherChildren c" using 5(3) [of c] by auto
  qed simp
  then show ?case using 5(1) by (simp add: comp_def cong: map_cong)
qed auto

lemma same_blob_children:
  assumes R: "rlp_ok R" and "rwf R r" "rwf R r'" "raw_encode R r = raw_encode R r'"
  shows "forGatherChildren r = forGatherChildren r'"
proof -
  let ?f = "Suc (length (raw_encode R r))"
  have "expand None r = expand None r'"
    using decode_encode(2) [OF R assms(2), of "[]" ?f None] decode_encode(2) [OF R assms(3), of "[]" ?f None] assms(4)
    by simp
  then show ?thesis using gather_expand(2) [OF assms(2), of None] gather_expand(2) [OF assms(3), of None] by simp
qed

section \<open>Saved in the database\<close>

definition on_disk :: "rlp_lib \<Rightarrow> (bytes \<Rightarrow> bytes) \<Rightarrow> Database \<Rightarrow> bytes \<Rightarrow> ptrie \<Rightarrow> bool" where
  "on_disk R K db = avail R K (\<lambda>pa q h. diskdb db h = Some (penc R K q) \<and> blob_at R db h = Some (penc R K q))"

text \<open>A stored node is either dirty, or on disk together with everything below it.\<close>

definition in_db :: "rlp_lib \<Rightarrow> (bytes \<Rightarrow> bytes) \<Rightarrow> Database \<Rightarrow> saved" where
  "in_db R K db pa q h \<longleftrightarrow>
     blob_at R db h = Some (penc R K q) \<and> (dirty db h \<noteq> None \<or> on_disk R K db pa q)"

lemma avail_mono:
  "avail R K sv path q \<Longrightarrow> (\<And>pa r h. (pa, r) \<in> subtries path q \<Longrightarrow> sv pa r h \<Longrightarrow> sv' pa r h) \<Longrightarrow> avail R K sv' path q"
  unfolding avail_def by blast

lemma avail_sub: "avail R K sv path q \<Longrightarrow> subtries pa r \<subseteq> subtries path q \<Longrightarrow> avail R K sv pa r"
  unfolding avail_def by blast

lemma in_db_readable:
  assumes "rlp_ok R" "db_ok R db" "avail R K (in_db R K db) path q"
  shows "avail R K (readable R K (newTrieReader R db own)) path q"
  by (rule avail_mono [OF assms(3)]) (simp add: in_db_def readable_def nodeBlob_db [OF assms(1,2)])

section \<open>Insertion\<close>

lemma fold_addParent:
  "same_but db (fold addParent cs db) \<and> nextOf (fold addParent cs db) = nextOf db \<and>
   prevOf (fold addParent cs db) = prevOf db \<and> oldest (fold addParent cs db) = oldest db \<and>
   newest (fold addParent cs db) = newest db"
proof (induction cs arbitrary: db)
  case (Cons c cs)
  have "same_but db (addParent c db) \<and> nextOf (addParent c db) = nextOf db \<and> prevOf (addParent c db) = prevOf db \<and>
    oldest (addParent c db) = oldest db \<and> newest (addParent c db) = newest db"
  proof (cases "dirty db c")
    case (Some n)
    have "same_but db (addParent c db)" by (rule same_but_update [of db c n]) (simp_all add: addParent_def Some)
    moreover have "nextOf (addParent c db) = nextOf db \<and> prevOf (addParent c db) = prevOf db"
      by (auto simp: addParent_def Some nextOf_def prevOf_def fun_eq_iff update_conv')
    ultimately show ?thesis by (simp add: addParent_def Some)
  qed (simp add: addParent_def same_but_refl)
  then show ?case using Cons [of "addParent c db"] same_but_trans by fastforce
qed (simp add: same_but_refl)

lemma flushlist_same:
  assumes "flushlist db xs" "same_but db db'" "nextOf db' = nextOf db" "prevOf db' = prevOf db"
    "oldest db' = oldest db" "newest db' = newest db"
  shows "flushlist db' xs"
  using assms nodeOf_dom [of db' db] by (simp add: flushlist_def same_but_def)

lemma db_insert_links:
  assumes fl: "flushlist db xs" and h: "dirty db h = None"
  shows "\<exists>db'. db_insert h sz n db = Inr db' \<and> flushlist db' (xs @ [h]) \<and>
    nodeOf db' = (nodeOf db)(h \<mapsto> (n, None)) \<and> diskdb db' = diskdb db \<and> cleans db' = cleans db"
proof -
  define e where "e = \<lparr>cn_node = n, cn_size = sz, cn_parents = 0, cn_children = None,
                        cn_flushPrev = newest db, cn_flushNext = zeroHash\<rparr>"
  define db1 where "db1 = fold addParent (forChilds e) db"
  have s1: "same_but db db1" and fl1: "flushlist db1 xs" and o1: "oldest db1 = oldest db" "newest db1 = newest db"
    using fold_addParent [of db "forChilds e"] flushlist_same [OF fl] by (auto simp: db1_def)
  have h1: "dirty db1 h = None" "h \<noteq> zeroHash" "h \<notin> set xs"
    using nodeOf_dom [of db1 db] s1 h flushlist_None [OF fl, of h] by (auto simp: same_but_def domIff)
  have nodes1: "nodeOf db1 = nodeOf db" "diskdb db1 = diskdb db" "cleans db1 = cleans db" using s1 by (simp_all add: same_but_def)
  define db2 where "db2 = db1\<lparr>dirties := AList.update h e (dirties db1)\<rparr>"
  have d2: "distinct (map fst (dirties db2))" using fl1 by (simp add: db2_def flushlist_def distinct_update)
  show ?thesis
  proof (cases "xs = []")
    case True
    define db' where "db' = db2\<lparr>oldest := h, newest := h, dirtiesSize := dirtiesSize db2 + uint (32 + sz)\<rparr>"
    have "oldest db1 = zeroHash" using True fl1 by (simp add: flushlist_def)
    then have "db_insert h sz n db = Inr db'"
      by (simp add: db_insert_def h e_def [symmetric] db1_def [symmetric] db2_def [symmetric] Let_def db'_def)
    moreover have "nodeOf db' = (nodeOf db)(h \<mapsto> (n, None))"
      by (simp add: nodeOf_def fun_eq_iff db'_def db2_def update_conv' e_def nodes1(1) [unfolded nodeOf_def fun_eq_iff, rule_format])
    moreover have "flushlist db' (xs @ [h])"
      using fl1 True d2 h1 by (auto simp: flushlist_def db'_def db2_def update_conv' nextOf_def e_def)
    ultimately show ?thesis using nodes1 by (simp add: db'_def db2_def)
  next
    case False
    obtain m where m: "dirty db1 (last xs) = Some m" using flushlist_dirty [OF fl1, of "last xs"] False by auto
    have new: "newest db = last xs" using fl False by (simp add: flushlist_def)
    have l: "last xs \<noteq> h" using h1 False by auto
    have old: "oldest db1 \<noteq> zeroHash" using fl1 False by (cases xs) (auto simp: flushlist_def)
    define db3 where "db3 = db2\<lparr>dirties := AList.update (last xs) (m\<lparr>cn_flushNext := h\<rparr>) (dirties db2)\<rparr>"
    define db' where "db' = db3\<lparr>newest := h, dirtiesSize := dirtiesSize db3 + uint (32 + sz)\<rparr>"
    have "upd_node (newest db2) (\<lambda>c. c\<lparr>cn_flushNext := h\<rparr>) db2 = Inr db3"
      using m l by (simp add: upd_node_def db2_def o1 new db3_def update_conv')
    then have "db_insert h sz n db = Inr db'"
      using old by (simp add: db_insert_def h e_def [symmetric] db1_def [symmetric] db2_def [symmetric] Let_def db'_def)
    moreover have "nodeOf db' = (nodeOf db)(h \<mapsto> (n, None))"
    proof
      fix x
      have "nodeOf db' x = ((nodeOf db1)(h \<mapsto> (n, None))) x"
        using m l by (cases "x = h"; cases "x = last xs") (simp_all add: nodeOf_def db'_def db3_def db2_def update_conv' e_def)
      then show "nodeOf db' x = ((nodeOf db)(h \<mapsto> (n, None))) x" by (simp only: nodes1)
    qed
    moreover have "flushlist db' (xs @ [h])"
    proof -
      have nx: "nextOf db' x = (if x = last xs then h else if x = h then zeroHash else nextOf db1 x)"
        and pv: "prevOf db' x = (if x = h then last xs else prevOf db1 x)" for x
        using m l by (auto simp: nextOf_def prevOf_def db'_def db3_def db2_def update_conv' e_def new)
      have c1: "chain (nextOf db1) (prevOf db1) xs zeroHash" "distinct xs" using fl1 by (simp_all add: flushlist_def)
      have "chain (nextOf db') (prevOf db') xs h"
      proof (rule chain_end [OF c1])
        fix x assume "x \<in> set xs" "x \<noteq> last xs"
        then show "nextOf db' x = nextOf db1 x" using h1(3) by (auto simp: nx)
      next
        fix x assume "x \<in> set (tl xs)"
        then show "prevOf db' x = prevOf db1 x" using h1(3) by (auto simp: pv dest!: in_set_tl)
      qed (simp add: nx)
      then have "chain (nextOf db') (prevOf db') (xs @ [h]) zeroHash" using l by (simp add: chain_append nx pv)
      moreover have "dom (dirty db') = insert h (insert zeroHash (set xs))"
      proof -
        have "dom (dirty db') = insert (last xs) (insert h (dom (dirty db1)))"
          by (auto simp: db'_def db3_def db2_def update_conv')
        then show ?thesis using fl1 False by (auto simp: flushlist_def)
      qed
      moreover have "distinct (map fst (dirties db'))" using d2 by (simp add: db'_def db3_def distinct_update)
      moreover have "oldest db' = hd ((xs @ [h]) @ [zeroHash])" "newest db' = h"
        using fl1 False by (simp_all add: flushlist_def db'_def db3_def db2_def)
      ultimately show ?thesis using c1 h1 fl1 by (simp add: flushlist_def insert_commute)
    qed
    ultimately show ?thesis using nodes1 by (simp add: db'_def db3_def db2_def)
  qed
qed

lemma blob_at_nodeOf:
  "blob_at R db h = (if h = zeroHash then None
     else case nodeOf db h of Some (n, cs) \<Rightarrow> Some (raw_encode R n) | None \<Rightarrow> diskdb db h)"
  by (auto simp: blob_at_def nodeOf_def split: option.splits)

lemma db_ok_nodeOf:
  "db_ok R db \<longleftrightarrow>
     (\<exists>xs. flushlist db xs) \<and>
     (\<forall>h n cs. nodeOf db h = Some (n, cs) \<longrightarrow> h \<noteq> zeroHash \<longrightarrow> rwf R n \<and> cs = None) \<and>
     (\<forall>h. diskdb db h \<noteq> Some []) \<and>
     (\<forall>c h b. cleans db = Some c \<longrightarrow> c h = Some b \<longrightarrow> blob_at R db h = Some b)"
  by (auto simp: db_ok_def nodeOf_def)

text \<open>An update only adds.\<close>

definition grows :: "rlp_lib \<Rightarrow> Database \<Rightarrow> Database \<Rightarrow> bool" where
  "grows R db db' \<longleftrightarrow> diskdb db' = diskdb db \<and> dom (dirty db) \<subseteq> dom (dirty db') \<and> blob_at R db \<subseteq>\<^sub>m blob_at R db'"

lemma grows_refl: "grows R db db"
  by (simp add: grows_def)

lemma grows_trans: "grows R a b \<Longrightarrow> grows R b c \<Longrightarrow> grows R a c"
  unfolding grows_def by (auto intro: map_le_trans)

lemma growsD: "grows R db db' \<Longrightarrow> blob_at R db h = Some b \<Longrightarrow> blob_at R db' h = Some b"
  unfolding grows_def map_le_def by (metis domI)

lemma in_db_grows:
  assumes g: "grows R db db'" and i: "in_db R K db pa q h"
  shows "in_db R K db' pa q h"
proof -
  have "on_disk R K db' pa q" if "on_disk R K db pa q"
    using that unfolding on_disk_def
    by (rule avail_mono) (use g growsD [OF g] in \<open>auto simp: grows_def\<close>)
  moreover have "dirty db' h \<noteq> None" if "dirty db h \<noteq> None"
    using that g unfolding grows_def by (metis domIff subsetD)
  ultimately show ?thesis using i growsD [OF g] by (auto simp: in_db_def)
qed

lemma db_insert_ok:
  assumes R: "rlp_ok R" and ok: "db_ok R db" and h: "h \<noteq> zeroHash" and n: "rwf R n"
    and b: "blob_at R db h = None \<or> blob_at R db h = Some (raw_encode R n)"
  shows "\<exists>db'. db_insert h sz n db = Inr db' \<and> db_ok R db' \<and> grows R db db' \<and> dirty db' h \<noteq> None \<and>
    blob_at R db' = (blob_at R db)(h \<mapsto> raw_encode R n) \<and> dom (dirty db') \<subseteq> insert h (dom (dirty db))"
proof (cases "dirty db h")
  case (Some m)
  then have "blob_at R db h = Some (raw_encode R n)" using b h by (simp add: blob_at_def)
  then have "blob_at R db = (blob_at R db)(h \<mapsto> raw_encode R n)" by (simp add: fun_upd_idem)
  then show ?thesis using Some ok by (simp add: db_insert_def grows_refl subset_insertI)
next
  case None
  obtain xs where "flushlist db xs" using ok by (auto simp: db_ok_def)
  from db_insert_links [OF this None, of sz n] obtain db' where
    i: "db_insert h sz n db = Inr db'" "flushlist db' (xs @ [h])" "nodeOf db' = (nodeOf db)(h \<mapsto> (n, None))"
      "diskdb db' = diskdb db" "cleans db' = cleans db"
    by blast
  have blob: "blob_at R db' = (blob_at R db)(h \<mapsto> raw_encode R n)"
  proof
    fix x show "blob_at R db' x = ((blob_at R db)(h \<mapsto> raw_encode R n)) x"
      using h by (cases "nodeOf db x") (auto simp: blob_at_nodeOf i(3,4))
  qed
  have "dom (nodeOf db') = insert h (dom (nodeOf db))" unfolding i(3) by auto
  then have d: "dom (dirty db') = insert h (dom (dirty db))" by (simp add: nodeOf_def dom_def)
  then have "dirty db' h \<noteq> None" by (auto simp: dom_def)
  moreover have "grows R db db'"
    unfolding grows_def using d i(4) b blob by (auto simp: map_le_def)
  moreover have "db_ok R db'"
    unfolding db_ok_nodeOf
  proof (intro conjI allI impI)
    fix c x y assume "cleans db' = Some c" "c x = Some y"
    then have "blob_at R db x = Some y" using ok i(5) by (auto simp: db_ok_def)
    then show "blob_at R db' x = Some y" by (rule growsD [OF calculation(2)])
  next
    fix x m cs assume "nodeOf db' x = Some (m, cs)" "x \<noteq> zeroHash"
    then have *: "rwf R m \<and> cs = None" using ok n i(3) by (auto simp: db_ok_nodeOf split: if_splits)
    then show "rwf R m" "cs = None" by auto
  qed (use ok i in \<open>auto simp: db_ok_def\<close>)
  ultimately show ?thesis using i(1) blob d by blast
qed

section \<open>The update with the node set of a commit\<close>

text \<open>No collision among the encodings \<open>X\<close>, nor between them and what is stored, and none has the hash of the
  meta root.\<close>

definition clash_free :: "rlp_lib \<Rightarrow> (bytes \<Rightarrow> bytes) \<Rightarrow> Database \<Rightarrow> bytes set \<Rightarrow> bool" where
  "clash_free R K db X \<longleftrightarrow> inj_on K X \<and>
     (\<forall>x\<in>X. K x \<noteq> zeroHash \<and> (blob_at R db (K x) = None \<or> blob_at R db (K x) = Some x))"

definition entry_ok :: "rlp_lib \<Rightarrow> (bytes \<Rightarrow> bytes) \<Rightarrow> bytes set \<Rightarrow> memoryNode \<Rightarrow> bool" where
  "entry_ok R K X mn \<longleftrightarrow> isDeleted mn \<or>
     (raw_encode R (mn_node mn) \<in> X \<and> mn_hash mn = K (raw_encode R (mn_node mn)) \<and> rwf R (mn_node mn))"

definition entry_in :: "rlp_lib \<Rightarrow> Database \<Rightarrow> memoryNode \<Rightarrow> bool" where
  "entry_in R db mn \<longleftrightarrow> isDeleted mn \<or>
     dirty db (mn_hash mn) \<noteq> None \<and> blob_at R db (mn_hash mn) = Some (raw_encode R (mn_node mn))"

abbreviation insertEntry :: "bytes \<times> memoryNode \<Rightarrow> Database \<Rightarrow> Database res" where
  "insertEntry \<equiv> \<lambda>(path, n) d. if isDeleted n then Inr d else db_insert (mn_hash n) (mn_size n) (mn_node n) d"

lemma entry_in_grows: "entry_in R db mn \<Longrightarrow> grows R db db' \<Longrightarrow> entry_in R db' mn"
  unfolding entry_in_def grows_def map_le_def by (metis domI domIff subsetD)

lemma insert_entry:
  assumes R: "rlp_ok R" and ok: "db_ok R db" and c: "clash_free R K db X" and e: "entry_ok R K X mn"
  shows "\<exists>d. insertEntry (path, mn) db = Inr d \<and> db_ok R d \<and> grows R db d \<and> clash_free R K d X \<and> entry_in R d mn \<and>
    dom (dirty d) \<subseteq> dom (dirty db) \<union> K ` X"
proof (cases "isDeleted mn")
  case True
  then show ?thesis using ok c by (simp add: grows_refl entry_in_def)
next
  case False
  let ?x = "raw_encode R (mn_node mn)"
  have x: "?x \<in> X" "mn_hash mn = K ?x" "rwf R (mn_node mn)" using e False by (auto simp: entry_ok_def)
  have c': "K ?x \<noteq> zeroHash" "blob_at R db (K ?x) = None \<or> blob_at R db (K ?x) = Some ?x"
    using c x(1) by (auto simp: clash_free_def)
  from db_insert_ok [OF R ok c'(1) x(3) c'(2), of "mn_size mn"] obtain d where
    d: "db_insert (mn_hash mn) (mn_size mn) (mn_node mn) db = Inr d" "db_ok R d" "grows R db d"
      "dirty d (K ?x) \<noteq> None" "blob_at R d = (blob_at R db)(K ?x \<mapsto> ?x)"
      "dom (dirty d) \<subseteq> insert (K ?x) (dom (dirty db))"
    unfolding x(2) by blast
  have "clash_free R K d X"
    using c x(1) unfolding clash_free_def d(5) by (auto dest: inj_onD)
  moreover have "dom (dirty d) \<subseteq> dom (dirty db) \<union> K ` X" using d(6) x(1) by blast
  ultimately show ?thesis using False d(1-5) x(2) by (simp add: entry_in_def)
qed

lemma insert_entries:
  assumes R: "rlp_ok R"
  shows "db_ok R db \<Longrightarrow> clash_free R K db X \<Longrightarrow> \<forall>(path, mn)\<in>set es. entry_ok R K X mn \<Longrightarrow>
    \<exists>db'. foldR insertEntry es db = Inr db' \<and> db_ok R db' \<and> grows R db db' \<and> (\<forall>(path, mn)\<in>set es. entry_in R db' mn) \<and>
      dom (dirty db') \<subseteq> dom (dirty db) \<union> K ` X"
proof (induction es arbitrary: db)
  case Nil
  then show ?case by (simp add: grows_refl)
next
  case (Cons e es)
  obtain path mn where e: "e = (path, mn)" by (cases e)
  have "entry_ok R K X mn" using Cons.prems(3) e by simp
  from insert_entry [OF R Cons.prems(1,2) this, of path] obtain d where
    d: "insertEntry e db = Inr d" "db_ok R d" "grows R db d" "clash_free R K d X" "entry_in R d mn"
      "dom (dirty d) \<subseteq> dom (dirty db) \<union> K ` X"
    unfolding e by blast
  have "\<forall>(path, mn)\<in>set es. entry_ok R K X mn" using Cons.prems(3) by simp
  from Cons.IH [OF d(2,4) this] obtain db' where
    db': "foldR insertEntry es d = Inr db'" "db_ok R db'" "grows R d db'" "\<forall>(path, mn)\<in>set es. entry_in R db' mn"
      "dom (dirty db') \<subseteq> dom (dirty d) \<union> K ` X"
    by blast
  show ?case
  proof (intro exI conjI)
    show "dom (dirty db') \<subseteq> dom (dirty db) \<union> K ` X" using d(6) db'(5) by blast
    show "foldR insertEntry (e # es) db = Inr db'" using d(1) db'(1) by (simp del: split_paired_All)
    show "grows R db db'" by (rule grows_trans [OF d(3) db'(3)])
    show "\<forall>(path, mn)\<in>set (e # es). entry_in R db' mn"
      using db'(4) entry_in_grows [OF d(5) db'(3)] e by simp
  qed (rule db'(2))
qed

lemma in_set_forEach:
  "(path, mn) \<in> set (forEachWithOrder ns) \<longleftrightarrow> map_of (ns_nodes ns) path = Some mn"
proof -
  have "(path, mn) \<in> set (forEachWithOrder ns) \<longleftrightarrow>
      path \<in> set (map fst (ns_nodes ns)) \<and> mn = the (map_of (ns_nodes ns) path)"
    by (auto simp: forEachWithOrder_def)
  also have "\<dots> \<longleftrightarrow> map_of (ns_nodes ns) path = Some mn"
    by (metis list.set_map map_of_eq_None_iff option.collapse option.sel option.distinct(1))
  finally show ?thesis .
qed

lemma leaves_store: "store False path n ns = Inr (r, ns') \<Longrightarrow> ns_leaves ns' = ns_leaves ns"
proof (cases n)
  case (ShortNode k v fl)
  assume "store False path n ns = Inr (r, ns')"
  then show ?thesis
    by (cases v) (auto simp: store_def ShortNode Let_def markUpdated_def markDeleted_def split: option.splits if_splits)
qed (auto simp: store_def Let_def markUpdated_def markDeleted_def split: option.splits if_splits)

lemma leaves_commitChildren:
  assumes "\<And>i c s r s'. c \<in> set cs \<Longrightarrow> f i c s = Inr (r, s') \<Longrightarrow> ns_leaves s' = ns_leaves s"
  shows "commitChildren f i cs ns = Inr (rs, ns') \<Longrightarrow> ns_leaves ns' = ns_leaves ns"
  using assms
proof (induction cs arbitrary: i ns rs)
  case (Cons c cs)
  then obtain r s1 rs1 where r: "commitChild f i c ns = Inr (r, s1)" "commitChildren f (i + 1) cs s1 = Inr (rs1, ns')"
    by (auto split: prod.splits)
  have "ns_leaves s1 = ns_leaves ns"
    using r(1) Cons.prems(2) [of c i ns r s1] by (auto simp: commitChild_def split: if_splits node.splits)
  moreover have "ns_leaves ns' = ns_leaves s1" by (rule Cons.IH [OF r(2)], rule Cons.prems(2)) auto
  ultimately show ?case by simp
qed simp

lemma leaves_commit: "committer_commit False path n ns = Inr (r, ns') \<Longrightarrow> ns_leaves ns' = ns_leaves ns"
proof (induction n arbitrary: path ns r ns')
  case (FullNode cs fl)
  show ?case
  proof (cases "flag_hash fl \<noteq> None \<and> \<not> flag_dirty fl")
    case False
    obtain kids ns1 where k: "commitChildren (\<lambda>i c s. committer_commit False (path @ [word_of_nat i]) c s) 0 cs ns = Inr (kids, ns1)"
      "store False path (FullNode kids fl) ns1 = Inr (r, ns')"
      using FullNode.prems unfolding committer_commit.simps if_not_P [OF False] by (auto split: prod.splits)
    have "ns_leaves ns1 = ns_leaves ns" by (rule leaves_commitChildren [OF _ k(1)]) (use FullNode.IH in auto)
    then show ?thesis using leaves_store [OF k(2)] by simp
  next
    case True
    show ?thesis using FullNode.prems unfolding committer_commit.simps if_P [OF True] by simp
  qed
next
  case (ShortNode k v fl)
  show ?case
  proof (cases "flag_hash fl \<noteq> None \<and> \<not> flag_dirty fl")
    case False
    obtain x where x: "(case v of FullNode cs f \<Rightarrow> committer_commit False (path @ k) v ns | _ \<Rightarrow> Inr (v, ns)) = Inr x"
      "(case x of (cv, ns1) \<Rightarrow> store False path (ShortNode (compactKey k) cv fl) ns1) = Inr (r, ns')"
      using ShortNode.prems unfolding committer_commit.simps if_not_P [OF False] bindR_eq_Inr by blast
    obtain cv ns1 where k: "(case v of FullNode cs f \<Rightarrow> committer_commit False (path @ k) v ns | _ \<Rightarrow> Inr (v, ns)) = Inr (cv, ns1)"
      "store False path (ShortNode (compactKey k) cv fl) ns1 = Inr (r, ns')"
      using x by (cases x) simp
    have "committer_commit False (path @ k) v ns = Inr (cv, ns1) \<or> ns1 = ns"
      using k(1) by (cases v) (simp_all del: committer_commit.simps)
    then have "ns_leaves ns1 = ns_leaves ns" using ShortNode.IH [of "path @ k" ns cv ns1] by blast
    then show ?thesis using leaves_store [OF k(2)] by simp
  next
    case True
    show ?thesis using ShortNode.prems unfolding committer_commit.simps if_P [OF True] by simp
  qed
qed auto

end
