(* ===== verification/Trie_Persist.thy ===== *)
theory Trie_Persist
  imports Database_Inv
begin

text \<open>
  Durability of the state: what \<^verbatim>\<open>Trie.Commit\<close> collects and \<^verbatim>\<open>Database.Update\<close> inserts is on disk after
  \<^verbatim>\<open>Database.Commit\<close>, and a trie opened on the root finds the same contents. The commit goes through the
  graph of the dirty nodes; \<open>hkids\<close> relates it to the trie, and \<open>midCommit\<close> is its loop invariant: the nodes put into
  a batch so far are closed under children, and the store seen by a reader never changes.
\<close>

section \<open>The stored nodes below a node\<close>

text \<open>The nearest stored descendants of a subtrie: those its stored node refers to by hash.\<close>

fun hkids :: "rlp_lib \<Rightarrow> (bytes \<Rightarrow> bytes) \<Rightarrow> bytes \<Rightarrow> ptrie \<Rightarrow> (bytes \<times> ptrie) set" where
  "hkids R K path (PShort k p) =
     (if hash_of R K (path @ k) p = None then hkids R K (path @ k) p else {(path @ k, p)})"
| "hkids R K path (PFull ps) =
     (\<Union>i\<in>{..<length ps}. if hash_of R K (path @ [word_of_nat i]) (ps ! i) = None
        then hkids R K (path @ [word_of_nat i]) (ps ! i) else {(path @ [word_of_nat i], ps ! i)})"
| "hkids R K path _ = {}"

lemma hash_of_Some: "hash_of R K path q = Some h \<Longrightarrow> h = K (penc R K q)"
  by (auto simp: hash_of_def split: ptrie.splits if_splits)

lemma psub_hash: "psub q \<Longrightarrow> hash_of R K path q = Some h \<Longrightarrow> pwf q"
  by (auto simp: psub_def)

lemma subtries_self: "hash_of R K path q = Some h \<Longrightarrow> (path, q) \<in> subtries path q"
  by (cases q) auto

lemma hkids_props:
  assumes "psub q" "(pa, q') \<in> hkids R K path q"
  shows "pwf q' \<and> hash_of R K pa q' = Some (K (penc R K q')) \<and> subtries pa q' \<subseteq> subtries path q \<and> size q' < size q"
  using assms
proof (induction R K path q rule: hkids.induct)
  case (1 R K path k p)
  have ps: "psub p" using psub_short [of k p] 1(2) by (auto simp: psub_def)
  show ?case
  proof (cases "hash_of R K (path @ k) p")
    case None
    then show ?thesis using 1(1) [OF None ps] 1(3) by auto
  next
    case (Some h)
    then have "pa = path @ k" "q' = p" using 1(3) by auto
    then show ?thesis using Some psub_hash [OF ps Some] hash_of_Some [OF Some] by auto
  qed
next
  case (2 R K path ps)
  have w: "pwf (PFull ps)" using 2(2) by (simp add: psub_def)
  obtain i where i: "i < length ps" "(pa, q') \<in> (if hash_of R K (path @ [word_of_nat i]) (ps ! i) = None
        then hkids R K (path @ [word_of_nat i]) (ps ! i) else {(path @ [word_of_nat i], ps ! i)})"
    using 2(3) by auto
  have ps: "psub (ps ! i)" using psub_full [OF w] i(1) by simp
  have sz: "size (ps ! i) < size (PFull ps)"
    using i(1) size_list_estimation' [of "ps ! i" ps "size (ps ! i)" size] by simp
  have sub: "subtries (path @ [word_of_nat i]) (ps ! i) \<subseteq> subtries path (PFull ps)" using i(1) by auto
  show ?case
  proof (cases "hash_of R K (path @ [word_of_nat i]) (ps ! i)")
    case None
    then show ?thesis using 2(1) [OF _ None ps] i sz sub by auto
  next
    case (Some h)
    then have "pa = path @ [word_of_nat i]" "q' = ps ! i" using i(2) by auto
    then show ?thesis using Some psub_hash [OF ps Some] hash_of_Some [OF Some] sz sub by auto
  qed
qed auto

lemma subtries_hkids:
  assumes "(pa, q') \<in> subtries path q" "hash_of R K pa q' = Some h"
  shows "(pa, q') = (path, q) \<or> (\<exists>pb r. (pb, r) \<in> hkids R K path q \<and> (pa, q') \<in> subtries pb r)"
  using assms
proof (induction R K path q rule: hkids.induct)
  case (1 R K path k p)
  show ?case
  proof (cases "hash_of R K (path @ k) p")
    case None
    then show ?thesis using 1(1) [OF None _ 1(3)] 1(2,3) by auto
  qed (use 1(2) in auto)
next
  case (2 R K path ps)
  show ?case
  proof (cases "(pa, q') = (path, PFull ps)")
    case False
    then obtain i where i: "i < length ps" "(pa, q') \<in> subtries (path @ [word_of_nat i]) (ps ! i)" using 2(2) by auto
    let ?h = "hash_of R K (path @ [word_of_nat i]) (ps ! i)"
    have "\<exists>pb r. (pb, r) \<in> (if ?h = None then hkids R K (path @ [word_of_nat i]) (ps ! i)
        else {(path @ [word_of_nat i], ps ! i)}) \<and> (pa, q') \<in> subtries pb r"
      using 2(1) [OF _ _ i(2) 2(3)] i 2(3) by auto
    then show ?thesis unfolding hkids.simps using i(1) by blast
  qed simp
qed auto

lemma gather_cref:
  assumes "path \<noteq> []" "psub q" "set (forGatherChildren (pnode R K q)) = (\<lambda>(pa, q'). K (penc R K q')) ` hkids R K path q"
  shows "set (forGatherChildren (cref R K (pnode R K q))) =
    (\<lambda>(pa, q'). K (penc R K q')) ` (if hash_of R K path q = None then hkids R K path q else {(path, q)})"
  using assms hash_of_Some [of R K path q] by (auto simp: cref_refraw refraw_def)

lemma gather_hkids:
  "psub q \<Longrightarrow> set (forGatherChildren (pnode R K q)) = (\<lambda>(pa, q'). K (penc R K q')) ` hkids R K path q"
proof (induction R K path q rule: hkids.induct)
  case (1 R K path k p)
  have ps: "psub p" "k \<noteq> []" using psub_short [of k p] 1(2) by (auto simp: psub_def)
  show ?case
  proof (cases "hash_of R K (path @ k) p")
    case None
    then show ?thesis using gather_cref [OF _ ps(1) 1(1) [OF None ps(1)]] ps(2) by simp
  next
    case (Some h)
    then show ?thesis using hash_of_Some [OF Some] ps(2) by (simp add: cref_refraw [of "path @ k"] refraw_def)
  qed
next
  case (2 R K path ps)
  have w: "pwf (PFull ps)" using 2(2) by (simp add: psub_def)
  note ps = psub_full [OF w]
  let ?D = "\<lambda>i. if hash_of R K (path @ [word_of_nat i]) (ps ! i) = None
        then hkids R K (path @ [word_of_nat i]) (ps ! i) else {(path @ [word_of_nat i], ps ! i)}"
  have D: "set (forGatherChildren (cref R K (pnode R K (ps ! i)))) = (\<lambda>(pa, q'). K (penc R K q')) ` ?D i"
    if i: "i < length ps" for i
  proof (cases "hash_of R K (path @ [word_of_nat i]) (ps ! i)")
    case None
    then show ?thesis using gather_cref [OF _ _ 2(1) [OF _ None]] ps i by simp
  next
    case (Some h)
    then show ?thesis using hash_of_Some [OF Some] by (simp add: cref_refraw [of "path @ [word_of_nat i]"] refraw_def)
  qed
  have D16: "?D 16 = {}" using slot16 [OF w] by (elim disjE exE conjE) simp_all
  have "{..<length ps} = insert 16 {..<16}" using ps by auto
  then have "(\<Union>i\<in>{..<length ps}. ?D i) = (\<Union>i\<in>{..<16}. ?D i)" by (simp only: UN_insert D16 Un_empty_left)
  moreover have "set (forGatherChildren (pnode R K (PFull ps))) =
      (\<Union>i\<in>{..<16}. set (forGatherChildren (cref R K (pnode R K (ps ! i)))))"
  proof -
    have "set (take 16 ps) = (\<lambda>i. ps ! i) ` {..<16}"
      using ps nth_image [of 16 ps] by (simp add: lessThan_atLeast0)
    then show ?thesis by (simp add: take_map)
  qed
  moreover have "(\<Union>i\<in>{..<16}. set (forGatherChildren (cref R K (pnode R K (ps ! i))))) =
      (\<Union>i\<in>{..<16}. (\<lambda>(pa, q'). K (penc R K q')) ` ?D i)"
    using D ps by (intro SUP_cong refl) simp
  ultimately show ?case by (simp only: hkids.simps image_UN)
qed auto

lemma markDeletions_leaves: "ns_leaves (markDeletions tr ns) = ns_leaves ns"
proof -
  have "ns_leaves (fold (\<lambda>path s. if ns_accessList s path = None then s else markDeleted path s) ds ns) = ns_leaves ns" for ds
    by (induction ds arbitrary: ns) (auto simp: markDeleted_def)
  then show ?thesis by (simp add: markDeletions_def)
qed

lemma Commit_leaves:
  assumes "trie_Commit R K er False t = (Inr (h, Some ns), t')"
  shows "ns_leaves ns = []"
proof -
  let ?n0 = "markDeletions (tr_tracer t) (NewNodeSet (owner t) (accessList (tr_tracer t)))"
  have n0: "ns_leaves ?n0 = []" by (simp add: markDeletions_leaves NewNodeSet_def)
  have "ns = ?n0 \<or> (\<exists>n r. committer_commit False [] n ?n0 = Inr (r, ns))"
    using assms by (auto simp: trie_Commit_def Let_def split: if_splits prod.splits sum.splits node.splits)
  then show ?thesis using n0 leaves_commit by metis
qed

text \<open>The encodings a commit may add.\<close>

abbreviation encodings :: "rlp_lib \<Rightarrow> (bytes \<Rightarrow> bytes) \<Rightarrow> ptrie \<Rightarrow> bytes set" where
  "encodings R K p \<equiv> (\<lambda>(pa, q). penc R K q) ` subtries [] p"

lemma subtries_pwf: "psub p \<Longrightarrow> (pa, q) \<in> subtries path p \<Longrightarrow> pwf q"
proof (induction path p rule: subtries.induct)
  case (1 path k p)
  then have "psub p" using psub_short [of k p] by (auto simp: psub_def)
  then show ?case using 1 by (auto simp: psub_def)
next
  case (2 path ps)
  then have w: "pwf (PFull ps)" by (simp add: psub_def)
  show ?case
  proof (cases "(pa, q) = (path, PFull ps)")
    case False
    then obtain i where "i < length ps" "(pa, q) \<in> subtries (path @ [word_of_nat i]) (ps ! i)" using 2(3) by auto
    then show ?thesis using 2(1) psub_full [OF w] by auto
  qed (use w in simp)
qed auto

lemma update_commit:
  assumes R: "rlp_ok R" and K: "hash32 K" and ok: "db_ok R db" and p: "canon p"
    and cr: "commit_result R K (in_db R K db) p (Some ns)" and lv: "ns_leaves ns = []"
    and cf: "clash_free R K db (encodings R K p)"
  shows "\<exists>sets db'. NewWithNodeSet (Some ns) = Inr sets \<and> db_Update dec er sets db = Inr db' \<and>
    db_ok R db' \<and> grows R db db' \<and> avail R K (in_db R K db') [] p \<and>
    dom (dirty db') \<subseteq> dom (dirty db) \<union> K ` encodings R K p"
proof -
  have ent: "has_entries R K (in_db R K db) (subtries [] p) ns"
    and old: "map_of (ns_nodes ns) key = Some mn \<Longrightarrow> mn = deletedNode \<or>
          (\<exists>q. (key, q) \<in> subtries [] p \<and> mn_hash mn = K (penc R K q) \<and> mn_node mn = pnode R K q)" for key mn
    using cr by (auto simp: commit_result_def)
  have "entry_ok R K (encodings R K p) mn" if "map_of (ns_nodes ns) key = Some mn" for key mn
    using old [OF that]
  proof (elim disjE exE conjE)
    fix q assume q: "(key, q) \<in> subtries [] p" "mn_hash mn = K (penc R K q)" "mn_node mn = pnode R K q"
    have "pwf q" by (rule subtries_pwf [OF canon_psub [OF p] q(1)])
    then have "rwf R (pnode R K q)" by (rule pnode_rwf [OF K])
    then show ?thesis using q by (force simp: entry_ok_def)
  qed (simp add: entry_ok_def isDeleted_def deletedNode_def)
  then have "\<forall>(path, mn)\<in>set (forEachWithOrder ns). entry_ok R K (encodings R K p) mn"
    by (auto simp: in_set_forEach)
  from insert_entries [OF R ok cf this] obtain db' where
    db': "insertSet ns db = Inr db'" "db_ok R db'" "grows R db db'" "\<forall>(path, mn)\<in>set (forEachWithOrder ns). entry_in R db' mn"
      "dom (dirty db') \<subseteq> dom (dirty db) \<union> K ` encodings R K p"
    unfolding insertSet_def by blast
  have "avail R K (in_db R K db') [] p"
    unfolding avail_def
  proof (clarify)
    fix pa q h assume q: "(pa, q) \<in> subtries [] p" "hash_of R K pa q = Some h"
    from ent q consider "in_db R K db pa q h"
      | sz where "map_of (ns_nodes ns) pa = Some \<lparr>mn_hash = h, mn_size = sz, mn_node = pnode R K q\<rparr>"
      unfolding has_entries_def by blast
    then show "in_db R K db' pa q h"
    proof cases
      case 1
      then show ?thesis by (rule in_db_grows [OF db'(3)])
    next
      case 2
      have "h \<noteq> zeroHash" using cf q hash_of_Some [OF q(2)] by (auto simp: clash_free_def)
      moreover have "entry_in R db' \<lparr>mn_hash = h, mn_size = sz, mn_node = pnode R K q\<rparr>"
        using db'(4) 2 in_set_forEach [of pa _ ns] by blast
      ultimately show ?thesis by (simp add: entry_in_def isDeleted_def in_db_def)
    qed
  qed
  moreover have "db_Update dec er [(ns_owner ns, ns)] db = Inr db'"
    using db'(1) lv by (simp add: db_Update_def Let_def)
  moreover have "NewWithNodeSet (Some ns) = Inr [(ns_owner ns, ns)]" by (simp add: NewWithNodeSet_def Merge_def)
  ultimately show ?thesis using db'(2,3,5) by blast
qed

section \<open>Writing a trie to disk\<close>

text \<open>The state in the middle of a commit that started in \<open>db0\<close>: the nodes \<open>Done\<close> have been put into a batch, with
  every dirty node below them; \<open>b\<close> is the batch that has not been written yet.\<close>

definition midCommit :: "rlp_lib \<Rightarrow> Database \<Rightarrow> bytes set \<Rightarrow> Database \<Rightarrow> batch \<Rightarrow> bool" where
  "midCommit R db0 Done db b \<longleftrightarrow>
     db_ok R db \<and> blob_at R db = blob_at R db0 \<and>
     (\<forall>h\<in>Done. nodeOf db0 h \<noteq> None \<and> h \<noteq> zeroHash) \<and>
     (\<forall>h. nodeOf db h = nodeOf db0 h \<or> nodeOf db h = None \<and> h \<in> Done) \<and>
     (\<forall>h\<in>Done. diskdb db h = blob_at R db0 h \<or> (\<exists>x. (h, x) \<in> set b)) \<and>
     (\<forall>h x. (h, x) \<in> set b \<longrightarrow> h \<in> Done \<and> blob_at R db0 h = Some x) \<and>
     (\<forall>h. h \<notin> Done \<longrightarrow> diskdb db h = diskdb db0 h)"

definition closedIn :: "Database \<Rightarrow> bytes set \<Rightarrow> bool" where
  "closedIn db0 Done \<longleftrightarrow>
     (\<forall>h\<in>Done. \<forall>n cs. nodeOf db0 h = Some (n, cs) \<longrightarrow>
        (\<forall>c\<in>set (forGatherChildren n). c \<in> Done \<or> nodeOf db0 c = None))"

lemma midCommit_write:
  assumes R: "rlp_ok R" and m: "midCommit R db0 Done db b"
  shows "midCommit R db0 Done (batch_Write b db) []"
proof -
  let ?db = "batch_Write b db"
  have ok: "db_ok R db" using m by (simp add: midCommit_def)
  have blob0: "blob_at R db = blob_at R db0" using m by (simp add: midCommit_def)
  have inb: "h \<in> Done \<and> blob_at R db0 h = Some x" if "(h, x) \<in> set b" for h x using m that by (simp add: midCommit_def)
  have wr: "diskdb ?db h = (case map_of (rev b) h of None \<Rightarrow> diskdb db h | Some x \<Rightarrow> blob_at R db0 h)" for h
  proof (cases "map_of (rev b) h")
    case (Some x)
    then have "(h, x) \<in> set b" using map_of_SomeD by fastforce
    then show ?thesis using Some inb by (simp add: batch_Write_def)
  qed (simp add: batch_Write_def map_add_def)
  have nd: "nodeOf ?db = nodeOf db" "cleans ?db = cleans db" "dirties ?db = dirties db" "oldest ?db = oldest db" "newest ?db = newest db"
    by (simp_all add: nodeOf_def [abs_def] batch_Write_def)
  have blob: "blob_at R ?db = blob_at R db0"
  proof
    fix h show "blob_at R ?db h = blob_at R db0 h"
    proof (cases "nodeOf db h = None \<and> h \<noteq> zeroHash")
      case True
      then have "blob_at R ?db h = diskdb ?db h" "blob_at R db h = diskdb db h" by (simp_all add: blob_at_nodeOf nd)
      then show ?thesis using wr [of h] blob0 by (auto split: option.splits)
    next
      case False
      then have "blob_at R ?db h = blob_at R db h" by (auto simp: blob_at_nodeOf nd split: option.splits)
      then show ?thesis using blob0 by simp
    qed
  qed
  have "flushlist ?db xs \<longleftrightarrow> flushlist db xs" for xs
    using nd by (simp add: flushlist_def nextOf_def [abs_def] prevOf_def [abs_def])
  moreover have "diskdb ?db h \<noteq> Some []" for h
    using wr [of h] blob_nonempty [OF R ok, of h] blob0 ok by (auto simp: db_ok_def split: option.splits)
  moreover have "\<exists>xs. flushlist ?db xs" using ok calculation(1) by (auto simp: db_ok_def)
  ultimately have "db_ok R ?db" using ok blob0 unfolding db_ok_nodeOf nd blob by (intro conjI) (fast, simp_all)
  moreover have "diskdb ?db h = blob_at R db0 h" if "h \<in> Done" for h
  proof (cases "map_of (rev b) h")
    case None
    then have "(h, x) \<notin> set b" for x by (metis map_of_eq_None_iff image_eqI fst_conv set_rev)
    then show ?thesis using m that wr [of h] None by (auto simp: midCommit_def)
  qed (use wr [of h] in simp)
  moreover have "diskdb ?db h = diskdb db0 h" if "h \<notin> Done" for h
  proof -
    have "map_of (rev b) h = None"
    proof (rule ccontr)
      assume "map_of (rev b) h \<noteq> None"
      then obtain x where "(h, x) \<in> set b" using map_of_SomeD by fastforce
      then show False using inb that by blast
    qed
    then show ?thesis using wr [of h] m that by (simp add: midCommit_def)
  qed
  ultimately show ?thesis using m unfolding midCommit_def nd blob by simp
qed

lemma midCommit_Put:
  assumes m: "midCommit R db0 Done db []" and h: "h \<in> Done" "blob_at R db0 h = Some x"
  shows "\<exists>db'. cleaner_Put (h, x) db = Inr db' \<and> midCommit R db0 Done db' []"
proof (cases "dirty db h")
  case None
  then show ?thesis using m by (simp add: cleaner_Put_def)
next
  case (Some n)
  have ok: "db_ok R db" and blob0: "blob_at R db = blob_at R db0" using m by (simp_all add: midCommit_def)
  obtain xs where fl: "flushlist db xs" using ok by (auto simp: db_ok_def)
  have hz: "h \<noteq> zeroHash" using m h(1) by (simp add: midCommit_def)
  have "h \<in> set xs" using flushlist_None [OF fl, of h] Some hz by auto
  then obtain ys zs where xs: "xs = ys @ h # zs" by (auto dest: split_list)
  from unlink_correct [OF fl [unfolded xs] Some] obtain db1 where
    u: "unlink h n db = Inr db1" "same_but db db1" "flushlist (uncache h db1) (ys @ zs)" by blast
  define db' where "db' = db1\<lparr>dirties := AList.delete h (dirties db1),
                        dirtiesSize := dirtiesSize db1 - (32 + uint (cn_size n)),
                        childrenSize := childrenSize db1 -
                          (case cn_children n of None \<Rightarrow> 0 | Some cs \<Rightarrow> cachedNodeChildrenSize + int (length cs) * 34),
                        cleans := map_option (\<lambda>c. c(h \<mapsto> x)) (cleans db1)\<rparr>"
  have p: "cleaner_Put (h, x) db = Inr db'" by (simp add: cleaner_Put_def Some u(1) db'_def)
  have fl': "flushlist db' (ys @ zs)"
    using u(3) by (simp add: flushlist_def nextOf_def [abs_def] prevOf_def [abs_def] db'_def uncache_def)
  have nd: "nodeOf db' = (nodeOf db)(h := None)" "diskdb db' = diskdb db" "cleans db' = map_option (\<lambda>c. c(h \<mapsto> x)) (cleans db)"
    using u(2) by (auto simp: same_but_def nodeOf_def db'_def delete_conv' fun_eq_iff)
  have disk: "diskdb db h = blob_at R db0 h" using m h(1) by (simp add: midCommit_def)
  have blob: "blob_at R db' = blob_at R db0"
  proof
    fix y show "blob_at R db' y = blob_at R db0 y"
    proof (cases "y = h")
      case True
      then show ?thesis using disk hz by (simp add: blob_at_nodeOf [of R db'] nd)
    next
      case False
      then have "blob_at R db' y = blob_at R db y" by (cases "nodeOf db y") (auto simp: blob_at_nodeOf nd)
      then show ?thesis using blob0 by simp
    qed
  qed
  have cl: "blob_at R db0 y = Some b" if "cleans db' = Some c" "c y = Some b" for c y b
  proof -
    obtain c0 where c0: "cleans db = Some c0" "c = c0(h \<mapsto> x)" using \<open>cleans db' = Some c\<close> nd(3) by auto
    have "blob_at R db0 y' = Some b'" if "c0 y' = Some b'" for y' b'
      using ok c0(1) that blob0 by (auto simp: db_ok_def)
    then show ?thesis using \<open>c y = Some b\<close> c0(2) h(2) by (auto split: if_splits)
  qed
  have "db_ok R db'"
    unfolding db_ok_nodeOf blob
  proof (intro conjI allI impI)
    fix y m' cs assume "nodeOf db' y = Some (m', cs)" "y \<noteq> zeroHash"
    then have "nodeOf db y = Some (m', cs)" by (simp add: nd split: if_splits)
    then show "rwf R m'" "cs = None" using ok \<open>y \<noteq> zeroHash\<close> by (auto simp: db_ok_nodeOf)
  qed (use fl' cl ok nd in \<open>auto simp: db_ok_def\<close>)
  moreover have "nodeOf db' y = nodeOf db0 y \<or> nodeOf db' y = None \<and> y \<in> Done" for y
    using m h(1) by (auto simp: midCommit_def nd)
  ultimately have "midCommit R db0 Done db' []"
    using m by (simp add: midCommit_def blob nd(2))
  then show ?thesis using p by blast
qed

lemma flushBatch_ok:
  assumes R: "rlp_ok R" and m: "midCommit R db0 Done db b"
  shows "\<exists>db'. flushBatch b db = Inr db' \<and> midCommit R db0 Done db' []"
proof -
  have "\<exists>db'. foldR cleaner_Put c d = Inr db' \<and> midCommit R db0 Done db' []"
    if "midCommit R db0 Done d []" "set c \<subseteq> set b" for c d
    using that
  proof (induction c arbitrary: d)
    case (Cons kv c)
    obtain h x where kv: "kv = (h, x)" by (cases kv)
    then have "(h, x) \<in> set b" using Cons.prems(2) by simp
    then have "h \<in> Done" "blob_at R db0 h = Some x" using m by (auto simp: midCommit_def)
    from midCommit_Put [OF Cons.prems(1) this] obtain d' where
      d': "cleaner_Put kv d = Inr d'" "midCommit R db0 Done d' []" unfolding kv by blast
    from Cons.IH [OF d'(2)] Cons.prems(2) obtain db' where
      "foldR cleaner_Put c d' = Inr db'" "midCommit R db0 Done db' []" by auto
    then show ?case using d'(1) by simp
  qed simp
  from this [OF midCommit_write [OF R m]] show ?thesis by (simp add: flushBatch_def)
qed

lemma midCommit_put:
  assumes m: "midCommit R db0 Done db b" and h: "nodeOf db0 h = Some (n, cs)" "h \<noteq> zeroHash"
  shows "midCommit R db0 (insert h Done) db (b @ [(h, raw_encode R n)])"
proof -
  have "blob_at R db0 h = Some (raw_encode R n)" using h by (simp add: blob_at_nodeOf)
  then show ?thesis using m h unfolding midCommit_def by (intro conjI) auto
qed

lemma midCommit_node: "midCommit R db0 Done db b \<Longrightarrow> nodeOf db h = nodeOf db0 h \<or> nodeOf db h = None \<and> h \<in> Done"
  by (simp add: midCommit_def)

lemma forChilds_gather:
  assumes "cn_children n = None"
  shows "forChilds n = forGatherChildren (cn_node n)"
  using assms by (cases "cn_node n") (auto simp: forChilds_def)

lemma db_commit_ok:
  assumes R: "rlp_ok R" and K: "hash32 K" and ok0: "db_ok R db0"
  shows "size q < fuel \<Longrightarrow> pwf q \<Longrightarrow> hash_of R K path q = Some h \<Longrightarrow> avail R K (in_db R K db0) path q \<Longrightarrow>
    midCommit R db0 Done db b \<Longrightarrow> closedIn db0 Done \<Longrightarrow>
    \<exists>db' b' Done'. db_commit R full fuel h (db, b) = Inr (db', b') \<and> midCommit R db0 Done' db' b' \<and>
      closedIn db0 Done' \<and> Done \<subseteq> Done' \<and> (h \<in> Done' \<or> nodeOf db0 h = None)"
proof (induction "size q" arbitrary: q fuel path h Done db b rule: less_induct)
  case less
  note IH = less.hyps and fuel = less.prems(1) and w = less.prems(2) and h = less.prems(3)
    and av = less.prems(4) and m = less.prems(5) and cl = less.prems(6)
  obtain f where f: "fuel = Suc f" using fuel by (cases fuel) auto
  show ?case
  proof (cases "dirty db h")
    case None
    then have "h \<in> Done \<or> nodeOf db0 h = None" using midCommit_node [OF m, of h] by (auto simp: nodeOf_def [of db])
    then show ?thesis using m cl None by (intro exI [of _ db] exI [of _ b] exI [of _ Done]) (simp add: f)
  next
    case (Some n)
    have blob: "blob_at R db0 h = Some (penc R K q)" using avail_self [OF av h] by (simp add: in_db_def)
    then have hz: "h \<noteq> zeroHash" by (auto simp: blob_at_def)
    have nd: "nodeOf db0 h = Some (cn_node n, cn_children n)"
      using midCommit_node [OF m, of h] Some by (simp add: nodeOf_def [of db])
    have n: "rwf R (cn_node n)" "cn_children n = None" using ok0 nd hz by (auto simp: db_ok_nodeOf)
    have enc: "raw_encode R (cn_node n) = penc R K q" using blob hz nd by (simp add: blob_at_nodeOf)
    have ch: "set (forChilds n) = (\<lambda>(pa, q'). K (penc R K q')) ` hkids R K path q"
      using same_blob_children [OF R n(1) pnode_rwf [OF K w] enc] gather_hkids [of q R K path] w
      by (simp add: forChilds_gather [OF n(2)] psub_def)
    have kids: "\<exists>d' c' D'. foldR (\<lambda>child s. db_commit R full f child s) cs (d, c) = Inr (d', c') \<and> midCommit R db0 D' d' c' \<and>
        closedIn db0 D' \<and> D \<subseteq> D' \<and> (\<forall>x\<in>set cs. x \<in> D' \<or> nodeOf db0 x = None)"
      if "midCommit R db0 D d c" "closedIn db0 D" "set cs \<subseteq> set (forChilds n)" for cs d c D
      using that
    proof (induction cs arbitrary: d c D)
      case (Cons x cs)
      obtain pa q' where q': "(pa, q') \<in> hkids R K path q" "x = K (penc R K q')" using Cons.prems(3) ch by auto
      have props: "pwf q'" "hash_of R K pa q' = Some x" "subtries pa q' \<subseteq> subtries path q" "size q' < size q"
        using hkids_props [OF _ q'(1)] w q'(2) by (auto simp: psub_def)
      from IH [OF props(4) _ props(1,2) avail_sub [OF av props(3)] Cons.prems(1,2), of f] props(4) fuel f
      obtain d1 c1 D1 where 1: "db_commit R full f x (d, c) = Inr (d1, c1)" "midCommit R db0 D1 d1 c1"
        "closedIn db0 D1" "D \<subseteq> D1" "x \<in> D1 \<or> nodeOf db0 x = None" by auto
      from Cons.IH [OF 1(2,3)] Cons.prems(3) obtain d2 c2 D2 where
        2: "foldR (\<lambda>child s. db_commit R full f child s) cs (d1, c1) = Inr (d2, c2)" "midCommit R db0 D2 d2 c2"
        "closedIn db0 D2" "D1 \<subseteq> D2" "\<forall>x\<in>set cs. x \<in> D2 \<or> nodeOf db0 x = None" by auto
      show ?case
        by (rule exI [of _ d2], rule exI [of _ c2], rule exI [of _ D2]) (use 1 2 in auto)
    qed auto
    from kids [OF m cl order_refl] obtain d c D where
      d: "foldR (\<lambda>child s. db_commit R full f child s) (forChilds n) (db, b) = Inr (d, c)" "midCommit R db0 D d c"
        "closedIn db0 D" "Done \<subseteq> D" "\<forall>x\<in>set (forChilds n). x \<in> D \<or> nodeOf db0 x = None" by blast
    have rlp: "cached_rlp R n = Inr (penc R K q)"
      using rwf_encode [OF R n(1)] enc by (simp add: cached_rlp_def)
    have m': "midCommit R db0 (insert h D) d (c @ [(h, penc R K q)])" using midCommit_put [OF d(2) nd hz] enc by simp
    have cl': "closedIn db0 (insert h D)"
      using d(3,5) nd unfolding closedIn_def forChilds_gather [OF n(2)] by auto
    have step: "db_commit R full fuel h (db, b) =
        (if full (c @ [(h, penc R K q)]) then bindR (flushBatch (c @ [(h, penc R K q)]) d) (\<lambda>db'. Inr (db', []))
         else Inr (d, c @ [(h, penc R K q)]))"
      by (simp add: f Some d(1) rlp Let_def)
    from flushBatch_ok [OF R m'] obtain e where e: "flushBatch (c @ [(h, penc R K q)]) d = Inr e"
      "midCommit R db0 (insert h D) e []" by blast
    show ?thesis
    proof (cases "full (c @ [(h, penc R K q)])")
      case True
      then show ?thesis unfolding step using e cl' d(4) by auto
    next
      case False
      then show ?thesis unfolding step using m' cl' d(4) by auto
    qed
  qed
qed

lemma orPanic_Inr [simp]: "orPanic (Inr a) = Inr a"
  by (simp add: orPanic_def)

lemma subtries_trans: "(pa, r) \<in> subtries path q \<Longrightarrow> subtries pa r \<subseteq> subtries path q"
proof (induction path q rule: subtries.induct)
  case (2 path ps)
  show ?case
  proof (cases "(pa, r) = (path, PFull ps)")
    case False
    then obtain i where "i < length ps" "(pa, r) \<in> subtries (path @ [word_of_nat i]) (ps ! i)" using 2(2) by auto
    then show ?thesis using 2(1) [of i] by auto
  qed simp
qed auto

lemma done_on_disk:
  assumes R: "rlp_ok R" and K: "hash32 K" and ok0: "db_ok R db0"
    and m: "midCommit R db0 Done db []" and cl: "closedIn db0 Done"
  shows "pwf q \<Longrightarrow> hash_of R K path q = Some h \<Longrightarrow> avail R K (in_db R K db0) path q \<Longrightarrow>
    h \<in> Done \<or> nodeOf db0 h = None \<Longrightarrow> on_disk R K db path q"
proof (induction "size q" arbitrary: q path h rule: less_induct)
  case less
  note w = less.prems(1) and h = less.prems(2) and av = less.prems(3)
  have blob: "blob_at R db = blob_at R db0" using m by (simp add: midCommit_def)
  have disk: "diskdb db x = (if x \<in> Done then blob_at R db0 x else diskdb db0 x)" for x
    using m by (simp add: midCommit_def)
  have self: "in_db R K db0 path q h" by (rule avail_self [OF av h])
  show ?case
  proof (cases "nodeOf db0 h")
    case None
    then have "on_disk R K db0 path q" using self by (auto simp: in_db_def nodeOf_def)
    then show ?thesis unfolding on_disk_def by (rule avail_mono) (simp add: disk blob)
  next
    case (Some ncs)
    then obtain n cs where n: "nodeOf db0 h = Some (n, cs)" by (cases ncs) auto
    then have hD: "h \<in> Done" using less.prems(4) by simp
    have hz: "h \<noteq> zeroHash" using self by (auto simp: in_db_def blob_at_def)
    have rw: "rwf R n" using ok0 n hz by (auto simp: db_ok_nodeOf)
    have enc: "raw_encode R n = penc R K q" using self n hz by (simp add: in_db_def blob_at_nodeOf)
    have ch: "set (forGatherChildren n) = (\<lambda>(pa, q'). K (penc R K q')) ` hkids R K path q"
      using same_blob_children [OF R rw pnode_rwf [OF K w] enc] gather_hkids [of q R K path] w by (simp add: psub_def)
    have kid: "on_disk R K db pb r" if r: "(pb, r) \<in> hkids R K path q" for pb r
    proof -
      have "K (penc R K r) \<in> set (forGatherChildren n)" using r ch by force
      then have "K (penc R K r) \<in> Done \<or> nodeOf db0 (K (penc R K r)) = None"
        by (rule cl [unfolded closedIn_def, rule_format, OF hD n])
      moreover have "pwf r \<and> hash_of R K pb r = Some (K (penc R K r)) \<and> subtries pb r \<subseteq> subtries path q \<and> size r < size q"
        using hkids_props [OF _ r] w by (simp add: psub_def)
      ultimately show ?thesis using less.hyps [of r pb "K (penc R K r)"] avail_sub [OF av] by blast
    qed
    show ?thesis
      unfolding on_disk_def avail_def
    proof (clarify)
      fix pa q' h' assume q': "(pa, q') \<in> subtries path q" "hash_of R K pa q' = Some h'"
      have b: "blob_at R db h' = Some (penc R K q')"
        using av q' unfolding avail_def in_db_def blob by blast
      show "diskdb db h' = Some (penc R K q') \<and> blob_at R db h' = Some (penc R K q')"
      proof (cases "(pa, q') = (path, q)")
        case True
        then show ?thesis using b hD h q'(2) disk blob by auto
      next
        case False
        then obtain pb r where "(pb, r) \<in> hkids R K path q" "(pa, q') \<in> subtries pb r"
          using subtries_hkids [OF q'] by blast
        then show ?thesis using kid q'(2) unfolding on_disk_def avail_def by blast
      qed
    qed
  qed
qed

lemma on_disk_in_db: "on_disk R K db path q \<Longrightarrow> avail R K (in_db R K db) path q"
proof -
  assume d: "on_disk R K db path q"
  have "in_db R K db pa r h" if "(pa, r) \<in> subtries path q" "hash_of R K pa r = Some h" for pa r h
  proof -
    have "on_disk R K db pa r" using avail_sub [OF d [unfolded on_disk_def] subtries_trans [OF that(1)]] by (simp add: on_disk_def)
    moreover have "blob_at R db h = Some (penc R K r)" using d that unfolding on_disk_def avail_def by blast
    ultimately show ?thesis by (simp add: in_db_def)
  qed
  then show ?thesis unfolding avail_def by blast
qed

lemma preimages_commit_ok:
  "db_ok R (preimages_commit f db) = db_ok R db" "nodeOf (preimages_commit f db) = nodeOf db"
  "blob_at R (preimages_commit f db) = blob_at R db" "diskdb (preimages_commit f db) = diskdb db"
  "in_db R K (preimages_commit f db) = in_db R K db" "dirties (preimages_commit f db) = dirties db"
proof -
  have f: "dirties (preimages_commit f db) = dirties db" "diskdb (preimages_commit f db) = diskdb db"
    "cleans (preimages_commit f db) = cleans db" "oldest (preimages_commit f db) = oldest db"
    "newest (preimages_commit f db) = newest db"
    by (auto simp: preimages_commit_def split: option.splits)
  show b: "blob_at R (preimages_commit f db) = blob_at R db"
  proof
    fix h show "blob_at R (preimages_commit f db) h = blob_at R db h" by (cases "dirty db h") (simp_all add: blob_at_def f)
  qed
  have fl: "flushlist (preimages_commit f db) = flushlist db"
    by (simp add: flushlist_def [abs_def] nextOf_def [abs_def] prevOf_def [abs_def] f)
  show "db_ok R (preimages_commit f db) = db_ok R db" by (simp add: db_ok_def f b fl)
  show "in_db R K (preimages_commit f db) = in_db R K db"
    by (simp add: in_db_def [abs_def] on_disk_def b f)
  show "nodeOf (preimages_commit f db) = nodeOf db" by (simp add: nodeOf_def [abs_def] f)
qed (auto simp: preimages_commit_def split: option.splits)

lemma Commit_persists:
  assumes R: "rlp_ok R" and K: "hash32 K" and ok: "db_ok R db" and p: "canon p"
    and av: "avail R K (in_db R K db) [] p" and fuel: "size p < fuel"
    and er: "p = PNil \<Longrightarrow> dirty db er = None"
  shows "\<exists>db'. db_Commit R full fuel (root_hash R K er p) db = Inr db' \<and> db_ok R db' \<and>
    blob_at R db' = blob_at R db \<and> on_disk R K db' [] p"
proof -
  let ?db = "preimages_commit True db"
  have m0: "midCommit R ?db {} ?db []" and c0: "closedIn ?db {}"
    using ok by (auto simp: midCommit_def closedIn_def preimages_commit_ok)
  show ?thesis
  proof (cases "p = PNil")
    case True
    obtain f where f: "fuel = Suc f" using fuel by (cases fuel) auto
    have "dirty ?db er = None" using er [OF True] by (simp add: preimages_commit_ok)
    then have "db_Commit R full fuel (root_hash R K er p) db = Inr ?db"
      using True by (simp add: db_Commit_def root_hash_def f flushBatch_def batch_Write_def)
    then show ?thesis using ok True by (simp add: preimages_commit_ok on_disk_def avail_def)
  next
    case False
    then have w: "pwf p" using canon_pwf [OF p] by simp
    then have h: "hash_of R K [] p = Some (root_hash R K er p)" by (cases p) (auto simp: hash_of_def root_hash_def)
    have ok': "db_ok R ?db" and av': "avail R K (in_db R K ?db) [] p" using ok av by (simp_all add: preimages_commit_ok)
    from db_commit_ok [OF R K ok' fuel w h av' m0 c0] obtain db1 b Done where
      1: "db_commit R full fuel (root_hash R K er p) (?db, []) = Inr (db1, b)" "midCommit R ?db Done db1 b"
        "closedIn ?db Done" "root_hash R K er p \<in> Done \<or> nodeOf ?db (root_hash R K er p) = None"
      by blast
    from flushBatch_ok [OF R 1(2)] obtain db' where 2: "flushBatch b db1 = Inr db'" "midCommit R ?db Done db' []" by blast
    have "on_disk R K db' [] p" by (rule done_on_disk [OF R K ok' 2(2) 1(3) w h av' 1(4)])
    moreover have "db_ok R db'" "blob_at R db' = blob_at R db" using 2(2) by (simp_all add: midCommit_def preimages_commit_ok)
    ultimately show ?thesis using 1(1) 2(1) by (simp add: db_Commit_def)
  qed
qed

lemma on_disk_restart:
  assumes d: "on_disk R K db [] p" and ok: "db_ok R db"
  shows "on_disk R K (NewDatabaseWithConfig (diskdb db) pre cache wp) [] p"
    and "db_ok R (NewDatabaseWithConfig (diskdb db) pre cache wp)"
proof -
  let ?n = "NewDatabaseWithConfig (diskdb db) pre cache wp"
  have n: "diskdb ?n = diskdb db" "blob_at R ?n h = (if h = zeroHash then None else diskdb db h)" for h
    by (simp_all add: NewDatabaseWithConfig_def blob_at_def)
  show "on_disk R K ?n [] p"
    using d unfolding on_disk_def by (rule avail_mono) (auto simp: n, simp add: blob_at_def)
  show "db_ok R ?n" by (rule db_ok_New) (use ok in \<open>simp add: db_ok_def\<close>)
qed

section \<open>A trie on the database\<close>

definition db_trie :: "rlp_lib \<Rightarrow> (bytes \<Rightarrow> bytes) \<Rightarrow> Database \<Rightarrow> bytes \<Rightarrow> Trie \<Rightarrow> (bytes \<rightharpoonup> bytes) \<Rightarrow> bool" where
  "db_trie R K db own t m \<longleftrightarrow>
     reader t = newTrieReader R db own \<and> owner t = own \<and> trie_holds (commit_pol R K (in_db R K db)) R t m"

text \<open>The trie under a root hash can be opened and holds \<open>m\<close>. The second form says nothing of the flags.\<close>

definition opens :: "rlp_lib \<Rightarrow> (bytes \<Rightarrow> bytes) \<Rightarrow> bytes \<Rightarrow> Database \<Rightarrow> bytes \<Rightarrow> bytes \<Rightarrow> (bytes \<rightharpoonup> bytes) \<Rightarrow> bool" where
  "opens R K er db own rt m \<longleftrightarrow>
     (\<exists>u. trie_New R er rt (newTrieReader R db own) = Inr u \<and> db_trie R K db own u m)"

definition opens_abs :: "rlp_lib \<Rightarrow> bytes \<Rightarrow> Database \<Rightarrow> bytes \<Rightarrow> bytes \<Rightarrow> (bytes \<rightharpoonup> bytes) \<Rightarrow> bool" where
  "opens_abs R er db own rt m \<longleftrightarrow>
     (\<exists>u. trie_New R er rt (newTrieReader R db own) = Inr u \<and> trie_abs R u m)"

text \<open>No hash collision among the nodes of the trie, what is stored, and the two reserved hashes.\<close>

definition noClash :: "rlp_lib \<Rightarrow> (bytes \<Rightarrow> bytes) \<Rightarrow> bytes \<Rightarrow> Database \<Rightarrow> Trie \<Rightarrow> bool" where
  "noClash R K er db t \<longleftrightarrow> dirty db er = None \<and>
     (\<forall>p. rep (\<lambda>_ _ _. True) R (reader t) [] (root t) p \<longrightarrow>
        clash_free R K db (encodings R K p) \<and> er \<notin> K ` encodings R K p)"

lemma rep_reader:
  assumes "rep F R rd path n p" "\<And>path h b. nodeBlob rd path h = Inr b \<Longrightarrow> nodeBlob rd' path h = Inr b"
  shows "rep F R rd' path n p"
  using assms(1)
proof (induction rule: rep.induct)
  case (rep_hash path h n p)
  have "resolves R rd' path h = Inr n"
    using rep_hash.hyps(1) assms(2) by (auto simp: resolves_def split: sum.splits)
  then show ?case using rep_hash by (auto intro: rep.rep_hash)
qed (auto intro: rep.intros)

lemma opens_abs_mono:
  assumes R: "rlp_ok R" and ok: "db_ok R db" "db_ok R db'" and le: "blob_at R db \<subseteq>\<^sub>m blob_at R db'"
    and o: "opens_abs R er db own rt m"
  shows "opens_abs R er db' own rt m"
proof -
  let ?rd = "newTrieReader R db own" and ?rd' = "newTrieReader R db' own"
  have nb: "nodeBlob ?rd' path h = Inr b" if "nodeBlob ?rd path h = Inr b" for path h b
    using that le unfolding nodeBlob_db [OF R ok(1)] nodeBlob_db [OF R ok(2)] map_le_def by (metis domI)
  obtain u where u: "trie_New R er rt ?rd = Inr u" "trie_abs R u m" using o by (auto simp: opens_abs_def)
  define u' where "u' = u\<lparr>reader := ?rd'\<rparr>"
  have ru: "reader u = ?rd"
    using u(1) by (auto simp: trie_New_def Let_def split: if_splits prod.splits sum.splits)
  have "trie_New R er rt ?rd' = Inr u'"
  proof (cases "rt \<noteq> replicate 32 0 \<and> rt \<noteq> er")
    case True
    then obtain b where b: "nodeBlob ?rd [] rt = Inr b"
      using u(1) by (auto simp: trie_New_def Let_def resolveAndTrack_def split: sum.splits)
    then show ?thesis
      using True u(1) nb [OF b]
      by (auto simp: trie_New_def Let_def resolveAndTrack_def u'_def newTrieReader_def split: sum.splits)
  next
    case False
    then show ?thesis using u(1) by (auto simp: trie_New_def Let_def u'_def newTrieReader_def)
  qed
  moreover have "trie_abs R u' m"
  proof -
    have "rep F R ?rd' path n p" if "rep F R ?rd path n p" for F path n p by (rule rep_reader [OF that nb])
    moreover obtain p where "rep (\<lambda>_ _ _. True) R ?rd [] (root u) p" "canon p" "m = (\<lambda>k. pget p (keybytesToHex k))"
      using u(2) ru unfolding trie_abs_def by (auto elim: trie_holdsE)
    ultimately show ?thesis
      unfolding trie_abs_def trie_holds_def u'_def by (intro exI [of _ p]) simp
  qed
  ultimately show ?thesis by (auto simp: opens_abs_def)
qed

lemma opens_on_disk:
  assumes R: "rlp_ok R" and K: "hash32 K" and ok: "db_ok R db" and p: "canon p" and d: "on_disk R K db [] p"
    and er: "p \<noteq> PNil \<Longrightarrow> K (penc R K p) \<noteq> er" "p \<noteq> PNil \<Longrightarrow> K (penc R K p) \<noteq> zeroHash"
  shows "opens R K er db own (root_hash R K er p) (\<lambda>k. pget p (keybytesToHex k))"
proof -
  note av = on_disk_in_db [OF d]
  from New_law [OF R K p av in_db_readable [OF R ok av] er] obtain u where
    u: "trie_New R er (root_hash R K er p) (newTrieReader R db own) = Inr u" "reader u = newTrieReader R db own"
      "owner u = own" "rep (commit_pol R K (in_db R K db)) R (newTrieReader R db own) [] (root u) p"
    unfolding newTrieReader_def by auto
  have "trie_holds (commit_pol R K (in_db R K db)) R u (\<lambda>k. pget p (keybytesToHex k))"
    by (rule trie_holdsI) (use u p in auto)
  then show ?thesis using u unfolding opens_def db_trie_def by blast
qed

lemma commitTrie_law:
  assumes R: "rlp_ok R" and K: "hash32 K" and ok: "db_ok R db" and t: "db_trie R K db own t m"
    and nc: "noClash R K er db t" and ns: "fst (trie_Commit R K er False t) = Inr (rt, Some ns)"
  shows "\<exists>F. \<forall>fuel\<ge>F. \<exists>db'. commitTrie R K er dec full fuel t db = Inr (rt, db') \<and> db_ok R db' \<and>
    blob_at R db \<subseteq>\<^sub>m blob_at R db' \<and> opens R K er db' own rt m \<and>
    (\<forall>pre cache wp. opens R K er (NewDatabaseWithConfig (diskdb db') pre cache wp) own rt m)"
proof -
  obtain p where p: "rep (commit_pol R K (in_db R K db)) R (reader t) [] (root t) p" "canon p"
    "m = (\<lambda>k. pget p (keybytesToHex k))"
    using t by (auto simp: db_trie_def elim!: trie_holdsE)
  have cf: "clash_free R K db (encodings R K p)" "er \<notin> K ` encodings R K p" "dirty db er = None"
    using nc rep_mono [OF p(1), of "\<lambda>_ _ _. True"] by (auto simp: noClash_def)
  from Commit_law [OF R p(1,2), of er False] obtain nso t' where
    c: "trie_Commit R K er False t = (Inr (root_hash R K er p, nso), t')" "commit_result R K (in_db R K db) p nso"
    by blast
  have nso: "nso = Some ns" "rt = root_hash R K er p" using c(1) ns by auto
  have lv: "ns_leaves ns = []" by (rule Commit_leaves) (use c(1) nso in auto)
  from update_commit [OF R K ok p(2) c(2) [unfolded nso] lv cf(1), of dec er] obtain sets db1 where
    u: "NewWithNodeSet (Some ns) = Inr sets" "db_Update dec er sets db = Inr db1" "db_ok R db1" "grows R db db1"
      "avail R K (in_db R K db1) [] p" "dom (dirty db1) \<subseteq> dom (dirty db) \<union> K ` encodings R K p"
    by blast
  have d1: "dirty db1 er = None" using u(6) cf(2,3) by (auto simp: dom_def)
  have pin: "p \<noteq> PNil \<Longrightarrow> penc R K p \<in> encodings R K p" using canon_pwf [OF p(2)] by (cases p) force+
  then have er: "p \<noteq> PNil \<Longrightarrow> K (penc R K p) \<noteq> er" "p \<noteq> PNil \<Longrightarrow> K (penc R K p) \<noteq> zeroHash"
    using cf by (auto simp: clash_free_def)
  have "\<exists>db'. commitTrie R K er dec full fuel t db = Inr (rt, db') \<and> db_ok R db' \<and> blob_at R db \<subseteq>\<^sub>m blob_at R db' \<and>
      opens R K er db' own rt m \<and> (\<forall>pre cache wp. opens R K er (NewDatabaseWithConfig (diskdb db') pre cache wp) own rt m)"
    if fuel: "fuel \<ge> Suc (size p)" for fuel
  proof -
    from Commit_persists [OF R K u(3) p(2) u(5), of fuel er full] fuel d1 obtain db' where
      db': "db_Commit R full fuel (root_hash R K er p) db1 = Inr db'" "db_ok R db'" "blob_at R db' = blob_at R db1"
        "on_disk R K db' [] p" by auto
    have "commitTrie R K er dec full fuel t db = Inr (rt, db')"
      by (simp add: commitTrie_def c(1) nso u(1,2) db'(1))
    moreover have "opens R K er db' own rt m"
      unfolding nso p(3) by (rule opens_on_disk [OF R K db'(2) p(2) db'(4) er])
    moreover have "opens R K er (NewDatabaseWithConfig (diskdb db') pre cache wp) own rt m" for pre cache wp
      unfolding nso p(3) by (rule opens_on_disk [OF R K _ p(2) _ er]) (rule on_disk_restart [OF db'(4,2)])+
    moreover have "blob_at R db \<subseteq>\<^sub>m blob_at R db'" using u(4) db'(3) by (simp add: grows_def)
    ultimately show ?thesis using db'(2) by blast
  qed
  then show ?thesis by blast
qed

section \<open>Properties\<close>

text \<open>C2. Storing a changed state trie, by \<^verbatim>\<open>Commit\<close>, \<^verbatim>\<open>triedb.Update\<close> and \<^verbatim>\<open>triedb.Commit\<close>, succeeds, and the state is
  durable: a database opened afterwards on the disk alone finds the trie under the returned root, with
  the same contents. Every root that could be opened before can still be opened. Relied on are the RLP
  library, 32-byte digests, and the absence of hash collisions among the nodes involved; the depth
  of the trie bounds the recursion.\<close>

theorem state_commit_durable:
  assumes "rlp_ok R" "hash32 K" "db_ok R db" "db_trie R K db own t m" "noClash R K er db t"
    "fst (trie_Commit R K er False t) = Inr (rt, Some ns)"
  shows "\<exists>F. \<forall>fuel\<ge>F. \<exists>db'. commitTrie R K er dec full fuel t db = Inr (rt, db') \<and>
    opens R K er (NewDatabaseWithConfig (diskdb db') pre cache wp) own rt m \<and>
    (\<forall>own0 rt0 m0. opens_abs R er db own0 rt0 m0 \<longrightarrow> opens_abs R er db' own0 rt0 m0)"
  using commitTrie_law [OF assms, of dec full] opens_abs_mono [OF assms(1,3)] by metis

definition K0 :: "bytes \<Rightarrow> bytes" where
  "K0 x = take 32 (1 # x @ replicate 32 0)"

definition er0 :: bytes where
  "er0 = replicate 32 2"

definition db0 :: Database where
  "db0 = NewDatabaseWithConfig Map.empty Map.empty 0 True"

definition trie1 :: Trie where
  "trie1 = snd (Update rlp1 \<lparr>root = NilNode, owner = [], unhashed = 0, reader = newTrieReader rlp1 db0 [],
     tr_tracer = newTracer\<rparr> [0x12] [7])"

lemma K0_32: "hash32 K0"
  by (auto simp: hash32_def K0_def min_def)

lemma K0_facts: "K0 x \<noteq> zeroHash" "er0 \<noteq> K0 x"
  by (simp_all add: K0_def zeroHash_def er0_def numeral_eq_Suc)

lemma trie1_root: "root trie1 = ShortNode [1, 2, 16] (ValueNode [7]) newFlag"
  by code_simp

lemma db0_ok: "db_ok rlp1 db0"
  by (simp add: db0_def db_ok_New)

lemma trie1_holds: "db_trie rlp1 K0 db0 [] trie1 [[0x12] \<mapsto> [7]]"
proof -
  let ?t = "\<lparr>root = NilNode, owner = [], unhashed = 0, reader = newTrieReader rlp1 db0 [], tr_tracer = newTracer\<rparr>"
  have "trie_holds (commit_pol rlp1 K0 (in_db rlp1 K0 db0)) rlp1 ?t Map.empty" by (rule trie_holds_empty) simp
  from cp.Update_law [OF this, of "[0x12]" "[7]"] obtain t' where
    "Update rlp1 ?t [0x12] [7] = (Inr (), t')" "trie_holds (commit_pol rlp1 K0 (in_db rlp1 K0 db0)) rlp1 t' [[0x12] \<mapsto> [7]]"
    "reader t' = newTrieReader rlp1 db0 []"
    by auto
  moreover have "owner (snd (Update rlp1 ?t [0x12] [7])) = []" by code_simp
  ultimately show ?thesis by (simp add: db_trie_def trie1_def)
qed

lemma noClash_leaf:
  assumes "root t = ShortNode k (ValueNode e) fl"
  shows "noClash rlp1 K0 er0 db0 t"
  unfolding noClash_def
proof (intro conjI allI impI)
  show "dirty db0 er0 = None" by (simp add: db0_def NewDatabaseWithConfig_def er0_def zeroHash_def numeral_eq_Suc)
next
  fix p assume "rep (\<lambda>_ _ _. True) rlp1 (reader t) [] (root t) p"
  then have p: "p = PShort k (PVal e)" unfolding assms by (auto elim!: rep_ShortE simp: rep_simps)
  have "blob_at rlp1 db0 h = None" for h by (auto simp: db0_def NewDatabaseWithConfig_def blob_at_def)
  then show "clash_free rlp1 K0 db0 (encodings rlp1 K0 p)" "er0 \<notin> K0 ` encodings rlp1 K0 p"
    using K0_facts by (auto simp: p clash_free_def)
qed

theorem state_commit_durable_witness:
  "\<exists>rt fuel db'. commitTrie rlp1 K0 er0 (\<lambda>b. Inl Panic) (\<lambda>b. True) fuel trie1 db0 = Inr (rt, db') \<and>
     opens rlp1 K0 er0 (NewDatabaseWithConfig (diskdb db') Map.empty 0 False) [] rt [[0x12] \<mapsto> [7]]"
proof -
  obtain rt ns where c: "fst (trie_Commit rlp1 K0 er0 False trie1) = Inr (rt, Some ns)"
  proof -
    have "case fst (trie_Commit rlp1 K0 er0 False trie1) of Inr (rt, Some ns) \<Rightarrow> True | _ \<Rightarrow> False" by code_simp
    then show ?thesis using that by (auto split: sum.splits option.splits)
  qed
  from state_commit_durable [OF rlp1_ok K0_32 db0_ok trie1_holds noClash_leaf [OF trie1_root] c,
      of "\<lambda>b. Inl Panic" "\<lambda>b. True" Map.empty 0 False]
  show ?thesis by blast
qed

text \<open>Storing a trie that was opened and not changed panics: \<^verbatim>\<open>Commit\<close> returns no node set, and
  \<^verbatim>\<open>NewWithNodeSet\<close> dereferences it.\<close>

theorem commit_unmodified_panics:
  assumes "trie_New R er rt rd = Inr u" "rt \<noteq> er" "rt \<noteq> zeroHash"
  shows "commitTrie R K er dec full fuel u db = Inl Panic"
proof -
  obtain blob n where n: "mustDecodeNode R (Some rt) blob = Inr n" "root u = n"
    using assms by (auto simp: trie_New_def resolveAndTrack_def zeroHash_def Let_def split: sum.splits)
  then have "(\<exists>k v. n = ShortNode k v \<lparr>flag_hash = Some rt, flag_dirty = False\<rparr>) \<or>
      (\<exists>cs. n = FullNode cs \<lparr>flag_hash = Some rt, flag_dirty = False\<rparr>)"
    by (auto simp: mustDecodeNode_def dest!: decodeNode_shape split: sum.splits)
  then show ?thesis
    using n(2) by (auto simp: commitTrie_def trie_Commit_def trie_Hash_def hashRoot_def Let_def NewWithNodeSet_def Merge_def)
qed

theorem commit_unmodified_panics_witness:
  "\<exists>u. trie_New rlp1 er0 (replicate 32 1) \<lparr>rd_owner = [], rd_reader = Some (\<lambda>_ _ _.
       Inr (raw_encode rlp1 (RawShort [0x20] (RawValue [7, 8])))), rd_banned = None\<rparr> = Inr u \<and>
     commitTrie rlp1 K0 er0 (\<lambda>b. Inl Panic) (\<lambda>b. True) 5 u db0 = Inl Panic"
proof -
  let ?N = "trie_New rlp1 er0 (replicate 32 1) \<lparr>rd_owner = [], rd_reader = Some (\<lambda>_ _ _.
       Inr (raw_encode rlp1 (RawShort [0x20] (RawValue [7, 8])))), rd_banned = None\<rparr>"
  have "isInr ?N" by code_simp
  then obtain u where u: "?N = Inr u" by (auto simp: isInr_iff)
  have "replicate 32 (1 :: byte) \<noteq> er0" "replicate 32 (1 :: byte) \<noteq> zeroHash" by code_simp+
  from commit_unmodified_panics [OF u this] u show ?thesis by blast
qed

end
