(* ===== verification/Trie_Dirty.thy ===== *)
theory Trie_Dirty
  imports Trie_Persist
begin

text \<open>
  When \<^verbatim>\<open>Commit\<close> has something to store. The root of a trie is marked dirty by the first write that
  changes a value and stays dirty; a write that puts back the value already there marks nothing. \<^verbatim>\<open>Commit\<close>
  returns a node set when the root is dirty, and nil when it is clean.
\<close>

definition resolved :: "Trie \<Rightarrow> bool" where
  "resolved t \<longleftrightarrow> \<not> is_hash (root t)"

definition dirtyRoot :: "Trie \<Rightarrow> bool" where
  "dirtyRoot t \<longleftrightarrow> snd (node_cache (root t))"

lemma insert_marks:
  assumes "trie_insert R rd fuel n path key val s = (Inr (d, n'), s')" "key \<noteq> []" "\<not> is_hash n"
  shows "if d then snd (node_cache n') \<and> \<not> is_hash n' else n' = n"
  using assms
  by (cases fuel; cases n)
     (auto simp: trie_insert.simps(2) bindS_apply Let_def newFlag_def split: prod.splits sum.splits if_splits)

lemma get_keeps_flags:
  assumes "trie_get R rd fuel n key pos s = (Inr (v, n', d), s')" "\<not> is_hash n"
  shows "node_cache n' = node_cache n \<and> \<not> is_hash n'"
  using assms by (cases fuel; cases n) (auto simp: bindS_apply split: prod.splits sum.splits if_splits)

lemma Get_flags:
  assumes "Get R t key = (r, t')" "resolved t"
  shows "resolved t' \<and> dirtyRoot t' = dirtyRoot t \<and> owner t' = owner t"
  using assms
  by (auto simp: Get_def Let_def resolved_def dirtyRoot_def dest: get_keeps_flags split: prod.splits sum.splits if_splits)

text \<open>A write of the value that is there.\<close>

lemma insert_same:
  assumes "rep F R rd path n p" "pok p key" "need n key \<le> fuel" "pget p key = Some v"
  shows "\<exists>n' s'. trie_insert R rd fuel n path key (ValueNode v) s = (Inr (False, n'), s')"
  using assms
proof (induction arbitrary: key fuel s rule: rep.induct)
  case (rep_value path u)
  obtain f where "fuel = Suc f" using need_pos [OF rep_value(2)] by blast
  then show ?case using rep_value by (auto simp: trie_insert.simps(2) split: if_splits)
next
  case (rep_short path k n p fl)
  obtain f where f: "fuel = Suc f" using need_pos [OF rep_short.prems(2)] by blast
  have w: "pwf (PShort k p)" "hexkey key"
    using rep_short.prems(1) by (auto simp: pok_def split: if_splits)
  have step: ?case if key: "key = k @ r" and o: "pok p r" and k: "k \<noteq> []" for r
  proof -
    have "need n r \<le> f"
      using need_child [of "ShortNode k n fl" key f r n] rep_short.prems(2) k by (simp add: f key)
    then obtain n' s' where "trie_insert R rd f n (path @ k) r (ValueNode v) s = (Inr (False, n'), s')"
      using rep_short.IH [OF o, of f s] rep_short.prems(3) by (auto simp: key)
    then show ?thesis using k by (simp add: f trie_insert.simps(2) key Let_def bindS_apply)
  qed
  from w show ?case
  proof (cases rule: short_cases)
    case (differ u a s' b r)
    then have "take (length k) key \<noteq> k" by (auto simp: take_Cons')
    then show ?thesis using rep_short.prems(3) by simp
  next
    case (leaf u)
    have "pok (PVal u) []" using leaf by (simp add: pok_def)
    then show ?thesis using step [of "[]"] leaf by (cases "k = []") auto
  next
    case (ext ps r)
    then have "pok p r" by (cases "r = []") (auto simp: pok_def)
    then show ?thesis using step [of r] ext by simp
  qed
next
  case (rep_full cs ps path fl)
  obtain f where f: "fuel = Suc f" using need_pos [OF rep_full.prems(2)] by blast
  obtain b r where k: "key = b # r" and w: "pwf (PFull ps)" "hexkey (b # r)"
    using rep_full.prems(1) by (cases key) (auto simp: pok_def)
  note o = pok_full [OF w]
  have "need (cs ! unat b) r \<le> f"
    using need_child [of "FullNode cs fl" key f r] rep_full.prems(2) f by (simp add: k)
  then obtain n' s' where "trie_insert R rd f (cs ! unat b) (path @ [b]) r (ValueNode v) s = (Inr (False, n'), s')"
    using rep_full.IH [OF _ o(2), of f s] o(1) rep_full.hyps(1) rep_full.prems(3) by (auto simp: k)
  then show ?case using o(1) rep_full.hyps(1) by (simp add: f trie_insert.simps(2) k bindS_apply)
next
  case (rep_hash path h n p)
  obtain f where f: "fuel = Suc f" using need_pos [OF rep_hash.prems(2)] by blast
  obtain s1 where s1: "resolveAndTrack R rd h path s = (Inr n, s1)"
    using rep_hash.hyps(1) by (rule resolveAndTrack_Inr)
  have "need n key \<le> f"
    using need_resolved [of h _ f n] rep_hash.prems(2) resolves_not_hash [OF rep_hash.hyps(1)] by (simp add: f)
  then obtain n' s' where "trie_insert R rd f n path key (ValueNode v) s1 = (Inr (False, n'), s')"
    using rep_hash.IH [OF rep_hash.prems(1), of f s1] rep_hash.prems(3) by auto
  moreover have "key \<noteq> []"
    using rep_hash.prems(1) rep_resolved [OF rep_hash.hyps(1,2)] by (auto simp: pok_def)
  ultimately show ?case by (simp add: f trie_insert.simps(2) bindS_apply s1)
qed simp

text \<open>The effect of \<^verbatim>\<open>Update\<close> on the root: it is dirty afterwards exactly when it was dirty or the value is new.\<close>

lemma Update_flags:
  assumes m: "trie_holds F R t m" and pol: "flag_policy F" and r: "resolved t" and v: "v \<noteq> []"
    and u: "Update R t key v = (x, t')"
  shows "resolved t' \<and> (dirtyRoot t' \<longleftrightarrow> dirtyRoot t \<or> m key \<noteq> Some v) \<and> owner t' = owner t"
proof -
  let ?k = "keybytesToHex key"
  obtain p where p: "rep F R (reader t) [] (root t) p" "canon p" "m = (\<lambda>k. pget p (keybytesToHex k))"
    using m by (rule trie_holdsE)
  obtain d n s where i: "trie_insert R (reader t) (trie_fuel ?k) (root t) [] ?k (ValueNode v) (tr_tracer t) = (Inr (d, n), s)"
    using flag_policy.insert_law [OF pol m v, of key 0] by blast
  have k: "?k \<noteq> []" by (cases key) simp_all
  have t': "root t' = n" "owner t' = owner t" using u v i by (auto simp: Update_def Let_def)
  have d: "d \<longleftrightarrow> m key \<noteq> Some v"
  proof
    assume "d" then show "m key \<noteq> Some v"
      using insert_same [OF p(1) pok_hex [OF p(2)] need_fuel, of key v "tr_tracer t"] i by (auto simp: p(3))
  next
    assume n: "m key \<noteq> Some v"
    show d
    proof (rule ccontr)
      assume "\<not> d"
      then have "pinsert p ?k (PVal v) = p"
        using flag_policy.insert_refines [OF pol p(1) pok_hex [OF p(2)] need_fuel v, of key "tr_tracer t"] i
        by (auto simp: edit_ok_def)
      then have "pget p ?k = Some v" using pget_pinsert [OF pok_hex [OF p(2)] pok_hex [OF p(2)], of key key v] by simp
      then show False using n by (simp add: p(3))
    qed
  qed
  then show ?thesis
    using insert_marks [OF i k] r t' by (cases d) (auto simp: resolved_def dirtyRoot_def)
qed

lemma hash_keeps_dirty: "snd (node_cache (snd (hasher_hash R K n force))) = snd (node_cache n)"
  by (cases n)
     (auto simp: hashShortNodeChildren_def hashFullNodeChildren_def Let_def set_hash_def split: option.splits prod.splits node.splits)

text \<open>\<^verbatim>\<open>Commit\<close> returns no node set exactly when the root is clean.\<close>

lemma Commit_dirty:
  assumes "trie_Commit R K er cl t = (Inr (rt, nso), t')" "resolved t"
  shows "nso = None \<longleftrightarrow> \<not> dirtyRoot t"
proof (cases "root t = NilNode")
  case True
  then show ?thesis using assms(1) by (auto simp: trie_Commit_def Let_def dirtyRoot_def)
next
  case False
  have "snd (node_cache (root (snd (trie_Hash R K er t)))) = dirtyRoot t"
    using hash_keeps_dirty [of R K "root t" True] False
    by (auto simp: trie_Hash_def hashRoot_def dirtyRoot_def Let_def split: prod.splits node.splits)
  then show ?thesis
    using assms(1) False
    by (auto simp: trie_Commit_def Let_def split: prod.splits sum.splits if_splits node.splits)
qed

lemma New_flags:
  assumes "trie_New R er rt rd = Inr u"
  shows "resolved u" "dirtyRoot u \<longleftrightarrow> rt = zeroHash \<or> rt = er" "owner u = rd_owner rd" "reader u = rd"
proof -
  have "resolved u \<and> (dirtyRoot u \<longleftrightarrow> rt = zeroHash \<or> rt = er)"
  proof (cases "rt = zeroHash \<or> rt = er")
    case True
    then show ?thesis using assms by (auto simp: trie_New_def Let_def resolved_def dirtyRoot_def zeroHash_def)
  next
    case False
    then obtain blob n where n: "mustDecodeNode R (Some rt) blob = Inr n" "root u = n"
      using assms by (auto simp: trie_New_def resolveAndTrack_def zeroHash_def Let_def split: sum.splits)
    then have "(\<exists>k v. n = ShortNode k v \<lparr>flag_hash = Some rt, flag_dirty = False\<rparr>) \<or>
        (\<exists>cs. n = FullNode cs \<lparr>flag_hash = Some rt, flag_dirty = False\<rparr>)"
      by (auto simp: mustDecodeNode_def dest!: decodeNode_shape split: sum.splits)
    then show ?thesis using n(2) False by (auto simp: resolved_def dirtyRoot_def)
  qed
  then show "resolved u" "dirtyRoot u \<longleftrightarrow> rt = zeroHash \<or> rt = er" by auto
  show "owner u = rd_owner rd" "reader u = rd"
    using assms by (auto simp: trie_New_def Let_def split: if_splits prod.splits sum.splits)
qed

end
