(* ===== verification/Block_Chain.thy ===== *)
theory Block_Chain
  imports Aster_Core Trie_Database
begin

text \<open>
  \<^verbatim>\<open>src/storage/storage.go\<close> and \<^verbatim>\<open>src/chain/\<close>: the store of the blocks, and the two block chains.
  \<^verbatim>\<open>BlockChain_dbMPT\<close> (\<^verbatim>\<open>blockchain.go\<close>) keeps its state trie on disk; \<^verbatim>\<open>BlockChain\<close> (\<^verbatim>\<open>blockchain_MemoryMPT.go\<close>, with the
  fork choice of \<^verbatim>\<open>blockchain_rollback.go\<close>) keeps it in memory. Both have the same fields and are the record
  \<open>BlockChain\<close>; an operation that differs has one definition per file, with the prefix \<open>db_\<close> or \<open>mem_\<close>.

  The record \<open>env\<close> holds what is not in the repository: the RLP library, the hashes, the gob encoders of
  accounts, transactions, headers and blocks, and the number of shards of the configuration.
\<close>

section \<open>What the chain relies on\<close>

record env =
  e_rlp :: rlp_lib
  e_keccak :: "bytes \<Rightarrow> bytes"
  e_emptyRoot :: bytes
  e_decAccount :: "bytes \<Rightarrow> bytes res"
  e_batchFull :: "batch \<Rightarrow> bool"
  e_sha256 :: "bytes \<Rightarrow> bytes"
  e_encodeAS :: "AccountState \<Rightarrow> bytes"
  e_decodeAS :: "bytes \<Rightarrow> AccountState res"
  e_encodeTx :: "Transaction \<Rightarrow> bytes"
  e_encodeBH :: "BlockHeader \<Rightarrow> bytes"
  e_decodeBH :: "bytes \<Rightarrow> BlockHeader res"
  e_encodeB :: "Block \<Rightarrow> bytes"
  e_decodeB :: "bytes \<Rightarrow> Block res"
  e_shardNum :: int

text \<open>\<^verbatim>\<open>common.BytesToHash\<close> of go-ethereum crops from the left and pads with zeros on the left.\<close>

definition BytesToHash :: "bytes \<Rightarrow> bytes" where
  "BytesToHash b = (if 32 < length b then drop (length b - 32) b else replicate (32 - length b) 0 @ b)"

section \<open>The block store\<close>

record Storage =
  blockBucket :: "bytes \<rightharpoonup> bytes"
  blockHeaderBucket :: "bytes \<rightharpoonup> bytes"
  newestBlockHash :: "bytes option"

definition NewStorage :: Storage where
  "NewStorage = \<lparr>blockBucket = Map.empty, blockHeaderBucket = Map.empty, newestBlockHash = None\<rparr>"

text \<open>A \<^verbatim>\<open>Put\<close> with a blank key, or with a key or value over the documented limits, fails, and the failure
  becomes a panic. Other writes do not fail.\<close>

definition boltPut :: "bytes \<Rightarrow> bytes \<Rightarrow> (bytes \<rightharpoonup> bytes) \<Rightarrow> (bytes \<rightharpoonup> bytes) res" where
  "boltPut key val bucket = (if key = [] \<or> 32768 < length key \<or> 2147483646 < length val then Inl Panic
      else Inr (bucket(key \<mapsto> val)))"

definition UpdateNewestBlock :: "bytes \<Rightarrow> Storage \<Rightarrow> Storage" where
  "UpdateNewestBlock newestbhash s = s\<lparr>newestBlockHash := Some newestbhash\<rparr>"

definition AddBlockHeader :: "env \<Rightarrow> bytes \<Rightarrow> BlockHeader \<Rightarrow> Storage \<Rightarrow> Storage res" where
  "AddBlockHeader E blockhash bh s =
     bindR (boltPut blockhash (e_encodeBH E bh) (blockHeaderBucket s)) (\<lambda>bucket.
       Inr (s\<lparr>blockHeaderBucket := bucket\<rparr>))"

definition storage_AddBlock :: "env \<Rightarrow> Block \<Rightarrow> Storage \<Rightarrow> Storage res" where
  "storage_AddBlock E b s =
     bindR (boltPut (BHash b) (e_encodeB E b) (blockBucket s)) (\<lambda>bucket.
       bindR (AddBlockHeader E (BHash b) (Header b) (s\<lparr>blockBucket := bucket\<rparr>)) (\<lambda>s1.
         Inr (UpdateNewestBlock (BHash b) s1)))"

definition GetBlockHeader :: "env \<Rightarrow> bytes \<Rightarrow> Storage \<Rightarrow> BlockHeader res" where
  "GetBlockHeader E bhash s =
     (case blockHeaderBucket s bhash of
        None \<Rightarrow> Inl (ErrMsg ''the block is not existed'')
      | Some enc \<Rightarrow> e_decodeBH E enc)"

definition GetBlock :: "env \<Rightarrow> bytes \<Rightarrow> Storage \<Rightarrow> Block res" where
  "GetBlock E bhash s =
     (case blockBucket s bhash of
        None \<Rightarrow> Inl (ErrMsg ''the block is not existed'')
      | Some enc \<Rightarrow> e_decodeB E enc)"

definition GetNewestBlockHash :: "Storage \<Rightarrow> bytes res" where
  "GetNewestBlockHash s =
     (case newestBlockHash s of
        None \<Rightarrow> Inl (ErrMsg ''cannot find the newest block hash'')
      | Some h \<Rightarrow> Inr h)"

section \<open>The chain\<close>

text \<open>One record serves for the disk chain and the memory chain. \<open>Txpool\<close> is the pool that blocks are packed from: the field \<^verbatim>\<open>Txpool\<close> of the
  disk chain and \<^verbatim>\<open>PrecessedTxpool\<close> of the memory chain, whose other field \<^verbatim>\<open>Txpool\<close> only the PBFT nodes use and which is a part of
  their state here.\<close>

record BlockChain =
  triedb :: Database
  ShardID :: uint64
  BlockSize :: uint64
  CurrentBlock :: Block
  bc_Storage :: Storage
  Txpool :: TxPool
  PartitionMap :: "address \<rightharpoonup> uint64"

definition memDatabase :: Database where
  "memDatabase = NewDatabaseWithConfig Map.empty Map.empty 0 False"

definition newState :: "env \<Rightarrow> bytes \<Rightarrow> Database \<Rightarrow> Trie res" where
  "newState E rt db = trie_New (e_rlp E) (e_emptyRoot E) (BytesToHash rt) (newTrieReader (e_rlp E) db zeroHash)"

text \<open>\<^verbatim>\<open>Get\<close> and \<^verbatim>\<open>Update\<close> of the trie where the caller drops the error; a panic is not dropped.\<close>

definition trieGet :: "env \<Rightarrow> Trie \<Rightarrow> bytes \<Rightarrow> (bytes option \<times> Trie) res" where
  "trieGet E t key =
     (case Get (e_rlp E) t key of
        (Inr v, t') \<Rightarrow> Inr (v, t')
      | (Inl Panic, t') \<Rightarrow> Inl Panic
      | (Inl OutOfFuel, t') \<Rightarrow> Inl OutOfFuel
      | (Inl e, t') \<Rightarrow> Inr (None, t'))"

definition trieUpdate :: "env \<Rightarrow> bytes \<Rightarrow> bytes \<Rightarrow> Trie \<Rightarrow> Trie res" where
  "trieUpdate E key val t =
     (case Update (e_rlp E) t key val of
        (Inr u, t') \<Rightarrow> Inr t'
      | (Inl Panic, t') \<Rightarrow> Inl Panic
      | (Inl OutOfFuel, t') \<Rightarrow> Inl OutOfFuel
      | (Inl e, t') \<Rightarrow> Inr t')"

definition trieHash :: "env \<Rightarrow> Trie \<Rightarrow> bytes res" where
  "trieHash E t = fst (trie_Hash (e_rlp E) (e_keccak E) (e_emptyRoot E) t)"

definition GetTxTreeRoot :: "env \<Rightarrow> Transaction list \<Rightarrow> bytes res" where
  "GetTxTreeRoot E txs =
     bindR (newState E [] memDatabase) (\<lambda>t0.
       bindR (foldR (\<lambda>tx. trieUpdate E (TxHash tx) (e_encodeTx E tx)) txs t0) (trieHash E))"

definition GetBloomFilter :: "Transaction list \<Rightarrow> nat set res" where
  "GetBloomFilter txs = bindR (mapR (\<lambda>tx. ModBytes (TxHash tx) 2048) txs) (\<lambda>is. Inr (set (map unat is)))"

definition Update_PartitionMap :: "address \<Rightarrow> uint64 \<Rightarrow> BlockChain \<Rightarrow> BlockChain" where
  "Update_PartitionMap key val bc = bc\<lparr>PartitionMap := (PartitionMap bc)(key \<mapsto> val)\<rparr>"

definition Get_PartitionMap :: "env \<Rightarrow> BlockChain \<Rightarrow> address \<Rightarrow> uint64 res" where
  "Get_PartitionMap E bc key =
     (case PartitionMap bc key of
        None \<Rightarrow> bindR (Addr2Shard (e_shardNum E) key) (\<lambda>s. Inr (word_of_int s))
      | Some s \<Rightarrow> Inr s)"

definition SendTx2Pool :: "int \<Rightarrow> Transaction list \<Rightarrow> BlockChain \<Rightarrow> BlockChain" where
  "SendTx2Pool now txs bc = bc\<lparr>Txpool := AddTxs2Pool now txs (Txpool bc)\<rparr>"

section \<open>Executing transactions\<close>

definition senderHere :: "env \<Rightarrow> BlockChain \<Rightarrow> Transaction \<Rightarrow> bool res" where
  "senderHere E bc tx =
     (if Relayed tx then Inr False
      else bindR (Get_PartitionMap E bc (Sender tx)) (\<lambda>s. Inr (s = ShardID bc \<or> HasBroker tx)))"

definition recipientHere :: "env \<Rightarrow> BlockChain \<Rightarrow> Transaction \<Rightarrow> bool res" where
  "recipientHere E bc tx = bindR (Get_PartitionMap E bc (Recipient tx)) (\<lambda>s. Inr (s = ShardID bc \<or> HasBroker tx))"

definition freshState :: "nat \<Rightarrow> AccountState" where
  "freshState i = initAccount\<lparr>Nonce := word_of_nat i\<rparr>"

definition readState :: "env \<Rightarrow> nat \<Rightarrow> address \<Rightarrow> Trie \<Rightarrow> (AccountState \<times> Trie) res" where
  "readState E i addr st =
     bindR (trieGet E st (strBytes addr)) (\<lambda>(enc, st').
       case enc of
         None \<Rightarrow> Inr (freshState i, st')
       | Some b \<Rightarrow> bindR (e_decodeAS E b) (\<lambda>a. Inr (a, st')))"

text \<open>The first loop of the disk chain reads the states of all accounts of the block. Each entry of the map is a
  fresh object, so the map of pointers is a map of values.\<close>

definition readAccounts ::
  "env \<Rightarrow> BlockChain \<Rightarrow> nat \<times> Transaction \<Rightarrow> (address \<rightharpoonup> AccountState) \<times> Trie \<Rightarrow> ((address \<rightharpoonup> AccountState) \<times> Trie) res"
where
  "readAccounts E bc itx s0 =
     (case itx of (i, tx) \<Rightarrow>
        bindR (senderHere E bc tx) (\<lambda>sh.
          bindR (if sh then bindR (readState E i (Sender tx) (snd s0)) (\<lambda>(a, st). Inr ((fst s0)(Sender tx \<mapsto> a), st))
                 else Inr s0) (\<lambda>s1.
            bindR (recipientHere E bc tx) (\<lambda>rh.
              if rh then bindR (readState E i (Recipient tx) (snd s1)) (\<lambda>(a, st). Inr ((fst s1)(Recipient tx \<mapsto> a), st))
              else Inr s1))))"

text \<open>The second loop applies the transactions to these states and writes them. A state that is not in the
  map is used once and not added to it.\<close>

definition writeState ::
  "env \<Rightarrow> (AccountState \<Rightarrow> AccountState) \<Rightarrow> nat \<Rightarrow> address \<Rightarrow>
    (address \<rightharpoonup> AccountState) \<times> Trie \<times> nat \<Rightarrow> ((address \<rightharpoonup> AccountState) \<times> Trie \<times> nat) res"
where
  "writeState E f i addr s =
     (case s of (m, st, cnt) \<Rightarrow>
        let a = f (case m addr of None \<Rightarrow> freshState i | Some a \<Rightarrow> a)
        in bindR (trieUpdate E (strBytes addr) (e_encodeAS E a) st) (\<lambda>st'.
             Inr (if m addr = None then m else m(addr \<mapsto> a), st', cnt + 1)))"

definition applyTx ::
  "env \<Rightarrow> BlockChain \<Rightarrow> nat \<times> Transaction \<Rightarrow>
    (address \<rightharpoonup> AccountState) \<times> Trie \<times> nat \<Rightarrow> ((address \<rightharpoonup> AccountState) \<times> Trie \<times> nat) res"
where
  "applyTx E bc itx s0 =
     (case itx of (i, tx) \<Rightarrow>
        bindR (senderHere E bc tx) (\<lambda>sh.
          bindR (if sh then writeState E (\<lambda>a. snd (Deduct (TxValue tx) a)) i (Sender tx) s0 else Inr s0) (\<lambda>s1.
            bindR (recipientHere E bc tx) (\<lambda>rh.
              if rh then writeState E (Deposit (TxValue tx)) i (Recipient tx) s1 else Inr s1))))"

definition storeState :: "env \<Rightarrow> nat \<Rightarrow> Trie \<Rightarrow> Database \<Rightarrow> (bytes \<times> Database) res" where
  "storeState E fuel t db =
     commitTrie (e_rlp E) (e_keccak E) (e_emptyRoot E) (e_decAccount E) (e_batchFull E) fuel t db"

definition db_execute ::
  "env \<Rightarrow> Transaction list \<Rightarrow> BlockChain \<Rightarrow> ((address \<rightharpoonup> AccountState) \<times> Trie \<times> nat) res"
where
  "db_execute E txs bc =
     bindR (orPanic (newState E (HStateRoot (Header (CurrentBlock bc))) (triedb bc))) (\<lambda>st.
       bindR (foldR (readAccounts E bc) (enumerate 0 txs) (Map.empty, st)) (\<lambda>(m, st1).
         foldR (applyTx E bc) (enumerate 0 txs) (m, st1, 0)))"

definition db_GetUpdateStatusTrie ::
  "env \<Rightarrow> nat \<Rightarrow> Transaction list \<Rightarrow> BlockChain \<Rightarrow> (bytes \<times> BlockChain) res"
where
  "db_GetUpdateStatusTrie E fuel txs bc =
     (let rt0 = BytesToHash (HStateRoot (Header (CurrentBlock bc))) in
      if txs = [] then Inr (rt0, bc)
      else bindR (db_execute E txs bc) (\<lambda>(m, st, cnt).
        if cnt = 0 then Inr (rt0, bc)
        else bindR (storeState E fuel st (triedb bc)) (\<lambda>(rt, db). Inr (rt, bc\<lparr>triedb := db\<rparr>))))"

text \<open>The memory chain has one loop, in which a transaction whose sender cannot pay is skipped. The counter
  \<^verbatim>\<open>cnt\<close> is never increased.\<close>

definition mem_applyTx :: "env \<Rightarrow> BlockChain \<Rightarrow> nat \<times> Transaction \<Rightarrow> Trie \<Rightarrow> Trie res" where
  "mem_applyTx E bc itx st0 =
     (case itx of (i, tx) \<Rightarrow>
        bindR (senderHere E bc tx) (\<lambda>sh.
          bindR (if \<not> sh then Inr (True, st0)
                 else bindR (readState E i (Sender tx) st0) (\<lambda>(a, st1).
                   if Balance a < TxValue tx then Inr (False, st1)
                   else bindR (trieUpdate E (strBytes (Sender tx)) (e_encodeAS E (snd (Deduct (TxValue tx) a))) st1)
                          (\<lambda>st2. Inr (True, st2)))) (\<lambda>(go, st3).
            if \<not> go then Inr st3
            else bindR (recipientHere E bc tx) (\<lambda>rh.
              if \<not> rh then Inr st3
              else bindR (readState E i (Recipient tx) st3) (\<lambda>(a, st4).
                     trieUpdate E (strBytes (Recipient tx)) (e_encodeAS E (Deposit (TxValue tx) a)) st4)))))"

definition mem_GetUpdateStatusTrie ::
  "env \<Rightarrow> nat \<Rightarrow> Transaction list \<Rightarrow> BlockChain \<Rightarrow> (bytes \<times> BlockChain) res"
where
  "mem_GetUpdateStatusTrie E fuel txs bc =
     (let rt0 = BytesToHash (HStateRoot (Header (CurrentBlock bc))); cnt = 0 :: nat in
      if txs = [] then Inr (rt0, bc)
      else bindR (orPanic (newState E (HStateRoot (Header (CurrentBlock bc))) (triedb bc))) (\<lambda>st.
        bindR (foldR (mem_applyTx E bc) (enumerate 0 txs) st) (\<lambda>st1.
          if cnt = 0 then Inr (rt0, bc)
          else bindR (storeState E fuel st1 (triedb bc)) (\<lambda>(rt, db). Inr (rt, bc\<lparr>triedb := db\<rparr>)))))"

section \<open>Blocks\<close>

text \<open>Filling in a header and hashing it, as every place that makes a block does; \<open>now\<close> is the time put into it.\<close>

definition sealBlock ::
  "env \<Rightarrow> int \<Rightarrow> bytes \<Rightarrow> uint64 \<Rightarrow> bytes \<Rightarrow> uint64 \<Rightarrow> Transaction list \<Rightarrow> Block res"
where
  "sealBlock E now parent num rt miner txs =
     bindR (GetTxTreeRoot E txs) (\<lambda>txroot.
       bindR (GetBloomFilter txs) (\<lambda>bloom.
         let bh = \<lparr>ParentBlockHash = parent, HStateRoot = rt, TxRoot = txroot, BloomFilter = bloom,
                   Number = num, HTime = now, Miner = miner\<rparr>
         in Inr ((NewBlock bh txs)\<lparr>BHash := header_Hash (e_encodeBH E) (e_sha256 E) bh\<rparr>)))"

definition GenerateBlock ::
  "env \<Rightarrow> (Transaction list \<Rightarrow> BlockChain \<Rightarrow> (bytes \<times> BlockChain) res) \<Rightarrow> int \<Rightarrow> uint64 \<Rightarrow> BlockChain \<Rightarrow>
    (Block \<times> BlockChain) res"
where
  "GenerateBlock E exec now miner bc =
     (let (txs, pool) = PackTxs (BlockSize bc) (Txpool bc);
          bc1 = bc\<lparr>Txpool := pool\<rparr>
      in bindR (exec txs bc1) (\<lambda>(rt, bc2).
           bindR (sealBlock E now (BHash (CurrentBlock bc)) (Number (Header (CurrentBlock bc)) + 1) rt miner txs) (\<lambda>b.
             Inr (b, bc2))))"

definition db_GenerateBlock :: "env \<Rightarrow> nat \<Rightarrow> int \<Rightarrow> uint64 \<Rightarrow> BlockChain \<Rightarrow> (Block \<times> BlockChain) res" where
  "db_GenerateBlock E fuel = GenerateBlock E (db_GetUpdateStatusTrie E fuel)"

definition mem_GenerateBlock :: "env \<Rightarrow> nat \<Rightarrow> int \<Rightarrow> uint64 \<Rightarrow> BlockChain \<Rightarrow> (Block \<times> BlockChain) res" where
  "mem_GenerateBlock E fuel = GenerateBlock E (mem_GetUpdateStatusTrie E fuel)"

text \<open>The block of a proposer is cut off its processed pool and carries no state root.\<close>

definition GenerateBlock2 ::
  "env \<Rightarrow> int \<Rightarrow> uint64 \<Rightarrow> Transaction list \<Rightarrow> BlockChain \<Rightarrow> (Block \<times> Transaction list) res"
where
  "GenerateBlock2 E now miner pool bc =
     (let txNum = (if of_nat (length pool) < BlockSize bc then of_nat (length pool) else BlockSize bc);
          txs = take (unat txNum) pool
      in bindR (sealBlock E now (BHash (CurrentBlock bc)) (Number (Header (CurrentBlock bc)) + 1) [] miner txs) (\<lambda>b.
           Inr (b, drop (unat txNum) pool)))"

definition NewGenisisBlock :: "env \<Rightarrow> Database \<Rightarrow> BlockChain \<Rightarrow> (Block \<times> BlockChain) res" where
  "NewGenisisBlock E db bc =
     bindR (newState E [] db) (\<lambda>t.
       bindR (trieHash E t) (\<lambda>rt.
         bindR (sealBlock E 0 [] 0 rt 0 []) (\<lambda>b. Inr (b, bc\<lparr>triedb := db\<rparr>))))"

definition AddGenisisBlock :: "env \<Rightarrow> Block \<Rightarrow> BlockChain \<Rightarrow> BlockChain res" where
  "AddGenisisBlock E gb bc =
     bindR (storage_AddBlock E gb (bc_Storage bc)) (\<lambda>s.
       bindR (orPanic (GetNewestBlockHash s)) (\<lambda>h.
         bindR (orPanic (GetBlock E h s)) (\<lambda>curb.
           Inr (bc\<lparr>bc_Storage := s, CurrentBlock := curb\<rparr>))))"

definition appendBlock :: "env \<Rightarrow> Block \<Rightarrow> BlockChain \<Rightarrow> (bool \<times> BlockChain) res" where
  "appendBlock E b bc =
     bindR (storage_AddBlock E b (bc_Storage bc)) (\<lambda>s. Inr (True, bc\<lparr>CurrentBlock := b, bc_Storage := s\<rparr>))"

definition extendsChain :: "Block \<Rightarrow> BlockChain \<Rightarrow> bool" where
  "extendsChain b bc \<longleftrightarrow>
     Number (Header b) = Number (Header (CurrentBlock bc)) + 1 \<and>
     ParentBlockHash (Header b) = BHash (CurrentBlock bc)"

definition mem_AddBlock :: "env \<Rightarrow> Block option \<Rightarrow> BlockChain \<Rightarrow> (bool \<times> BlockChain) res" where
  "mem_AddBlock E b bc =
     (case b of
        None \<Rightarrow> Inr (False, bc)
      | Some b \<Rightarrow> if \<not> extendsChain b bc then Inr (False, bc) else appendBlock E b bc)"

text \<open>The disk chain executes the block first when its state root cannot be opened.\<close>

definition db_AddBlock :: "env \<Rightarrow> nat \<Rightarrow> Block option \<Rightarrow> BlockChain \<Rightarrow> (bool \<times> BlockChain) res" where
  "db_AddBlock E fuel b bc =
     (case b of
        None \<Rightarrow> Inr (False, bc)
      | Some b \<Rightarrow>
          if \<not> extendsChain b bc then Inr (False, bc)
          else (case newState E (HStateRoot (Header b)) (triedb bc) of
                  Inr t \<Rightarrow> appendBlock E b bc
                | Inl Panic \<Rightarrow> Inl Panic
                | Inl OutOfFuel \<Rightarrow> Inl OutOfFuel
                | Inl e \<Rightarrow> bindR (db_GetUpdateStatusTrie E fuel (Body b) bc) (\<lambda>(rt, bc1). appendBlock E b bc1)))"

text \<open>Opening a chain on the block store \<open>s\<close> found on the disk. The trie database \<open>db\<close> is a new one on the disk, or
  an empty one in memory; before a block is known the field \<^verbatim>\<open>CurrentBlock\<close> is nil, here \<open>nilBlock\<close>.\<close>

definition nilBlock :: Block where
  "nilBlock = NewBlock \<lparr>ParentBlockHash = [], HStateRoot = [], TxRoot = [], BloomFilter = {}, Number = 0, HTime = 0, Miner = 0\<rparr> []"

definition openChain :: "env \<Rightarrow> uint64 \<Rightarrow> uint64 \<Rightarrow> Database \<Rightarrow> Storage \<Rightarrow> BlockChain res" where
  "openChain E shard bsize db s =
     (let bc = \<lparr>triedb = db, ShardID = shard, BlockSize = bsize, CurrentBlock = nilBlock, bc_Storage = s,
                Txpool = NewTxPool, PartitionMap = Map.empty\<rparr>
      in case GetNewestBlockHash s of
           Inl e \<Rightarrow> bindR (NewGenisisBlock E db bc) (\<lambda>(gb, bc1). AddGenisisBlock E gb bc1)
         | Inr h \<Rightarrow>
             bindR (orPanic (GetBlock E h s)) (\<lambda>curb.
               bindR (orPanic (newState E (HStateRoot (Header curb)) db)) (\<lambda>t.
                 Inr (bc\<lparr>CurrentBlock := curb\<rparr>))))"

definition diskDatabase :: "(bytes \<rightharpoonup> bytes) \<Rightarrow> (bytes \<rightharpoonup> bytes) \<Rightarrow> Database" where
  "diskDatabase disk pre = NewDatabaseWithConfig disk pre 0 True"

definition NewBlockChain_dbMPT ::
  "env \<Rightarrow> uint64 \<Rightarrow> uint64 \<Rightarrow> (bytes \<rightharpoonup> bytes) \<Rightarrow> (bytes \<rightharpoonup> bytes) \<Rightarrow> Storage \<Rightarrow> BlockChain res"
where
  "NewBlockChain_dbMPT E shard bsize disk pre = openChain E shard bsize (diskDatabase disk pre)"

definition NewBlockChain :: "env \<Rightarrow> uint64 \<Rightarrow> uint64 \<Rightarrow> Storage \<Rightarrow> BlockChain res" where
  "NewBlockChain E shard bsize = openChain E shard bsize memDatabase"

definition IsValidBlock :: "env \<Rightarrow> Block \<Rightarrow> BlockChain \<Rightarrow> unit res" where
  "IsValidBlock E b bc =
     (if ParentBlockHash (Header b) \<noteq> BHash (CurrentBlock bc)
      then Inl (ErrMsg ''the parentblock hash is not equal to the current block hash'')
      else bindR (GetTxTreeRoot E (Body b)) (\<lambda>rt.
             if rt \<noteq> TxRoot (Header b) then Inl (ErrMsg ''the transaction root is wrong'') else Inr ()))"

section \<open>Accounts\<close>

text \<open>\<^verbatim>\<open>AddAccounts\<close> stores the new trie under its root, but hands the old root to \<^verbatim>\<open>triedb.Commit\<close>.\<close>

definition addAccount ::
  "env \<Rightarrow> BlockChain \<Rightarrow> AccountState list \<Rightarrow> nat \<times> address \<Rightarrow> Trie \<Rightarrow> Trie res"
where
  "addAccount E bc as iaddr st =
     (case iaddr of (i, addr) \<Rightarrow>
        bindR (Get_PartitionMap E bc addr) (\<lambda>s.
          if s \<noteq> ShardID bc then Inr st
          else if length as \<le> i then Inl Panic
          else trieUpdate E (strBytes addr)
                 (e_encodeAS E (initAccount\<lparr>Nonce := Nonce (as ! i), Balance := Balance (as ! i)\<rparr>)) st))"

definition AddAccounts ::
  "env \<Rightarrow> nat \<Rightarrow> address list \<Rightarrow> AccountState list \<Rightarrow> BlockChain \<Rightarrow> BlockChain res"
where
  "AddAccounts E fuel ac as bc =
     (let rt = BytesToHash (HStateRoot (Header (CurrentBlock bc))) in
      bindR (if ac = [] then Inr (rt, triedb bc)
             else bindR (orPanic (newState E (HStateRoot (Header (CurrentBlock bc))) (triedb bc))) (\<lambda>st.
               bindR (foldR (addAccount E bc as) (enumerate 0 ac) st) (\<lambda>st1.
                 bindR (fst (trie_Commit (e_rlp E) (e_keccak E) (e_emptyRoot E) False st1)) (\<lambda>(rrt, ns).
                   bindR (NewWithNodeSet ns) (\<lambda>sets.
                     bindR (orPanic (db_Update (e_decAccount E) (e_emptyRoot E) sets (triedb bc))) (\<lambda>db1.
                       bindR (orPanic (db_Commit (e_rlp E) (e_batchFull E) fuel rt db1)) (\<lambda>db2.
                         Inr (rrt, db2)))))))) (\<lambda>(rt', db).
        bindR (sealBlock E 0 (BHash (CurrentBlock bc)) (Number (Header (CurrentBlock bc)) + 1) rt' 0 []) (\<lambda>b.
          bindR (storage_AddBlock E b (bc_Storage bc)) (\<lambda>s.
            Inr (bc\<lparr>triedb := db, CurrentBlock := b, bc_Storage := s\<rparr>)))))"

definition FetchAccounts ::
  "env \<Rightarrow> address list \<Rightarrow> BlockChain \<Rightarrow> (AccountState list \<times> int \<times> int \<times> bytes \<times> bytes) res"
where
  "FetchAccounts E addrs bc =
     (let cur = CurrentBlock bc in
      bindR (orPanic (newState E (HStateRoot (Header cur)) (triedb bc))) (\<lambda>st.
        bindR (foldR (\<lambda>addr (res, t). bindR (readState E 0 addr t) (\<lambda>(a, t'). Inr (res @ [a], t'))) addrs ([], st)) (\<lambda>(res, t).
          Inr (res, sint (ShardID bc), sint (Number (Header cur)), BHash cur, HStateRoot (Header cur)))))"

section \<open>Forks\<close>

text \<open>The loop walks from the current block down to the height of \<open>b\<close>; the height is a \<^verbatim>\<open>uint64\<close> and wraps below
  zero. It returns the block at the height of \<open>b\<close>, or \<open>None\<close> when a block is missing.\<close>

fun findHeight :: "env \<Rightarrow> Storage \<Rightarrow> nat \<Rightarrow> uint64 \<Rightarrow> uint64 \<Rightarrow> bytes \<Rightarrow> Block option \<Rightarrow> Block option option res" where
  "findHeight E s fuel nowheight target query found =
     (if nowheight < target then Inr (Some found)
      else case fuel of
        0 \<Rightarrow> Inl OutOfFuel
      | Suc fuel' \<Rightarrow>
          (case GetBlock E query s of
             Inl (ErrMsg e) \<Rightarrow> Inr None
           | Inl e \<Rightarrow> Inl e
           | Inr block \<Rightarrow>
               findHeight E s fuel' (nowheight - 1) target (ParentBlockHash (Header block))
                 (if nowheight = target then Some block else found)))"

definition switchTo :: "env \<Rightarrow> Block \<Rightarrow> Block \<Rightarrow> BlockChain \<Rightarrow> (bool \<times> BlockChain) res" where
  "switchTo E b parent bc =
     bindR (mem_AddBlock E (Some b) (bc\<lparr>CurrentBlock := parent\<rparr>)) (\<lambda>(added, bc'). Inr (True, bc'))"

definition JudgeForkValid_RollBack :: "env \<Rightarrow> nat \<Rightarrow> Block \<Rightarrow> BlockChain \<Rightarrow> (bool \<times> BlockChain) res" where
  "JudgeForkValid_RollBack E fuel b bc =
     (if Number (Header b) > Number (Header (CurrentBlock bc)) then Inr (False, bc)
      else bindR (findHeight E (bc_Storage bc) fuel (Number (Header (CurrentBlock bc))) (Number (Header b))
                    (BHash (CurrentBlock bc)) None) (\<lambda>r.
        case r of
          None \<Rightarrow> Inr (False, bc)
        | Some None \<Rightarrow> Inl Panic
        | Some (Some cur) \<Rightarrow>
            if ParentBlockHash (Header b) \<noteq> ParentBlockHash (Header cur) then Inr (False, bc)
            else if BHash cur \<le> BHash b then Inr (False, bc)
            else (case GetBlock E (ParentBlockHash (Header b)) (bc_Storage bc) of
                    Inl (ErrMsg e) \<Rightarrow> Inr (False, bc)
                  | Inl e \<Rightarrow> Inl e
                  | Inr parent \<Rightarrow> switchTo E b parent bc)))"

definition JudgeForkValid_RollBack_withMap ::
  "env \<Rightarrow> Block \<Rightarrow> (uint64 \<rightharpoonup> bytes) \<Rightarrow> (bytes \<rightharpoonup> Block) \<Rightarrow> BlockChain \<Rightarrow> (bool \<times> (uint64 \<rightharpoonup> bytes) \<times> BlockChain) res"
where
  "JudgeForkValid_RollBack_withMap E b height2Hash hashToBlock bc =
     (if Number (Header b) > Number (Header (CurrentBlock bc)) then Inr (False, height2Hash, bc)
      else case height2Hash (Number (Header b)) of
        None \<Rightarrow> Inr (False, height2Hash, bc)
      | Some h \<Rightarrow>
          (case hashToBlock h of
             None \<Rightarrow> Inr (False, height2Hash, bc)
           | Some cur \<Rightarrow>
               if ParentBlockHash (Header b) \<noteq> ParentBlockHash (Header cur) then Inr (False, height2Hash, bc)
               else if BHash cur \<le> BHash b then Inr (False, height2Hash, bc)
               else (case hashToBlock (ParentBlockHash (Header b)) of
                       None \<Rightarrow> Inr (False, height2Hash, bc)
                     | Some parent \<Rightarrow>
                         bindR (switchTo E b parent bc) (\<lambda>(r, bc').
                           Inr (r, height2Hash(Number (Header b) \<mapsto> BHash b), bc')))))"

declare findHeight.simps [simp del]

end
