(* ===== verification/Block_Exec.thy ===== *)
theory Block_Exec
  imports Trie_Dirty Block_Chain "HOL-Library.Countable"
begin

text \<open>
  The execution of a block by the disk chain. \<open>balance\<close> reads the balances off the map that the state trie
  holds, and \<open>settle\<close> is the effect of one transaction on the balances. The theorems relate
  \<^verbatim>\<open>GetUpdateStatusTrie\<close>, through the loops, the trie and the database, to a fold of \<open>settle\<close>.
\<close>

section \<open>What is relied on, and the abstract state\<close>

definition env_ok :: "env \<Rightarrow> bool" where
  "env_ok E \<longleftrightarrow> rlp_ok (e_rlp E) \<and> hash32 (e_keccak E) \<and> length (e_emptyRoot E) = 32 \<and>
     (\<forall>a. e_decodeAS E (e_encodeAS E a) = Inr a \<and> e_encodeAS E a \<noteq> [])"

definition state_at :: "env \<Rightarrow> Database \<Rightarrow> bytes \<Rightarrow> (bytes \<rightharpoonup> bytes) \<Rightarrow> bool" where
  "state_at E db rt m \<longleftrightarrow> opens (e_rlp E) (e_keccak E) (e_emptyRoot E) db zeroHash (BytesToHash rt) m"

text \<open>Every account that is stored can be decoded.\<close>

definition accounts_ok :: "env \<Rightarrow> (bytes \<rightharpoonup> bytes) \<Rightarrow> bool" where
  "accounts_ok E m \<longleftrightarrow> (\<forall>addr b. m (strBytes addr) = Some b \<longrightarrow> isInr (e_decodeAS E b))"

definition balance :: "env \<Rightarrow> (bytes \<rightharpoonup> bytes) \<Rightarrow> address \<Rightarrow> int" where
  "balance E m addr =
     (case m (strBytes addr) of
        None \<Rightarrow> Init_Balance
      | Some b \<Rightarrow> (case e_decodeAS E b of Inl e \<Rightarrow> 0 | Inr a \<Rightarrow> Balance a))"

definition settle :: "env \<Rightarrow> BlockChain \<Rightarrow> Transaction \<Rightarrow> (address \<Rightarrow> int) \<Rightarrow> (address \<Rightarrow> int)" where
  "settle E bc tx bal =
     (let bal1 = (if senderHere E bc tx = Inr True \<and> TxValue tx \<le> bal (Sender tx)
                  then bal(Sender tx := bal (Sender tx) - TxValue tx) else bal)
      in if recipientHere E bc tx = Inr True then bal1(Recipient tx := bal1 (Recipient tx) + TxValue tx) else bal1)"

definition homed :: "env \<Rightarrow> BlockChain \<Rightarrow> Transaction \<Rightarrow> bool" where
  "homed E bc tx \<longleftrightarrow> isInr (senderHere E bc tx) \<and> isInr (recipientHere E bc tx)"

definition touched :: "env \<Rightarrow> BlockChain \<Rightarrow> Transaction \<Rightarrow> address set" where
  "touched E bc tx = {a. a = Sender tx \<and> senderHere E bc tx = Inr True \<or>
                         a = Recipient tx \<and> recipientHere E bc tx = Inr True}"

section \<open>The state trie while a block is executed\<close>

definition live :: "env \<Rightarrow> Database \<Rightarrow> Trie \<Rightarrow> (bytes \<rightharpoonup> bytes) \<Rightarrow> bool" where
  "live E db t m \<longleftrightarrow> db_trie (e_rlp E) (e_keccak E) db zeroHash t m \<and> resolved t"

lemma newState_law:
  assumes "state_at E db rt m"
  shows "\<exists>t. newState E rt db = Inr t \<and> live E db t m \<and>
    (dirtyRoot t \<longleftrightarrow> BytesToHash rt = zeroHash \<or> BytesToHash rt = e_emptyRoot E)"
  using assms New_flags [of "e_rlp E" "e_emptyRoot E" "BytesToHash rt"]
  by (fastforce simp: state_at_def opens_def newState_def live_def)

lemma trieGet_law:
  assumes "live E db t m"
  shows "\<exists>t'. trieGet E t key = Inr (m key, t') \<and> live E db t' m \<and> dirtyRoot t' = dirtyRoot t"
proof -
  have h: "trie_holds (commit_pol (e_rlp E) (e_keccak E) (in_db (e_rlp E) (e_keccak E) db)) (e_rlp E) t m" "resolved t"
    using assms by (auto simp: live_def db_trie_def)
  then obtain t' where "Get (e_rlp E) t key = (Inr (m key), t')" "reader t' = reader t"
    "trie_holds (commit_pol (e_rlp E) (e_keccak E) (in_db (e_rlp E) (e_keccak E) db)) (e_rlp E) t' m"
    using cp.Get_law [OF h(1), of key] by blast
  then show ?thesis
    using Get_flags [OF _ h(2)] assms by (auto simp: trieGet_def live_def db_trie_def)
qed

lemma trieUpdate_law:
  assumes "live E db t m" "v \<noteq> []"
  shows "\<exists>t'. trieUpdate E key v t = Inr t' \<and> live E db t' (m(key \<mapsto> v)) \<and>
    (dirtyRoot t' \<longleftrightarrow> dirtyRoot t \<or> m key \<noteq> Some v)"
proof -
  let ?F = "commit_pol (e_rlp E) (e_keccak E) (in_db (e_rlp E) (e_keccak E) db)"
  have h: "trie_holds ?F (e_rlp E) t m" "resolved t"
    using assms by (auto simp: live_def db_trie_def)
  then obtain t' where u: "Update (e_rlp E) t key v = (Inr (), t')" "reader t' = reader t"
    "trie_holds ?F (e_rlp E) t' (m(key \<mapsto> v))"
    using cp.Update_law [OF h(1), of key v] assms(2) by auto
  have "flag_policy ?F" by unfold_locales
  from Update_flags [OF h(1) this h(2) assms(2) u(1)] u assms show ?thesis
    by (auto simp: trieUpdate_def live_def db_trie_def)
qed

lemma nonempty_root:
  assumes "state_at E db rt m" "m \<noteq> Map.empty"
  shows "BytesToHash rt \<notin> {zeroHash, e_emptyRoot E}"
proof
  assume r: "BytesToHash rt \<in> {zeroHash, e_emptyRoot E}"
  obtain t where t: "newState E rt db = Inr t" "live E db t m" using newState_law [OF assms(1)] by blast
  then have "root t = NilNode" using r by (auto simp: newState_def trie_New_def Let_def zeroHash_def)
  from trie_holds_empty [OF this] t(2) assms(2) show False
    unfolding live_def db_trie_def using trie_holds_unique by blast
qed

lemma BytesToHash_id: "length b = 32 \<Longrightarrow> BytesToHash b = b"
  by (simp add: BytesToHash_def)

lemma root_hash_32: "env_ok E \<Longrightarrow> length (root_hash (e_rlp E) (e_keccak E) (e_emptyRoot E) p) = 32"
  by (simp add: env_ok_def root_hash_def hash32_def)

lemma storeState_law:
  assumes E: "env_ok E" and ok: "db_ok (e_rlp E) db" and t: "live E db t m" "dirtyRoot t"
    and nc: "noClash (e_rlp E) (e_keccak E) (e_emptyRoot E) db t"
  shows "\<exists>F rt. \<forall>fuel\<ge>F. \<exists>db'. storeState E fuel t db = Inr (rt, db') \<and> db_ok (e_rlp E) db' \<and>
    state_at E db' rt m \<and> (\<forall>pre. state_at E (diskDatabase (diskdb db') pre) rt m)"
proof -
  let ?R = "e_rlp E" and ?K = "e_keccak E" and ?er = "e_emptyRoot E"
  have RK: "rlp_ok ?R" "hash32 ?K" using E by (auto simp: env_ok_def)
  have dt: "db_trie ?R ?K db zeroHash t m" using t(1) by (simp add: live_def)
  obtain p where p: "rep (commit_pol ?R ?K (in_db ?R ?K db)) ?R (reader t) [] (root t) p" "canon p"
    using dt by (auto simp: db_trie_def elim!: trie_holdsE)
  from Commit_law [OF RK(1) p, of ?er False] obtain nso t' where
    c: "trie_Commit ?R ?K ?er False t = (Inr (root_hash ?R ?K ?er p, nso), t')" by blast
  obtain ns where ns: "nso = Some ns" using Commit_dirty [OF c] t by (auto simp: live_def)
  have "fst (trie_Commit ?R ?K ?er False t) = Inr (root_hash ?R ?K ?er p, Some ns)" by (simp add: c ns)
  from commitTrie_law [OF RK ok dt nc this, of "e_decAccount E" "e_batchFull E"] obtain F where
    F: "\<And>fuel. F \<le> fuel \<Longrightarrow> \<exists>db'. storeState E fuel t db = Inr (root_hash ?R ?K ?er p, db') \<and> db_ok ?R db' \<and>
      opens ?R ?K ?er db' zeroHash (root_hash ?R ?K ?er p) m \<and>
      (\<forall>pre cache wp. opens ?R ?K ?er (NewDatabaseWithConfig (diskdb db') pre cache wp) zeroHash (root_hash ?R ?K ?er p) m)"
    unfolding storeState_def by blast
  show ?thesis
    unfolding state_at_def diskDatabase_def
    by (rule exI [of _ F], rule exI [of _ "root_hash ?R ?K ?er p"])
       (use F in \<open>fastforce simp: BytesToHash_id [OF root_hash_32 [OF E]]\<close>)
qed

section \<open>The two loops\<close>

definition cached :: "env \<Rightarrow> (bytes \<rightharpoonup> bytes) \<Rightarrow> address \<Rightarrow> AccountState \<Rightarrow> bool" where
  "cached E m addr a \<longleftrightarrow>
     (case m (strBytes addr) of None \<Rightarrow> \<exists>i. a = freshState i | Some b \<Rightarrow> e_decodeAS E b = Inr a)"

definition agree :: "env \<Rightarrow> (address \<rightharpoonup> AccountState) \<Rightarrow> (bytes \<rightharpoonup> bytes) \<Rightarrow> bool" where
  "agree E mm m \<longleftrightarrow> (\<forall>addr a. mm addr = Some a \<longrightarrow> cached E m addr a)"

lemma cached_balance: "cached E m addr a \<Longrightarrow> balance E m addr = Balance a"
  by (auto simp: cached_def balance_def freshState_def initAccount_def split: option.splits)

lemma agree_add: "agree E mm m \<Longrightarrow> cached E m addr a \<Longrightarrow> agree E (mm(addr \<mapsto> a)) m"
  by (auto simp: agree_def)

lemma agree_write:
  assumes "env_ok E" "agree E mm m"
  shows "agree E (mm(addr \<mapsto> a)) (m(strBytes addr \<mapsto> e_encodeAS E a))"
  using assms by (auto simp: agree_def cached_def env_ok_def)

lemma accounts_write: "env_ok E \<Longrightarrow> accounts_ok E m \<Longrightarrow> accounts_ok E (m(strBytes addr \<mapsto> e_encodeAS E a))"
  by (auto simp: accounts_ok_def env_ok_def)

lemma balance_write: "env_ok E \<Longrightarrow> balance E (m(strBytes addr \<mapsto> e_encodeAS E a)) = (balance E m)(addr := Balance a)"
  by (auto simp: balance_def env_ok_def fun_eq_iff)

lemma readState_law:
  assumes "accounts_ok E m" "live E db t m"
  shows "\<exists>a t'. readState E i addr t = Inr (a, t') \<and> cached E m addr a \<and> live E db t' m \<and> dirtyRoot t' = dirtyRoot t"
proof -
  obtain t' where t': "trieGet E t (strBytes addr) = Inr (m (strBytes addr), t')" "live E db t' m" "dirtyRoot t' = dirtyRoot t"
    using trieGet_law [OF assms(2)] by blast
  show ?thesis
  proof (cases "m (strBytes addr)")
    case None
    then show ?thesis using t' by (auto simp: readState_def cached_def)
  next
    case (Some b)
    then obtain a where "e_decodeAS E b = Inr a" using assms(1) by (auto simp: accounts_ok_def isInr_iff)
    then show ?thesis using t' Some by (auto simp: readState_def cached_def)
  qed
qed

definition read_inv :: "env \<Rightarrow> Database \<Rightarrow> (bytes \<rightharpoonup> bytes) \<Rightarrow> bool \<Rightarrow> (address \<rightharpoonup> AccountState) \<times> Trie \<Rightarrow> bool" where
  "read_inv E db m d s \<longleftrightarrow> agree E (fst s) m \<and> live E db (snd s) m \<and> dirtyRoot (snd s) = d"

lemma read_one:
  assumes "accounts_ok E m" "read_inv E db m d s"
  shows "\<exists>s'. (if b then bindR (readState E i addr (snd s)) (\<lambda>(a, st). Inr ((fst s)(addr \<mapsto> a), st)) else Inr s) = Inr s' \<and>
    read_inv E db m d s' \<and> dom (fst s') = dom (fst s) \<union> {a. a = addr \<and> b}"
proof (cases b)
  case True
  obtain a t' where "readState E i addr (snd s) = Inr (a, t')" "cached E m addr a" "live E db t' m" "dirtyRoot t' = d"
    using readState_law [OF assms(1), of db "snd s" i addr] assms(2) by (auto simp: read_inv_def)
  then show ?thesis
    using True assms(2) agree_add by (auto simp: read_inv_def)
qed (use assms in auto)

lemma readAccounts_law:
  assumes "accounts_ok E m" "read_inv E db m d s" "homed E bc tx"
  shows "\<exists>s'. readAccounts E bc (i, tx) s = Inr s' \<and> read_inv E db m d s' \<and> dom (fst s') = dom (fst s) \<union> touched E bc tx"
proof -
  obtain sh rh where h: "senderHere E bc tx = Inr sh" "recipientHere E bc tx = Inr rh"
    using assms(3) by (auto simp: homed_def isInr_iff)
  obtain s1 where s1: "(if sh then bindR (readState E i (Sender tx) (snd s)) (\<lambda>(a, st). Inr ((fst s)(Sender tx \<mapsto> a), st)) else Inr s) = Inr s1"
    "read_inv E db m d s1" "dom (fst s1) = dom (fst s) \<union> {a. a = Sender tx \<and> sh}"
    using read_one [OF assms(1,2)] by blast
  obtain s2 where s2: "(if rh then bindR (readState E i (Recipient tx) (snd s1)) (\<lambda>(a, st). Inr ((fst s1)(Recipient tx \<mapsto> a), st)) else Inr s1) = Inr s2"
    "read_inv E db m d s2" "dom (fst s2) = dom (fst s1) \<union> {a. a = Recipient tx \<and> rh}"
    using read_one [OF assms(1) s1(2)] by blast
  have "readAccounts E bc (i, tx) s = Inr s2"
    using s1(1) s2(1) by (simp add: readAccounts_def h)
  then show ?thesis using s1 s2 by (auto simp: touched_def h)
qed

lemma readLoop:
  assumes "accounts_ok E m" "read_inv E db m d s" "list_all (homed E bc) txs"
  shows "\<exists>s'. foldR (readAccounts E bc) (enumerate i txs) s = Inr s' \<and> read_inv E db m d s' \<and>
    dom (fst s') = dom (fst s) \<union> (\<Union>tx\<in>set txs. touched E bc tx)"
  using assms(2,3)
proof (induction txs arbitrary: s i)
  case (Cons tx txs)
  have h: "homed E bc tx" "list_all (homed E bc) txs" using Cons.prems(2) by auto
  obtain s1 where s1: "readAccounts E bc (i, tx) s = Inr s1" "read_inv E db m d s1"
    "dom (fst s1) = dom (fst s) \<union> touched E bc tx"
    using readAccounts_law [OF assms(1) Cons.prems(1) h(1)] by blast
  from Cons.IH [OF s1(2) h(2), of "Suc i"] obtain s' where
    "foldR (readAccounts E bc) (enumerate (Suc i) txs) s1 = Inr s'" "read_inv E db m d s'"
    "dom (fst s') = dom (fst s1) \<union> (\<Union>tx\<in>set txs. touched E bc tx)"
    by blast
  then show ?case using s1 by (simp add: Un_assoc)
qed simp

text \<open>The invariant of the second loop, for the map \<open>m\<close> that the trie holds by then.\<close>

type_synonym exec_state = "(address \<rightharpoonup> AccountState) \<times> Trie \<times> nat"

definition exec_inv :: "env \<Rightarrow> Database \<Rightarrow> (bytes \<rightharpoonup> bytes) \<Rightarrow> exec_state \<Rightarrow> bool" where
  "exec_inv E db m s \<longleftrightarrow> agree E (fst s) m \<and> live E db (fst (snd s)) m \<and> accounts_ok E m"

text \<open>What a write does: no change of the map without a dirty root, and a dirty root only by a change.\<close>

definition marks :: "exec_state \<Rightarrow> (bytes \<rightharpoonup> bytes) \<Rightarrow> exec_state \<Rightarrow> (bytes \<rightharpoonup> bytes) \<Rightarrow> bool" where
  "marks s m s' m' \<longleftrightarrow> dom (fst s') = dom (fst s) \<and> (dirtyRoot (fst (snd s)) \<longrightarrow> dirtyRoot (fst (snd s'))) \<and>
     (\<not> dirtyRoot (fst (snd s')) \<longrightarrow> m' = m)"

definition idle :: "exec_state \<Rightarrow> (bytes \<rightharpoonup> bytes) \<Rightarrow> exec_state \<Rightarrow> (bytes \<rightharpoonup> bytes) \<Rightarrow> bool" where
  "idle s m s' m' \<longleftrightarrow> m' = m \<and> dirtyRoot (fst (snd s')) = dirtyRoot (fst (snd s))"

definition stored :: "env \<Rightarrow> (bytes \<rightharpoonup> bytes) \<Rightarrow> address \<Rightarrow> bool" where
  "stored E m addr \<longleftrightarrow> (\<exists>a. m (strBytes addr) = Some (e_encodeAS E a))"

lemma marks_trans: "marks s m s1 m1 \<Longrightarrow> marks s1 m1 s2 m2 \<Longrightarrow> marks s m s2 m2"
  and marks_refl: "marks s m s m"
  by (auto simp: marks_def)

lemma idle_trans: "idle s m s1 m1 \<Longrightarrow> idle s1 m1 s2 m2 \<Longrightarrow> idle s m s2 m2"
  and idle_refl: "idle s m s m"
  by (auto simp: idle_def)

lemma write_one:
  assumes E: "env_ok E" and inv: "exec_inv E db m s" and dom: "b \<longrightarrow> addr \<in> dom (fst s)"
    and g: "\<forall>a. Balance (f a) = g (Balance a)"
  shows "\<exists>s' m'. (if b then writeState E f i addr s else Inr s) = Inr s' \<and> exec_inv E db m' s' \<and> marks s m s' m' \<and>
    snd (snd s') = snd (snd s) + of_bool b \<and>
    balance E m' = (if b then (balance E m)(addr := g (balance E m addr)) else balance E m) \<and>
    ((\<forall>a. f a = a) \<and> (b \<longrightarrow> stored E m addr) \<longrightarrow> idle s m s' m')"
proof (cases b)
  case True
  obtain mm t cnt where s: "s = (mm, t, cnt)" by (cases s) auto
  obtain a where a: "mm addr = Some a" using dom True s by auto
  have ca: "cached E m addr a" and lv: "live E db t m" and ag: "agree E mm m" and ac: "accounts_ok E m"
    using inv a by (auto simp: exec_inv_def agree_def s)
  have "e_encodeAS E (f a) \<noteq> []" using E by (simp add: env_ok_def)
  from trieUpdate_law [OF lv this] obtain t' where
    t': "trieUpdate E (strBytes addr) (e_encodeAS E (f a)) t = Inr t'"
      "live E db t' (m(strBytes addr \<mapsto> e_encodeAS E (f a)))"
      "dirtyRoot t' \<longleftrightarrow> dirtyRoot t \<or> m (strBytes addr) \<noteq> Some (e_encodeAS E (f a))"
    by blast
  let ?s' = "(mm(addr \<mapsto> f a), t', cnt + 1)" and ?m' = "m(strBytes addr \<mapsto> e_encodeAS E (f a))"
  have "writeState E f i addr s = Inr ?s'" by (simp add: writeState_def s a t'(1))
  moreover have "exec_inv E db ?m' ?s'"
    using t'(2) agree_write [OF E ag] accounts_write [OF E ac] by (simp add: exec_inv_def)
  moreover have "marks s m ?s' ?m'" using t'(3) a by (auto simp: marks_def s)
  moreover have "balance E ?m' = (balance E m)(addr := g (balance E m addr))"
    by (simp add: balance_write [OF E] cached_balance [OF ca] g)
  moreover have "idle s m ?s' ?m'" if "\<forall>a. f a = a" "stored E m addr"
  proof -
    have "m (strBytes addr) = Some (e_encodeAS E a)"
      using that(2) ca E by (auto simp: stored_def cached_def env_ok_def)
    then show ?thesis using t'(3) that(1) by (auto simp: idle_def s)
  qed
  ultimately show ?thesis using True by (intro exI [of _ ?s'] exI [of _ ?m']) (simp add: s)
next
  case False
  then show ?thesis using inv by (intro exI [of _ s] exI [of _ m]) (simp add: marks_refl idle_refl)
qed

lemma applyTx_law:
  assumes E: "env_ok E" and inv: "exec_inv E db m s" and h: "homed E bc tx" and dom: "touched E bc tx \<subseteq> dom (fst s)"
  shows "\<exists>s' m'. applyTx E bc (i, tx) s = Inr s' \<and> exec_inv E db m' s' \<and> marks s m s' m' \<and>
    (snd (snd s') = 0 \<longleftrightarrow> snd (snd s) = 0 \<and> touched E bc tx = {}) \<and>
    balance E m' = settle E bc tx (balance E m) \<and>
    (TxValue tx = 0 \<and> (\<forall>a\<in>touched E bc tx. stored E m a) \<longrightarrow> idle s m s' m')"
proof -
  let ?v = "TxValue tx"
  obtain sh rh where hh: "senderHere E bc tx = Inr sh" "recipientHere E bc tx = Inr rh"
    using h by (auto simp: homed_def isInr_iff)
  have bd: "\<forall>a. Balance (snd (Deduct ?v a)) = (\<lambda>b. if b < ?v then b else b - ?v) (Balance a)"
    by (simp add: Deduct_def)
  have bp: "\<forall>a. Balance (Deposit ?v a) = (\<lambda>b. b + ?v) (Balance a)" by (simp add: Deposit_def)
  have d1: "sh \<longrightarrow> Sender tx \<in> dom (fst s)" and d2: "rh \<longrightarrow> Recipient tx \<in> dom (fst s)"
    using dom by (auto simp: touched_def hh)
  obtain s1 m1 where s1: "(if sh then writeState E (\<lambda>a. snd (Deduct ?v a)) i (Sender tx) s else Inr s) = Inr s1"
    "exec_inv E db m1 s1" "marks s m s1 m1" "snd (snd s1) = snd (snd s) + of_bool sh"
    "balance E m1 = (if sh then (balance E m)(Sender tx := (\<lambda>b. if b < ?v then b else b - ?v) (balance E m (Sender tx))) else balance E m)"
    "(\<forall>a. snd (Deduct ?v a) = a) \<and> (sh \<longrightarrow> stored E m (Sender tx)) \<longrightarrow> idle s m s1 m1"
    using write_one [where g = "\<lambda>b. if b < ?v then b else b - ?v" and f = "\<lambda>a. snd (Deduct ?v a)" and i = i, OF E inv d1 bd] by blast
  have d3: "rh \<longrightarrow> Recipient tx \<in> dom (fst s1)" using d2 s1(3) by (simp add: marks_def)
  obtain s2 m2 where s2: "(if rh then writeState E (Deposit ?v) i (Recipient tx) s1 else Inr s1) = Inr s2"
    "exec_inv E db m2 s2" "marks s1 m1 s2 m2" "snd (snd s2) = snd (snd s1) + of_bool rh"
    "balance E m2 = (if rh then (balance E m1)(Recipient tx := balance E m1 (Recipient tx) + ?v) else balance E m1)"
    "(\<forall>a. Deposit ?v a = a) \<and> (rh \<longrightarrow> stored E m1 (Recipient tx)) \<longrightarrow> idle s1 m1 s2 m2"
    using write_one [where g = "\<lambda>b. b + ?v" and f = "Deposit ?v" and i = i, OF E s1(2) d3 bp] by blast
  have "applyTx E bc (i, tx) s = Inr s2" using s1(1) s2(1) by (simp add: applyTx_def hh)
  moreover have "balance E m2 = settle E bc tx (balance E m)"
    unfolding s2(5) s1(5) settle_def Let_def hh by (auto simp: fun_eq_iff not_less)
  moreover have "snd (snd s2) = 0 \<longleftrightarrow> snd (snd s) = 0 \<and> touched E bc tx = {}"
    by (auto simp: s1(4) s2(4) touched_def hh)
  moreover have "idle s m s2 m2" if z: "?v = 0" and st: "\<forall>a\<in>touched E bc tx. stored E m a"
  proof -
    have "idle s m s1 m1" using s1(6) z st by (auto simp: Deduct_def touched_def hh)
    moreover have "idle s1 m1 s2 m2" using s2(6) z st calculation by (auto simp: Deposit_def touched_def hh idle_def)
    ultimately show ?thesis by (rule idle_trans)
  qed
  ultimately show ?thesis
    using s2(2) marks_trans [OF s1(3) s2(3)] by (intro exI [of _ s2] exI [of _ m2] conjI) auto
qed

lemma applyLoop:
  assumes E: "env_ok E" and inv: "exec_inv E db m s" and h: "list_all (homed E bc) txs"
    and dom: "(\<Union>tx\<in>set txs. touched E bc tx) \<subseteq> dom (fst s)"
  shows "\<exists>s' m'. foldR (applyTx E bc) (enumerate i txs) s = Inr s' \<and> exec_inv E db m' s' \<and> marks s m s' m' \<and>
    (snd (snd s') = 0 \<longleftrightarrow> snd (snd s) = 0 \<and> (\<Union>tx\<in>set txs. touched E bc tx) = {}) \<and>
    balance E m' = fold (settle E bc) txs (balance E m) \<and>
    ((\<forall>tx\<in>set txs. TxValue tx = 0 \<and> (\<forall>a\<in>touched E bc tx. stored E m a)) \<longrightarrow> idle s m s' m')"
  using inv h dom
proof (induction txs arbitrary: s m i)
  case Nil
  then show ?case by (auto intro!: marks_refl idle_refl)
next
  case (Cons tx txs)
  have h1: "homed E bc tx" "list_all (homed E bc) txs" "touched E bc tx \<subseteq> dom (fst s)"
    "(\<Union>tx\<in>set txs. touched E bc tx) \<subseteq> dom (fst s)" using Cons.prems by auto
  obtain s1 m1 where s1: "applyTx E bc (i, tx) s = Inr s1" "exec_inv E db m1 s1" "marks s m s1 m1"
    "snd (snd s1) = 0 \<longleftrightarrow> snd (snd s) = 0 \<and> touched E bc tx = {}" "balance E m1 = settle E bc tx (balance E m)"
    "TxValue tx = 0 \<and> (\<forall>a\<in>touched E bc tx. stored E m a) \<longrightarrow> idle s m s1 m1"
    using applyTx_law [OF E Cons.prems(1) h1(1,3), of i] by (elim exE conjE)
  have d: "(\<Union>tx\<in>set txs. touched E bc tx) \<subseteq> dom (fst s1)" using h1(4) s1(3) by (simp add: marks_def)
  obtain s2 m2 where s2: "foldR (applyTx E bc) (enumerate (Suc i) txs) s1 = Inr s2" "exec_inv E db m2 s2" "marks s1 m1 s2 m2"
    "snd (snd s2) = 0 \<longleftrightarrow> snd (snd s1) = 0 \<and> (\<Union>tx\<in>set txs. touched E bc tx) = {}"
    "balance E m2 = fold (settle E bc) txs (balance E m1)"
    "(\<forall>tx\<in>set txs. TxValue tx = 0 \<and> (\<forall>a\<in>touched E bc tx. stored E m1 a)) \<longrightarrow> idle s1 m1 s2 m2"
    using Cons.IH [OF s1(2) h1(2) d, of "Suc i"] by (elim exE conjE)
  have "idle s m s2 m2" if "\<forall>tx\<in>set (tx # txs). TxValue tx = 0 \<and> (\<forall>a\<in>touched E bc tx. stored E m a)"
  proof -
    have 1: "idle s m s1 m1" using s1(6) that by simp
    then have "idle s1 m1 s2 m2" using s2(6) that by (simp add: idle_def)
    then show ?thesis by (rule idle_trans [OF 1])
  qed
  moreover have "snd (snd s2) = 0 \<longleftrightarrow> snd (snd s) = 0 \<and> (\<Union>tx\<in>set (tx # txs). touched E bc tx) = {}"
    using s1(4) s2(4) by auto
  moreover have "balance E m2 = fold (settle E bc) (tx # txs) (balance E m)" by (simp add: s2(5) s1(5))
  moreover have "foldR (applyTx E bc) (enumerate i (tx # txs)) s = Inr s2" by (simp add: s1(1) s2(1))
  ultimately show ?case
    using s2(2) marks_trans [OF s1(3) s2(3)] by (intro exI [of _ s2] exI [of _ m2] conjI impI) assumption+
qed

section \<open>Executing a block\<close>

definition chain_state :: "env \<Rightarrow> BlockChain \<Rightarrow> (bytes \<rightharpoonup> bytes) \<Rightarrow> bool" where
  "chain_state E bc m \<longleftrightarrow>
     state_at E (triedb bc) (HStateRoot (Header (CurrentBlock bc))) m \<and> accounts_ok E m \<and> db_ok (e_rlp E) (triedb bc)"

lemma db_execute_law:
  assumes E: "env_ok E" and c: "chain_state E bc m" and h: "list_all (homed E bc) txs"
  shows "\<exists>mm t cnt m'. db_execute E txs bc = Inr (mm, t, cnt) \<and> live E (triedb bc) t m' \<and> accounts_ok E m' \<and>
    (\<not> dirtyRoot t \<longrightarrow> m' = m) \<and> (cnt = 0 \<longleftrightarrow> (\<Union>tx\<in>set txs. touched E bc tx) = {}) \<and>
    balance E m' = fold (settle E bc) txs (balance E m) \<and>
    ((\<forall>tx\<in>set txs. TxValue tx = 0 \<and> (\<forall>a\<in>touched E bc tx. stored E m a)) \<longrightarrow> m' = m \<and>
       (dirtyRoot t \<longleftrightarrow> BytesToHash (HStateRoot (Header (CurrentBlock bc))) \<in> {zeroHash, e_emptyRoot E}))"
proof -
  let ?db = "triedb bc" and ?rt = "HStateRoot (Header (CurrentBlock bc))"
  obtain t0 where t0: "newState E ?rt ?db = Inr t0" "live E ?db t0 m"
    "dirtyRoot t0 \<longleftrightarrow> BytesToHash ?rt = zeroHash \<or> BytesToHash ?rt = e_emptyRoot E"
    using newState_law [of E ?db ?rt m] c unfolding chain_state_def by blast
  have ok: "accounts_ok E m" using c by (simp add: chain_state_def)
  have "read_inv E ?db m (dirtyRoot t0) (Map.empty, t0)" using t0 by (simp add: read_inv_def agree_def)
  from readLoop [OF ok this h, of 0] obtain mm t1 where
    r: "foldR (readAccounts E bc) (enumerate 0 txs) (Map.empty, t0) = Inr (mm, t1)"
      "read_inv E ?db m (dirtyRoot t0) (mm, t1)" "dom mm = (\<Union>tx\<in>set txs. touched E bc tx)"
    by auto
  let ?s1 = "(mm, t1, 0 :: nat)"
  have inv: "exec_inv E ?db m ?s1" "(\<Union>tx\<in>set txs. touched E bc tx) \<subseteq> dom (fst ?s1)"
    using r ok by (auto simp: read_inv_def exec_inv_def)
  obtain mm' t cnt m' where a: "foldR (applyTx E bc) (enumerate 0 txs) ?s1 = Inr (mm', t, cnt)"
    "exec_inv E ?db m' (mm', t, cnt)" "marks ?s1 m (mm', t, cnt) m'"
    "snd (snd (mm', t, cnt)) = 0 \<longleftrightarrow> snd (snd ?s1) = 0 \<and> (\<Union>tx\<in>set txs. touched E bc tx) = {}"
    "balance E m' = fold (settle E bc) txs (balance E m)"
    "(\<forall>tx\<in>set txs. TxValue tx = 0 \<and> (\<forall>a\<in>touched E bc tx. stored E m a)) \<longrightarrow> idle ?s1 m (mm', t, cnt) m'"
    using applyLoop [OF E inv(1) h inv(2), of 0] by (elim exE conjE) (metis prod.collapse)
  have "db_execute E txs bc = Inr (mm', t, cnt)" by (simp add: db_execute_def orPanic_def t0(1) r(1) a(1))
  moreover have "dirtyRoot t1 = dirtyRoot t0" using r(2) by (simp add: read_inv_def)
  ultimately show ?thesis
    using a t0(3) by (intro exI [of _ mm'] exI [of _ t] exI [of _ cnt] exI [of _ m'] conjI)
      (auto simp: exec_inv_def marks_def idle_def)
qed

lemma settle_untouched: "touched E bc tx = {} \<Longrightarrow> settle E bc tx bal = bal"
  by (auto simp: touched_def settle_def)

lemma fold_settle_untouched: "(\<Union>tx\<in>set txs. touched E bc tx) = {} \<Longrightarrow> fold (settle E bc) txs bal = bal"
  by (induction txs arbitrary: bal) (auto simp: settle_untouched)

lemma execution_law:
  assumes "env_ok E" "chain_state E bc m" "list_all (homed E bc) txs"
    "\<forall>s. db_execute E txs bc = Inr s \<longrightarrow> noClash (e_rlp E) (e_keccak E) (e_emptyRoot E) (triedb bc) (fst (snd s))"
    "fold (settle E bc) txs (balance E m) \<noteq> balance E m"
  shows "\<exists>F rt m'. balance E m' = fold (settle E bc) txs (balance E m) \<and> accounts_ok E m' \<and>
    (\<forall>fuel\<ge>F. \<exists>db'. db_GetUpdateStatusTrie E fuel txs bc = Inr (rt, bc\<lparr>triedb := db'\<rparr>) \<and> db_ok (e_rlp E) db' \<and>
       state_at E db' rt m' \<and> state_at E (diskDatabase (diskdb db') pre) rt m')"
proof -
  obtain mm t cnt m' where x: "db_execute E txs bc = Inr (mm, t, cnt)" "live E (triedb bc) t m'" "accounts_ok E m'"
    "\<not> dirtyRoot t \<longrightarrow> m' = m" "cnt = 0 \<longleftrightarrow> (\<Union>tx\<in>set txs. touched E bc tx) = {}"
    "balance E m' = fold (settle E bc) txs (balance E m)"
    using db_execute_law [OF assms(1-3)] by (elim exE conjE)
  have d: "dirtyRoot t" using x(4,6) assms(5) by auto
  have c: "cnt \<noteq> 0" using x(5) assms(5) fold_settle_untouched by blast
  have n: "txs \<noteq> []" using assms(5) by auto
  have nc: "noClash (e_rlp E) (e_keccak E) (e_emptyRoot E) (triedb bc) t" using assms(4) x(1) by fastforce
  have ok: "db_ok (e_rlp E) (triedb bc)" using assms(2) by (simp add: chain_state_def)
  obtain F rt where F: "\<And>fuel. F \<le> fuel \<Longrightarrow> \<exists>db'. storeState E fuel t (triedb bc) = Inr (rt, db') \<and> db_ok (e_rlp E) db' \<and>
      state_at E db' rt m' \<and> (\<forall>pre. state_at E (diskDatabase (diskdb db') pre) rt m')"
    using storeState_law [OF assms(1) ok x(2) d nc] by blast
  have "\<exists>db'. db_GetUpdateStatusTrie E fuel txs bc = Inr (rt, bc\<lparr>triedb := db'\<rparr>) \<and> db_ok (e_rlp E) db' \<and>
       state_at E db' rt m' \<and> state_at E (diskDatabase (diskdb db') pre) rt m'" if le: "F \<le> fuel" for fuel
  proof -
    obtain db' where "storeState E fuel t (triedb bc) = Inr (rt, db')" "db_ok (e_rlp E) db'"
      "state_at E db' rt m'" "\<forall>pre. state_at E (diskDatabase (diskdb db') pre) rt m'" using F [OF le] by blast
    then show ?thesis using c n x(1) by (auto simp: db_GetUpdateStatusTrie_def Let_def)
  qed
  then show ?thesis using x by blast
qed

section \<open>Properties\<close>

text \<open>C19. Executing a block on the disk chain succeeds, for enough fuel in the database's recursion, when the transactions applied in order change
  at least one balance, the shards of all their addresses can be computed, and no two different trie nodes have the same hash. The
  balances of the new state are those of the old one with the transactions applied in order, and the
  state is found under the returned root in the running database and in one opened later on the disk.\<close>

theorem block_execution_correct:
  assumes "env_ok E" "chain_state E bc m" "list_all (homed E bc) txs"
    "\<forall>s. db_execute E txs bc = Inr s \<longrightarrow> noClash (e_rlp E) (e_keccak E) (e_emptyRoot E) (triedb bc) (fst (snd s))"
    "fold (settle E bc) txs (balance E m) \<noteq> balance E m"
  shows "\<exists>F rt m'. balance E m' = fold (settle E bc) txs (balance E m) \<and> accounts_ok E m' \<and>
    (\<forall>fuel\<ge>F. \<exists>db'. db_GetUpdateStatusTrie E fuel txs bc = Inr (rt, bc\<lparr>triedb := db'\<rparr>) \<and> db_ok (e_rlp E) db' \<and>
       state_at E db' rt m' \<and> state_at E (diskDatabase (diskdb db') pre) rt m')"
  using assms by (rule execution_law)

text \<open>C25. A block that writes accounts but changes none of them crashes the node: when every transaction moves
  the value 0 between accounts that are stored, \<^verbatim>\<open>Commit\<close> returns no node set and storing it panics.\<close>

theorem zero_value_block_panics:
  assumes "env_ok E" "chain_state E bc m" "list_all (homed E bc) txs"
    "\<forall>tx\<in>set txs. TxValue tx = 0 \<and> (\<forall>a\<in>touched E bc tx. stored E m a)"
    "tx \<in> set txs" "a \<in> touched E bc tx"
  shows "db_GetUpdateStatusTrie E fuel txs bc = Inl Panic"
proof -
  let ?R = "e_rlp E" and ?K = "e_keccak E" and ?er = "e_emptyRoot E"
  obtain mm t cnt m' where x: "db_execute E txs bc = Inr (mm, t, cnt)" "live E (triedb bc) t m'"
    "cnt = 0 \<longleftrightarrow> (\<Union>tx\<in>set txs. touched E bc tx) = {}"
    "dirtyRoot t \<longleftrightarrow> BytesToHash (HStateRoot (Header (CurrentBlock bc))) \<in> {zeroHash, e_emptyRoot E}"
    using db_execute_law [OF assms(1-3)] assms(4) by (elim exE conjE) simp
  have c: "cnt \<noteq> 0" "txs \<noteq> []" using x(3) assms(5,6) by auto
  obtain p where p: "rep (commit_pol ?R ?K (in_db ?R ?K (triedb bc))) ?R (reader t) [] (root t) p" "canon p"
    using x(2) by (auto simp: live_def db_trie_def elim!: trie_holdsE)
  have R: "rlp_ok ?R" using assms(1) by (simp add: env_ok_def)
  from Commit_law [OF R p, of ?er False] obtain nso t' where
    k: "trie_Commit ?R ?K ?er False t = (Inr (root_hash ?R ?K ?er p, nso), t')" by blast
  have "m \<noteq> Map.empty" using assms(4-6) by (auto simp: stored_def)
  then have "nso = None"
    using Commit_dirty [OF k] x(2,4) nonempty_root assms(2) unfolding live_def chain_state_def by blast
  then have "storeState E fuel t (triedb bc) = Inl Panic"
    by (simp add: storeState_def commitTrie_def k NewWithNodeSet_def Merge_def)
  then show ?thesis using c x(1) by (simp add: db_GetUpdateStatusTrie_def Let_def)
qed

fun solvent :: "env \<Rightarrow> BlockChain \<Rightarrow> Transaction list \<Rightarrow> (address \<Rightarrow> int) \<Rightarrow> bool" where
  "solvent E bc [] bal = True"
| "solvent E bc (tx # txs) bal \<longleftrightarrow> TxValue tx \<le> bal (Sender tx) \<and> solvent E bc txs (settle E bc tx bal)"

definition local_tx :: "env \<Rightarrow> BlockChain \<Rightarrow> Transaction \<Rightarrow> bool" where
  "local_tx E bc tx \<longleftrightarrow> senderHere E bc tx = Inr True \<and> recipientHere E bc tx = Inr True"

lemma sum_settle:
  assumes "finite A" "local_tx E bc tx" "TxValue tx \<le> bal (Sender tx)" "Sender tx \<in> A" "Recipient tx \<in> A"
  shows "(\<Sum>a\<in>A. settle E bc tx bal a) = (\<Sum>a\<in>A. bal a)"
proof -
  have u: "sum (f(x := f x + d)) A = sum f A + d" if "x \<in> A" for f :: "address \<Rightarrow> int" and x d
    using that assms(1) by (simp add: sum.remove [of A x])
  have "settle E bc tx bal = (bal(Sender tx := bal (Sender tx) + (- TxValue tx)))
      (Recipient tx := (bal(Sender tx := bal (Sender tx) + (- TxValue tx))) (Recipient tx) + TxValue tx)"
    using assms(2,3) by (simp add: settle_def local_tx_def Let_def)
  then show ?thesis using assms(4,5) by (simp only: u)
qed

lemma sum_fold_settle:
  assumes "finite A" "list_all (local_tx E bc) txs" "solvent E bc txs bal"
    "\<forall>tx\<in>set txs. Sender tx \<in> A \<and> Recipient tx \<in> A"
  shows "(\<Sum>a\<in>A. fold (settle E bc) txs bal a) = (\<Sum>a\<in>A. bal a)"
  using assms by (induction txs arbitrary: bal) (auto simp: sum_settle)

text \<open>C21. Transfers between accounts of the shard conserve value as long as every sender can pay when its transaction comes: over any finite
  set of accounts that contains those of the block, the balances add up to the same total in the new
  state.\<close>

theorem block_conserves_value:
  assumes "env_ok E" "chain_state E bc m" "list_all (local_tx E bc) txs" "solvent E bc txs (balance E m)"
    "finite A" "\<forall>tx\<in>set txs. Sender tx \<in> A \<and> Recipient tx \<in> A"
  shows "\<exists>mm t cnt m'. db_execute E txs bc = Inr (mm, t, cnt) \<and> live E (triedb bc) t m' \<and>
    (\<Sum>a\<in>A. balance E m' a) = (\<Sum>a\<in>A. balance E m a)"
proof -
  have "list_all (homed E bc) txs" using assms(3) by (auto simp: list_all_iff homed_def local_tx_def)
  from db_execute_law [OF assms(1,2) this] obtain mm t cnt m' where
    x: "db_execute E txs bc = Inr (mm, t, cnt)" "live E (triedb bc) t m'"
      "balance E m' = fold (settle E bc) txs (balance E m)" by (elim exE conjE)
  then show ?thesis using sum_fold_settle [OF assms(5,3,4,6)] by fastforce
qed

text \<open>C24. A sender that cannot pay is not stopped: in a block with one transaction between two different accounts of the shard, whose value is above the
  balance of the sender, the sender keeps its balance, the recipient is credited all the same, and the value is created.\<close>

theorem overdraft_creates_value:
  assumes "env_ok E" "chain_state E bc m" "local_tx E bc tx" "Sender tx \<noteq> Recipient tx"
    "balance E m (Sender tx) < TxValue tx"
  shows "\<exists>mm t cnt m'. db_execute E [tx] bc = Inr (mm, t, cnt) \<and> live E (triedb bc) t m' \<and>
    balance E m' (Sender tx) = balance E m (Sender tx) \<and>
    balance E m' (Recipient tx) = balance E m (Recipient tx) + TxValue tx"
proof -
  have "list_all (homed E bc) [tx]" using assms(3) by (auto simp: homed_def local_tx_def)
  from db_execute_law [OF assms(1,2) this] obtain mm t cnt m' where
    x: "db_execute E [tx] bc = Inr (mm, t, cnt)" "live E (triedb bc) t m'"
      "balance E m' = fold (settle E bc) [tx] (balance E m)" by (elim exE conjE)
  moreover have "fold (settle E bc) [tx] (balance E m) =
      (balance E m)(Recipient tx := balance E m (Recipient tx) + TxValue tx)"
    using assms(3-5) by (simp add: settle_def local_tx_def Let_def)
  ultimately show ?thesis using assms(4) by auto
qed

section \<open>An instance\<close>

text \<open>Accounts coded by a number in unary.\<close>

definition codeAS1 :: "AccountState \<Rightarrow> nat" where
  "codeAS1 a = prod_encode (list_encode (map of_char (AcAddress a)), prod_encode (unat (Nonce a),
     prod_encode (int_encode (Balance a), prod_encode (list_encode (map unat (StorageRoot a)), list_encode (map unat (CodeHash a))))))"

definition uncodeAS1 :: "nat \<Rightarrow> AccountState" where
  "uncodeAS1 n =
     (case prod_decode n of (ad, n1) \<Rightarrow> case prod_decode n1 of (no, n2) \<Rightarrow> case prod_decode n2 of (ba, n3) \<Rightarrow>
      case prod_decode n3 of (sr, ch) \<Rightarrow>
        \<lparr>AcAddress = map char_of (list_decode ad), Nonce = word_of_nat no, Balance = int_decode ba,
         StorageRoot = map word_of_nat (list_decode sr), CodeHash = map word_of_nat (list_decode ch)\<rparr>)"

definition encAS1 :: "AccountState \<Rightarrow> bytes" where
  "encAS1 a = replicate (Suc (codeAS1 a)) 1"

definition decAS1 :: "bytes \<Rightarrow> AccountState res" where
  "decAS1 b = Inr (uncodeAS1 (length b - 1))"

lemma codeAS1_inverse: "uncodeAS1 (codeAS1 a) = a"
  by (cases a) (simp add: uncodeAS1_def codeAS1_def o_def)

definition env1 :: env where
  "env1 = \<lparr>e_rlp = rlp1, e_keccak = K0, e_emptyRoot = er0, e_decAccount = (\<lambda>b. Inl Panic), e_batchFull = (\<lambda>b. True),
     e_sha256 = K0, e_encodeAS = encAS1, e_decodeAS = decAS1, e_encodeTx = (\<lambda>tx. [1]), e_encodeBH = (\<lambda>h. [ucast (Number h)]),
     e_decodeBH = (\<lambda>b. Inl Panic), e_encodeB = (\<lambda>b. []), e_decodeB = (\<lambda>b. Inl Panic), e_shardNum = 4\<rparr>"

definition chain1 :: BlockChain where
  "chain1 = \<lparr>triedb = db0, ShardID = 0, BlockSize = 10, CurrentBlock = nilBlock, bc_Storage = NewStorage,
     Txpool = NewTxPool, PartitionMap = [''a'' \<mapsto> 0, ''b'' \<mapsto> 0]\<rparr>"

definition transfer1 :: "bool \<Rightarrow> int \<Rightarrow> Transaction" where
  "transfer1 relayed v = (NewTransaction4 (\<lambda>tx. []) K0 ''a'' ''b'' v 0 0)\<lparr>Relayed := relayed\<rparr>"

text \<open>What the facts on this instance need of an environment and of a chain.\<close>

definition env1_like :: "env \<Rightarrow> bool" where
  "env1_like E \<longleftrightarrow> e_rlp E = rlp1 \<and> e_keccak E = K0 \<and> e_emptyRoot E = er0 \<and> e_encodeAS E = encAS1 \<and> e_decodeAS E = decAS1"

definition chain1_like :: "BlockChain \<Rightarrow> bool" where
  "chain1_like bc \<longleftrightarrow> triedb bc = db0 \<and> ShardID bc = 0 \<and> PartitionMap bc = [''a'' \<mapsto> 0, ''b'' \<mapsto> 0] \<and>
     (BytesToHash (HStateRoot (Header (CurrentBlock bc))) = zeroHash \<or> BytesToHash (HStateRoot (Header (CurrentBlock bc))) = er0)"

lemma env1_like: "env1_like env1"
  by (simp add: env1_like_def env1_def)

lemma chain1_like: "chain1_like chain1"
  by (simp add: chain1_like_def chain1_def nilBlock_def NewBlock_def BytesToHash_def zeroHash_def)

lemma like_ok: "env1_like E \<Longrightarrow> env_ok E"
  by (simp add: env_ok_def env1_like_def rlp1_ok K0_32 er0_def encAS1_def decAS1_def codeAS1_inverse)

lemma like_state:
  assumes "env1_like E" "chain1_like bc"
  shows "chain_state E bc Map.empty"
proof -
  have "db_trie rlp1 K0 db0 zeroHash \<lparr>root = NilNode, owner = zeroHash, unhashed = 0, reader = newTrieReader rlp1 db0 zeroHash,
      tr_tracer = newTracer\<rparr> Map.empty"
    by (auto simp: db_trie_def intro: trie_holds_empty)
  then have "state_at E db0 (HStateRoot (Header (CurrentBlock bc))) Map.empty"
    using assms by (auto simp: env1_like_def chain1_like_def state_at_def opens_def trie_New_def zeroHash_def newTrieReader_def)
  then show ?thesis using db0_ok assms by (simp add: chain_state_def accounts_ok_def env1_like_def chain1_like_def)
qed

lemmas env1_ok = like_ok [OF env1_like]
lemmas chain1_state = like_state [OF env1_like chain1_like]

lemma transfer1_fields:
  "Sender (transfer1 r v) = ''a''" "Recipient (transfer1 r v) = ''b''" "TxValue (transfer1 r v) = v" "Relayed (transfer1 r v) = r"
  by (simp_all add: transfer1_def NewTransaction4_def Let_def)

lemma like_here:
  assumes "chain1_like bc"
  shows "senderHere E bc (transfer1 r v) = Inr (\<not> r)" "recipientHere E bc (transfer1 r v) = Inr True"
  using assms by (simp_all add: senderHere_def recipientHere_def transfer1_fields chain1_like_def Get_PartitionMap_def)

lemmas transfer1_here = like_here [OF chain1_like]

theorem block_conserves_value_witness:
  "\<exists>mm t cnt m'. db_execute env1 [transfer1 False 5] chain1 = Inr (mm, t, cnt) \<and> live env1 (triedb chain1) t m' \<and>
    (\<Sum>a\<in>{''a'', ''b''}. balance env1 m' a) = (\<Sum>a\<in>{''a'', ''b''}. balance env1 Map.empty a)"
  by (rule block_conserves_value [OF env1_ok chain1_state])
     (simp_all add: local_tx_def transfer1_here transfer1_fields balance_def Init_Balance_def)

theorem overdraft_creates_value_witness:
  "\<exists>mm t cnt m'. db_execute env1 [transfer1 False (2 * Init_Balance)] chain1 = Inr (mm, t, cnt) \<and>
    live env1 (triedb chain1) t m' \<and> balance env1 m' ''a'' = Init_Balance \<and> balance env1 m' ''b'' = 3 * Init_Balance"
  using overdraft_creates_value [OF env1_ok chain1_state, of "transfer1 False (2 * Init_Balance)"]
  by (simp add: local_tx_def transfer1_here transfer1_fields balance_def Init_Balance_def)

lemma nil_Get: "root t = NilNode \<Longrightarrow> trieGet E t key = Inr (None, t)"
  by (simp add: trieGet_def Get_def trie_fuel_def Let_def)

lemma nil_Update:
  "root t = NilNode \<Longrightarrow> v \<noteq> [] \<Longrightarrow>
     \<exists>t'. trieUpdate E key v t = Inr t' \<and> root t' = ShortNode (keybytesToHex key) (ValueNode v) newFlag"
  by (cases key) (simp_all add: trieUpdate_def Update_def trie_fuel_def trie_insert.simps(2) bindS_apply Let_def)

lemma exec1:
  assumes E: "env1_like E" and c: "chain1_like bc" and x: "db_execute E [transfer1 True v] bc = Inr s"
  shows "\<exists>a. root (fst (snd s)) = ShortNode (keybytesToHex (strBytes ''b'')) (ValueNode (encAS1 a)) newFlag"
proof -
  obtain t where t: "newState E (HStateRoot (Header (CurrentBlock bc))) (triedb bc) = Inr t" "root t = NilNode"
    using E c by (auto simp: env1_like_def chain1_like_def newState_def trie_New_def zeroHash_def Let_def)
  have "e_encodeAS E a \<noteq> []" for a using E by (simp add: env1_like_def encAS1_def)
  from nil_Update [OF t(2) this, of E "strBytes ''b''" "Deposit v (freshState 0)"] obtain t' where
    "trieUpdate E (strBytes ''b'') (e_encodeAS E (Deposit v (freshState 0))) t = Inr t'"
    "root t' = ShortNode (keybytesToHex (strBytes ''b'')) (ValueNode (encAS1 (Deposit v (freshState 0)))) newFlag"
    using E by (auto simp: env1_like_def)
  then show ?thesis
    using x by (auto simp: db_execute_def orPanic_def t(1) readAccounts_def applyTx_def like_here [OF c] transfer1_fields
        readState_def nil_Get [OF t(2)] writeState_def)
qed

lemma like_noClash:
  assumes E: "env1_like E" and c: "chain1_like bc"
  shows "\<forall>s. db_execute E [transfer1 True v] bc = Inr s \<longrightarrow>
    noClash (e_rlp E) (e_keccak E) (e_emptyRoot E) (triedb bc) (fst (snd s))"
  using exec1 [OF E c] noClash_leaf E c by (fastforce simp: env1_like_def chain1_like_def)

lemma like_settle:
  assumes "chain1_like bc"
  shows "fold (settle E bc) [transfer1 True v] bal = bal(''b'' := bal ''b'' + v)"
  by (simp add: settle_def like_here [OF assms] transfer1_fields Let_def)

theorem block_execution_correct_witness:
  "\<exists>F rt m'. balance env1 m' ''b'' = Init_Balance + 5 \<and>
    (\<forall>fuel. \<exists>db'. db_GetUpdateStatusTrie env1 (F + fuel) [transfer1 True 5] chain1 = Inr (rt, chain1\<lparr>triedb := db'\<rparr>) \<and>
       state_at env1 (diskDatabase (diskdb db') Map.empty) rt m')"
proof -
  note s = like_settle [OF chain1_like, of env1 5 "balance env1 Map.empty"]
  note nc = like_noClash [OF env1_like chain1_like, of 5]
  have h: "list_all (homed env1 chain1) [transfer1 True 5]" by (simp add: homed_def transfer1_here)
  have "fold (settle env1 chain1) [transfer1 True 5] (balance env1 Map.empty) \<noteq> balance env1 Map.empty"
    unfolding s by (simp add: fun_eq_iff)
  from block_execution_correct [OF env1_ok chain1_state h nc this, of Map.empty] obtain F rt m' where
    r: "balance env1 m' = (balance env1 Map.empty)(''b'' := balance env1 Map.empty ''b'' + 5)"
      "\<forall>fuel\<ge>F. \<exists>db'. db_GetUpdateStatusTrie env1 fuel [transfer1 True 5] chain1 = Inr (rt, chain1\<lparr>triedb := db'\<rparr>) \<and>
         db_ok (e_rlp env1) db' \<and> state_at env1 db' rt m' \<and> state_at env1 (diskDatabase (diskdb db') Map.empty) rt m'"
    unfolding s by blast
  moreover have "balance env1 m' ''b'' = Init_Balance + 5" by (simp add: r(1) balance_def)
  ultimately show ?thesis by (metis le_add1)
qed

theorem zero_value_block_panics_witness:
  "\<exists>bc m fuel. balance env1 m ''b'' = Init_Balance + 5 \<and> chain_state env1 bc m \<and>
     db_GetUpdateStatusTrie env1 fuel [transfer1 True 0] bc = Inl Panic"
proof -
  have h: "list_all (homed env1 chain1) [transfer1 True 5]" by (simp add: homed_def transfer1_here)
  obtain mm t cnt m where x: "db_execute env1 [transfer1 True 5] chain1 = Inr (mm, t, cnt)" "live env1 db0 t m" "accounts_ok env1 m"
    "\<not> dirtyRoot t \<longrightarrow> m = Map.empty" "balance env1 m = fold (settle env1 chain1) [transfer1 True 5] (balance env1 Map.empty)"
    using db_execute_law [OF env1_ok chain1_state h] by (elim exE conjE) (simp add: chain1_def)
  then have b: "balance env1 m ''b'' = Init_Balance + 5"
    by (simp add: settle_def transfer1_here transfer1_fields balance_def)
  have d: "dirtyRoot t" using x(4) b by (auto simp: balance_def)
  have "noClash (e_rlp env1) (e_keccak env1) (e_emptyRoot env1) db0 t"
    using exec1 [OF env1_like chain1_like x(1)] noClash_leaf by (fastforce simp: env1_def)
  from storeState_law [OF env1_ok _ x(2) d this] obtain rt db' where
    s: "db_ok (e_rlp env1) db'" "state_at env1 db' rt m"
    using db0_ok by (fastforce simp: env1_def)
  define bc where "bc = chain1\<lparr>triedb := db', CurrentBlock := NewBlock ((Header nilBlock)\<lparr>HStateRoot := rt\<rparr>) []\<rparr>"
  have c: "chain_state env1 bc m" using s x(3) by (simp add: chain_state_def bc_def NewBlock_def)
  have here: "senderHere env1 bc (transfer1 True 0) = Inr False" "recipientHere env1 bc (transfer1 True 0) = Inr True"
    by (simp_all add: bc_def senderHere_def recipientHere_def transfer1_def NewTransaction4_def Let_def chain1_def Get_PartitionMap_def)
  obtain a where a: "root t = ShortNode (keybytesToHex (strBytes ''b'')) (ValueNode (encAS1 a)) newFlag"
    using exec1 [OF env1_like chain1_like x(1)] by auto
  have "stored env1 m ''b''"
    using x(2) a
    by (auto simp: live_def db_trie_def stored_def env1_def elim!: trie_holdsE rep_ShortE simp: rep_simps) blast
  then have "db_GetUpdateStatusTrie env1 0 [transfer1 True 0] bc = Inl Panic"
    by (intro zero_value_block_panics [OF env1_ok c, of _ "transfer1 True 0" "''b''"])
       (auto simp: homed_def here touched_def transfer1_fields)
  then show ?thesis using b c by blast
qed

end
