(* ===== verification/Sub_Follower.thy ===== *)
theory Sub_Follower
  imports Block_Exec
begin

text \<open>
  \<^verbatim>\<open>src/consensus_shard/subMPT/follower.go\<close> and \<^verbatim>\<open>followerListen.go\<close>: a follower keeps the part of the state
  trie whose addresses begin with its digits, executes the transactions the proposer allocates to it, and hands
  accounts over when the proposer rebalances. The messages of \<^verbatim>\<open>src/message/message_subMPT.go\<close> are values; JSON
  carries them from one node to the other. A handler returns the new node and the messages it sends.

  The readings of the clock are arguments: \<open>nowA\<close> and \<open>nowE\<close> for the times put into the transactions, \<open>us\<close> for the
  measured time.
\<close>

section \<open>Messages\<close>

record Allocate_TxMsgs =
  al_Txs :: "Transaction list"
  al_ProposerID :: uint64
  al_FollowerID :: uint64
  al_EpochId :: uint64

record Precessed_TxMsgs =
  pr_Txs :: "Transaction list"
  pr_TxHashs :: "bytes list"
  pr_Proofs :: bytes
  pr_FollowerID :: uint64
  pr_EpochId :: uint64
  pr_StateRoot :: bytes

record F_ResponseDataMsgs =
  rs_Fid :: uint64
  rs_Keys :: "address list"
  rs_Value :: "AccountState list"

datatype proposer_msg =
    P_BlockBroadcast bytes uint64
  | F_Precessed Precessed_TxMsgs
  | F_Join string
  | F_ResponseData F_ResponseDataMsgs
  | F_Ready uint64
  | F_ExecuteTimeMsg uint64 uint64 int

datatype follower_msg =
    P_TxAllocate Allocate_TxMsgs
  | F_TxVerfied
  | CStop
  | P_RequestData "address list"
  | P_AllocateData "address list" "AccountState list"
  | P_AllocFId uint64

section \<open>The follower\<close>

record FollowerNode =
  FollowerID :: uint64
  f_ProposerID :: uint64
  f_ShardID :: uint64
  f_triedb :: Database
  f_stop :: bool
  StateRoot :: bytes
  FollowerNum :: int

definition NewFollowerNode ::
  "env \<Rightarrow> int \<Rightarrow> uint64 \<Rightarrow> uint64 \<Rightarrow> uint64 \<Rightarrow> (bytes \<rightharpoonup> bytes) \<Rightarrow> (bytes \<rightharpoonup> bytes) \<Rightarrow> string option \<Rightarrow>
    (FollowerNode \<times> proposer_msg list) res"
where
  "NewFollowerNode E followerNum sID pID fID disk pre join =
     bindR (newState E [] (diskDatabase disk pre)) (\<lambda>t.
       bindR (trieHash E t) (\<lambda>rt.
         Inr (\<lparr>FollowerID = fID, f_ProposerID = pID, f_ShardID = sID, f_triedb = diskDatabase disk pre,
               f_stop = False, StateRoot = rt, FollowerNum = followerNum\<rparr>,
              (case join of None \<Rightarrow> [] | Some ip \<Rightarrow> [F_Join ip]))))"

text \<open>The followers of the sender and of the recipient, from the first digits of the addresses. An address without
  a first character panics, a character that is no digit gives \<open>None\<close>, and \<^verbatim>\<open>%\<close> panics on 0.\<close>

definition txDests :: "int \<Rightarrow> Transaction \<Rightarrow> (int \<times> int) option res" where
  "txDests n tx =
     (if Sender tx = [] \<or> Recipient tx = [] then Inl Panic
      else case (hexDigit (hd (Sender tx)), hexDigit (hd (Recipient tx))) of
             (Some d1, Some d2) \<Rightarrow> if n = 0 then Inl Panic else Inr (Some (int d1 smod n, int d2 smod n))
           | _ \<Rightarrow> Inr None)"

definition debitAt :: "env \<Rightarrow> nat \<Rightarrow> Transaction \<Rightarrow> Trie \<Rightarrow> (bool \<times> Trie) res" where
  "debitAt E i tx st =
     bindR (readState E i (Sender tx) st) (\<lambda>(a, st1).
       if Balance a < TxValue tx then Inr (False, st1)
       else bindR (trieUpdate E (strBytes (Sender tx)) (e_encodeAS E (snd (Deduct (TxValue tx) a))) st1) (\<lambda>st2.
              Inr (True, st2)))"

definition creditAt :: "env \<Rightarrow> nat \<Rightarrow> Transaction \<Rightarrow> Trie \<Rightarrow> Trie res" where
  "creditAt E i tx st =
     bindR (readState E i (Recipient tx) st) (\<lambda>(a, st1).
       trieUpdate E (strBytes (Recipient tx)) (e_encodeAS E (Deposit (TxValue tx) a)) st1)"

text \<open>One round of the loop: the transactions gone through, with their times, and the hashes of those executed.\<close>

definition processTx ::
  "env \<Rightarrow> FollowerNode \<Rightarrow> (nat \<Rightarrow> int) \<Rightarrow> nat \<times> Transaction \<Rightarrow> Trie \<times> Transaction list \<times> bytes list \<Rightarrow>
    (Trie \<times> Transaction list \<times> bytes list) res"
where
  "processTx E f nowE itx s =
     (case (itx, s) of ((i, tx), (st, done, hs)) \<Rightarrow>
        bindR (txDests (FollowerNum f) tx) (\<lambda>d.
          case d of
            None \<Rightarrow> Inr (st, done @ [tx], hs)
          | Some (d1, d2) \<Rightarrow>
              bindR (if word_of_int d1 = FollowerID f then debitAt E i tx st else Inr (True, st)) (\<lambda>(paid, st1).
                if \<not> paid then Inr (st1, done @ [tx], hs)
                else bindR (if word_of_int d2 = FollowerID f then creditAt E i tx st1 else Inr st1) (\<lambda>st2.
                       Inr (st2, done @ [tx\<lparr>ExecutionTime := nowE i\<rparr>], hs @ [TxHash tx])))))"

definition executeTxs ::
  "env \<Rightarrow> (nat \<Rightarrow> int) \<Rightarrow> (nat \<Rightarrow> int) \<Rightarrow> Transaction list \<Rightarrow> FollowerNode \<Rightarrow> (Trie \<times> Transaction list \<times> bytes list) res"
where
  "executeTxs E nowA nowE txs f =
     bindR (orPanic (newState E (StateRoot f) (f_triedb f))) (\<lambda>st.
       foldR (processTx E f nowE) (enumerate 0 (map (\<lambda>(i, tx). tx\<lparr>AllocateTime := nowA i\<rparr>) (enumerate 0 txs))) (st, [], []))"

definition ProcessTxs ::
  "env \<Rightarrow> nat \<Rightarrow> (nat \<Rightarrow> int) \<Rightarrow> (nat \<Rightarrow> int) \<Rightarrow> int \<Rightarrow> Allocate_TxMsgs \<Rightarrow> FollowerNode \<Rightarrow>
    ((bytes list \<times> Transaction list) \<times> proposer_msg list \<times> FollowerNode) res"
where
  "ProcessTxs E fuel nowA nowE us msg f =
     (if al_Txs msg = [] then Inr (([], []), [], f)
      else bindR (executeTxs E nowA nowE (al_Txs msg) f) (\<lambda>(st, done, hs).
             bindR (storeState E fuel st (f_triedb f)) (\<lambda>(rt, db).
               Inr ((hs, done), [F_ExecuteTimeMsg (of_nat (length (al_Txs msg))) (FollowerID f) us],
                    f\<lparr>f_triedb := db, StateRoot := rt\<rparr>))))"

definition handleAllocatedTxs ::
  "env \<Rightarrow> nat \<Rightarrow> (nat \<Rightarrow> int) \<Rightarrow> (nat \<Rightarrow> int) \<Rightarrow> int \<Rightarrow> Allocate_TxMsgs \<Rightarrow> FollowerNode \<Rightarrow>
    (proposer_msg list \<times> FollowerNode) res"
where
  "handleAllocatedTxs E fuel nowA nowE us msg f =
     bindR (ProcessTxs E fuel nowA nowE us msg f) (\<lambda>((hs, txs1), out, f1).
       Inr (out @ [F_Precessed \<lparr>pr_Txs = txs1, pr_TxHashs = hs, pr_Proofs = [], pr_FollowerID = FollowerID f1,
                                pr_EpochId = al_EpochId msg, pr_StateRoot = StateRoot f1\<rparr>], f1))"

text \<open>\<^verbatim>\<open>handleProposerRequest\<close> drops the error of \<^verbatim>\<open>trie.New\<close>, so a missing root panics at the first key.\<close>

definition handleProposerRequest :: "env \<Rightarrow> address list \<Rightarrow> FollowerNode \<Rightarrow> (proposer_msg list \<times> FollowerNode) res" where
  "handleProposerRequest E keys f =
     bindR (case newState E (StateRoot f) (f_triedb f) of
              Inr st \<Rightarrow> bindR (foldR (\<lambda>key (acs, t). bindR (readState E 0 key t) (\<lambda>(a, t'). Inr (acs @ [a], t'))) keys ([], st)) (\<lambda>(acs, t). Inr acs)
            | Inl Panic \<Rightarrow> Inl Panic
            | Inl OutOfFuel \<Rightarrow> Inl OutOfFuel
            | Inl e \<Rightarrow> if keys = [] then Inr [] else Inl Panic)
       (\<lambda>acs. Inr ([F_ResponseData \<lparr>rs_Fid = FollowerID f, rs_Keys = keys, rs_Value = acs\<rparr>], f))"

definition allocateData :: "env \<Rightarrow> AccountState list \<Rightarrow> nat \<times> address \<Rightarrow> Trie \<Rightarrow> Trie res" where
  "allocateData E vals ikey st =
     (case ikey of (i, key) \<Rightarrow>
        if length vals \<le> i then Inl Panic else trieUpdate E (strBytes key) (e_encodeAS E (vals ! i)) st)"

definition handleProposerAllocateData ::
  "env \<Rightarrow> nat \<Rightarrow> address list \<Rightarrow> AccountState list \<Rightarrow> FollowerNode \<Rightarrow> (proposer_msg list \<times> FollowerNode) res"
where
  "handleProposerAllocateData E fuel keys vals f =
     bindR (orPanic (newState E (StateRoot f) (f_triedb f))) (\<lambda>st.
       bindR (foldR (allocateData E vals) (enumerate 0 keys) st) (\<lambda>st1.
         bindR (storeState E fuel st1 (f_triedb f)) (\<lambda>(rt, db).
           Inr ([F_Ready (FollowerID f)], f\<lparr>f_triedb := db, StateRoot := rt\<rparr>))))"

definition handleProposerAllocateFID :: "uint64 \<Rightarrow> FollowerNode \<Rightarrow> FollowerNode" where
  "handleProposerAllocateFID fid f = f\<lparr>FollowerID := fid\<rparr>"

definition closeFollowerNode :: "FollowerNode \<Rightarrow> FollowerNode" where
  "closeFollowerNode f = f\<lparr>f_stop := True\<rparr>"

text \<open>\<^verbatim>\<open>handleVerifyTxs\<close> calls \<^verbatim>\<open>VerfyingTxs\<close>, whose body is empty.\<close>

definition VerfyingTxs :: "FollowerNode \<Rightarrow> FollowerNode" where
  "VerfyingTxs f = f"

definition follower_handleMessage ::
  "env \<Rightarrow> nat \<Rightarrow> (nat \<Rightarrow> int) \<Rightarrow> (nat \<Rightarrow> int) \<Rightarrow> int \<Rightarrow> follower_msg \<Rightarrow> FollowerNode \<Rightarrow> (proposer_msg list \<times> FollowerNode) res"
where
  "follower_handleMessage E fuel nowA nowE us msg f =
     (case msg of
        P_TxAllocate m \<Rightarrow> handleAllocatedTxs E fuel nowA nowE us m f
      | F_TxVerfied \<Rightarrow> Inr ([], VerfyingTxs f)
      | CStop \<Rightarrow> Inr ([], closeFollowerNode f)
      | P_RequestData keys \<Rightarrow> handleProposerRequest E keys f
      | P_AllocateData keys vals \<Rightarrow> handleProposerAllocateData E fuel keys vals f
      | P_AllocFId fid \<Rightarrow> Inr ([], handleProposerAllocateFID fid f))"

section \<open>The effect of a transaction on the balances\<close>

definition owns :: "FollowerNode \<Rightarrow> int \<Rightarrow> bool" where
  "owns f d \<longleftrightarrow> word_of_int d = FollowerID f"

definition fPays :: "FollowerNode \<Rightarrow> Transaction \<Rightarrow> (address \<Rightarrow> int) \<Rightarrow> bool" where
  "fPays f tx bal \<longleftrightarrow>
     (case txDests (FollowerNum f) tx of
        Inr (Some (d1, d2)) \<Rightarrow> owns f d1 \<longrightarrow> TxValue tx \<le> bal (Sender tx)
      | _ \<Rightarrow> False)"

definition fSettle :: "FollowerNode \<Rightarrow> Transaction \<Rightarrow> (address \<Rightarrow> int) \<Rightarrow> (address \<Rightarrow> int)" where
  "fSettle f tx bal =
     (case txDests (FollowerNum f) tx of
        Inr (Some (d1, d2)) \<Rightarrow>
          if owns f d1 \<and> bal (Sender tx) < TxValue tx then bal
          else let bal1 = (if owns f d1 then bal(Sender tx := bal (Sender tx) - TxValue tx) else bal)
               in if owns f d2 then bal1(Recipient tx := bal1 (Recipient tx) + TxValue tx) else bal1
      | _ \<Rightarrow> bal)"

text \<open>The hashes a follower reports: those of the transactions that pay when their turn comes.\<close>

fun fReports :: "FollowerNode \<Rightarrow> Transaction list \<Rightarrow> (address \<Rightarrow> int) \<Rightarrow> bytes list" where
  "fReports f [] bal = []"
| "fReports f (tx # txs) bal = (if fPays f tx bal then [TxHash tx] else []) @ fReports f txs (fSettle f tx bal)"

section \<open>Executing a batch\<close>

definition holds :: "env \<Rightarrow> Database \<Rightarrow> (bytes \<rightharpoonup> bytes) \<Rightarrow> Trie \<Rightarrow> bool" where
  "holds E db m t \<longleftrightarrow> live E db t m \<and> accounts_ok E m"

text \<open>A step from the trie \<open>t\<close> with the map \<open>m\<close> to \<open>t'\<close> with \<open>m'\<close> that leaves a dirty root when it changes the map.\<close>

definition trail :: "Trie \<Rightarrow> (bytes \<rightharpoonup> bytes) \<Rightarrow> Trie \<Rightarrow> (bytes \<rightharpoonup> bytes) \<Rightarrow> bool" where
  "trail t m t' m' \<longleftrightarrow> (dirtyRoot t \<longrightarrow> dirtyRoot t') \<and> (\<not> dirtyRoot t' \<longrightarrow> m' = m)"

lemma trail_trans: "trail t m t1 m1 \<Longrightarrow> trail t1 m1 t2 m2 \<Longrightarrow> trail t m t2 m2"
  and trail_refl: "trail t m t m"
  by (auto simp: trail_def)

lemma put_law:
  assumes E: "env_ok E" and h: "holds E db m t"
  shows "\<exists>t'. trieUpdate E (strBytes addr) (e_encodeAS E a) t = Inr t' \<and>
    holds E db (m(strBytes addr \<mapsto> e_encodeAS E a)) t' \<and> trail t m t' (m(strBytes addr \<mapsto> e_encodeAS E a))"
proof -
  have "e_encodeAS E a \<noteq> []" using E by (simp add: env_ok_def)
  moreover have "live E db t m" using h by (simp add: holds_def)
  ultimately show ?thesis
    using trieUpdate_law accounts_write [OF E, of m addr a] h by (fastforce simp: holds_def trail_def)
qed

lemma debitAt_law:
  assumes E: "env_ok E" and h: "holds E db m t"
  shows "\<exists>t' m'. debitAt E i tx t = Inr (TxValue tx \<le> balance E m (Sender tx), t') \<and> holds E db m' t' \<and> trail t m t' m' \<and>
    balance E m' = (if TxValue tx \<le> balance E m (Sender tx)
      then (balance E m)(Sender tx := balance E m (Sender tx) - TxValue tx) else balance E m)"
proof -
  obtain a t1 where r: "readState E i (Sender tx) t = Inr (a, t1)" "cached E m (Sender tx) a" "holds E db m t1"
    "dirtyRoot t1 = dirtyRoot t"
    using readState_law [of E m db t i "Sender tx"] h by (auto simp: holds_def)
  have b: "balance E m (Sender tx) = Balance a" using cached_balance [OF r(2)] .
  show ?thesis
  proof (cases "Balance a < TxValue tx")
    case True
    then show ?thesis using r b by (intro exI [of _ t1] exI [of _ m]) (simp add: debitAt_def trail_def)
  next
    case False
    let ?m = "m(strBytes (Sender tx) \<mapsto> e_encodeAS E (snd (Deduct (TxValue tx) a)))"
    obtain t2 where "trieUpdate E (strBytes (Sender tx)) (e_encodeAS E (snd (Deduct (TxValue tx) a))) t1 = Inr t2"
      "holds E db ?m t2" "trail t1 m t2 ?m" using put_law [OF E r(3)] by blast
    then show ?thesis
      using False r b by (intro exI [of _ t2] exI [of _ ?m])
        (simp add: debitAt_def balance_write [OF E] Deduct_def trail_def not_less)
  qed
qed

lemma creditAt_law:
  assumes E: "env_ok E" and h: "holds E db m t"
  shows "\<exists>t' m'. creditAt E i tx t = Inr t' \<and> holds E db m' t' \<and> trail t m t' m' \<and>
    balance E m' = (balance E m)(Recipient tx := balance E m (Recipient tx) + TxValue tx)"
proof -
  obtain a t1 where r: "readState E i (Recipient tx) t = Inr (a, t1)" "cached E m (Recipient tx) a" "holds E db m t1"
    "dirtyRoot t1 = dirtyRoot t"
    using readState_law [of E m db t i "Recipient tx"] h by (auto simp: holds_def)
  let ?m = "m(strBytes (Recipient tx) \<mapsto> e_encodeAS E (Deposit (TxValue tx) a))"
  obtain t2 where "trieUpdate E (strBytes (Recipient tx)) (e_encodeAS E (Deposit (TxValue tx) a)) t1 = Inr t2"
    "holds E db ?m t2" "trail t1 m t2 ?m" using put_law [OF E r(3)] by blast
  then show ?thesis
    using r cached_balance [OF r(2)] by (intro exI [of _ t2] exI [of _ ?m])
      (simp add: creditAt_def balance_write [OF E] Deposit_def trail_def)
qed

lemma processTx_law:
  assumes E: "env_ok E" and h: "holds E db m t" and d: "isInr (txDests (FollowerNum f) tx)"
  shows "\<exists>t' m' tx'. processTx E f nowE (i, tx) (t, dn, hs) =
      Inr (t', dn @ [tx'], hs @ (if fPays f tx (balance E m) then [TxHash tx] else [])) \<and>
    holds E db m' t' \<and> trail t m t' m' \<and> balance E m' = fSettle f tx (balance E m) \<and>
    (\<exists>e. tx' = tx\<lparr>ExecutionTime := e\<rparr>)"
proof -
  have id: "\<exists>e. tx = tx\<lparr>ExecutionTime := e\<rparr>" by (cases tx) auto
  obtain o' where o': "txDests (FollowerNum f) tx = Inr o'" using d by (auto simp: isInr_iff)
  show ?thesis
  proof (cases o')
    case None
    then show ?thesis using h o' id by (auto simp: processTx_def fPays_def fSettle_def intro!: trail_refl)
  next
    case (Some dd)
    obtain d1 d2 where dd: "txDests (FollowerNum f) tx = Inr (Some (d1, d2))" using Some o' by (cases dd) auto
    let ?b = "balance E m" and ?ok = "owns f d1 \<longrightarrow> TxValue tx \<le> balance E m (Sender tx)"
    let ?b1 = "if owns f d1 then ?b(Sender tx := ?b (Sender tx) - TxValue tx) else ?b"
    obtain t1 m1 where 1: "(if word_of_int d1 = FollowerID f then debitAt E i tx t else Inr (True, t)) = Inr (?ok, t1)"
      "holds E db m1 t1" "trail t m t1 m1" "balance E m1 = (if ?ok then ?b1 else ?b)"
    proof (cases "owns f d1")
      case True
      then show thesis using debitAt_law [OF E h, of i tx] that by (elim exE conjE) (simp add: owns_def)
    next
      case False
      then show thesis using h trail_refl that by (simp add: owns_def)
    qed
    obtain t2 m2 where 2: "(if word_of_int d2 = FollowerID f then creditAt E i tx t1 else Inr t1) = Inr t2"
      "holds E db m2 t2" "trail t1 m1 t2 m2"
      "balance E m2 = (if owns f d2 then (balance E m1)(Recipient tx := balance E m1 (Recipient tx) + TxValue tx) else balance E m1)"
    proof (cases "owns f d2")
      case True
      then show thesis using creditAt_law [OF E 1(2), of i tx] that by (elim exE conjE) (simp add: owns_def)
    next
      case False
      then show thesis using 1(2) trail_refl that by (simp add: owns_def)
    qed
    show ?thesis
    proof (cases ?ok)
      case True
      then show ?thesis
        using 1 2 trail_trans [OF 1(3) 2(3)]
        by (intro exI [of _ t2] exI [of _ m2] exI [of _ "tx\<lparr>ExecutionTime := nowE i\<rparr>"])
           (auto simp: processTx_def dd fPays_def fSettle_def Let_def not_less)
    next
      case False
      then show ?thesis
        using 1 id by (intro exI [of _ t1] exI [of _ m1] exI [of _ tx])
           (auto simp: processTx_def dd fPays_def fSettle_def)
    qed
  qed
qed

lemma dests_time [simp]: "txDests n (tx\<lparr>AllocateTime := a\<rparr>) = txDests n tx"
  by (simp add: txDests_def)

lemma settle_time [simp]:
  "fPays f (tx\<lparr>AllocateTime := a\<rparr>) = fPays f tx" "fSettle f (tx\<lparr>AllocateTime := a\<rparr>) = fSettle f tx"
  by (auto simp: fPays_def fSettle_def Let_def fun_eq_iff split: sum.split option.split)

definition retimed :: "Transaction \<Rightarrow> Transaction \<Rightarrow> bool" where
  "retimed tx tx' \<longleftrightarrow> (\<exists>a e. tx' = tx\<lparr>AllocateTime := a, ExecutionTime := e\<rparr>)"

lemma processLoop:
  assumes E: "env_ok E" and h: "holds E db m t" and d: "\<forall>tx\<in>set txs. isInr (txDests (FollowerNum f) tx)"
  shows "\<exists>t' m' dn'. foldR (processTx E f nowE) (enumerate i (map (\<lambda>(i, tx). tx\<lparr>AllocateTime := nowA i\<rparr>) (enumerate i txs))) (t, dn, hs) =
      Inr (t', dn @ dn', hs @ fReports f txs (balance E m)) \<and>
    holds E db m' t' \<and> trail t m t' m' \<and> balance E m' = fold (fSettle f) txs (balance E m) \<and> list_all2 retimed txs dn'"
  using h d
proof (induction txs arbitrary: t m i dn hs)
  case Nil
  then show ?case by (auto intro!: trail_refl)
next
  case (Cons tx txs)
  let ?tx = "tx\<lparr>AllocateTime := nowA i\<rparr>"
  have "isInr (txDests (FollowerNum f) ?tx)" using Cons.prems(2) by simp
  from processTx_law [OF E Cons.prems(1) this, of nowE i dn hs] obtain t1 m1 tx' e where
    1: "processTx E f nowE (i, ?tx) (t, dn, hs) = Inr (t1, dn @ [tx'], hs @ (if fPays f ?tx (balance E m) then [TxHash ?tx] else []))"
      "holds E db m1 t1" "trail t m t1 m1" "balance E m1 = fSettle f ?tx (balance E m)" "tx' = ?tx\<lparr>ExecutionTime := e\<rparr>"
    by (elim exE conjE)
  have d: "\<forall>tx\<in>set txs. isInr (txDests (FollowerNum f) tx)" using Cons.prems(2) by simp
  obtain t2 m2 dn' where
    2: "foldR (processTx E f nowE) (enumerate (Suc i) (map (\<lambda>(i, tx). tx\<lparr>AllocateTime := nowA i\<rparr>) (enumerate (Suc i) txs)))
          (t1, dn @ [tx'], hs @ (if fPays f ?tx (balance E m) then [TxHash ?tx] else [])) =
        Inr (t2, (dn @ [tx']) @ dn', (hs @ (if fPays f ?tx (balance E m) then [TxHash ?tx] else [])) @ fReports f txs (balance E m1))"
      "holds E db m2 t2" "trail t1 m1 t2 m2" "balance E m2 = fold (fSettle f) txs (balance E m1)" "list_all2 retimed txs dn'"
    using Cons.IH [OF 1(2) d, of "Suc i"] by blast
  have "retimed tx tx'" using 1(5) by (auto simp: retimed_def)
  then show ?case
    using 1 2 trail_trans [OF 1(3) 2(3)] by (intro exI [of _ t2] exI [of _ m2] exI [of _ "tx' # dn'"]) simp
qed

definition follower_state :: "env \<Rightarrow> FollowerNode \<Rightarrow> (bytes \<rightharpoonup> bytes) \<Rightarrow> bool" where
  "follower_state E f m \<longleftrightarrow> state_at E (f_triedb f) (StateRoot f) m \<and> accounts_ok E m \<and> db_ok (e_rlp E) (f_triedb f)"

lemma executeTxs_law:
  assumes E: "env_ok E" and s: "follower_state E f m" and d: "\<forall>tx\<in>set txs. isInr (txDests (FollowerNum f) tx)"
  shows "\<exists>t m' dn. executeTxs E nowA nowE txs f = Inr (t, dn, fReports f txs (balance E m)) \<and>
    holds E (f_triedb f) m' t \<and> (\<not> dirtyRoot t \<longrightarrow> m' = m) \<and>
    balance E m' = fold (fSettle f) txs (balance E m) \<and> list_all2 retimed txs dn"
proof -
  obtain t0 where t0: "newState E (StateRoot f) (f_triedb f) = Inr t0" "holds E (f_triedb f) m t0"
    using newState_law [of E "f_triedb f" "StateRoot f" m] s by (auto simp: follower_state_def holds_def)
  from processLoop [OF E t0(2) d, of nowE 0 nowA "[]" "[]"] show ?thesis
    unfolding executeTxs_def t0(1) orPanic_def trail_def by simp blast
qed

lemma ProcessTxs_law:
  assumes "env_ok E" "follower_state E f m" "\<forall>tx\<in>set (al_Txs msg). isInr (txDests (FollowerNum f) tx)"
    "\<forall>s. executeTxs E nowA nowE (al_Txs msg) f = Inr s \<longrightarrow>
       noClash (e_rlp E) (e_keccak E) (e_emptyRoot E) (f_triedb f) (fst s)"
    "fold (fSettle f) (al_Txs msg) (balance E m) \<noteq> balance E m"
  shows "\<exists>F m' dn rt. balance E m' = fold (fSettle f) (al_Txs msg) (balance E m) \<and> list_all2 retimed (al_Txs msg) dn \<and>
    (\<forall>fuel\<ge>F. \<exists>db. let f' = f\<lparr>f_triedb := db, StateRoot := rt\<rparr> in
       ProcessTxs E fuel nowA nowE us msg f =
         Inr ((fReports f (al_Txs msg) (balance E m), dn), [F_ExecuteTimeMsg (of_nat (length (al_Txs msg))) (FollowerID f) us], f') \<and>
       follower_state E f' m' \<and> state_at E (diskDatabase (diskdb db) pre) rt m')"
proof -
  obtain t m' dn where x: "executeTxs E nowA nowE (al_Txs msg) f = Inr (t, dn, fReports f (al_Txs msg) (balance E m))"
    "holds E (f_triedb f) m' t" "\<not> dirtyRoot t \<longrightarrow> m' = m" "balance E m' = fold (fSettle f) (al_Txs msg) (balance E m)"
    "list_all2 retimed (al_Txs msg) dn"
    using executeTxs_law [OF assms(1-3), of nowA nowE] by (elim exE conjE)
  have d: "dirtyRoot t" and ne: "al_Txs msg \<noteq> []" using x(3,4) assms(5) by auto
  have nc: "noClash (e_rlp E) (e_keccak E) (e_emptyRoot E) (f_triedb f) t" using assms(4) x(1) by fastforce
  have l: "live E (f_triedb f) t m'" "accounts_ok E m'" using x(2) by (simp_all add: holds_def)
  have ok: "db_ok (e_rlp E) (f_triedb f)" using assms(2) by (simp add: follower_state_def)
  obtain F rt where F: "\<And>fuel. F \<le> fuel \<Longrightarrow> \<exists>db. storeState E fuel t (f_triedb f) = Inr (rt, db) \<and> db_ok (e_rlp E) db \<and>
      state_at E db rt m' \<and> (\<forall>pre. state_at E (diskDatabase (diskdb db) pre) rt m')"
    using storeState_law [OF assms(1) ok l(1) d nc] by blast
  have "\<exists>db. let f' = f\<lparr>f_triedb := db, StateRoot := rt\<rparr> in
       ProcessTxs E fuel nowA nowE us msg f =
         Inr ((fReports f (al_Txs msg) (balance E m), dn), [F_ExecuteTimeMsg (of_nat (length (al_Txs msg))) (FollowerID f) us], f') \<and>
       follower_state E f' m' \<and> state_at E (diskDatabase (diskdb db) pre) rt m'" if le: "F \<le> fuel" for fuel
  proof -
    obtain db where "storeState E fuel t (f_triedb f) = Inr (rt, db)" "db_ok (e_rlp E) db"
      "state_at E db rt m'" "\<forall>pre. state_at E (diskDatabase (diskdb db) pre) rt m'" using F [OF le] by blast
    then show ?thesis using ne l(2) by (intro exI [of _ db]) (simp add: ProcessTxs_def x(1) follower_state_def)
  qed
  then show ?thesis using x(4,5) by blast
qed

end
