(* ===== verification/Hash_Ring.thy ===== *)
theory Hash_Ring
  imports Aster_Prelude
begin

text \<open>
  \<^verbatim>\<open>src/local/hash_ring.go\<close>: the hash ring as a skip list. The nodes are objects linked by pointers, so the ring
  holds a heap of nodes under addresses; address 0 is \<^verbatim>\<open>s.root\<close>. A score is an \<^verbatim>\<open>int32\<close>; the ring only compares scores.
  The number of levels of a new node, which \<^verbatim>\<open>roll\<close> draws at random, is an argument.

  The theorems relate the pointers to a list of virtual nodes sorted by score: every search is the search in that
  list, and \<^verbatim>\<open>Add\<close> and \<^verbatim>\<open>Rem\<close> are insertion and deletion, whatever the levels are.
\<close>

section \<open>The skip list\<close>

record virtualNode =
  score :: int
  nodeIDs :: "string list"
  nexts :: "nat option list"

text \<open>\<open>fresh\<close> is the first address that is not in use. The data keys of a node are a Go map with empty values, \<open>None\<close>
  where the outer map has no entry.\<close>

record SkiplistHashRing =
  heap :: "nat \<Rightarrow> virtualNode"
  fresh :: nat
  nodeToReplicas :: "string \<rightharpoonup> int"
  nodeToDataKey :: "string \<rightharpoonup> string set"

definition NewSkiplistHashRing :: SkiplistHashRing where
  "NewSkiplistHashRing = \<lparr>heap = (\<lambda>a. \<lparr>score = 0, nodeIDs = [], nexts = []\<rparr>), fresh = 1,
     nodeToReplicas = Map.empty, nodeToDataKey = Map.empty\<rparr>"

definition levels :: "SkiplistHashRing \<Rightarrow> nat" where
  "levels s = length (nexts (heap s 0))"

definition nextAt :: "(nat \<Rightarrow> virtualNode) \<Rightarrow> nat \<Rightarrow> nat \<Rightarrow> nat option res" where
  "nextAt h move level = (if level < length (nexts (h move)) then Inr (nexts (h move) ! level) else Inl Panic)"

text \<open>The inner loop, which follows the pointers of a level while the next score satisfies \<open>P\<close>. Each round visits
  another node, so \<open>fresh\<close> rounds are enough.\<close>

fun advance :: "(nat \<Rightarrow> virtualNode) \<Rightarrow> (int \<Rightarrow> bool) \<Rightarrow> nat \<Rightarrow> nat \<Rightarrow> nat \<Rightarrow> nat res" where
  "advance h P level 0 move = Inl OutOfFuel"
| "advance h P level (Suc fuel) move =
     bindR (nextAt h move level) (\<lambda>next.
       case next of
         None \<Rightarrow> Inr move
       | Some n \<Rightarrow> if P (score (h n)) then advance h P level fuel n else Inr move)"

text \<open>The outer loop, from level \<open>l - 1\<close> down to 0.\<close>

fun descend :: "(nat \<Rightarrow> virtualNode) \<Rightarrow> (int \<Rightarrow> bool) \<Rightarrow> nat \<Rightarrow> nat \<Rightarrow> nat \<Rightarrow> nat res" where
  "descend h P fuel 0 move = Inr move"
| "descend h P fuel (Suc l) move = bindR (advance h P l fuel move) (descend h P fuel l)"

fun getLoop :: "(nat \<Rightarrow> virtualNode) \<Rightarrow> int \<Rightarrow> nat \<Rightarrow> nat \<Rightarrow> nat \<Rightarrow> nat option res" where
  "getLoop h sc fuel 0 move = Inr None"
| "getLoop h sc fuel (Suc l) move =
     bindR (advance h (\<lambda>x. x < sc) l fuel move) (\<lambda>mv.
       bindR (nextAt h mv l) (\<lambda>next.
         case next of
           None \<Rightarrow> getLoop h sc fuel l mv
         | Some n \<Rightarrow> if score (h n) = sc then Inr (Some n) else getLoop h sc fuel l mv))"

definition ring_get :: "SkiplistHashRing \<Rightarrow> int \<Rightarrow> nat option res" where
  "ring_get s sc = getLoop (heap s) sc (fresh s) (levels s) 0"

definition ring_ceiling :: "SkiplistHashRing \<Rightarrow> int \<Rightarrow> int option res" where
  "ring_ceiling s sc =
     (if levels s = 0 then Inr None
      else bindR (descend (heap s) (\<lambda>x. x < sc) (fresh s) (levels s) 0) (\<lambda>mv.
             bindR (nextAt (heap s) mv 0) (\<lambda>next. Inr (map_option (\<lambda>n. score (heap s n)) next))))"

definition ring_first :: "SkiplistHashRing \<Rightarrow> int res" where
  "ring_first s =
     (if levels s = 0 then Inr (- 1)
      else bindR (nextAt (heap s) 0 0) (\<lambda>next. case next of None \<Rightarrow> Inl Panic | Some n \<Rightarrow> Inr (score (heap s n))))"

definition ring_floor :: "SkiplistHashRing \<Rightarrow> int \<Rightarrow> int option res" where
  "ring_floor s sc =
     (if levels s = 0 then Inr None
      else bindR (descend (heap s) (\<lambda>x. x < sc) (fresh s) (levels s) 0) (\<lambda>mv.
             bindR (nextAt (heap s) mv 0) (\<lambda>next.
               Inr (if (case next of None \<Rightarrow> False | Some n \<Rightarrow> score (heap s n) = sc) then Some sc
                    else if mv = 0 then None else Some (score (heap s mv))))))"

definition ring_last :: "SkiplistHashRing \<Rightarrow> int res" where
  "ring_last s =
     bindR (descend (heap s) (\<lambda>x. True) (fresh s) (levels s) 0) (\<lambda>mv.
       Inr (if mv = 0 then - 1 else score (heap s mv)))"

text \<open>The results of \<^verbatim>\<open>Ceiling\<close> and \<^verbatim>\<open>Floor\<close>: the search, or the other end of the ring; -1 on an empty ring.\<close>

definition Ceiling :: "SkiplistHashRing \<Rightarrow> int \<Rightarrow> int res" where
  "Ceiling s sc = bindR (ring_ceiling s sc) (\<lambda>t. case t of Some x \<Rightarrow> Inr x | None \<Rightarrow> ring_first s)"

definition Floor :: "SkiplistHashRing \<Rightarrow> int \<Rightarrow> int res" where
  "Floor s sc = bindR (ring_floor s sc) (\<lambda>t. case t of Some x \<Rightarrow> Inr x | None \<Rightarrow> ring_last s)"

definition Node :: "SkiplistHashRing \<Rightarrow> int \<Rightarrow> string list res" where
  "Node s sc = bindR (ring_get s sc) (\<lambda>t.
     case t of None \<Rightarrow> Inl (ErrMsg ''score not exist'') | Some n \<Rightarrow> Inr (nodeIDs (heap s n)))"

definition setNext :: "(nat \<Rightarrow> virtualNode) \<Rightarrow> nat \<Rightarrow> nat \<Rightarrow> nat option \<Rightarrow> (nat \<Rightarrow> virtualNode)" where
  "setNext h a level v = h(a := (h a)\<lparr>nexts := (nexts (h a))[level := v]\<rparr>)"

fun linkLoop :: "(nat \<Rightarrow> virtualNode) \<Rightarrow> int \<Rightarrow> nat \<Rightarrow> nat \<Rightarrow> nat \<Rightarrow> nat \<Rightarrow> (nat \<Rightarrow> virtualNode) res" where
  "linkLoop h sc fuel new 0 move = Inr h"
| "linkLoop h sc fuel new (Suc l) move =
     bindR (advance h (\<lambda>x. x < sc) l fuel move) (\<lambda>mv.
       bindR (nextAt h mv l) (\<lambda>next.
         linkLoop (setNext (setNext h new l next) mv l (Some new)) sc fuel new l mv))"

definition ring_Add :: "nat \<Rightarrow> int \<Rightarrow> string \<Rightarrow> SkiplistHashRing \<Rightarrow> SkiplistHashRing res" where
  "ring_Add rLevel sc nodeID s =
     bindR (ring_get s sc) (\<lambda>t.
       case t of
         Some n \<Rightarrow>
           if nodeID \<in> set (nodeIDs (heap s n)) then Inr s
           else Inr (s\<lparr>heap := (heap s)(n := (heap s n)\<lparr>nodeIDs := nodeIDs (heap s n) @ [nodeID]\<rparr>)\<rparr>)
       | None \<Rightarrow>
           let h = heap s;
               h1 = h(0 := (h 0)\<lparr>nexts := nexts (h 0) @ replicate (rLevel + 1 - length (nexts (h 0))) None\<rparr>);
               h2 = h1(fresh s := \<lparr>score = sc, nodeIDs = [nodeID], nexts = replicate (rLevel + 1) None\<rparr>)
           in bindR (linkLoop h2 sc (fresh s) (fresh s) (rLevel + 1) 0) (\<lambda>h3. Inr (s\<lparr>heap := h3, fresh := fresh s + 1\<rparr>)))"

fun unlinkLoop :: "(nat \<Rightarrow> virtualNode) \<Rightarrow> int \<Rightarrow> nat \<Rightarrow> nat \<Rightarrow> nat \<Rightarrow> (nat \<Rightarrow> virtualNode) res" where
  "unlinkLoop h sc fuel 0 move = Inr h"
| "unlinkLoop h sc fuel (Suc l) move =
     bindR (advance h (\<lambda>x. x < sc) l fuel move) (\<lambda>mv.
       bindR (nextAt h mv l) (\<lambda>next.
         case next of
           None \<Rightarrow> unlinkLoop h sc fuel l mv
         | Some n \<Rightarrow>
             if sc < score (h n) then unlinkLoop h sc fuel l mv
             else bindR (nextAt h n l) (\<lambda>after. unlinkLoop (setNext h mv l after) sc fuel l mv)))"

definition trimRoot :: "(nat \<Rightarrow> virtualNode) \<Rightarrow> (nat \<Rightarrow> virtualNode)" where
  "trimRoot h = h(0 := (h 0)\<lparr>nexts := takeWhile (\<lambda>x. x \<noteq> None) (nexts (h 0))\<rparr>)"

text \<open>\<^verbatim>\<open>Rem\<close> deletes the data keys under the name of the virtual node.\<close>

definition ring_Rem :: "int \<Rightarrow> string \<Rightarrow> SkiplistHashRing \<Rightarrow> SkiplistHashRing res" where
  "ring_Rem sc nodeID s =
     bindR (ring_get s sc) (\<lambda>t.
       case t of
         None \<Rightarrow> Inl (ErrMsg ''score not exist'')
       | Some n \<Rightarrow>
           if nodeID \<notin> set (nodeIDs (heap s n)) then Inl (ErrMsg ''node not exist in score'')
           else let s1 = s\<lparr>nodeToDataKey := (nodeToDataKey s)(nodeID := None)\<rparr>
                in if 1 < length (nodeIDs (heap s n))
                   then Inr (s1\<lparr>heap := (heap s)(n := (heap s n)\<lparr>nodeIDs := remove1 nodeID (nodeIDs (heap s n))\<rparr>)\<rparr>)
                   else bindR (unlinkLoop (heap s) sc (fresh s) (levels s) 0) (\<lambda>h. Inr (s1\<lparr>heap := trimRoot h\<rparr>)))"

section \<open>The maps of the ring\<close>

definition AddNodeToReplica :: "string \<Rightarrow> int \<Rightarrow> SkiplistHashRing \<Rightarrow> SkiplistHashRing" where
  "AddNodeToReplica nodeID replicas s = s\<lparr>nodeToReplicas := (nodeToReplicas s)(nodeID \<mapsto> replicas)\<rparr>"

definition DeleteNodeToReplica :: "string \<Rightarrow> SkiplistHashRing \<Rightarrow> SkiplistHashRing" where
  "DeleteNodeToReplica nodeID s = s\<lparr>nodeToReplicas := (nodeToReplicas s)(nodeID := None)\<rparr>"

definition DataKeys :: "SkiplistHashRing \<Rightarrow> string \<Rightarrow> string set" where
  "DataKeys s nodeID = (case nodeToDataKey s nodeID of None \<Rightarrow> {} | Some ks \<Rightarrow> ks)"

definition AddNodeToDataKeys :: "string \<Rightarrow> string set \<Rightarrow> SkiplistHashRing \<Rightarrow> SkiplistHashRing" where
  "AddNodeToDataKeys nodeID dataKeys s = s\<lparr>nodeToDataKey := (nodeToDataKey s)(nodeID \<mapsto> DataKeys s nodeID \<union> dataKeys)\<rparr>"

definition DeleteNodeToDataKeys :: "string \<Rightarrow> string set \<Rightarrow> SkiplistHashRing \<Rightarrow> SkiplistHashRing" where
  "DeleteNodeToDataKeys nodeID dataKeys s =
     (case nodeToDataKey s nodeID of
        None \<Rightarrow> s
      | Some ks \<Rightarrow> s\<lparr>nodeToDataKey := (nodeToDataKey s)(nodeID := (if ks - dataKeys = {} then None else Some (ks - dataKeys)))\<rparr>)"

section \<open>The pointers of a level\<close>

text \<open>\<open>level_path f a ys\<close>: following \<open>f\<close> from \<open>a\<close> visits \<open>ys\<close> and ends.\<close>

fun level_path :: "(nat \<Rightarrow> nat option) \<Rightarrow> nat \<Rightarrow> nat list \<Rightarrow> bool" where
  "level_path f a [] \<longleftrightarrow> f a = None"
| "level_path f a (b # bs) \<longleftrightarrow> f a = Some b \<and> level_path f b bs"

abbreviation ptr :: "(nat \<Rightarrow> virtualNode) \<Rightarrow> nat \<Rightarrow> nat \<Rightarrow> nat option" where
  "ptr h l a \<equiv> nexts (h a) ! l"

abbreviation height :: "(nat \<Rightarrow> virtualNode) \<Rightarrow> nat \<Rightarrow> nat" where
  "height h a \<equiv> length (nexts (h a))"

lemma path_append: "level_path f a (us @ b # vs) \<Longrightarrow> level_path f b vs"
  by (induction us arbitrary: a) auto

lemma path_cong: "(\<And>x. x = a \<or> x \<in> set ys \<Longrightarrow> f x = g x) \<Longrightarrow> level_path f a ys = level_path g a ys"
  by (induction ys arbitrary: a) auto

lemma path_next: "level_path f a (us @ vs) \<Longrightarrow> f (last (a # us)) = (case vs of [] \<Rightarrow> None | v # _ \<Rightarrow> Some v)"
  by (induction us arbitrary: a) (auto split: list.split)

lemma path_insert:
  assumes "level_path f a (us @ vs)" "distinct (a # us @ vs)" "new \<notin> set (a # us @ vs)"
  shows "level_path (f(new := f (last (a # us)), last (a # us) := Some new)) a (us @ new # vs)"
  using assms
proof (induction us arbitrary: a)
  case Nil
  have "level_path (f(new := f a, a := Some new)) v ws = level_path f v ws" if "vs = v # ws" for v ws
    using Nil that by (intro path_cong) auto
  with Nil show ?case by (cases vs) (auto simp: fun_upd_def)
next
  case (Cons u us)
  define g where "g = f(new := f (last (u # us)), last (u # us) := Some new)"
  have "level_path g u (us @ new # vs)"
    unfolding g_def by (rule Cons.IH) (use Cons.prems in simp_all)
  moreover have "a \<noteq> new" "a \<noteq> last (u # us)" using Cons.prems last_in_set [of "u # us"] by auto
  then have "g a = Some u" using Cons.prems by (simp add: g_def)
  moreover have "last (a # u # us) = last (u # us)" by simp
  ultimately show ?case unfolding g_def by (simp only: append_Cons level_path.simps)
qed

lemma path_remove:
  assumes "level_path f a (us @ n # vs)" "distinct (a # us @ n # vs)"
  shows "level_path (f(last (a # us) := f n)) a (us @ vs)"
  using assms
proof (induction us arbitrary: a)
  case Nil
  have "level_path (f(a := f n)) v ws = level_path f v ws" if "vs = v # ws" for v ws
    using Nil that by (intro path_cong) auto
  with Nil show ?case by (cases vs) (auto simp: fun_upd_def)
next
  case (Cons u us)
  define g where "g = f(last (u # us) := f n)"
  have "level_path g u (us @ vs)"
    unfolding g_def by (rule Cons.IH) (use Cons.prems in simp_all)
  moreover have "a \<noteq> last (u # us)" using Cons.prems last_in_set [of "u # us"] by auto
  then have "g a = Some u" using Cons.prems by (simp add: g_def)
  moreover have "last (a # u # us) = last (u # us)" by simp
  ultimately show ?case unfolding g_def by (simp only: append_Cons level_path.simps)
qed

section \<open>The invariant\<close>

text \<open>\<open>xs\<close> lists the nodes in the order of their scores. The list of level \<open>l\<close> is the sublist of the nodes that
  reach that level, and the root reaches a level exactly when some node does.\<close>

definition lv :: "(nat \<Rightarrow> virtualNode) \<Rightarrow> nat list \<Rightarrow> nat \<Rightarrow> nat list" where
  "lv h xs l = filter (\<lambda>a. l < height h a) xs"

definition nodes_ok :: "(nat \<Rightarrow> virtualNode) \<Rightarrow> nat \<Rightarrow> nat list \<Rightarrow> bool" where
  "nodes_ok h n xs \<longleftrightarrow> distinct xs \<and> set xs \<subseteq> {0<..<n} \<and> sorted_wrt (\<lambda>a b. score (h a) < score (h b)) xs \<and>
     (\<forall>a\<in>set xs. 0 < height h a \<and> height h a \<le> height h 0)"

definition ring_rep :: "SkiplistHashRing \<Rightarrow> nat list \<Rightarrow> bool" where
  "ring_rep s xs \<longleftrightarrow> nodes_ok (heap s) (fresh s) xs \<and> 0 < fresh s \<and>
     (\<forall>l<levels s. level_path (ptr (heap s) l) 0 (lv (heap s) xs l) \<and> lv (heap s) xs l \<noteq> [])"

text \<open>A search condition that holds for a score holds for the smaller ones.\<close>

definition downward :: "(int \<Rightarrow> bool) \<Rightarrow> bool" where
  "downward P \<longleftrightarrow> (\<forall>x y. P y \<longrightarrow> x \<le> y \<longrightarrow> P x)"

lemma downward_less [simp]: "downward (\<lambda>x. x < sc)" and downward_const [simp]: "downward (\<lambda>x. b)"
  by (auto simp: downward_def)

lemma filter_none: "sorted_wrt (\<lambda>a b. score (h a) < score (h b)) (b # ys) \<Longrightarrow> downward P \<Longrightarrow> \<not> P (score (h b)) \<Longrightarrow>
    filter (\<lambda>a. P (score (h a))) ys = []"
  by (fastforce simp: downward_def filter_empty_conv)

lemma advance_chain:
  assumes "level_path (ptr h l) a ys" "sorted_wrt (\<lambda>a b. score (h a) < score (h b)) ys" "\<forall>b\<in>set (a # ys). l < height h b"
    "downward P" "length ys < fuel"
  shows "advance h P l fuel a = Inr (last (a # filter (\<lambda>b. P (score (h b))) ys))"
  using assms
proof (induction ys arbitrary: a fuel)
  case Nil
  then show ?case by (cases fuel) (simp_all add: nextAt_def)
next
  case (Cons b ys)
  obtain k where k: "fuel = Suc k" using Cons.prems(5) by (cases fuel) auto
  have n: "nextAt h a l = Inr (Some b)" using Cons.prems(1,3) by (simp add: nextAt_def)
  show ?case
  proof (cases "P (score (h b))")
    case True
    then show ?thesis using Cons.IH [of b k] Cons.prems k n by simp
  next
    case False
    then show ?thesis using filter_none [OF Cons.prems(2,4) False] k n by simp
  qed
qed

text \<open>Where the search arrives on a level: the last node of the level that satisfies the condition, or the root.\<close>

definition reach :: "(nat \<Rightarrow> virtualNode) \<Rightarrow> nat list \<Rightarrow> (int \<Rightarrow> bool) \<Rightarrow> nat \<Rightarrow> nat" where
  "reach h xs P l = last (0 # filter (\<lambda>a. P (score (h a))) (lv h xs l))"

definition start_ok :: "(nat \<Rightarrow> virtualNode) \<Rightarrow> nat list \<Rightarrow> (int \<Rightarrow> bool) \<Rightarrow> nat \<Rightarrow> nat \<Rightarrow> bool" where
  "start_ok h xs P l mv \<longleftrightarrow> mv = 0 \<or> mv \<in> set xs \<and> l \<le> height h mv \<and> P (score (h mv))"

lemma reach_start: "start_ok h xs P l (reach h xs P l)"
proof -
  have "reach h xs P l \<in> set (0 # filter (\<lambda>a. P (score (h a))) (lv h xs l))"
    unfolding reach_def by (rule last_in_set) simp
  then show ?thesis by (auto simp: start_ok_def lv_def)
qed

lemma sorted_split:
  assumes "sorted_wrt (\<lambda>a b. score (h a) < score (h b)) ys" "downward P"
  shows "ys = filter (\<lambda>a. P (score (h a))) ys @ filter (\<lambda>a. \<not> P (score (h a))) ys"
  using assms(1)
proof (induction ys)
  case (Cons b ys)
  show ?case
  proof (cases "P (score (h b))")
    case False
    then have "filter (\<lambda>a. P (score (h a))) ys = []" by (rule filter_none [OF Cons.prems assms(2)])
    moreover from this have "filter (\<lambda>a. \<not> P (score (h a))) ys = ys" by (auto simp: filter_empty_conv)
    ultimately show ?thesis using False by simp
  qed (use Cons in simp)
qed simp

lemma nodes_okD:
  assumes "nodes_ok h n xs"
  shows "distinct xs" "0 \<notin> set xs" "a \<in> set xs \<Longrightarrow> a < n" "sorted_wrt (\<lambda>a b. score (h a) < score (h b)) (lv h xs l)"
    "length (lv h xs l) < n \<or> n = 0" "a \<in> set (lv h xs l) \<Longrightarrow> l < height h a" "a \<in> set xs \<Longrightarrow> 0 < height h a"
    "a \<in> set xs \<Longrightarrow> height h a \<le> height h 0"
proof -
  have "card (set xs) \<le> card {0<..<n}" using assms by (intro card_mono) (auto simp: nodes_ok_def)
  then have "length xs \<le> n - 1" using assms by (simp add: nodes_ok_def distinct_card)
  then show "length (lv h xs l) < n \<or> n = 0"
    using length_filter_le [of "\<lambda>a. l < height h a" xs] unfolding lv_def by linarith
qed (use assms in \<open>auto simp: nodes_ok_def lv_def sorted_wrt_filter\<close>)

lemma advance_reach:
  assumes ok: "nodes_ok h n xs" and c: "level_path (ptr h l) 0 (lv h xs l)" and l: "l < height h 0" and P: "downward P"
    and s: "start_ok h xs P (Suc l) mv" and f: "length (lv h xs l) < fuel"
  shows "advance h P l fuel mv = Inr (reach h xs P l)"
proof (cases "mv = 0")
  case True
  then show ?thesis
    using advance_chain [OF c nodes_okD(4) [OF ok] _ P f] l nodes_okD(6) [OF ok] by (auto simp: reach_def)
next
  case False
  then have mv: "mv \<in> set (lv h xs l)" "P (score (h mv))" using s by (auto simp: start_ok_def lv_def)
  from split_list [OF mv(1)] obtain us vs where uv: "lv h xs l = us @ mv # vs" by blast
  have c': "level_path (ptr h l) mv vs" using c path_append unfolding uv by blast
  have "sorted_wrt (\<lambda>a b. score (h a) < score (h b)) vs" using nodes_okD(4) [OF ok, of l] by (simp add: uv sorted_wrt_append)
  moreover have "\<forall>b\<in>set (mv # vs). l < height h b" using nodes_okD(6) [OF ok, of _ l] by (simp add: uv)
  moreover have "length vs < fuel" using f by (simp add: uv)
  ultimately have "advance h P l fuel mv = Inr (last (mv # filter (\<lambda>b. P (score (h b))) vs))"
    using advance_chain [OF c' _ _ P] by blast
  then show ?thesis using mv(2) by (simp add: reach_def uv)
qed

lemma reach_next:
  assumes ok: "nodes_ok h n xs" and c: "level_path (ptr h l) 0 (lv h xs l)" and l: "l < height h 0" and P: "downward P"
  shows "nextAt h (reach h xs P l) l = Inr (case filter (\<lambda>a. \<not> P (score (h a))) (lv h xs l) of [] \<Rightarrow> None | v # _ \<Rightarrow> Some v)"
proof -
  have "reach h xs P l \<in> set (0 # lv h xs l)"
    using last_in_set [of "0 # filter (\<lambda>a. P (score (h a))) (lv h xs l)"] by (auto simp: reach_def)
  then have "l < height h (reach h xs P l)" using l nodes_okD(6) [OF ok] by auto
  moreover have "ptr h l (reach h xs P l) = (case filter (\<lambda>a. \<not> P (score (h a))) (lv h xs l) of [] \<Rightarrow> None | v # _ \<Rightarrow> Some v)"
    unfolding reach_def by (rule path_next) (use c sorted_split [OF nodes_okD(4) [OF ok] P, of l] in simp)
  ultimately show ?thesis by (simp add: nextAt_def)
qed

section \<open>Searching\<close>

lemma lv_0: "nodes_ok h n xs \<Longrightarrow> lv h xs 0 = xs"
  by (simp add: lv_def nodes_ok_def)

lemma ring_repD:
  assumes "ring_rep s xs"
  shows "nodes_ok (heap s) (fresh s) xs" "length (lv (heap s) xs l) < fresh s" "levels s = 0 \<longleftrightarrow> xs = []"
    "l < levels s \<Longrightarrow> level_path (ptr (heap s) l) 0 (lv (heap s) xs l)" "l < levels s \<Longrightarrow> lv (heap s) xs l \<noteq> []"
proof -
  show ok: "nodes_ok (heap s) (fresh s) xs" using assms by (simp add: ring_rep_def)
  show "length (lv (heap s) xs l) < fresh s" using nodes_okD(5) [OF ok] assms by (auto simp: ring_rep_def)
  show "levels s = 0 \<longleftrightarrow> xs = []"
  proof
    show "xs = []" if "levels s = 0"
      using that nodes_okD(7,8) [OF ok, of "hd xs"] by (cases xs) (auto simp: levels_def)
    show "levels s = 0" if "xs = []"
      using that assms lv_0 [OF ok] by (cases "levels s") (auto simp: ring_rep_def)
  qed
qed (use assms in \<open>simp_all add: ring_rep_def\<close>)

lemma advance_ring:
  assumes r: "ring_rep s xs" and l: "l < levels s" and P: "downward P" and m: "start_ok (heap s) xs P (Suc l) mv"
  shows "advance (heap s) P l (fresh s) mv = Inr (reach (heap s) xs P l)"
  using advance_reach [OF ring_repD(1,4) [OF r] _ P m ring_repD(2) [OF r]] l by (simp add: levels_def)

lemma next_ring:
  assumes r: "ring_rep s xs" and l: "l < levels s" and P: "downward P"
  shows "nextAt (heap s) (reach (heap s) xs P l) l =
    Inr (case filter (\<lambda>a. \<not> P (score (heap s a))) (lv (heap s) xs l) of [] \<Rightarrow> None | v # _ \<Rightarrow> Some v)"
  using reach_next [OF ring_repD(1,4) [OF r] _ P] l by (simp add: levels_def)

lemma descend_ring:
  assumes r: "ring_rep s xs" and P: "downward P"
  shows "l \<le> levels s \<Longrightarrow> start_ok (heap s) xs P l mv \<Longrightarrow>
    descend (heap s) P (fresh s) l mv = Inr (if l = 0 then mv else reach (heap s) xs P 0)"
proof (induction l arbitrary: mv)
  case (Suc l)
  have "advance (heap s) P l (fresh s) mv = Inr (reach (heap s) xs P l)"
    using advance_ring [OF r _ P] Suc.prems by simp
  then show ?case using Suc.IH [OF _ reach_start] Suc.prems(1) by (cases l) auto
qed simp

lemma start_root: "start_ok h xs P l 0"
  by (simp add: start_ok_def)

lemma find_score:
  assumes "nodes_ok h n xs" "a \<in> set xs" "score (h a) = sc"
  shows "find (\<lambda>b. score (h b) = sc) xs = Some a"
proof -
  have s: "sorted_wrt (\<lambda>a b. score (h a) < score (h b)) xs" using assms(1) by (simp add: nodes_ok_def)
  show ?thesis using s assms(2,3) by (induction xs) auto
qed

lemma first_above:
  assumes s: "sorted_wrt (\<lambda>a b. score (h a) < score (h b)) ys" and f: "filter (\<lambda>a. \<not> score (h a) < sc) ys = v # vs"
    and b: "b \<in> set ys" "score (h b) = sc"
  shows "score (h v) = sc"
proof -
  have "sorted_wrt (\<lambda>a b. score (h a) < score (h b)) (v # vs)" unfolding f [symmetric] by (rule sorted_wrt_filter [OF s])
  moreover have "b \<in> set (v # vs)" unfolding f [symmetric] using b by auto
  moreover have "\<not> score (h v) < sc" using f by (metis filter_eq_ConsD)
  ultimately show ?thesis using b(2) by auto
qed

lemma getLoop_ring:
  assumes r: "ring_rep s xs"
  shows "l \<le> levels s \<Longrightarrow> start_ok (heap s) xs (\<lambda>x. x < sc) l mv \<Longrightarrow>
    getLoop (heap s) sc (fresh s) l mv = Inr (if l = 0 then None else find (\<lambda>a. score (heap s a) = sc) xs)"
proof (induction l arbitrary: mv)
  case (Suc l)
  let ?h = "heap s" and ?P = "\<lambda>x. x < sc"
  let ?ys = "filter (\<lambda>a. \<not> score (?h a) < sc) (lv ?h xs l)"
  note ok = ring_repD(1) [OF r]
  have l: "l < levels s" using Suc.prems(1) by simp
  have 1: "advance ?h ?P l (fresh s) mv = Inr (reach ?h xs ?P l)"
    using advance_ring [OF r l _ Suc.prems(2)] by simp
  have 2: "nextAt ?h (reach ?h xs ?P l) l = Inr (case ?ys of [] \<Rightarrow> None | v # _ \<Rightarrow> Some v)"
    using next_ring [OF r l, of ?P] by simp
  have IH: "getLoop ?h sc (fresh s) l (reach ?h xs ?P l) = Inr (if l = 0 then None else find (\<lambda>a. score (?h a) = sc) xs)"
    using Suc.IH [OF _ reach_start] l by simp
  have none: "find (\<lambda>a. score (?h a) = sc) xs = None" if "l = 0" "\<And>v vs. ?ys = v # vs \<Longrightarrow> score (?h v) \<noteq> sc"
  proof (rule ccontr)
    assume "find (\<lambda>a. score (?h a) = sc) xs \<noteq> None"
    then obtain b where b: "b \<in> set xs" "score (?h b) = sc" by (auto simp: find_None_iff)
    then have "?ys \<noteq> []" using that(1) lv_0 [OF ok] by (auto simp: filter_empty_conv)
    then obtain v vs where v: "?ys = v # vs" by (cases ?ys) auto
    then show False
      using first_above [OF nodes_okD(4) [OF ok] v, of b] b that lv_0 [OF ok] by simp
  qed
  show ?case
  proof (cases ?ys)
    case Nil
    then show ?thesis using 1 2 IH none by auto
  next
    case (Cons v vs)
    then have "v \<in> set ?ys" by simp
    then have v: "v \<in> set xs" by (simp add: lv_def)
    show ?thesis
      using 1 2 IH none Cons find_score [OF ok v, of sc] by (auto split: if_splits)
  qed
qed simp

lemma ring_get_law: "ring_rep s xs \<Longrightarrow> ring_get s sc = Inr (find (\<lambda>a. score (heap s a) = sc) xs)"
  using getLoop_ring [of s xs "levels s" sc 0] ring_repD(3) [of s xs] by (auto simp: ring_get_def start_root)

text \<open>The ring as a list of scores with their virtual nodes, and the results of the searches on it.\<close>

type_synonym ring_view = "(int \<times> string list) list"

definition view :: "SkiplistHashRing \<Rightarrow> nat list \<Rightarrow> ring_view" where
  "view s xs = map (\<lambda>a. (score (heap s a), nodeIDs (heap s a))) xs"

definition represents :: "SkiplistHashRing \<Rightarrow> ring_view \<Rightarrow> bool" where
  "represents s v \<longleftrightarrow> (\<forall>p\<in>set v. snd p \<noteq> []) \<and> (\<exists>xs. ring_rep s xs \<and> view s xs = v)"

definition ceilV :: "ring_view \<Rightarrow> int \<Rightarrow> int" where
  "ceilV v sc = (case filter (\<lambda>x. sc \<le> x) (map fst v) of x # _ \<Rightarrow> x | [] \<Rightarrow> (case v of [] \<Rightarrow> - 1 | p # _ \<Rightarrow> fst p))"

definition floorV :: "ring_view \<Rightarrow> int \<Rightarrow> int" where
  "floorV v sc = (let ys = filter (\<lambda>x. x \<le> sc) (map fst v)
     in if ys \<noteq> [] then last ys else if v \<noteq> [] then fst (last v) else - 1)"

fun addV :: "int \<Rightarrow> string \<Rightarrow> ring_view \<Rightarrow> ring_view" where
  "addV sc n [] = [(sc, [n])]"
| "addV sc n ((x, ns) # v) =
     (if sc < x then (sc, [n]) # (x, ns) # v
      else if sc = x then (x, if n \<in> set ns then ns else ns @ [n]) # v
      else (x, ns) # addV sc n v)"

definition remV :: "int \<Rightarrow> string \<Rightarrow> ring_view \<Rightarrow> ring_view" where
  "remV sc n v = filter (\<lambda>(x, ns). ns \<noteq> []) (map (\<lambda>(x, ns). (x, if x = sc then remove1 n ns else ns)) v)"

lemma view_sorted: "ring_rep s xs \<Longrightarrow> sorted_wrt (<) (map fst (view s xs))"
  by (simp add: ring_rep_def nodes_ok_def view_def sorted_wrt_map o_def)

lemma fst_view: "map fst (view s xs) = map (\<lambda>a. score (heap s a)) xs"
  by (simp add: view_def)

lemma search_ring:
  assumes r: "ring_rep s xs" and ne: "xs \<noteq> []" and P: "downward P"
  shows "descend (heap s) P (fresh s) (levels s) 0 = Inr (last (0 # filter (\<lambda>a. P (score (heap s a))) xs))"
    "nextAt (heap s) (last (0 # filter (\<lambda>a. P (score (heap s a))) xs)) 0 =
       Inr (case filter (\<lambda>a. \<not> P (score (heap s a))) xs of [] \<Rightarrow> None | v # _ \<Rightarrow> Some v)"
proof -
  have l: "0 < levels s" using ring_repD(3) [OF r] ne by simp
  have e: "reach (heap s) xs P 0 = last (0 # filter (\<lambda>a. P (score (heap s a))) xs)"
    by (simp add: reach_def lv_0 [OF ring_repD(1) [OF r]])
  show "descend (heap s) P (fresh s) (levels s) 0 = Inr (last (0 # filter (\<lambda>a. P (score (heap s a))) xs))"
    using descend_ring [OF r P _ start_root] l e by simp
  show "nextAt (heap s) (last (0 # filter (\<lambda>a. P (score (heap s a))) xs)) 0 =
       Inr (case filter (\<lambda>a. \<not> P (score (heap s a))) xs of [] \<Rightarrow> None | v # _ \<Rightarrow> Some v)"
    using next_ring [OF r l P] unfolding e lv_0 [OF ring_repD(1) [OF r]] .
qed

lemma Node_law:
  assumes "represents s v"
  shows "Node s sc = (case map_of v sc of None \<Rightarrow> Inl (ErrMsg ''score not exist'') | Some ns \<Rightarrow> Inr ns)"
proof -
  obtain xs where xs: "ring_rep s xs" "view s xs = v" using assms by (auto simp: represents_def)
  have "map_of (view s ys) sc = map_option (\<lambda>a. nodeIDs (heap s a)) (find (\<lambda>a. score (heap s a) = sc) ys)" for ys
    by (induction ys) (auto simp: view_def)
  then show ?thesis
    using ring_get_law [OF xs(1), of sc] xs(2) by (auto simp: Node_def split: option.split)
qed

lemma first_last_law:
  assumes "ring_rep s xs"
  shows "ring_first s = Inr (case view s xs of [] \<Rightarrow> - 1 | p # _ \<Rightarrow> fst p)"
    "ring_last s = Inr (if view s xs \<noteq> [] then fst (last (view s xs)) else - 1)"
proof -
  note l0 = ring_repD(3) [OF assms]
  show "ring_first s = Inr (case view s xs of [] \<Rightarrow> - 1 | p # _ \<Rightarrow> fst p)"
    using search_ring(2) [OF assms, of "\<lambda>x. False"] l0 by (cases xs) (simp_all add: ring_first_def view_def)
  show "ring_last s = Inr (if view s xs \<noteq> [] then fst (last (view s xs)) else - 1)"
  proof (cases "xs = []")
    case False
    then have "last xs \<noteq> 0" using nodes_okD(2) [OF ring_repD(1) [OF assms]] last_in_set [of xs] by metis
    then show ?thesis using search_ring(1) [OF assms False, of "\<lambda>x. True"] False by (simp add: ring_last_def view_def last_map)
  qed (use l0 in \<open>simp add: ring_last_def view_def\<close>)
qed

lemma Ceiling_law:
  assumes "represents s v"
  shows "Ceiling s sc = Inr (ceilV v sc)"
proof -
  obtain xs where r: "ring_rep s xs" and v: "view s xs = v" using assms by (auto simp: represents_def)
  show ?thesis
  proof (cases "xs = []")
    case True
    then show ?thesis using ring_repD(3) [OF r] first_last_law(1) [OF r] v
      by (simp add: Ceiling_def ring_ceiling_def ceilV_def view_def)
  next
    case False
    have f: "filter (\<lambda>x. sc \<le> x) (map fst v) = map (\<lambda>a. score (heap s a)) (filter (\<lambda>a. \<not> score (heap s a) < sc) xs)"
      by (simp add: v [symmetric] view_def filter_map o_def not_less)
    show ?thesis
      using search_ring [OF r False, of "\<lambda>x. x < sc"] ring_repD(3) [OF r] False first_last_law(1) [OF r] v
      by (cases "filter (\<lambda>a. \<not> score (heap s a) < sc) xs") (simp_all add: Ceiling_def ring_ceiling_def ceilV_def f)
  qed
qed

lemma filter_le:
  assumes "sorted_wrt (\<lambda>a b. score (h a) < score (h b)) xs"
  shows "filter (\<lambda>a. score (h a) \<le> sc) xs = filter (\<lambda>a. score (h a) < sc) xs @
    (case filter (\<lambda>a. \<not> score (h a) < sc) xs of [] \<Rightarrow> [] | v # _ \<Rightarrow> if score (h v) = sc then [v] else [])"
  using assms
proof (induction xs)
  case (Cons a xs)
  show ?case
  proof (cases "score (h a) < sc")
    case False
    have "\<forall>b\<in>set xs. sc < score (h b)" using Cons.prems False by fastforce
    then have "filter (\<lambda>a. score (h a) \<le> sc) xs = []" "filter (\<lambda>a. score (h a) < sc) xs = []"
      by (auto simp: filter_empty_conv)
    then show ?thesis using False by simp
  qed (use Cons in simp)
qed simp

lemma Floor_law:
  assumes "represents s v"
  shows "Floor s sc = Inr (floorV v sc)"
proof -
  obtain xs where r: "ring_rep s xs" and v: "view s xs = v" using assms by (auto simp: represents_def)
  show ?thesis
  proof (cases "xs = []")
    case True
    then show ?thesis using ring_repD(3) [OF r] first_last_law(2) [OF r] v
      by (simp add: Floor_def ring_floor_def floorV_def view_def)
  next
    case False
    let ?lo = "filter (\<lambda>a. score (heap s a) < sc) xs" and ?hi = "filter (\<lambda>a. \<not> score (heap s a) < sc) xs"
    have st: "sorted_wrt (\<lambda>a b. score (heap s a) < score (heap s b)) xs"
      using ring_repD(1) [OF r] by (simp add: nodes_ok_def)
    have f: "filter (\<lambda>x. x \<le> sc) (map fst v) = map (\<lambda>a. score (heap s a)) (filter (\<lambda>a. score (heap s a) \<le> sc) xs)"
      by (simp add: v [symmetric] view_def filter_map o_def)
    have nz: "last (0 # ?lo) = 0 \<longleftrightarrow> ?lo = []"
      using nodes_okD(2) [OF ring_repD(1) [OF r]] last_in_set [of ?lo] by (cases "?lo = []") (auto intro: gr0I)
    have "ring_floor s sc = Inr (if (case ?hi of [] \<Rightarrow> False | n # _ \<Rightarrow> score (heap s n) = sc) then Some sc
        else if ?lo = [] then None else Some (score (heap s (last ?lo))))"
      using search_ring [OF r False, of "\<lambda>x. x < sc"] ring_repD(3) [OF r] False nz
      by (auto simp: ring_floor_def split: list.split)
    then show ?thesis
      using first_last_law(2) [OF r] v False
      by (cases ?hi) (auto simp: Floor_def floorV_def f filter_le [OF st] last_map Let_def)
  qed
qed

section \<open>Adding a virtual node\<close>

text \<open>The pointers of a level after the other levels have been changed.\<close>

lemma setNext_simps [simp]:
  "score (setNext h a l v b) = score (h b)" "nodeIDs (setNext h a l v b) = nodeIDs (h b)"
  "height (setNext h a l v) b = height h b" "l' \<noteq> l \<Longrightarrow> ptr (setNext h a l v) l' = ptr h l'"
  by (auto simp: setNext_def fun_eq_iff)

lemma setNext_ptr: "l < height h a \<Longrightarrow> ptr (setNext h a l v) l = (ptr h l)(a := v)"
  by (auto simp: setNext_def fun_eq_iff)

definition same_nodes :: "(nat \<Rightarrow> virtualNode) \<Rightarrow> (nat \<Rightarrow> virtualNode) \<Rightarrow> bool" where
  "same_nodes h h' \<longleftrightarrow> (\<forall>a. score (h' a) = score (h a) \<and> nodeIDs (h' a) = nodeIDs (h a) \<and> height h' a = height h a)"

lemma same_nodes_refl: "same_nodes h h"
  and same_nodes_trans: "same_nodes h h1 \<Longrightarrow> same_nodes h1 h2 \<Longrightarrow> same_nodes h h2"
  and same_nodes_set: "same_nodes h (setNext h a l v)"
  by (auto simp: same_nodes_def)

lemma same_nodesD:
  assumes "same_nodes h h'"
  shows "lv h' xs l = lv h xs l" "nodes_ok h' n xs = nodes_ok h n xs" "reach h' xs P l = reach h xs P l"
    "start_ok h' xs P l mv = start_ok h xs P l mv"
  using assms by (auto simp: same_nodes_def lv_def nodes_ok_def reach_def start_ok_def)

definition loop_ok :: "(nat \<Rightarrow> virtualNode) \<Rightarrow> nat \<Rightarrow> nat list \<Rightarrow> nat \<Rightarrow> bool" where
  "loop_ok h n xs l \<longleftrightarrow> nodes_ok h n xs \<and> 0 < n \<and> l \<le> height h 0 \<and> (\<forall>l'<l. level_path (ptr h l') 0 (lv h xs l'))"

lemma loop_ok_Suc: "loop_ok h n xs (Suc l) \<Longrightarrow> loop_ok h n xs l"
  by (simp add: loop_ok_def)

lemma loop_ok_same:
  assumes "loop_ok h n xs l" "same_nodes h h'" "\<And>l'. l' < l \<Longrightarrow> ptr h' l' = ptr h l'"
  shows "loop_ok h' n xs l"
  using assms same_nodesD [OF assms(2)] by (auto simp: loop_ok_def same_nodes_def)

lemma loop_advance:
  assumes k: "loop_ok h n xs (Suc l)" and P: "downward P" and m: "start_ok h xs P (Suc l) mv"
  shows "advance h P l n mv = Inr (reach h xs P l)"
    "nextAt h (reach h xs P l) l = Inr (case filter (\<lambda>a. \<not> P (score (h a))) (lv h xs l) of [] \<Rightarrow> None | v # _ \<Rightarrow> Some v)"
    "nextAt h (reach h xs P l) l = Inr (ptr h l (reach h xs P l))" "l < height h (reach h xs P l)"
proof -
  have ok: "nodes_ok h n xs" "level_path (ptr h l) 0 (lv h xs l)" "l < height h 0" "0 < n" using k by (auto simp: loop_ok_def)
  show "advance h P l n mv = Inr (reach h xs P l)"
    by (rule advance_reach [OF ok(1-3) P m]) (use nodes_okD(5) [OF ok(1), of l] ok(4) in auto)
  show 2: "nextAt h (reach h xs P l) l = Inr (case filter (\<lambda>a. \<not> P (score (h a))) (lv h xs l) of [] \<Rightarrow> None | v # _ \<Rightarrow> Some v)"
    by (rule reach_next [OF ok(1-3) P])
  show "nextAt h (reach h xs P l) l = Inr (ptr h l (reach h xs P l))" "l < height h (reach h xs P l)"
    using 2 by (auto simp: nextAt_def split: if_splits)
qed

lemma level_distinct: "nodes_ok h n xs \<Longrightarrow> distinct (0 # lv h xs l)"
  using nodes_okD(1,2) by (auto simp: lv_def)

lemma linkLoop_law:
  assumes "loop_ok h n xs l" "start_ok h xs (\<lambda>x. x < sc) l mv" "new \<notin> set (0 # xs)" "l \<le> height h new"
  shows "\<exists>h'. linkLoop h sc n new l mv = Inr h' \<and> same_nodes h h' \<and> (\<forall>l'\<ge>l. ptr h' l' = ptr h l') \<and>
    (\<forall>l'<l. level_path (ptr h' l') 0
       (filter (\<lambda>a. score (h a) < sc) (lv h xs l') @ new # filter (\<lambda>a. \<not> score (h a) < sc) (lv h xs l')))"
  using assms
proof (induction l arbitrary: h mv)
  case (Suc l)
  let ?P = "\<lambda>x. x < sc" and ?lo = "filter (\<lambda>a. score (h a) < sc)" and ?hi = "filter (\<lambda>a. \<not> score (h a) < sc)"
  let ?m = "reach h xs ?P l"
  have ok: "nodes_ok h n xs" using Suc.prems(1) by (simp add: loop_ok_def)
  have adv: "advance h ?P l n mv = Inr ?m" "nextAt h ?m l = Inr (ptr h l ?m)" "l < height h ?m"
    using loop_advance [OF Suc.prems(1) downward_less Suc.prems(2)] by blast+
  define h1 where "h1 = setNext (setNext h new l (ptr h l ?m)) ?m l (Some new)"
  have sn: "same_nodes h h1" unfolding h1_def by (blast intro: same_nodes_trans same_nodes_set)
  note D = same_nodesD [OF sn]
  have other: "ptr h1 l' = ptr h l'" if "l' \<noteq> l" for l' using that by (simp add: h1_def)
  have p1: "ptr h1 l = (ptr h l)(new := ptr h l ?m, ?m := Some new)"
    using adv(3) Suc.prems(4) by (simp add: h1_def setNext_ptr)
  have sp: "lv h xs l = ?lo (lv h xs l) @ ?hi (lv h xs l)"
    using sorted_split [OF nodes_okD(4) [OF ok] downward_less] .
  have "level_path (ptr h1 l) 0 (?lo (lv h xs l) @ new # ?hi (lv h xs l))"
    unfolding p1 reach_def
  proof (rule path_insert)
    show "level_path (ptr h l) 0 (?lo (lv h xs l) @ ?hi (lv h xs l))" using Suc.prems(1) sp by (simp add: loop_ok_def)
    show "distinct (0 # ?lo (lv h xs l) @ ?hi (lv h xs l))" using level_distinct [OF ok, of l] sp by simp
    show "new \<notin> set (0 # ?lo (lv h xs l) @ ?hi (lv h xs l))" using Suc.prems(3) by (auto simp: lv_def)
  qed
  note here = this
  have "loop_ok h1 n xs l" using loop_ok_same [OF loop_ok_Suc [OF Suc.prems(1)] sn] other by simp
  moreover have "start_ok h1 xs ?P l ?m" unfolding D(4) by (rule reach_start)
  moreover have "l \<le> height h1 new" using Suc.prems(4) sn by (simp add: same_nodes_def)
  ultimately obtain h' where h': "linkLoop h1 sc n new l ?m = Inr h'" "same_nodes h1 h'" "\<forall>l'\<ge>l. ptr h' l' = ptr h1 l'"
    "\<forall>l'<l. level_path (ptr h' l') 0 (?lo (lv h xs l') @ new # ?hi (lv h xs l'))"
    using Suc.IH [of h1 ?m] Suc.prems(3) sn unfolding D(1) by (auto simp: same_nodes_def)
  have "linkLoop h sc n new (Suc l) mv = Inr h'" using adv h'(1) by (simp add: h1_def)
  moreover have "level_path (ptr h' l') 0 (?lo (lv h xs l') @ new # ?hi (lv h xs l'))" if "l' < Suc l" for l'
    using that here h'(3,4) by (cases "l' = l") auto
  moreover have "ptr h' l' = ptr h l'" if "Suc l \<le> l'" for l' using that h'(3) other [of l'] by simp
  ultimately show ?case using same_nodes_trans [OF sn h'(2)] by blast
qed (auto intro: same_nodes_refl)

text \<open>The heap before the new node is linked.\<close>

definition grown :: "(nat \<Rightarrow> virtualNode) \<Rightarrow> nat \<Rightarrow> nat \<Rightarrow> int \<Rightarrow> string \<Rightarrow> (nat \<Rightarrow> virtualNode)" where
  "grown h n rLevel sc nodeID =
     (h(0 := (h 0)\<lparr>nexts := nexts (h 0) @ replicate (rLevel + 1 - length (nexts (h 0))) None\<rparr>))
       (n := \<lparr>score = sc, nodeIDs = [nodeID], nexts = replicate (rLevel + 1) None\<rparr>)"

lemma grown_simps:
  assumes "0 < n"
  shows "a \<noteq> n \<Longrightarrow> score (grown h n r sc i a) = score (h a)" "a \<noteq> n \<Longrightarrow> nodeIDs (grown h n r sc i a) = nodeIDs (h a)"
    "a \<noteq> n \<Longrightarrow> a \<noteq> 0 \<Longrightarrow> grown h n r sc i a = h a" "height (grown h n r sc i) n = r + 1" "score (grown h n r sc i n) = sc"
    "nodeIDs (grown h n r sc i n) = [i]" "height (grown h n r sc i) 0 = max (height h 0) (r + 1)"
    "l < height h 0 \<Longrightarrow> ptr (grown h n r sc i) l 0 = ptr h l 0"
    "height h 0 \<le> l \<Longrightarrow> l < r + 1 \<Longrightarrow> ptr (grown h n r sc i) l 0 = None"
  using assms by (simp_all add: grown_def nth_append)

lemma grown_loop:
  assumes r: "ring_rep s xs"
  shows "nodes_ok (grown (heap s) (fresh s) rl sc i) (fresh s) xs" "lv (grown (heap s) (fresh s) rl sc i) xs l = lv (heap s) xs l"
    "l < max (levels s) (rl + 1) \<Longrightarrow> level_path (ptr (grown (heap s) (fresh s) rl sc i) l) 0 (lv (heap s) xs l)"
proof -
  let ?h = "grown (heap s) (fresh s) rl sc i"
  note ok = ring_repD(1) [OF r]
  have t: "0 < fresh s" using r by (simp add: ring_rep_def)
  have a: "?h a = heap s a" if "a \<in> set xs" for a
  proof -
    have "a \<noteq> 0" using nodes_okD(2) [OF ok] that by metis
    moreover have "a \<noteq> fresh s" using nodes_okD(3) [OF ok that] by simp
    ultimately show ?thesis by (simp add: grown_simps(3) [OF t])
  qed
  show "lv ?h xs l = lv (heap s) xs l" using a by (simp add: lv_def cong: filter_cong)
  show "nodes_ok ?h (fresh s) xs"
  proof -
    have "sorted_wrt (\<lambda>a b. score (?h a) < score (?h b)) xs"
      by (rule sorted_wrt_mono_rel [of xs "\<lambda>a b. score (heap s a) < score (heap s b)"]) (use ok a in \<open>simp_all add: nodes_ok_def\<close>)
    then show ?thesis using ok a by (simp add: nodes_ok_def grown_simps(7) [OF t] le_max_iff_disj)
  qed
  show "level_path (ptr ?h l) 0 (lv (heap s) xs l)" if "l < max (levels s) (rl + 1)"
  proof (cases "l < levels s")
    case True
    have "level_path (ptr ?h l) 0 (lv (heap s) xs l) = level_path (ptr (heap s) l) 0 (lv (heap s) xs l)"
      by (rule path_cong) (use True a grown_simps(8) [OF t] in \<open>auto simp: levels_def lv_def\<close>)
    then show ?thesis using ring_repD(4) [OF r True] by simp
  next
    case False
    then have "\<forall>a\<in>set xs. \<not> l < height (heap s) a" using nodes_okD(8) [OF ok] by (auto simp: levels_def not_less intro: order_trans)
    then have "lv (heap s) xs l = []" by (simp add: lv_def filter_empty_conv)
    then show ?thesis using grown_simps(9) [OF t] False that by (simp add: levels_def)
  qed
qed

lemma view_add_new:
  assumes "sorted_wrt (<) (map fst v)" "sc \<notin> fst ` set v"
  shows "addV sc n v = filter (\<lambda>p. fst p < sc) v @ (sc, [n]) # filter (\<lambda>p. \<not> fst p < sc) v"
  using assms
proof (induction v)
  case (Cons p v)
  obtain x ns where p: "p = (x, ns)" by (cases p)
  show ?case
  proof (cases "sc < x")
    case True
    then have "\<forall>q\<in>set v. \<not> fst q < sc" using Cons.prems(1) p by (auto simp: not_less)
    then have "filter (\<lambda>p. fst p < sc) v = []" "filter (\<lambda>p. \<not> fst p < sc) v = v" by simp_all
    then show ?thesis using True p by simp
  qed (use Cons p in auto)
qed simp

lemma view_add_old:
  assumes "sorted_wrt (<) (map fst v)" "sc \<in> fst ` set v"
  shows "addV sc n v = map (\<lambda>(x, ns). (x, if x = sc \<and> n \<notin> set ns then ns @ [n] else ns)) v"
  using assms
proof (induction v)
  case (Cons p v)
  obtain x ns where p: "p = (x, ns)" by (cases p)
  show ?case
  proof (cases "sc = x")
    case True
    then have "map (\<lambda>(x, ns). (x, if x = sc \<and> n \<notin> set ns then ns @ [n] else ns)) v = v"
      using Cons.prems(1) p by (intro map_idI) force
    then show ?thesis using True p by simp
  next
    case False
    then have "\<not> sc < x" using Cons.prems p by force
    then show ?thesis using False Cons p by auto
  qed
qed simp

lemma rep_cong:
  assumes "\<And>a. score (heap s' a) = score (heap s a)" "\<And>a. nexts (heap s' a) = nexts (heap s a)" "fresh s' = fresh s"
  shows "ring_rep s' xs = ring_rep s xs"
  by (simp add: ring_rep_def nodes_ok_def lv_def levels_def assms)

lemma rename_rep:
  assumes r: "ring_rep s xs" and n: "n \<in> set xs"
  shows "ring_rep (s\<lparr>heap := (heap s)(n := (heap s n)\<lparr>nodeIDs := ns\<rparr>)\<rparr>) xs"
    "view (s\<lparr>heap := (heap s)(n := (heap s n)\<lparr>nodeIDs := ns\<rparr>)\<rparr>) xs =
       map (\<lambda>(x, ms). (x, if x = score (heap s n) then ns else ms)) (view s xs)"
proof -
  let ?h = "(heap s)(n := (heap s n)\<lparr>nodeIDs := ns\<rparr>)"
  show "ring_rep (s\<lparr>heap := ?h\<rparr>) xs"
    using r by (subst rep_cong [of _ s]) auto
  have "score (heap s a) = score (heap s n) \<longleftrightarrow> a = n" if "a \<in> set xs" for a
  proof -
    have "distinct (map (\<lambda>a. score (heap s a)) xs)"
      using view_sorted [OF r] unfolding fst_view by (simp add: strict_sorted_iff)
    then show ?thesis using that n by (auto simp: distinct_map inj_on_def)
  qed
  then show "view (s\<lparr>heap := ?h\<rparr>) xs = map (\<lambda>(x, ms). (x, if x = score (heap s n) then ns else ms)) (view s xs)"
    by (auto simp: view_def)
qed

lemma find_SomeD: "find P xs = Some a \<Longrightarrow> a \<in> set xs \<and> P a"
  by (auto simp: find_Some_iff)

lemma addV_nonempty: "\<forall>p\<in>set v. snd p \<noteq> [] \<Longrightarrow> \<forall>p\<in>set (addV sc i v). snd p \<noteq> []"
  by (induction sc i v rule: addV.induct) auto

lemma add_old_law:
  assumes r: "ring_rep s xs" and v: "\<forall>p\<in>set (view s xs). snd p \<noteq> []" and f: "find (\<lambda>a. score (heap s a) = sc) xs = Some n"
  shows "\<exists>s'. ring_Add rl sc i s = Inr s' \<and> represents s' (addV sc i (view s xs)) \<and>
    nodeToReplicas s' = nodeToReplicas s \<and> nodeToDataKey s' = nodeToDataKey s"
proof -
  have n: "n \<in> set xs" "score (heap s n) = sc" using find_SomeD [OF f] by auto
  let ?ns = "if i \<in> set (nodeIDs (heap s n)) then nodeIDs (heap s n) else nodeIDs (heap s n) @ [i]"
  define s' where "s' = s\<lparr>heap := (heap s)(n := (heap s n)\<lparr>nodeIDs := ?ns\<rparr>)\<rparr>"
  have "(heap s n)\<lparr>nodeIDs := nodeIDs (heap s n)\<rparr> = heap s n" by simp
  then have "ring_Add rl sc i s = Inr s'"
    using ring_get_law [OF r, of sc] f by (simp add: ring_Add_def s'_def)
  moreover have "represents s' (addV sc i (view s xs))"
  proof -
    have m: "(sc, nodeIDs (heap s n)) \<in> set (view s xs)" using n by (auto simp: view_def)
    have u: "ns = nodeIDs (heap s n)" if "(sc, ns) \<in> set (view s xs)" for ns
    proof -
      have "distinct (map fst (view s xs))" using view_sorted [OF r] by (simp add: strict_sorted_iff)
      then show ?thesis using that m by (metis eq_key_imp_eq_value)
    qed
    have "addV sc i (view s xs) = map (\<lambda>(x, ms). (x, if x = score (heap s n) then ?ns else ms)) (view s xs)"
      unfolding view_add_old [OF view_sorted [OF r] image_eqI [OF _ m, of sc], simplified]
      using n(2) u by (intro map_cong) auto
    then show ?thesis
      unfolding represents_def s'_def
      by (intro exI [of _ xs] conjI addV_nonempty [OF v]) (simp_all only: rename_rep [OF r n(1)])
  qed
  ultimately show ?thesis by (auto simp: s'_def)
qed

lemma add_new_rep:
  assumes r: "ring_rep s xs" and f: "\<forall>a\<in>set xs. score (heap s a) \<noteq> sc"
    and h: "same_nodes (grown (heap s) (fresh s) rl sc i) h" "\<forall>l\<ge>rl + 1. ptr h l = ptr (grown (heap s) (fresh s) rl sc i) l"
      "\<forall>l<rl + 1. level_path (ptr h l) 0 (filter (\<lambda>a. score (grown (heap s) (fresh s) rl sc i a) < sc) (lv (heap s) xs l) @
         fresh s # filter (\<lambda>a. \<not> score (grown (heap s) (fresh s) rl sc i a) < sc) (lv (heap s) xs l))"
    and s': "s' = s\<lparr>heap := h, fresh := fresh s + 1\<rparr>"
    and ys: "ys = filter (\<lambda>a. score (heap s a) < sc) xs @ fresh s # filter (\<lambda>a. \<not> score (heap s a) < sc) xs"
  shows "ring_rep s' ys"
    "view s' ys = filter (\<lambda>p. fst p < sc) (view s xs) @ (sc, [i]) # filter (\<lambda>p. \<not> fst p < sc) (view s xs)"
proof -
  let ?g = "grown (heap s) (fresh s) rl sc i" and ?n = "fresh s"
  note ok = ring_repD(1) [OF r] and g = grown_loop [OF r, where rl = rl and sc = sc and i = i]
  have t: "0 < fresh s" using r by (simp add: ring_rep_def)
  have xs: "a \<noteq> ?n" "a \<noteq> 0" if "a \<in> set xs" for a
    using nodes_okD(3) [OF ok that] nodes_okD(2) [OF ok] that by (auto intro: gr0I)
  have hs: "score (h a) = score (heap s a)" "nodeIDs (h a) = nodeIDs (heap s a)" "height h a = height (heap s) a" if "a \<in> set xs" for a
    using h(1) xs [OF that] grown_simps(3) [OF t] by (simp_all add: same_nodes_def)
  have hn: "score (h ?n) = sc" "nodeIDs (h ?n) = [i]" "height h ?n = rl + 1" "height h 0 = max (levels s) (rl + 1)"
    using h(1) grown_simps [OF t] by (simp_all add: same_nodes_def levels_def)
  have fg: "filter (\<lambda>a. score (?g a) < sc) ys = filter (\<lambda>a. score (heap s a) < sc) ys"
    "filter (\<lambda>a. \<not> score (?g a) < sc) ys = filter (\<lambda>a. \<not> score (heap s a) < sc) ys" if "set ys \<subseteq> set xs" for ys
    using that xs grown_simps(1) [OF t] by (auto intro!: filter_cong simp: subset_iff)
  have lvy: "lv h ys l = filter (\<lambda>a. score (heap s a) < sc) (lv (heap s) xs l) @
      (if l < rl + 1 then [?n] else []) @ filter (\<lambda>a. \<not> score (heap s a) < sc) (lv (heap s) xs l)" for l
  proof -
    have "lv h (filter Q xs) l = filter Q (lv (heap s) xs l)" for Q
      unfolding lv_def filter_filter by (rule filter_cong) (use hs(3) in auto)
    moreover have "lv h (us @ ?n # vs) l = lv h us l @ (if l < rl + 1 then [?n] else []) @ lv h vs l" for us vs
      by (simp add: lv_def hn(3))
    ultimately show ?thesis unfolding ys by simp
  qed
  have lvx: "filter (\<lambda>a. score (heap s a) < sc) (lv (heap s) xs l) @ filter (\<lambda>a. \<not> score (heap s a) < sc) (lv (heap s) xs l) = lv (heap s) xs l" for l
    using sorted_split [OF nodes_okD(4) [OF ok] downward_less] by metis
  have sub: "set (lv (heap s) xs l) \<subseteq> set xs" for l by (auto simp: lv_def)
  have ch: "level_path (ptr h l) 0 (lv h ys l)" if "l < max (levels s) (rl + 1)" for l
    using h(2,3) g(3) [OF that] lvx [of l] by (cases "l < rl + 1") (auto simp: lvy fg [OF sub])
  have ne: "lv h ys l \<noteq> []" if "l < max (levels s) (rl + 1)" for l
    using ring_repD(5) [OF r, of l] lvx [of l] that by (cases "l < rl + 1") (auto simp: lvy)
  have "nodes_ok h (?n + 1) ys"
  proof -
    have "sorted_wrt (\<lambda>a b. score (h a) < score (h b)) xs"
      by (rule sorted_wrt_mono_rel [of xs "\<lambda>a b. score (heap s a) < score (heap s b)"]) (use ok hs in \<open>simp_all add: nodes_ok_def\<close>)
    then have "sorted_wrt (\<lambda>a b. score (h a) < score (h b)) ys"
      using f by (auto simp: ys sorted_wrt_append sorted_wrt_filter hs hn(1) not_less order_le_less)
    moreover have "distinct ys" using nodes_okD(1) [OF ok] xs by (auto simp: ys)
    moreover have "set ys \<subseteq> {0<..<?n + 1}" using ok t by (auto simp: ys nodes_ok_def subset_iff)
    moreover have "0 < height h a \<and> height h a \<le> height h 0" if "a \<in> set xs" for a
      using nodes_okD(7,8) [OF ok that] hs(3) [OF that] hn(4) by (simp add: levels_def del: length_greater_0_conv)
    then have "\<forall>a\<in>set ys. 0 < height h a \<and> height h a \<le> height h 0" using hn(3,4) by (auto simp: ys)
    ultimately show ?thesis unfolding nodes_ok_def by blast
  qed
  then show "ring_rep s' ys" using ch ne hn(4) by (simp add: s' ring_rep_def levels_def)
  show "view s' ys = filter (\<lambda>p. fst p < sc) (view s xs) @ (sc, [i]) # filter (\<lambda>p. \<not> fst p < sc) (view s xs)"
    using hs hn by (simp add: s' ys view_def filter_map o_def)
qed

lemma Add_law:
  assumes "represents s v"
  shows "\<exists>s'. ring_Add rl sc i s = Inr s' \<and> represents s' (addV sc i v) \<and>
    nodeToReplicas s' = nodeToReplicas s \<and> nodeToDataKey s' = nodeToDataKey s"
proof -
  obtain xs where r: "ring_rep s xs" and v: "view s xs = v" and nv: "\<forall>p\<in>set v. snd p \<noteq> []"
    using assms by (auto simp: represents_def)
  show ?thesis
  proof (cases "find (\<lambda>a. score (heap s a) = sc) xs")
    case None
    let ?g = "grown (heap s) (fresh s) rl sc i"
    have f: "\<forall>a\<in>set xs. score (heap s a) \<noteq> sc" using None by (simp add: find_None_iff)
    note g = grown_loop [OF r, where rl = rl and sc = sc and i = i]
    have t: "0 < fresh s" using r by (simp add: ring_rep_def)
    have "loop_ok ?g (fresh s) xs (rl + 1)" using g t grown_simps(7) [OF t] by (simp add: loop_ok_def)
    moreover have "fresh s \<notin> set (0 # xs)" using nodes_okD(3) [OF ring_repD(1) [OF r], of "fresh s"] t by auto
    ultimately obtain h where h: "linkLoop ?g sc (fresh s) (fresh s) (rl + 1) 0 = Inr h" "same_nodes ?g h"
      "\<forall>l\<ge>rl + 1. ptr h l = ptr ?g l"
      "\<forall>l<rl + 1. level_path (ptr h l) 0 (filter (\<lambda>a. score (?g a) < sc) (lv ?g xs l) @ fresh s # filter (\<lambda>a. \<not> score (?g a) < sc) (lv ?g xs l))"
      using linkLoop_law [OF _ start_root, of ?g "fresh s" xs "rl + 1" "fresh s" sc] grown_simps(4) [OF t] by auto
    define s' where "s' = s\<lparr>heap := h, fresh := fresh s + 1\<rparr>"
    have "ring_Add rl sc i s = Inr s'"
      using ring_get_law [OF r, of sc] None h(1) by (simp add: ring_Add_def s'_def grown_def Let_def del: linkLoop.simps)
    moreover have "sc \<notin> fst ` set v" using f by (auto simp: v [symmetric] view_def)
    then have "represents s' (addV sc i v)"
      using add_new_rep [OF r f h(2,3) h(4) [unfolded g(2)] s'_def refl] view_add_new view_sorted [OF r] v addV_nonempty [OF nv]
      unfolding represents_def by metis
    ultimately show ?thesis by (auto simp: s'_def)
  qed (use add_old_law [OF r] v nv in metis)
qed

section \<open>Removing a virtual node\<close>

lemma filter_ne:
  assumes "sorted_wrt (\<lambda>a b. score (h a) < score (h b)) ys"
  shows "filter (\<lambda>a. score (h a) \<noteq> sc) ys = filter (\<lambda>a. score (h a) < sc) ys @
    (case filter (\<lambda>a. \<not> score (h a) < sc) ys of [] \<Rightarrow> [] | v # vs \<Rightarrow> if score (h v) = sc then vs else v # vs)"
  using assms
proof (induction ys)
  case (Cons a ys)
  show ?case
  proof (cases "score (h a) < sc")
    case False
    have "\<forall>b\<in>set ys. sc < score (h b)" using Cons.prems False by fastforce
    then have "filter (\<lambda>a. score (h a) \<noteq> sc) ys = ys" "filter (\<lambda>a. score (h a) < sc) ys = []" "filter (\<lambda>a. \<not> score (h a) < sc) ys = ys"
      by (auto simp: filter_empty_conv filter_id_conv)
    then show ?thesis using False by simp
  qed (use Cons in auto)
qed simp

lemma unlinkLoop_law:
  assumes "loop_ok h n xs l" "start_ok h xs (\<lambda>x. x < sc) l mv"
  shows "\<exists>h'. unlinkLoop h sc n l mv = Inr h' \<and> same_nodes h h' \<and> (\<forall>l'\<ge>l. ptr h' l' = ptr h l') \<and>
    (\<forall>a. a \<noteq> 0 \<and> a \<notin> set xs \<longrightarrow> h' a = h a) \<and>
    (\<forall>l'<l. level_path (ptr h' l') 0 (filter (\<lambda>a. score (h a) \<noteq> sc) (lv h xs l')))"
  using assms
proof (induction l arbitrary: h mv)
  case (Suc l)
  let ?P = "\<lambda>x. x < sc" and ?lo = "filter (\<lambda>a. score (h a) < sc)" and ?hi = "filter (\<lambda>a. \<not> score (h a) < sc)"
  let ?m = "reach h xs ?P l"
  have ok: "nodes_ok h n xs" using Suc.prems(1) by (simp add: loop_ok_def)
  note adv = loop_advance [OF Suc.prems(1) downward_less Suc.prems(2)]
  have sp: "lv h xs l = ?lo (lv h xs l) @ ?hi (lv h xs l)"
    using sorted_split [OF nodes_okD(4) [OF ok] downward_less] .
  have c: "level_path (ptr h l) 0 (?lo (lv h xs l) @ ?hi (lv h xs l))" using Suc.prems(1) sp by (simp add: loop_ok_def)
  have "\<exists>h1. unlinkLoop h sc n (Suc l) mv = unlinkLoop h1 sc n l ?m \<and> same_nodes h h1 \<and> (\<forall>l'. l' \<noteq> l \<longrightarrow> ptr h1 l' = ptr h l') \<and>
      (\<forall>a. a \<noteq> 0 \<and> a \<notin> set xs \<longrightarrow> h1 a = h a) \<and> level_path (ptr h1 l) 0 (filter (\<lambda>a. score (h a) \<noteq> sc) (lv h xs l))"
  proof (cases "\<exists>v vs. ?hi (lv h xs l) = v # vs \<and> score (h v) = sc")
    case True
    then obtain v vs where v: "?hi (lv h xs l) = v # vs" "score (h v) = sc" by blast
    define h1 where "h1 = setNext h ?m l (ptr h l v)"
    have "v \<in> set (?hi (lv h xs l))" using v(1) by simp
    then have hv: "l < height h v" by (simp add: lv_def)
    have "unlinkLoop h sc n (Suc l) mv = unlinkLoop h1 sc n l ?m"
      using adv(1,2) v hv by (simp add: h1_def nextAt_def [of h v])
    moreover have p1: "ptr h1 l = (ptr h l)(?m := ptr h l v)" using adv(4) by (simp add: h1_def setNext_ptr)
    have "level_path (ptr h1 l) 0 (?lo (lv h xs l) @ vs)"
      unfolding p1 reach_def
      by (rule path_remove) (use c v level_distinct [OF ok, of l] sp in simp_all)
    moreover have "filter (\<lambda>a. score (h a) \<noteq> sc) (lv h xs l) = ?lo (lv h xs l) @ vs"
      using filter_ne [OF nodes_okD(4) [OF ok], of sc l] v by simp
    moreover have "?m = 0 \<or> ?m \<in> set xs" using reach_start [of h xs ?P l] by (auto simp: start_ok_def)
    then have "\<forall>a. a \<noteq> 0 \<and> a \<notin> set xs \<longrightarrow> h1 a = h a" by (auto simp: h1_def setNext_def)
    moreover have "same_nodes h h1" "\<forall>l'. l' \<noteq> l \<longrightarrow> ptr h1 l' = ptr h l'" by (simp_all add: h1_def same_nodes_set)
    ultimately show ?thesis by metis
  next
    case False
    have "unlinkLoop h sc n (Suc l) mv = unlinkLoop h sc n l ?m"
      using adv(1,2) False sp by (cases "?hi (lv h xs l)") (auto dest: filter_eq_ConsD)
    moreover have "filter (\<lambda>a. score (h a) \<noteq> sc) (lv h xs l) = lv h xs l"
      using filter_ne [OF nodes_okD(4) [OF ok], of sc l] False sp by (cases "?hi (lv h xs l)") auto
    ultimately show ?thesis using c sp by (intro exI [of _ h]) (auto simp: same_nodes_refl)
  qed
  then obtain h1 where h1: "unlinkLoop h sc n (Suc l) mv = unlinkLoop h1 sc n l ?m" "same_nodes h h1" "\<forall>l'. l' \<noteq> l \<longrightarrow> ptr h1 l' = ptr h l'"
      "\<forall>a. a \<noteq> 0 \<and> a \<notin> set xs \<longrightarrow> h1 a = h a" "level_path (ptr h1 l) 0 (filter (\<lambda>a. score (h a) \<noteq> sc) (lv h xs l))" by blast
  note D = same_nodesD [OF h1(2)]
  have "loop_ok h1 n xs l" using loop_ok_same [OF loop_ok_Suc [OF Suc.prems(1)] h1(2)] h1(3) by simp
  moreover have "start_ok h1 xs ?P l ?m" unfolding D(4) by (rule reach_start)
  ultimately obtain h' where h': "unlinkLoop h1 sc n l ?m = Inr h'" "same_nodes h1 h'" "\<forall>l'\<ge>l. ptr h' l' = ptr h1 l'"
    "\<forall>a. a \<noteq> 0 \<and> a \<notin> set xs \<longrightarrow> h' a = h1 a"
    "\<forall>l'<l. level_path (ptr h' l') 0 (filter (\<lambda>a. score (h a) \<noteq> sc) (lv h xs l'))"
    using Suc.IH [of h1 ?m] h1(2) unfolding D(1) by (auto simp: same_nodes_def)
  have "level_path (ptr h' l') 0 (filter (\<lambda>a. score (h a) \<noteq> sc) (lv h xs l'))" if "l' < Suc l" for l'
    using that h1(5) h'(3,5) by (cases "l' = l") auto
  moreover have "ptr h' l' = ptr h l'" if "Suc l \<le> l'" for l' using that h'(3) h1(3) by simp
  ultimately show ?case
    using same_nodes_trans [OF h1(2) h'(2)] h1(1,4) h'(1,4) by (intro exI [of _ h']) auto
qed (auto intro: same_nodes_refl)

lemma trim_rep:
  assumes r: "ring_rep s xs" and h: "same_nodes (heap s) h"
    and c: "\<forall>l<levels s. level_path (ptr h l) 0 (filter (\<lambda>a. score (heap s a) \<noteq> sc) (lv (heap s) xs l))"
    and s': "heap s' = trimRoot h" "fresh s' = fresh s"
  shows "ring_rep s' (filter (\<lambda>a. score (heap s a) \<noteq> sc) xs)"
    "view s' (filter (\<lambda>a. score (heap s a) \<noteq> sc) xs) = filter (\<lambda>p. fst p \<noteq> sc) (view s xs)"
proof -
  let ?ys = "filter (\<lambda>a. score (heap s a) \<noteq> sc) xs"
  note ok = ring_repD(1) [OF r]
  have hs: "score (h a) = score (heap s a)" "nodeIDs (h a) = nodeIDs (heap s a)" "height h a = height (heap s) a" for a
    using h by (simp_all add: same_nodes_def)
  have nz: "a \<noteq> 0" if "a \<in> set xs" for a using nodes_okD(2) [OF ok] that by metis
  have tr: "trimRoot h a = h a" if "a \<in> set xs" for a using nz [OF that] by (simp add: trimRoot_def)
  have lvy: "lv (trimRoot h) ?ys l = filter (\<lambda>a. score (heap s a) \<noteq> sc) (lv (heap s) xs l)" for l
    unfolding lv_def filter_filter by (rule filter_cong) (use tr hs(3) in auto)
  let ?L = "length (takeWhile (\<lambda>x. x \<noteq> None) (nexts (h 0)))"
  have L: "height (trimRoot h) 0 = ?L" by (simp add: trimRoot_def)
  have Ls: "?L \<le> levels s" using length_takeWhile_le [of _ "nexts (h 0)"] hs(3) [of 0] by (simp add: levels_def)
  have root: "ptr (trimRoot h) l 0 = ptr h l 0 \<and> ptr h l 0 \<noteq> None" if "l < ?L" for l
    using that nth_mem [of l "takeWhile (\<lambda>x. x \<noteq> None) (nexts (h 0))"] by (auto simp: trimRoot_def takeWhile_nth dest: set_takeWhileD)
  have ch: "level_path (ptr (trimRoot h) l) 0 (lv (trimRoot h) ?ys l) \<and> lv (trimRoot h) ?ys l \<noteq> []" if "l < ?L" for l
  proof -
    have "level_path (ptr (trimRoot h) l) 0 (lv (trimRoot h) ?ys l) = level_path (ptr h l) 0 (lv (trimRoot h) ?ys l)"
      by (rule path_cong) (use root [OF that] tr in \<open>auto simp: lv_def\<close>)
    moreover have "level_path (ptr h l) 0 (lv (trimRoot h) ?ys l)" using c that Ls by (simp add: lvy)
    ultimately show ?thesis using root [OF that] by (cases "lv (trimRoot h) ?ys l") auto
  qed
  have hgt: "height (heap s) a \<le> ?L" if "a \<in> set ?ys" for a
  proof (rule ccontr)
    assume "\<not> height (heap s) a \<le> ?L"
    moreover have "height (heap s) a \<le> levels s" using nodes_okD(8) [OF ok] that by (simp add: levels_def)
    ultimately have l: "?L < levels s" "?L < height (heap s) a" by auto
    then have "ptr h ?L 0 = None" using hs(3) [of 0] nth_length_takeWhile [of "\<lambda>x. x \<noteq> None" "nexts (h 0)"] by (simp add: levels_def)
    moreover have "a \<in> set (filter (\<lambda>a. score (heap s a) \<noteq> sc) (lv (heap s) xs ?L))" using that l(2) by (simp add: lv_def)
    then obtain b bs where "filter (\<lambda>a. score (heap s a) \<noteq> sc) (lv (heap s) xs ?L) = b # bs" by (metis list.set_cases)
    ultimately show False using c l(1) by auto
  qed
  have "sorted_wrt (\<lambda>a b. score (trimRoot h a) < score (trimRoot h b)) xs"
    by (rule sorted_wrt_mono_rel [of xs "\<lambda>a b. score (heap s a) < score (heap s b)"]) (use ok hs tr in \<open>simp_all add: nodes_ok_def\<close>)
  then have "nodes_ok (trimRoot h) (fresh s) ?ys"
    using ok hgt tr hs(3) L by (auto simp: nodes_ok_def sorted_wrt_filter)
  then show "ring_rep s' ?ys" using ch L r by (simp add: ring_rep_def s' levels_def)
  show "view s' ?ys = filter (\<lambda>p. fst p \<noteq> sc) (view s xs)"
    using tr hs by (simp add: view_def s' filter_map o_def)
qed

lemma remV_keep:
  assumes "sorted_wrt (<) (map fst v)" "(sc, ns) \<in> set v" "1 < length ns" "\<forall>p\<in>set v. snd p \<noteq> []"
  shows "remV sc i v = map (\<lambda>(x, ms). (x, if x = sc then remove1 i ns else ms)) v"
proof -
  have d: "distinct (map fst v)" using assms(1) by (simp add: strict_sorted_iff)
  have u: "ms = ns" if "(sc, ms) \<in> set v" for ms using that assms(2) eq_key_imp_eq_value [OF d] by blast
  have "0 < length (remove1 i ns)" using assms(3) by (simp add: length_remove1 del: length_greater_0_conv)
  then have "remove1 i ns \<noteq> []" by simp
  then have "\<forall>p\<in>set (map (\<lambda>(x, ns). (x, if x = sc then remove1 i ns else ns)) v). (\<lambda>(x, ns). ns \<noteq> []) p"
    using assms(4) by (auto split: if_splits dest!: u)
  then have "remV sc i v = map (\<lambda>(x, ns). (x, if x = sc then remove1 i ns else ns)) v"
    unfolding remV_def by (simp only: filter_id_conv)
  also have "\<dots> = map (\<lambda>(x, ms). (x, if x = sc then remove1 i ns else ms)) v" using u by auto
  finally show ?thesis .
qed

lemma remV_drop:
  assumes "sorted_wrt (<) (map fst v)" "(sc, [i]) \<in> set v" "\<forall>p\<in>set v. snd p \<noteq> []"
  shows "remV sc i v = filter (\<lambda>p. fst p \<noteq> sc) v"
proof -
  have d: "distinct (map fst v)" using assms(1) by (simp add: strict_sorted_iff)
  have u: "ms = [i]" if "(sc, ms) \<in> set v" for ms using that assms(2) eq_key_imp_eq_value [OF d] by blast
  have "filter (\<lambda>(x, ns). ns \<noteq> []) (map (\<lambda>(x, ns). (x, if x = sc then remove1 i ns else ns)) w) = filter (\<lambda>p. fst p \<noteq> sc) w"
    if "set w \<subseteq> set v" for w
    using that assms(3) by (induction w) (auto dest!: u)
  then show ?thesis by (simp add: remV_def)
qed

lemma Rem_law:
  assumes "represents s v" "map_of v sc = Some ns" "i \<in> set ns"
  shows "\<exists>s'. ring_Rem sc i s = Inr s' \<and> represents s' (remV sc i v) \<and>
    nodeToReplicas s' = nodeToReplicas s \<and> nodeToDataKey s' = (nodeToDataKey s)(i := None)"
proof -
  obtain xs where r: "ring_rep s xs" and v: "view s xs = v" and nv: "\<forall>p\<in>set v. snd p \<noteq> []"
    using assms(1) by (auto simp: represents_def)
  have sv: "sorted_wrt (<) (map fst v)" using view_sorted [OF r] v by simp
  have m: "(sc, ns) \<in> set v" using assms(2) by (rule map_of_SomeD)
  obtain n where n: "n \<in> set xs" "score (heap s n) = sc" "nodeIDs (heap s n) = ns" using m v by (auto simp: view_def)
  have g: "ring_get s sc = Inr (Some n)"
    using ring_get_law [OF r, of sc] find_score [OF ring_repD(1) [OF r] n(1,2)] by simp
  have ne: "\<forall>p\<in>set (remV sc i v). snd p \<noteq> []" by (auto simp: remV_def)
  let ?s1 = "s\<lparr>nodeToDataKey := (nodeToDataKey s)(i := None)\<rparr>"
  have r1: "ring_rep ?s1 xs" "view ?s1 xs = v" using r v rep_cong [of ?s1 s] by (simp_all add: view_def)
  show ?thesis
  proof (cases "1 < length ns")
    case True
    let ?s2 = "?s1\<lparr>heap := (heap ?s1)(n := (heap ?s1 n)\<lparr>nodeIDs := remove1 i ns\<rparr>)\<rparr>"
    have "ring_Rem sc i s = Inr ?s2" using g n assms(3) True by (simp add: ring_Rem_def Let_def)
    moreover have "view ?s2 xs = remV sc i v"
      using rename_rep(2) [OF r1(1) n(1)] r1(2) n(2) remV_keep [OF sv m True nv] by simp
    then have "represents ?s2 (remV sc i v)"
      using rename_rep(1) [OF r1(1) n(1)] ne unfolding represents_def by blast
    ultimately show ?thesis by auto
  next
    case False
    then have ns: "ns = [i]" using assms(3) by (cases ns) auto
    have lo: "loop_ok (heap s) (fresh s) xs (levels s)" using r by (simp add: loop_ok_def ring_rep_def levels_def)
    from unlinkLoop_law [OF lo start_root, of sc] obtain h where
      h: "unlinkLoop (heap s) sc (fresh s) (levels s) 0 = Inr h" "same_nodes (heap s) h"
        "\<forall>l<levels s. level_path (ptr h l) 0 (filter (\<lambda>a. score (heap s a) \<noteq> sc) (lv (heap s) xs l))" by blast
    let ?s2 = "?s1\<lparr>heap := trimRoot h\<rparr>"
    have "ring_Rem sc i s = Inr ?s2" using g n assms(3) ns h(1) by (simp add: ring_Rem_def Let_def)
    moreover have "represents ?s2 (remV sc i v)"
      using trim_rep [OF r h(2,3), of ?s2] remV_drop [OF sv _ nv] m ns ne v unfolding represents_def by auto
    ultimately show ?thesis by auto
  qed
qed

lemma new_represents: "represents NewSkiplistHashRing []"
  by (auto simp: represents_def view_def ring_rep_def nodes_ok_def levels_def NewSkiplistHashRing_def intro!: exI [of _ "[]"])

section \<open>The interface \<^verbatim>\<open>HashRing\<close>\<close>

text \<open>What the consistent hash relies on: the searches and changes of a ring are those of the list of scores.\<close>

locale hash_ring =
  fixes shows_view :: "'r \<Rightarrow> ring_view \<Rightarrow> bool"
    and ceiling :: "'r \<Rightarrow> int \<Rightarrow> int res" and floor :: "'r \<Rightarrow> int \<Rightarrow> int res" and node :: "'r \<Rightarrow> int \<Rightarrow> string list res"
    and add :: "int \<Rightarrow> string \<Rightarrow> 'r \<Rightarrow> 'r res"
  assumes view_ok: "shows_view s v \<Longrightarrow> sorted_wrt (<) (map fst v) \<and> (\<forall>p\<in>set v. snd p \<noteq> [])"
    and ceiling_law: "shows_view s v \<Longrightarrow> ceiling s sc = Inr (ceilV v sc)"
    and floor_law: "shows_view s v \<Longrightarrow> floor s sc = Inr (floorV v sc)"
    and node_law: "shows_view s v \<Longrightarrow> map_of v sc = Some ns \<Longrightarrow> node s sc = Inr ns"
    and add_law: "shows_view s v \<Longrightarrow> \<exists>s'. add sc i s = Inr s' \<and> shows_view s' (addV sc i v)"
begin

lemma ceilV_in: "v \<noteq> [] \<Longrightarrow> ceilV v sc \<in> fst ` set v"
proof -
  assume v: "v \<noteq> []"
  show ?thesis
  proof (cases "filter (\<lambda>x. sc \<le> x) (map fst v)")
    case Nil
    then show ?thesis using v by (cases v) (simp_all add: ceilV_def)
  next
    case (Cons x ys)
    then have "x \<in> set (filter (\<lambda>x. sc \<le> x) (map fst v))" by simp
    then have "x \<in> fst ` set v" by auto
    then show ?thesis by (simp add: ceilV_def Cons)
  qed
qed

lemma successor:
  assumes "shows_view s v" "v \<noteq> []"
  shows "\<exists>n ns. ceiling s sc = Inr (ceilV v sc) \<and> node s (ceilV v sc) = Inr (n # ns) \<and> map_of v (ceilV v sc) = Some (n # ns)"
proof -
  obtain ns where ns: "map_of v (ceilV v sc) = Some ns" using ceilV_in [OF assms(2)] by (metis map_of_eq_None_iff not_None_eq)
  then have "ns \<noteq> []" using view_ok [OF assms(1)] map_of_SomeD [OF ns] by auto
  then show ?thesis using ns node_law [OF assms(1) ns] ceiling_law [OF assms(1)] by (cases ns) auto
qed

end

interpretation skip: hash_ring represents Ceiling Floor Node "ring_Add rl" for rl
proof
  show "represents s v \<Longrightarrow> sorted_wrt (<) (map fst v) \<and> (\<forall>p\<in>set v. snd p \<noteq> [])" for s v
    using view_sorted by (auto simp: represents_def)
  show "represents s v \<Longrightarrow> map_of v sc = Some ns \<Longrightarrow> Node s sc = Inr ns" for s v sc ns
    using Node_law by simp
  show "represents s v \<Longrightarrow> \<exists>s'. ring_Add rl sc i s = Inr s' \<and> represents s' (addV sc i v)" for s v sc i
    using Add_law by blast
qed (simp_all add: Ceiling_law Floor_law)

section \<open>Properties\<close>

text \<open>C36. The skip list is a sorted map, whatever levels are drawn: on a well-formed ring no search runs out of its
  bound or follows a missing pointer, \<^verbatim>\<open>Ceiling\<close> and \<^verbatim>\<open>Floor\<close> return the cyclic successor and predecessor among the scores,
  \<^verbatim>\<open>Node\<close> the virtual nodes of a score, and \<^verbatim>\<open>Add\<close> and \<^verbatim>\<open>Rem\<close> insert and delete and keep the ring well formed.\<close>

theorem skip_list_refines_sorted_map:
  assumes "represents s v"
  shows "Ceiling s sc = Inr (ceilV v sc) \<and> Floor s sc = Inr (floorV v sc) \<and>
    Node s sc = (case map_of v sc of None \<Rightarrow> Inl (ErrMsg ''score not exist'') | Some ns \<Rightarrow> Inr ns) \<and>
    (\<exists>s'. ring_Add rLevel sc nodeID s = Inr s' \<and> represents s' (addV sc nodeID v)) \<and>
    ((\<exists>ns. map_of v sc = Some ns \<and> nodeID \<in> set ns) = isInr (ring_Rem sc nodeID s)) \<and>
    (\<forall>s'. ring_Rem sc nodeID s = Inr s' \<longrightarrow> represents s' (remV sc nodeID v))"
proof -
  obtain xs where r: "ring_rep s xs" "view s xs = v" using assms by (auto simp: represents_def)
  have "\<exists>ns. map_of v sc = Some ns \<and> nodeID \<in> set ns" if rr: "ring_Rem sc nodeID s = Inr s'" for s'
  proof -
    obtain n where n: "ring_get s sc = Inr (Some n)" "nodeID \<in> set (nodeIDs (heap s n))"
      using rr ring_get_law [OF r(1), of sc] by (cases "find (\<lambda>a. score (heap s a) = sc) xs") (auto simp: ring_Rem_def Let_def split: if_splits)
    then show ?thesis using Node_law [OF assms, of sc] by (auto simp: Node_def split: option.splits)
  qed
  note rem = this
  have "(\<exists>ns. map_of v sc = Some ns \<and> nodeID \<in> set ns) = isInr (ring_Rem sc nodeID s)"
    using rem Rem_law [OF assms, of sc _ nodeID] unfolding isInr_iff by blast
  moreover have "represents s' (remV sc nodeID v)" if rr: "ring_Rem sc nodeID s = Inr s'" for s'
  proof -
    obtain ns where "map_of v sc = Some ns" "nodeID \<in> set ns" using rem [OF rr] by blast
    from Rem_law [OF assms this] rr show ?thesis by auto
  qed
  moreover have "\<exists>s'. ring_Add rLevel sc nodeID s = Inr s' \<and> represents s' (addV sc nodeID v)" using Add_law [OF assms] by blast
  ultimately show ?thesis using Ceiling_law [OF assms] Floor_law [OF assms] Node_law [OF assms] by blast
qed

theorem skip_list_refines_sorted_map_witness:
  "\<exists>s. represents s [(3, [''a'']), (7, [''b''])] \<and> Ceiling s 4 = Inr 7 \<and> Ceiling s 8 = Inr 3 \<and> Floor s 2 = Inr 7"
proof -
  from skip_list_refines_sorted_map [OF new_represents, where rLevel = 2 and sc = 7 and nodeID = "''b''"] obtain s1 where
    "represents s1 [(7, [''b''])]" by auto
  from skip_list_refines_sorted_map [OF this, where rLevel = 0 and sc = 3 and nodeID = "''a''"] obtain s2 where
    s2: "represents s2 [(3, [''a'']), (7, [''b''])]" by auto
  then show ?thesis
    using skip_list_refines_sorted_map [OF s2, where sc = 4] skip_list_refines_sorted_map [OF s2, where sc = 8]
      skip_list_refines_sorted_map [OF s2, where sc = 2]
    by (auto simp: ceilV_def floorV_def)
qed

end
