(* ===== verification/Consistent_Hash.thy ===== *)
theory Consistent_Hash
  imports Hash_Ring
begin

text \<open>
  \<^verbatim>\<open>src/local/consistent_hash.go\<close>, \<^verbatim>\<open>migration.go\<close>, \<^verbatim>\<open>encryptor.go\<close> and \<^verbatim>\<open>option.go\<close>: consistent hashing on the ring of
  \<open>Hash_Ring\<close>. A node has several virtual nodes; a data key belongs to the node of the first score at or after its
  own, cyclically. Adding a node moves the keys that change their owner.

  Murmur3 is an argument (\<open>murmur\<close>), as are the levels drawn for new virtual nodes (\<open>rolls\<close>). A score is below
  \<^verbatim>\<open>MaxInt32\<close>, so that the differences the migration forms fit an \<^verbatim>\<open>int32\<close> and are taken in \<open>int\<close>. The keys of a migration task
  are handed to the migrator of the caller: the operations return the tasks.
\<close>

section \<open>Scores and names\<close>

definition MaxInt32 :: int where
  "MaxInt32 = 2147483647"

definition Encrypt :: "(bytes \<Rightarrow> 32 word) \<Rightarrow> string \<Rightarrow> int" where
  "Encrypt murmur origin = uint (murmur (strBytes origin)) mod MaxInt32"

fun itoa :: "nat \<Rightarrow> string" where
  "itoa n = (if n < 10 then [char_of (48 + n)] else itoa (n div 10) @ [char_of (48 + n mod 10)])"

declare itoa.simps [simp del]

definition getRawNodeKey :: "string \<Rightarrow> nat \<Rightarrow> string" where
  "getRawNodeKey nodeID index = nodeID @ ''_'' @ itoa index"

text \<open>\<^verbatim>\<open>strings.LastIndex\<close> is -1 on a name without an underscore, and the slice panics.\<close>

definition getNodeID :: "string \<Rightarrow> string res" where
  "getNodeID rawNodeKey =
     (if CHR ''_'' \<in> set rawNodeKey then Inr (rev (tl (dropWhile (\<lambda>c. c \<noteq> CHR ''_'') (rev rawNodeKey)))) else Inl Panic)"

definition getValidWeight :: "int \<Rightarrow> int" where
  "getValidWeight weight = (if weight \<le> 0 then 1 else if 10 \<le> weight then 10 else weight)"

definition incrScore :: "int \<Rightarrow> int" where
  "incrScore sc = (if sc = MaxInt32 - 1 then 0 else sc + 1)"

definition decrScore :: "int \<Rightarrow> int" where
  "decrScore sc = (if sc = 0 then MaxInt32 - 1 else sc - 1)"

section \<open>The consistent hash\<close>

record ConsistentHash =
  hashRing :: SkiplistHashRing
  hasMigrator :: bool
  replicas :: int
  lockExpireSeconds :: int

definition NewConsistentHash :: "SkiplistHashRing \<Rightarrow> bool \<Rightarrow> int \<Rightarrow> int \<Rightarrow> ConsistentHash" where
  "NewConsistentHash ring migrator reps expire =
     \<lparr>hashRing = ring, hasMigrator = migrator, replicas = (if reps \<le> 0 then 5 else reps),
      lockExpireSeconds = (if expire \<le> 0 then 15 else expire)\<rparr>"

text \<open>Calls that read the ring, and calls that change it.\<close>

definition readS :: "('s \<Rightarrow> 'a res) \<Rightarrow> ('s, 'a) est" where
  "readS f = (\<lambda>s. (f s, s))"

definition writeS :: "('s \<Rightarrow> 's res) \<Rightarrow> ('s, unit) est" where
  "writeS f = (\<lambda>s. case f s of Inl e \<Rightarrow> (Inl e, s) | Inr s' \<Rightarrow> (Inr (), s'))"

type_synonym task = "string \<times> string \<times> string set"

definition inRange :: "int \<Rightarrow> int \<Rightarrow> int \<Rightarrow> int \<Rightarrow> bool" where
  "inRange virtualScore lastScore nextScore dataScore =
     (let patternOne = lastScore > virtualScore;
          patternTwo = nextScore < virtualScore;
          last1 = (if patternOne then lastScore - MaxInt32 else lastScore);
          cur = (if patternTwo then virtualScore - MaxInt32 else virtualScore);
          last2 = (if patternTwo then last1 - MaxInt32 else last1);
          d1 = (if patternOne \<and> dataScore > last2 + MaxInt32 then dataScore - MaxInt32 else dataScore);
          d2 = (if patternTwo then d1 - MaxInt32 else d1)
      in \<not> (d2 \<le> last2 \<or> d2 > cur))"

definition migrateIn ::
  "(bytes \<Rightarrow> 32 word) \<Rightarrow> bool \<Rightarrow> int \<Rightarrow> string \<Rightarrow> (SkiplistHashRing, task) est"
where
  "migrateIn murmur migrator virtualScore nodeID =
     (if \<not> migrator then returnS ([], [], {})
      else bindS (readS (\<lambda>s. Node s virtualScore)) (\<lambda>nodes.
        if 1 < length nodes then returnS ([], [], {})
        else bindS (readS (\<lambda>s. Floor s (decrScore virtualScore))) (\<lambda>lastScore.
          if lastScore = - 1 \<or> lastScore = virtualScore then returnS ([], [], {})
          else bindS (readS (\<lambda>s. Ceiling s (incrScore virtualScore))) (\<lambda>nextScore.
            if nextScore = - 1 \<or> nextScore = virtualScore then returnS ([], [], {})
            else bindS (readS (\<lambda>s. Node s nextScore)) (\<lambda>nextNodes.
              if nextNodes = [] then returnS ([], [], {})
              else bindS (readS (\<lambda>s. getNodeID (hd nextNodes))) (\<lambda>from.
                bindS (readS (\<lambda>s. Inr {k \<in> DataKeys s from. inRange virtualScore lastScore nextScore (Encrypt murmur k)})) (\<lambda>datas.
                  bindS (modifyS (DeleteNodeToDataKeys from datas)) (\<lambda>u.
                    bindS (modifyS (AddNodeToDataKeys nodeID datas)) (\<lambda>u'.
                      returnS (from, nodeID, datas))))))))))"

fun addReplicas ::
  "(bytes \<Rightarrow> 32 word) \<Rightarrow> bool \<Rightarrow> (nat \<Rightarrow> nat) \<Rightarrow> string \<Rightarrow> nat list \<Rightarrow> (SkiplistHashRing, task list) est"
where
  "addReplicas murmur migrator rolls nodeID [] = returnS []"
| "addReplicas murmur migrator rolls nodeID (i # is) =
     (let nodeKey = getRawNodeKey nodeID i; virtualScore = Encrypt murmur nodeKey
      in bindS (writeS (ring_Add (rolls i) virtualScore nodeKey)) (\<lambda>u.
           bindS (migrateIn murmur migrator virtualScore nodeID) (\<lambda>(from, to, datas).
             bindS (addReplicas murmur migrator rolls nodeID is) (\<lambda>tasks.
               returnS (if datas = {} then tasks else (from, to, datas) # tasks)))))"

definition ring_AddNode ::
  "(bytes \<Rightarrow> 32 word) \<Rightarrow> bool \<Rightarrow> int \<Rightarrow> (nat \<Rightarrow> nat) \<Rightarrow> string \<Rightarrow> int \<Rightarrow> (SkiplistHashRing, task list) est"
where
  "ring_AddNode murmur migrator reps rolls nodeID weight =
     bindS (readS (\<lambda>s. Inr (nodeToReplicas s nodeID))) (\<lambda>old.
       if old \<noteq> None then throwS (ErrMsg ''repeat node'')
       else let n = getValidWeight weight * reps
            in bindS (modifyS (AddNodeToReplica nodeID n)) (\<lambda>u. addReplicas murmur migrator rolls nodeID [0..<nat n]))"

definition withRing :: "(SkiplistHashRing, 'a) est \<Rightarrow> (ConsistentHash, 'a) est" where
  "withRing m = (\<lambda>c. case m (hashRing c) of (r, s) \<Rightarrow> (r, c\<lparr>hashRing := s\<rparr>))"

definition AddNode :: "(bytes \<Rightarrow> 32 word) \<Rightarrow> (nat \<Rightarrow> nat) \<Rightarrow> string \<Rightarrow> int \<Rightarrow> (ConsistentHash, task list) est" where
  "AddNode murmur rolls nodeID weight =
     (\<lambda>c. withRing (ring_AddNode murmur (hasMigrator c) (replicas c) rolls nodeID weight) c)"

text \<open>\<^verbatim>\<open>AddNode2\<close> is the same code with one more parameter, which it does not use.\<close>

definition AddNode2 :: "(bytes \<Rightarrow> 32 word) \<Rightarrow> (nat \<Rightarrow> nat) \<Rightarrow> string \<Rightarrow> int \<Rightarrow> int \<Rightarrow> (ConsistentHash, task list) est" where
  "AddNode2 murmur rolls nodeID weight fid =
     (\<lambda>c. withRing (ring_AddNode murmur (hasMigrator c) (replicas c) rolls nodeID weight) c)"

text \<open>The successor that takes over the keys of a virtual node. The set \<open>ranged\<close> of the scores gone past ends the search;
  each call adds one, so one call per score and one more are enough.\<close>

fun getValidNextNode :: "nat \<Rightarrow> SkiplistHashRing \<Rightarrow> int \<Rightarrow> string \<Rightarrow> int set \<Rightarrow> string res" where
  "getValidNextNode 0 s sc nodeID ranged = Inl OutOfFuel"
| "getValidNextNode (Suc fuel) s sc nodeID ranged =
     bindR (Ceiling s (incrScore sc)) (\<lambda>nextScore.
       if nextScore = - 1 \<or> nextScore \<in> ranged then Inr []
       else bindR (Node s nextScore) (\<lambda>nextNodes.
         if nextNodes = [] then Inl (ErrMsg ''next node empty'')
         else bindR (getNodeID (hd nextNodes)) (\<lambda>nextNode.
           if nextNode \<noteq> nodeID then Inr nextNode
           else if 1 < length nextNodes then getNodeID (nextNodes ! 1)
           else getValidNextNode fuel s nextScore nodeID (insert sc ranged))))"

text \<open>\<^verbatim>\<open>migrateOut\<close>. An error of \<^verbatim>\<open>getValidNextNode\<close> is replaced by \<^verbatim>\<open>_err\<close>, which is nil there, and the receiver stays empty.\<close>

definition migrateOut :: "(bytes \<Rightarrow> 32 word) \<Rightarrow> bool \<Rightarrow> nat \<Rightarrow> int \<Rightarrow> string \<Rightarrow> (SkiplistHashRing, task) est" where
  "migrateOut murmur migrator fuel virtualScore nodeID =
     (if \<not> migrator then returnS ([], [], {})
      else bindS (readS (\<lambda>s. Node s virtualScore)) (\<lambda>nodes.
        if nodes = [] then returnS (nodeID, [], {})
        else bindS (readS (\<lambda>s. getNodeID (hd nodes))) (\<lambda>firstNode.
          if firstNode \<noteq> nodeID then returnS (nodeID, [], {})
          else bindS (readS (\<lambda>s. Inr (DataKeys s nodeID))) (\<lambda>allDatas.
            if allDatas = {} then returnS (nodeID, [], {})
            else bindS (readS (\<lambda>s. Floor s (decrScore virtualScore))) (\<lambda>lastScore.
              let onlyScore = (lastScore = - 1 \<or> lastScore = virtualScore) in
              if onlyScore \<and> length nodes = 1 then throwS (ErrMsg ''no other no'')
              else let pattern = lastScore > virtualScore;
                       last1 = (if pattern then lastScore - MaxInt32 else lastScore);
                       keep = (\<lambda>k. let d = Encrypt murmur k; d1 = (if pattern \<and> d > last1 + MaxInt32 then d - MaxInt32 else d)
                                   in onlyScore \<or> \<not> (d1 \<le> last1 \<or> d1 > virtualScore));
                       datas = {k \<in> allDatas. keep k}
                   in bindS (readS (\<lambda>s. if 1 < length nodes then getNodeID (nodes ! 1)
                                        else case getValidNextNode fuel s virtualScore nodeID {} of
                                               Inr to \<Rightarrow> if to = [] then Inl (ErrMsg ''no other node'') else Inr to
                                             | Inl (ErrMsg m) \<Rightarrow> Inr []
                                             | Inl e \<Rightarrow> Inl e)) (\<lambda>to.
                        if to = [] \<or> datas = {} then returnS (nodeID, to, datas)
                        else bindS (modifyS (DeleteNodeToDataKeys nodeID datas)) (\<lambda>u.
                               bindS (modifyS (AddNodeToDataKeys to datas)) (\<lambda>u'. returnS (nodeID, to, datas)))))))))"

fun removeReplicas :: "(bytes \<Rightarrow> 32 word) \<Rightarrow> bool \<Rightarrow> nat \<Rightarrow> string \<Rightarrow> nat list \<Rightarrow> (SkiplistHashRing, task list) est" where
  "removeReplicas murmur migrator fuel nodeID [] = returnS []"
| "removeReplicas murmur migrator fuel nodeID (i # is) =
     (let nodeKey = getRawNodeKey nodeID i; virtualScore = Encrypt murmur nodeKey
      in bindS (migrateOut murmur migrator fuel virtualScore nodeID) (\<lambda>(from, to, datas).
           bindS (writeS (ring_Rem virtualScore nodeKey)) (\<lambda>u.
             bindS (removeReplicas murmur migrator fuel nodeID is) (\<lambda>tasks.
               returnS (if datas = {} then tasks else (from, to, datas) # tasks)))))"

definition ring_RemoveNode :: "(bytes \<Rightarrow> 32 word) \<Rightarrow> bool \<Rightarrow> nat \<Rightarrow> string \<Rightarrow> (SkiplistHashRing, task list) est" where
  "ring_RemoveNode murmur migrator fuel nodeID =
     bindS (readS (\<lambda>s. Inr (nodeToReplicas s nodeID))) (\<lambda>old.
       case old of
         None \<Rightarrow> throwS (ErrMsg ''invalid node id'')
       | Some n \<Rightarrow> bindS (modifyS (DeleteNodeToReplica nodeID)) (\<lambda>u.
                     removeReplicas murmur migrator fuel nodeID [0..<nat n]))"

definition RemoveNode :: "(bytes \<Rightarrow> 32 word) \<Rightarrow> nat \<Rightarrow> string \<Rightarrow> (ConsistentHash, task list) est" where
  "RemoveNode murmur fuel nodeID = (\<lambda>c. withRing (ring_RemoveNode murmur (hasMigrator c) fuel nodeID) c)"

definition ring_GetNode :: "(bytes \<Rightarrow> 32 word) \<Rightarrow> string \<Rightarrow> (SkiplistHashRing, string) est" where
  "ring_GetNode murmur dataKey =
     bindS (readS (\<lambda>s. Ceiling s (Encrypt murmur dataKey))) (\<lambda>ceilingScore.
       if ceilingScore = - 1 then throwS (ErrMsg ''no node available'')
       else bindS (readS (\<lambda>s. Node s ceilingScore)) (\<lambda>nodes.
         if nodes = [] then throwS (ErrMsg ''no node available with empty score'')
         else bindS (readS (\<lambda>s. getNodeID (hd nodes))) (\<lambda>n.
           bindS (modifyS (AddNodeToDataKeys n {dataKey})) (\<lambda>u.
             returnS (takeWhile (\<lambda>c. c \<noteq> CHR ''_'') (hd nodes))))))"

definition hash_GetNode :: "(bytes \<Rightarrow> 32 word) \<Rightarrow> string \<Rightarrow> (ConsistentHash, string) est" where
  "hash_GetNode murmur dataKey = withRing (ring_GetNode murmur dataKey)"

section \<open>Names\<close>

lemma itoa_digits: "CHR ''_'' \<notin> set (itoa n)"
proof (induction n rule: itoa.induct)
  case (1 n)
  have d: "char_of (48 + k) \<noteq> CHR ''_''" if "k < 10" for k :: nat
  proof
    assume "char_of (48 + k) = CHR ''_''"
    then have "of_char (char_of (48 + k)) = (of_char (CHR ''_'') :: nat)" by simp
    then show False using that by simp
  qed
  show ?case using 1 d [of n] d [of "n mod 10"] by (subst itoa.simps) auto
qed

lemma getNodeID_raw: "getNodeID (getRawNodeKey n i) = Inr n"
proof -
  have "CHR ''_'' \<notin> set (rev (itoa i))" using itoa_digits by simp
  then have "dropWhile (\<lambda>c. c \<noteq> CHR ''_'') (rev (itoa i) @ CHR ''_'' # rev n) = CHR ''_'' # rev n"
    by (induction "rev (itoa i)") (auto simp: dropWhile_append)
  then show ?thesis by (simp add: getNodeID_def getRawNodeKey_def)
qed

section \<open>Successors on the circle of scores\<close>

definition isCeil :: "int set \<Rightarrow> int \<Rightarrow> int \<Rightarrow> bool" where
  "isCeil K e c \<longleftrightarrow> c \<in> K \<and> (if \<exists>x\<in>K. e \<le> x then e \<le> c \<and> (\<forall>x\<in>K. e \<le> x \<longrightarrow> c \<le> x) else (\<forall>x\<in>K. c \<le> x))"

definition isFloor :: "int set \<Rightarrow> int \<Rightarrow> int \<Rightarrow> bool" where
  "isFloor K e c \<longleftrightarrow> c \<in> K \<and> (if \<exists>x\<in>K. x \<le> e then c \<le> e \<and> (\<forall>x\<in>K. x \<le> e \<longrightarrow> x \<le> c) else (\<forall>x\<in>K. x \<le> c))"

lemma isCeil_unique: "isCeil K e c \<Longrightarrow> isCeil K e d \<Longrightarrow> c = d"
  by (auto simp: isCeil_def split: if_splits intro: order_antisym)

lemma sorted_hd_least: "sorted_wrt (<) (x # xs) \<Longrightarrow> y \<in> set (x # xs) \<Longrightarrow> x \<le> (y :: int)"
  by auto

lemma sorted_last_greatest: "sorted_wrt (<) xs \<Longrightarrow> y \<in> set xs \<Longrightarrow> y \<le> (last xs :: int)"
  by (induction xs) (auto simp: le_less)

lemma ceilV_isCeil:
  assumes "sorted_wrt (<) (map fst v)" "v \<noteq> []"
  shows "isCeil (fst ` set v) e (ceilV v e)"
proof (cases "filter (\<lambda>x. e \<le> x) (map fst v)")
  case Nil
  obtain p w where v: "v = p # w" using assms(2) by (cases v) auto
  have "\<not> (\<exists>x\<in>fst ` set v. e \<le> x)" using Nil by (auto simp: filter_empty_conv)
  moreover have "\<forall>x\<in>fst ` set v. fst p \<le> x" using assms(1) v by (auto simp: le_less)
  ultimately show ?thesis using Nil v by (auto simp: isCeil_def ceilV_def)
next
  case (Cons x xs)
  have s: "sorted_wrt (<) (x # xs)" unfolding Cons [symmetric] by (rule sorted_wrt_filter [OF assms(1)])
  have m: "y \<in> set (x # xs) \<longleftrightarrow> y \<in> fst ` set v \<and> e \<le> y" for y unfolding Cons [symmetric] by auto
  then have "x \<in> fst ` set v" "e \<le> x" by auto
  moreover have "\<forall>y\<in>fst ` set v. e \<le> y \<longrightarrow> x \<le> y" using m sorted_hd_least [OF s] by blast
  ultimately show ?thesis by (auto simp: isCeil_def ceilV_def Cons)
qed

lemma floorV_isFloor:
  assumes "sorted_wrt (<) (map fst v)" "v \<noteq> []"
  shows "isFloor (fst ` set v) e (floorV v e)"
proof (cases "filter (\<lambda>x. x \<le> e) (map fst v) = []")
  case True
  have "fst (last v) = last (map fst v)" using assms(2) by (simp add: last_map)
  then have "\<forall>x\<in>fst ` set v. x \<le> fst (last v)" using sorted_last_greatest [OF assms(1)] by auto
  moreover have "\<not> (\<exists>x\<in>fst ` set v. x \<le> e)" using True by (auto simp: filter_empty_conv)
  ultimately show ?thesis using True assms(2) by (auto simp: isFloor_def floorV_def)
next
  case False
  let ?ys = "filter (\<lambda>x. x \<le> e) (map fst v)"
  have s: "sorted_wrt (<) ?ys" by (rule sorted_wrt_filter [OF assms(1)])
  have m: "y \<in> set ?ys \<longleftrightarrow> y \<in> fst ` set v \<and> y \<le> e" for y by auto
  have "last ?ys \<in> fst ` set v \<and> last ?ys \<le> e" using last_in_set [OF False] m by blast
  moreover have "\<forall>y\<in>fst ` set v. y \<le> e \<longrightarrow> y \<le> last ?ys" using m sorted_last_greatest [OF s] by blast
  ultimately show ?thesis using False by (auto simp: isFloor_def floorV_def Let_def)
qed

text \<open>The neighbours of a new score \<open>vs\<close>, and what the new score takes over.\<close>

lemma neighbours:
  assumes K: "\<forall>x\<in>K. 0 \<le> x \<and> x < MaxInt32" "K \<noteq> {}" "vs \<notin> K" "0 \<le> vs" "vs < MaxInt32"
  shows "isFloor (insert vs K) (decrScore vs) la \<Longrightarrow>
      la \<in> K \<and> (if \<exists>x\<in>K. x < vs then la < vs \<and> (\<forall>x\<in>K. x < vs \<longrightarrow> x \<le> la) else \<forall>x\<in>K. x \<le> la)"
    "isCeil (insert vs K) (incrScore vs) ne \<Longrightarrow>
      ne \<in> K \<and> (if \<exists>x\<in>K. vs < x then vs < ne \<and> (\<forall>x\<in>K. vs < x \<longrightarrow> ne \<le> x) else \<forall>x\<in>K. ne \<le> x)"
proof -
  obtain k where k: "k \<in> K" "k \<noteq> vs" using K(2,3) by auto
  have dec: "x \<le> decrScore vs \<longleftrightarrow> x < vs \<or> vs = 0" if "x \<in> insert vs K" for x
    using that K by (auto simp: decrScore_def)
  have inc: "incrScore vs \<le> x \<longleftrightarrow> vs < x \<or> vs = MaxInt32 - 1" if "x \<in> insert vs K" for x
    using that K by (auto simp: incrScore_def)
  have lt: "vs < x \<or> x < vs" if "x \<in> K" for x using that K(3) by (metis linorder_less_linear)
  show "la \<in> K \<and> (if \<exists>x\<in>K. x < vs then la < vs \<and> (\<forall>x\<in>K. x < vs \<longrightarrow> x \<le> la) else \<forall>x\<in>K. x \<le> la)"
    if f: "isFloor (insert vs K) (decrScore vs) la"
  proof (cases "\<exists>x\<in>K. x < vs")
    case True
    then have "vs \<noteq> 0" using K(1) by fastforce
    then show ?thesis using f True dec K(4) by (auto simp: isFloor_def split: if_splits)
  next
    case False
    then have "vs < k" using lt k by blast
    then have "la \<noteq> vs" using f dec k K(4) False by (auto simp: isFloor_def split: if_splits)
    then show ?thesis using f False dec by (auto simp: isFloor_def split: if_splits)
  qed
  show "ne \<in> K \<and> (if \<exists>x\<in>K. vs < x then vs < ne \<and> (\<forall>x\<in>K. vs < x \<longrightarrow> ne \<le> x) else \<forall>x\<in>K. ne \<le> x)"
    if f: "isCeil (insert vs K) (incrScore vs) ne"
  proof (cases "\<exists>x\<in>K. vs < x")
    case True
    then have "vs \<noteq> MaxInt32 - 1" using K(1) by fastforce
    then show ?thesis using f True inc by (auto simp: isCeil_def split: if_splits)
  next
    case False
    then have "k < vs" using lt k by blast
    then have "ne \<noteq> vs" using f inc k False by (auto simp: isCeil_def split: if_splits)
    then show ?thesis using f False inc by (auto simp: isCeil_def split: if_splits)
  qed
qed

lemma isCeil_here: "c \<in> K \<Longrightarrow> e \<le> c \<Longrightarrow> \<forall>x\<in>K. e \<le> x \<longrightarrow> c \<le> x \<Longrightarrow> isCeil K e c"
  and isCeil_wrap: "c \<in> K \<Longrightarrow> \<forall>x\<in>K. x < e \<Longrightarrow> \<forall>x\<in>K. c \<le> x \<Longrightarrow> isCeil K e c"
  by (auto simp: isCeil_def)

lemma isCeil_insert:
  assumes c: "isCeil K e c" and h: "e \<le> vs \<Longrightarrow> c \<le> vs \<and> e \<le> c" and w: "\<not> e \<le> vs \<Longrightarrow> \<forall>x\<in>K. x < e \<Longrightarrow> c \<le> vs"
  shows "isCeil (insert vs K) e c"
proof (cases "\<exists>x\<in>K. e \<le> x")
  case True
  then have "c \<in> K" "e \<le> c" "\<forall>x\<in>K. e \<le> x \<longrightarrow> c \<le> x" using c by (simp_all add: isCeil_def)
  then show ?thesis using h by (intro isCeil_here) auto
next
  case False
  then have k: "c \<in> K" "\<forall>x\<in>K. x < e" "\<forall>x\<in>K. c \<le> x" using c by (auto simp: isCeil_def)
  then have "\<not> e \<le> vs" using h by force
  then show ?thesis using k w by (intro isCeil_wrap) auto
qed

lemma isCeilD:
  assumes "isCeil K e c"
  shows "c \<in> K" "x \<in> K \<Longrightarrow> e \<le> x \<Longrightarrow> e \<le> c \<and> c \<le> x" "\<forall>x\<in>K. x < e \<Longrightarrow> x \<in> K \<Longrightarrow> c \<le> x"
  using assms by (auto simp: isCeil_def split: if_splits)

lemma takeover:
  assumes K: "\<forall>x\<in>K. 0 \<le> x \<and> x < MaxInt32" "vs \<notin> K" "0 \<le> vs" "0 \<le> e" "e < MaxInt32"
    and la: "la \<in> K" "if \<exists>x\<in>K. x < vs then la < vs \<and> (\<forall>x\<in>K. x < vs \<longrightarrow> x \<le> la) else \<forall>x\<in>K. x \<le> la"
    and ne: "ne \<in> K" "if \<exists>x\<in>K. vs < x then vs < ne \<and> (\<forall>x\<in>K. vs < x \<longrightarrow> ne \<le> x) else \<forall>x\<in>K. ne \<le> x"
    and c: "isCeil K e c"
  shows "if inRange vs la ne e then isCeil (insert vs K) e vs \<and> c = ne else isCeil (insert vs K) e c"
proof -
  have lt: "vs < x \<or> x < vs" if "x \<in> K" for x using that K(2) by (metis linorder_less_linear)
  have up: "isCeil K e ne \<Longrightarrow> isCeil (insert vs K) e vs \<Longrightarrow> isCeil (insert vs K) e vs \<and> c = ne"
    using isCeil_unique [OF c] by blast
  consider (mid) "\<exists>x\<in>K. x < vs" "\<exists>x\<in>K. vs < x" | (top) "\<exists>x\<in>K. x < vs" "\<forall>x\<in>K. x < vs" | (low) "\<forall>x\<in>K. vs < x"
    using lt by blast
  then show ?thesis
  proof cases
    case mid
    then have l: "la < vs" "vs < ne" and lx: "\<And>x. x \<in> K \<Longrightarrow> x < vs \<Longrightarrow> x \<le> la" and nx: "\<And>x. x \<in> K \<Longrightarrow> vs < x \<Longrightarrow> ne \<le> x"
      using la(2) ne(2) by auto
    have r: "inRange vs la ne e \<longleftrightarrow> la < e \<and> e \<le> vs" using l by (auto simp: inRange_def Let_def)
    have "isCeil (insert vs K) e vs \<and> c = ne" if e: "la < e" "e \<le> vs"
    proof (rule up)
      have gt: "vs < x" if "x \<in> K" "e \<le> x" for x using lt [OF that(1)] lx [OF that(1)] that(2) e(1) by linarith
      show "isCeil K e ne" by (rule isCeil_here [OF ne(1)]) (use e l gt nx in auto)
      show "isCeil (insert vs K) e vs" by (rule isCeil_here) (use e gt in \<open>auto intro: less_imp_le\<close>)
    qed
    moreover have "isCeil (insert vs K) e c" if "\<not> (la < e \<and> e \<le> vs)"
    proof (rule isCeil_insert [OF c])
      show "c \<le> vs \<and> e \<le> c" if "e \<le> vs" using isCeilD(2) [OF c la(1)] \<open>\<not> (la < e \<and> e \<le> vs)\<close> that l by linarith
      show "c \<le> vs" if "\<forall>x\<in>K. x < e" using isCeilD(3) [OF c that la(1)] l by linarith
    qed
    ultimately show ?thesis using r by simp
  next
    case top
    then have l: "la < vs" "ne < vs" and lx: "\<And>x. x \<in> K \<Longrightarrow> x \<le> la" and nx: "\<And>x. x \<in> K \<Longrightarrow> ne \<le> x"
      using la ne by (auto split: if_splits)
    have r: "inRange vs la ne e \<longleftrightarrow> la < e \<and> e \<le> vs" using l by (auto simp: inRange_def Let_def)
    have "isCeil (insert vs K) e vs \<and> c = ne" if e: "la < e" "e \<le> vs"
    proof (rule up)
      have gt: "x < e" if "x \<in> K" for x using lx [OF that] e(1) by linarith
      show "isCeil K e ne" by (rule isCeil_wrap [OF ne(1)]) (use gt nx in auto)
      show "isCeil (insert vs K) e vs" by (rule isCeil_here) (use e gt in \<open>auto dest: leD\<close>)
    qed
    moreover have "isCeil (insert vs K) e c" if "\<not> (la < e \<and> e \<le> vs)"
    proof (rule isCeil_insert [OF c])
      show "c \<le> vs \<and> e \<le> c" if "e \<le> vs" using isCeilD(2) [OF c la(1)] \<open>\<not> (la < e \<and> e \<le> vs)\<close> that l by linarith
      show "c \<le> vs" if "\<forall>x\<in>K. x < e" using isCeilD(3) [OF c that la(1)] l by linarith
    qed
    ultimately show ?thesis using r by simp
  next
    case low
    then have l: "vs < la" "vs < ne" and lx: "\<And>x. x \<in> K \<Longrightarrow> x \<le> la" and nx: "\<And>x. x \<in> K \<Longrightarrow> ne \<le> x"
      using la ne by (auto split: if_splits)
    have "la < MaxInt32" using K(1) la(1) by blast
    then have r: "inRange vs la ne e \<longleftrightarrow> la < e \<or> e \<le> vs" using l K(3-5) by (auto simp: inRange_def Let_def)
    have "isCeil (insert vs K) e vs \<and> c = ne" if e: "la < e"
    proof (rule up)
      have gt: "x < e" if "x \<in> K" for x using lx [OF that] e(1) by linarith
      show "isCeil K e ne" by (rule isCeil_wrap [OF ne(1)]) (use gt nx in auto)
      show "isCeil (insert vs K) e vs" by (rule isCeil_wrap) (use e gt l low in \<open>auto intro: less_imp_le\<close>)
    qed
    moreover have "isCeil (insert vs K) e vs \<and> c = ne" if e: "e \<le> vs"
    proof (rule up)
      show "isCeil K e ne" by (rule isCeil_here [OF ne(1)]) (use e l nx in auto)
      show "isCeil (insert vs K) e vs" by (rule isCeil_here) (use e low in \<open>auto intro: less_imp_le\<close>)
    qed
    moreover have "isCeil (insert vs K) e c" if "\<not> (la < e \<or> e \<le> vs)"
    proof (rule isCeil_insert [OF c])
      show "c \<le> vs" if "\<forall>x\<in>K. x < e" using that la(1) \<open>\<not> (la < e \<or> e \<le> vs)\<close> by auto
    qed (use that in auto)
    ultimately show ?thesis using r by auto
  qed
qed

section \<open>Owners\<close>

definition decimal :: "string \<Rightarrow> nat" where
  "decimal cs = foldl (\<lambda>n c. 10 * n + (of_char c - 48)) 0 cs"

lemma digit_value: "k < 10 \<Longrightarrow> of_char (char_of (48 + k)) - 48 = (k :: nat)"
  by simp

lemma decimal_snoc: "decimal (cs @ [c]) = 10 * decimal cs + (of_char c - 48)" "decimal [c] = of_char c - 48"
  by (simp_all add: decimal_def)

lemma decimal_itoa: "decimal (itoa n) = n"
proof (induction n rule: itoa.induct)
  case (1 n)
  show ?case
  proof (cases "n < 10")
    case True
    then have "itoa n = [char_of (48 + n)]" by (simp add: itoa.simps [of n])
    then show ?thesis by (simp only: decimal_snoc digit_value [OF True])
  next
    case False
    then have "itoa n = itoa (n div 10) @ [char_of (48 + n mod 10)]" by (subst itoa.simps) (simp only: if_False)
    then have "decimal (itoa n) = 10 * decimal (itoa (n div 10)) + n mod 10" by (simp only: decimal_snoc) (simp add: digit_value)
    then show ?thesis using 1 [OF False] by simp
  qed
qed

lemma raw_inj: "getRawNodeKey n i = getRawNodeKey m j \<longleftrightarrow> n = m \<and> i = j"
proof
  assume e: "getRawNodeKey n i = getRawNodeKey m j"
  have "getNodeID (getRawNodeKey n i) = getNodeID (getRawNodeKey m j)" by (simp only: e)
  then have "n = m" by (simp add: getNodeID_raw)
  then have "itoa i = itoa j" using e by (simp add: getRawNodeKey_def)
  then have "i = j" by (metis decimal_itoa)
  with \<open>n = m\<close> show "n = m \<and> i = j" by simp
qed simp

lemma Encrypt_range: "0 \<le> Encrypt murmur k" "Encrypt murmur k < MaxInt32"
proof -
  have "0 < MaxInt32" by (simp add: MaxInt32_def)
  then show "0 \<le> Encrypt murmur k" "Encrypt murmur k < MaxInt32"
    unfolding Encrypt_def by (rule pos_mod_sign, rule pos_mod_bound)
qed

definition homeOf :: "ring_view \<Rightarrow> int \<Rightarrow> string res" where
  "homeOf v e = (case map_of v (ceilV v e) of Some (r # rs) \<Rightarrow> getNodeID r | _ \<Rightarrow> Inl Panic)"

text \<open>Every virtual node is named after a node and an index that satisfy \<open>D\<close>, and has a score in range.\<close>

definition named :: "(string \<Rightarrow> nat \<Rightarrow> bool) \<Rightarrow> ring_view \<Rightarrow> bool" where
  "named D v \<longleftrightarrow> (\<forall>p\<in>set v. 0 \<le> fst p \<and> fst p < MaxInt32 \<and> (\<forall>r\<in>set (snd p). \<exists>n i. r = getRawNodeKey n i \<and> D n i))"

definition placed :: "(bytes \<Rightarrow> 32 word) \<Rightarrow> SkiplistHashRing \<Rightarrow> ring_view \<Rightarrow> bool" where
  "placed murmur s v \<longleftrightarrow> (\<forall>n k. k \<in> DataKeys s n \<longrightarrow> v \<noteq> [] \<and> homeOf v (Encrypt murmur k) = Inr n)"

lemma DataKeys_simps [simp]:
  "DataKeys (AddNodeToDataKeys n ds s) m = DataKeys s m \<union> (if m = n then ds else {})"
  "DataKeys (DeleteNodeToDataKeys n ds s) m = DataKeys s m - (if m = n then ds else {})"
  "DataKeys (AddNodeToReplica n j s) m = DataKeys s m"
  by (auto simp: DataKeys_def AddNodeToDataKeys_def DeleteNodeToDataKeys_def AddNodeToReplica_def split: option.splits)

lemma maps_same [simp]:
  "heap (AddNodeToDataKeys n ds s) = heap s" "fresh (AddNodeToDataKeys n ds s) = fresh s"
  "heap (DeleteNodeToDataKeys n ds s) = heap s" "fresh (DeleteNodeToDataKeys n ds s) = fresh s"
  "heap (AddNodeToReplica n j s) = heap s" "fresh (AddNodeToReplica n j s) = fresh s"
  "nodeToReplicas (AddNodeToDataKeys n ds s) = nodeToReplicas s" "nodeToReplicas (DeleteNodeToDataKeys n ds s) = nodeToReplicas s"
  by (auto simp: AddNodeToDataKeys_def DeleteNodeToDataKeys_def AddNodeToReplica_def split: option.split)

lemma represents_cong: "heap s' = heap s \<Longrightarrow> fresh s' = fresh s \<Longrightarrow> represents s' v = represents s v"
  using rep_cong [of s' s] by (simp add: represents_def view_def)

lemma map_of_addV:
  assumes "sorted_wrt (<) (map fst v)"
  shows "map_of (addV sc n v) x =
    (if x = sc then Some (case map_of v sc of None \<Rightarrow> [n] | Some ns \<Rightarrow> if n \<in> set ns then ns else ns @ [n]) else map_of v x)"
  using assms
proof (induction sc n v rule: addV.induct)
  case (2 sc n y ns v)
  have n: "map_of v sc = None" if "sc < y"
  proof -
    have "\<forall>p\<in>set v. y < fst p" using 2(2) by simp
    then show ?thesis using that by (auto simp: map_of_eq_None_iff)
  qed
  consider "sc < y" | "sc = y" | "\<not> sc < y" "sc \<noteq> y" by blast
  then show ?case
  proof cases
    case 1
    then show ?thesis using n by simp
  next
    case 3
    then show ?thesis using 2 by (cases "x = sc") auto
  qed simp
qed simp

lemma keys_addV: "fst ` set (addV sc n v) = insert sc (fst ` set v)"
  by (induction sc n v rule: addV.induct) auto

lemma addV_ne [simp]: "addV sc n v \<noteq> []"
  by (cases "(sc, n, v)" rule: addV.cases) auto

lemma addV_member:
  "p \<in> set (addV sc r v) \<Longrightarrow> p \<in> set v \<or> fst p = sc \<and> set (snd p) = {r} \<or>
     (\<exists>ns. (sc, ns) \<in> set v \<and> fst p = sc \<and> set (snd p) = insert r (set ns))"
proof (induction sc r v rule: addV.induct)
  case (2 sc n x ns v)
  consider "sc < x" | "sc = x" | "\<not> sc < x" "sc \<noteq> x" by blast
  then show ?case
  proof cases
    case 1
    then have "p = (sc, [n]) \<or> p \<in> set ((x, ns) # v)" using 2(2) by simp
    then show ?thesis by (elim disjE) simp_all
  next
    case 2
    then have "p = (x, if n \<in> set ns then ns else ns @ [n]) \<or> p \<in> set v" using "2.prems" by simp
    moreover have "p = (x, if n \<in> set ns then ns else ns @ [n]) \<Longrightarrow> fst p = sc \<and> set (snd p) = insert n (set ns)"
      using 2 by (simp add: insert_absorb)
    ultimately show ?thesis using 2 by (metis list.set_intros)
  next
    case 3
    then consider "p = (x, ns)" | "p \<in> set (addV sc n v)" using 2(2) by auto
    then show ?thesis
    proof cases
      case 2
      from "2.IH" [OF 3 2] show ?thesis by auto
    qed simp
  qed
qed simp

lemma named_addV:
  assumes "named D v" "0 \<le> sc" "sc < MaxInt32" "D n i"
  shows "named D (addV sc (getRawNodeKey n i) v)"
  unfolding named_def
proof
  fix p
  assume p: "p \<in> set (addV sc (getRawNodeKey n i) v)"
  let ?Q = "\<lambda>r. \<exists>n i. r = getRawNodeKey n i \<and> D n i"
  have old: "0 \<le> fst q \<and> fst q < MaxInt32 \<and> (\<forall>r\<in>set (snd q). ?Q r)" if "q \<in> set v" for q
    using assms(1) that unfolding named_def by (rule bspec)
  have new: "?Q (getRawNodeKey n i)" using assms(4) by blast
  from addV_member [OF p] consider "p \<in> set v" | "fst p = sc" "set (snd p) = {getRawNodeKey n i}"
    | ns where "(sc, ns) \<in> set v" "fst p = sc" "set (snd p) = insert (getRawNodeKey n i) (set ns)" by blast
  then show "0 \<le> fst p \<and> fst p < MaxInt32 \<and> (\<forall>r\<in>set (snd p). ?Q r)"
  proof cases
    case 1
    then show ?thesis by (rule old)
  next
    case 2
    then show ?thesis using assms(2,3) new by simp
  next
    case 3
    then show ?thesis using assms(2,3) new old [OF 3(1)] by simp
  qed
qed

lemma named_mono: "named D v \<Longrightarrow> (\<And>n i. D n i \<Longrightarrow> D' n i) \<Longrightarrow> named D' v"
  unfolding named_def by blast

lemma ceilV_eq: "sorted_wrt (<) (map fst v) \<Longrightarrow> v \<noteq> [] \<Longrightarrow> isCeil (fst ` set v) e c \<Longrightarrow> ceilV v e = c"
  using ceilV_isCeil isCeil_unique by blast

text \<open>How the owner of a score changes when a virtual node is added.\<close>

lemma homeOf_old:
  assumes v: "sorted_wrt (<) (map fst v)" "sorted_wrt (<) (map fst (addV vs r v))" "map_of v vs = Some (n # ns)"
  shows "homeOf (addV vs r v) e = homeOf v e"
proof -
  have "vs \<in> fst ` set v" using map_of_SomeD [OF v(3)] by force
  then have k: "fst ` set (addV vs r v) = fst ` set v" by (simp add: keys_addV insert_absorb)
  have "v \<noteq> []" using v(3) by auto
  then have "ceilV (addV vs r v) e = ceilV v e"
    using ceilV_eq [OF v(2)] ceilV_isCeil [OF v(1)] k by simp
  then show ?thesis using v(3) by (simp add: homeOf_def map_of_addV [OF v(1)])
qed

definition neighbour :: "ring_view \<Rightarrow> int \<Rightarrow> int \<Rightarrow> int \<Rightarrow> bool" where
  "neighbour v vs la ne \<longleftrightarrow> la = floorV v (decrScore vs) \<and> ne = ceilV v (incrScore vs)"

lemma homeOf_new:
  assumes v: "sorted_wrt (<) (map fst v)" "sorted_wrt (<) (map fst (addV vs r v))" "map_of v vs = None" "v \<noteq> []"
    and D: "named D v" "0 \<le> vs" "vs < MaxInt32" and e: "0 \<le> e" "e < MaxInt32"
    and n: "neighbour (addV vs r v) vs la ne"
  shows "la \<noteq> vs" "la \<noteq> - 1" "ne \<noteq> vs" "ne \<noteq> - 1" "map_of (addV vs r v) ne = map_of v ne"
    "homeOf (addV vs r v) e = (if inRange vs la ne e then getNodeID r else homeOf v e)"
    "inRange vs la ne e \<Longrightarrow> ceilV v e = ne"
proof -
  let ?K = "fst ` set v"
  have K: "\<forall>x\<in>?K. 0 \<le> x \<and> x < MaxInt32" "?K \<noteq> {}" "vs \<notin> ?K"
    using D(1) v(3,4) by (auto simp: named_def map_of_eq_None_iff)
  have la: "isFloor (insert vs ?K) (decrScore vs) la" and ne: "isCeil (insert vs ?K) (incrScore vs) ne"
    using n floorV_isFloor [OF v(2) addV_ne] ceilV_isCeil [OF v(2) addV_ne] by (auto simp: neighbour_def keys_addV)
  note N = neighbours(1) [OF K D(2,3) la] neighbours(2) [OF K D(2,3) ne]
  show q: "la \<noteq> vs" "la \<noteq> - 1" "ne \<noteq> vs" "ne \<noteq> - 1" using N K by fastforce+
  show "map_of (addV vs r v) ne = map_of v ne" using q(3) by (simp add: map_of_addV [OF v(1)])
  have c: "isCeil ?K e (ceilV v e)" by (rule ceilV_isCeil [OF v(1,4)])
  have t: "if inRange vs la ne e then isCeil (insert vs ?K) e vs \<and> ceilV v e = ne else isCeil (insert vs ?K) e (ceilV v e)"
    using takeover [OF K(1,3) D(2) e _ _ _ _ c] N by blast
  then show "inRange vs la ne e \<Longrightarrow> ceilV v e = ne" by simp
  have "ceilV v e \<noteq> vs" using isCeilD(1) [OF c] K(3) by blast
  then show "homeOf (addV vs r v) e = (if inRange vs la ne e then getNodeID r else homeOf v e)"
    using t ceilV_eq [OF v(2) addV_ne, unfolded keys_addV] v(3)
    by (auto simp: homeOf_def map_of_addV [OF v(1)])
qed

section \<open>Adding a node\<close>

text \<open>From \<open>s\<close> to \<open>s'\<close> no key is lost, and a key that changes its node goes to \<open>nodeID\<close> and is in a task from its old node.\<close>

definition moved :: "string \<Rightarrow> SkiplistHashRing \<Rightarrow> SkiplistHashRing \<Rightarrow> task set \<Rightarrow> bool" where
  "moved nodeID s s' ts \<longleftrightarrow>
     (\<forall>k. (\<exists>n. k \<in> DataKeys s n) = (\<exists>n. k \<in> DataKeys s' n)) \<and>
     (\<forall>k n n'. k \<in> DataKeys s n \<longrightarrow> k \<in> DataKeys s' n' \<longrightarrow> n = n' \<or> n' = nodeID \<and> (\<exists>ds. (n, nodeID, ds) \<in> ts \<and> k \<in> ds))"

definition ring_ok :: "(bytes \<Rightarrow> 32 word) \<Rightarrow> (string \<Rightarrow> nat \<Rightarrow> bool) \<Rightarrow> SkiplistHashRing \<Rightarrow> ring_view \<Rightarrow> bool" where
  "ring_ok murmur D s v \<longleftrightarrow> represents s v \<and> named D v \<and> placed murmur s v"

lemma placed_unique: "placed murmur s v \<Longrightarrow> k \<in> DataKeys s n \<Longrightarrow> k \<in> DataKeys s m \<Longrightarrow> n = m"
  unfolding placed_def by (metis sum.inject(2))

lemma moved_same:
  assumes p: "placed murmur s v" and e: "\<And>n. DataKeys s' n = DataKeys s n"
  shows "moved nodeID s s' ts"
  unfolding moved_def e by (intro conjI allI impI refl disjI1) (rule placed_unique [OF p])

lemma migrate_keys:
  assumes p: "placed murmur s v" and ds: "ds \<subseteq> DataKeys s src"
  shows "moved nodeID s (AddNodeToDataKeys nodeID ds (DeleteNodeToDataKeys src ds s)) {(src, nodeID, ds)}" (is "moved _ _ ?s _")
  unfolding moved_def
proof (intro conjI allI impI)
  fix k
  show "(\<exists>n. k \<in> DataKeys s n) = (\<exists>n. k \<in> DataKeys ?s n)"
  proof (cases "k \<in> ds")
    case True
    then have "k \<in> DataKeys s src" "k \<in> DataKeys ?s nodeID" using ds by auto
    then show ?thesis by blast
  next
    case False
    then have "k \<in> DataKeys ?s n \<longleftrightarrow> k \<in> DataKeys s n" for n by simp
    then show ?thesis by simp
  qed
next
  fix k n n'
  assume k: "k \<in> DataKeys s n" "k \<in> DataKeys ?s n'"
  show "n = n' \<or> n' = nodeID \<and> (\<exists>ds'. (n, nodeID, ds') \<in> {(src, nodeID, ds)} \<and> k \<in> ds')"
  proof (cases "k \<in> ds")
    case True
    then have "n = src" using placed_unique [OF p k(1)] ds by blast
    moreover have "n' = nodeID"
    proof (rule ccontr)
      assume "n' \<noteq> nodeID"
      then have "k \<in> DataKeys s n'" "n' \<noteq> src" using k(2) True by (auto split: if_splits)
      then show False using placed_unique [OF p k(1)] \<open>n = src\<close> by blast
    qed
    ultimately show ?thesis using True by simp
  next
    case False
    then have "k \<in> DataKeys s n'" using k(2) by (auto split: if_splits)
    then show ?thesis using placed_unique [OF p k(1)] by blast
  qed
qed

lemma migrate_placed:
  assumes p: "placed murmur s v" and v: "sorted_wrt (<) (map fst v)" "sorted_wrt (<) (map fst v1)" "map_of v vs = None" "v \<noteq> []"
    and D: "named D v" "0 \<le> vs" "vs < MaxInt32" and v1: "v1 = addV vs (getRawNodeKey nodeID i) v"
    and n: "neighbour v1 vs la ne" and m: "map_of v ne = Some (r # rs)" "getNodeID r = Inr src"
    and ds: "ds = {k \<in> DataKeys s src. inRange vs la ne (Encrypt murmur k)}"
  shows "placed murmur (AddNodeToDataKeys nodeID ds (DeleteNodeToDataKeys src ds s)) v1"
proof -
  note H = homeOf_new [OF v(1) v(2) [unfolded v1] v(3,4) D Encrypt_range(1) Encrypt_range(2) n [unfolded v1], folded v1]
  have own: "n = src" if "k \<in> DataKeys s n" "inRange vs la ne (Encrypt murmur k)" for k n
  proof -
    have "homeOf v (Encrypt murmur k) = Inr n" using p that(1) by (simp add: placed_def)
    moreover have "homeOf v (Encrypt murmur k) = Inr src" using H(7) [of murmur k] that(2) m by (simp add: homeOf_def)
    ultimately show ?thesis by simp
  qed
  have new: "homeOf v1 (Encrypt murmur k) = Inr nodeID" if "inRange vs la ne (Encrypt murmur k)" for k
    using H(6) [of murmur k] that getNodeID_raw by simp
  have stay: "homeOf v1 (Encrypt murmur k) = Inr n" if "k \<in> DataKeys s n" "\<not> inRange vs la ne (Encrypt murmur k)" for k n
    using H(6) [of murmur k] that p by (simp add: placed_def)
  show ?thesis
    unfolding placed_def
  proof (intro allI impI conjI)
    fix n k
    assume k: "k \<in> DataKeys (AddNodeToDataKeys nodeID ds (DeleteNodeToDataKeys src ds s)) n"
    show "v1 \<noteq> []" by (simp add: v1)
    show "homeOf v1 (Encrypt murmur k) = Inr n"
    proof (cases "inRange vs la ne (Encrypt murmur k)")
      case True
      then have "n = nodeID" using k own [of k n] by (auto simp: ds split: if_splits)
      then show ?thesis using new [OF True] by simp
    next
      case False
      then have "k \<in> DataKeys s n" using k by (auto simp: ds split: if_splits)
      then show ?thesis using stay False by blast
    qed
  qed
qed

lemma migrateIn_law:
  assumes r: "represents s1 v1" "v1 = addV vs (getRawNodeKey nodeID i) v" and v: "sorted_wrt (<) (map fst v)" "\<forall>p\<in>set v. snd p \<noteq> []"
    and D: "named D v" "0 \<le> vs" "vs < MaxInt32" and p: "placed murmur s1 v" and f: "\<forall>p\<in>set v. getRawNodeKey nodeID i \<notin> set (snd p)"
  shows "\<exists>src to ds s2. migrateIn murmur True vs nodeID s1 = (Inr (src, to, ds), s2) \<and> represents s2 v1 \<and> placed murmur s2 v1 \<and>
    nodeToReplicas s2 = nodeToReplicas s1 \<and> moved nodeID s1 s2 {(src, to, ds)} \<and> (ds \<noteq> {} \<longrightarrow> to = nodeID)"
proof -
  have s1: "sorted_wrt (<) (map fst v1)" using skip.view_ok [OF r(1)] by simp
  show ?thesis
  proof (cases "map_of v vs")
    case (Some ns)
    then have ne: "ns \<noteq> []" "getRawNodeKey nodeID i \<notin> set ns" using v(2) f map_of_SomeD [OF Some] by auto
    have "Node s1 vs = Inr (ns @ [getRawNodeKey nodeID i])"
      using Node_law [OF r(1)] Some ne by (simp add: r(2) map_of_addV [OF v(1)])
    then have "migrateIn murmur True vs nodeID s1 = (Inr ([], [], {}), s1)" using ne by (simp add: migrateIn_def readS_def)
    moreover have "placed murmur s1 v1"
      using p homeOf_old [OF v(1) s1 [unfolded r(2)]] Some ne by (cases ns) (auto simp: placed_def r(2))
    ultimately show ?thesis using r(1) moved_same [OF p] by blast
  next
    case None
    have N: "Node s1 vs = Inr [getRawNodeKey nodeID i]"
      using Node_law [OF r(1)] None by (simp add: r(2) map_of_addV [OF v(1)])
    define la ne where "la = floorV v1 (decrScore vs)" and "ne = ceilV v1 (incrScore vs)"
    have lane: "Floor s1 (decrScore vs) = Inr la" "Ceiling s1 (incrScore vs) = Inr ne" "neighbour v1 vs la ne"
      using Floor_law [OF r(1)] Ceiling_law [OF r(1)] by (simp_all add: la_def ne_def neighbour_def)
    show ?thesis
    proof (cases "v = []")
      case True
      then have "la = vs" by (simp add: la_def r(2) floorV_def)
      then have "migrateIn murmur True vs nodeID s1 = (Inr ([], [], {}), s1)" using N lane by (simp add: migrateIn_def readS_def)
      moreover have "placed murmur s1 v1" using p True by (simp add: placed_def)
      ultimately show ?thesis using r(1) moved_same [OF p] by blast
    next
      case False
      note H = homeOf_new [OF v(1) s1 [unfolded r(2)] None False D _ _ lane(3) [unfolded r(2)], folded r(2), of 0]
      obtain n rs where nr: "Node s1 ne = Inr (n # rs)" "map_of v1 ne = Some (n # rs)"
        using skip.successor [OF r(1), of "incrScore vs"] r(2) by (auto simp: ne_def)
      then have m: "map_of v ne = Some (n # rs)" using H(5) D(2,3) by simp
      then obtain src j where fr: "n = getRawNodeKey src j"
        using D(1) map_of_SomeD [OF m] by (fastforce simp: named_def)
      define ds where "ds = {k \<in> DataKeys s1 src. inRange vs la ne (Encrypt murmur k)}"
      define s2 where "s2 = AddNodeToDataKeys nodeID ds (DeleteNodeToDataKeys src ds s1)"
      have "migrateIn murmur True vs nodeID s1 = (Inr (src, nodeID, ds), s2)"
        using N lane nr(1) H(1-4) D(2,3) by (simp add: migrateIn_def readS_def fr getNodeID_raw s2_def ds_def)
      moreover have "placed murmur s2 v1"
        unfolding s2_def using migrate_placed [OF p v(1) s1 None False D r(2) lane(3) m _ ds_def] fr getNodeID_raw by simp
      moreover have "moved nodeID s1 s2 {(src, nodeID, ds)}"
        unfolding s2_def by (rule migrate_keys [OF p]) (auto simp: ds_def)
      moreover have "represents s2 v1" "nodeToReplicas s2 = nodeToReplicas s1"
        using r(1) represents_cong [of s2 s1] by (simp_all add: s2_def)
      ultimately show ?thesis by blast
    qed
  qed
qed

lemma moved_trans:
  assumes 1: "moved nodeID s s1 {(src, to, ds)}" and 2: "moved nodeID s1 s2 ts" and to: "ds \<noteq> {} \<Longrightarrow> to = nodeID"
  shows "moved nodeID s s2 (if ds = {} then ts else insert (src, to, ds) ts)" (is "moved _ _ _ ?T")
  unfolding moved_def
proof (intro conjI allI impI)
  show "(\<exists>n. k \<in> DataKeys s n) = (\<exists>n. k \<in> DataKeys s2 n)" for k using 1 2 by (simp add: moved_def)
  fix k n n'
  assume k: "k \<in> DataKeys s n" "k \<in> DataKeys s2 n'"
  then obtain m where m: "k \<in> DataKeys s1 m" using 1 unfolding moved_def by blast
  have a: "n = m \<or> m = nodeID \<and> (n, nodeID, ds) \<in> ?T \<and> k \<in> ds" using 1 k(1) m unfolding moved_def by auto
  have "m = n' \<or> n' = nodeID \<and> (\<exists>ds. (m, nodeID, ds) \<in> ts \<and> k \<in> ds)" using 2 k(2) m unfolding moved_def by blast
  then have b: "m = n' \<or> n' = nodeID \<and> (\<exists>ds. (m, nodeID, ds) \<in> ?T \<and> k \<in> ds)" by auto
  show "n = n' \<or> n' = nodeID \<and> (\<exists>ds. (n, nodeID, ds) \<in> ?T \<and> k \<in> ds)" using a b by blast
qed

definition upTo :: "string set \<Rightarrow> string \<Rightarrow> nat \<Rightarrow> string \<Rightarrow> nat \<Rightarrow> bool" where
  "upTo N nodeID i n j \<longleftrightarrow> n \<in> N \<or> n = nodeID \<and> j < i"

lemma raw_fresh:
  assumes "named (upTo N nodeID i) v" "nodeID \<notin> N" "p \<in> set v"
  shows "getRawNodeKey nodeID i \<notin> set (snd p)"
proof
  assume r: "getRawNodeKey nodeID i \<in> set (snd p)"
  have "\<forall>r\<in>set (snd p). \<exists>n j. r = getRawNodeKey n j \<and> upTo N nodeID i n j" using assms(1,3) unfolding named_def by blast
  then obtain n j where "getRawNodeKey nodeID i = getRawNodeKey n j" "upTo N nodeID i n j" using r by blast
  then show False using assms(2) by (simp add: raw_inj upTo_def)
qed

lemma addReplicas_law:
  assumes N: "nodeID \<notin> N" and r: "ring_ok murmur (upTo N nodeID i) s v" and le: "i \<le> m"
  shows "\<exists>ts s' v'. addReplicas murmur True rolls nodeID [i..<m] s = (Inr ts, s') \<and> ring_ok murmur (upTo N nodeID m) s' v' \<and>
    nodeToReplicas s' = nodeToReplicas s \<and> moved nodeID s s' (set ts) \<and> (\<forall>t\<in>set ts. fst (snd t) = nodeID \<and> snd (snd t) \<noteq> {}) \<and>
    (v \<noteq> [] \<or> i < m \<longrightarrow> v' \<noteq> [])"
  using r le
proof (induction "m - i" arbitrary: i s v)
  case 0
  then show ?case using moved_same [of murmur s v s] by (intro exI [of _ "[]"] exI [of _ s] exI [of _ v]) (auto simp: ring_ok_def)
next
  case (Suc d)
  let ?raw = "getRawNodeKey nodeID i" and ?vs = "Encrypt murmur (getRawNodeKey nodeID i)"
  have lt: "i < m" and up: "[i..<m] = i # [Suc i..<m]" using Suc.hyps(2) by (simp_all add: upt_conv_Cons)
  have o: "represents s v" "named (upTo N nodeID i) v" "placed murmur s v" using Suc.prems(1) by (simp_all add: ring_ok_def)
  have v: "sorted_wrt (<) (map fst v)" "\<forall>p\<in>set v. snd p \<noteq> []" using skip.view_ok [OF o(1)] by auto
  obtain s1 where s1: "ring_Add (rolls i) ?vs ?raw s = Inr s1" "represents s1 (addV ?vs ?raw v)"
    "nodeToReplicas s1 = nodeToReplicas s" "nodeToDataKey s1 = nodeToDataKey s" using Add_law [OF o(1)] by blast
  have dk: "DataKeys s1 n = DataKeys s n" for n by (simp add: DataKeys_def s1(4))
  have p1: "placed murmur s1 v" using o(3) by (simp add: placed_def dk)
  have mv1: "moved nodeID s s1 ts" for ts using moved_same [OF o(3)] dk by simp
  obtain src to ds s2 where s2: "migrateIn murmur True ?vs nodeID s1 = (Inr (src, to, ds), s2)" "represents s2 (addV ?vs ?raw v)"
    "placed murmur s2 (addV ?vs ?raw v)" "nodeToReplicas s2 = nodeToReplicas s1" "moved nodeID s1 s2 {(src, to, ds)}" "ds \<noteq> {} \<longrightarrow> to = nodeID"
    using migrateIn_law [OF s1(2) refl v o(2) Encrypt_range p1] raw_fresh [OF o(2) N] by blast
  have mv: "moved nodeID s s2 {(src, to, ds)}" using s2(5) by (simp add: moved_def dk)
  have "named (upTo N nodeID (Suc i)) (addV ?vs ?raw v)"
    by (rule named_addV [OF named_mono [OF o(2)] Encrypt_range]) (auto simp: upTo_def)
  then have ok2: "ring_ok murmur (upTo N nodeID (Suc i)) s2 (addV ?vs ?raw v)" using s2 by (simp add: ring_ok_def)
  have "d = m - Suc i" "Suc i \<le> m" using Suc.hyps(2) lt by simp_all
  from Suc.hyps(1) [OF this(1) ok2 this(2)] obtain ts s' v' where
    s': "addReplicas murmur True rolls nodeID [Suc i..<m] s2 = (Inr ts, s')" "ring_ok murmur (upTo N nodeID m) s' v'"
      "nodeToReplicas s' = nodeToReplicas s2" "moved nodeID s2 s' (set ts)" "\<forall>t\<in>set ts. fst (snd t) = nodeID \<and> snd (snd t) \<noteq> {}" "v' \<noteq> []" by (elim exE conjE) simp
  let ?ts = "if ds = {} then ts else (src, to, ds) # ts"
  have "addReplicas murmur True rolls nodeID [i..<m] s = (Inr ?ts, s')"
    unfolding up by (simp add: writeS_def s1(1) s2(1) s'(1) Let_def)
  moreover have "moved nodeID s s' (set ?ts)" using moved_trans [OF mv s'(4)] s2(6) by (simp split: if_splits)
  moreover have "\<forall>t\<in>set ?ts. fst (snd t) = nodeID \<and> snd (snd t) \<noteq> {}" using s'(5) s2(6) by auto
  ultimately show ?case using s' s2(4) s1(3) by (intro exI [of _ ?ts] exI [of _ s'] exI [of _ v']) simp
qed

text \<open>A consistent hash in use: a migrator is set, the virtual nodes are those of the nodes of the ring, and every
  recorded key is recorded at its owner.\<close>

definition hash_ok :: "(bytes \<Rightarrow> 32 word) \<Rightarrow> ConsistentHash \<Rightarrow> ring_view \<Rightarrow> bool" where
  "hash_ok murmur c v \<longleftrightarrow> hasMigrator c \<and> ring_ok murmur (\<lambda>n i. n \<in> dom (nodeToReplicas (hashRing c))) (hashRing c) v"

lemma AddNode_law:
  assumes "hash_ok murmur c v" "nodeID \<notin> dom (nodeToReplicas (hashRing c))"
  shows "\<exists>tasks c' v'. AddNode murmur rolls nodeID weight c = (Inr tasks, c') \<and> hash_ok murmur c' v' \<and>
    dom (nodeToReplicas (hashRing c')) = insert nodeID (dom (nodeToReplicas (hashRing c))) \<and>
    moved nodeID (hashRing c) (hashRing c') (set tasks) \<and> (\<forall>t\<in>set tasks. fst (snd t) = nodeID \<and> snd (snd t) \<noteq> {}) \<and>
    (0 < replicas c \<longrightarrow> v' \<noteq> [])"
proof -
  let ?s = "hashRing c" and ?N = "dom (nodeToReplicas (hashRing c))"
  define n where "n = getValidWeight weight * replicas c"
  define s1 where "s1 = AddNodeToReplica nodeID n ?s"
  have o: "represents ?s v" "named (\<lambda>n i. n \<in> ?N) v" "placed murmur ?s v" "hasMigrator c"
    using assms(1) by (simp_all add: hash_ok_def ring_ok_def)
  have "placed murmur s1 v" using o(3) by (simp add: placed_def s1_def)
  moreover have "represents s1 v" using o(1) represents_cong [of s1 ?s] by (simp add: s1_def)
  moreover have "named (upTo ?N nodeID 0) v" by (rule named_mono [OF o(2)]) (simp add: upTo_def)
  ultimately have "ring_ok murmur (upTo ?N nodeID 0) s1 v" by (simp add: ring_ok_def)
  from addReplicas_law [OF assms(2) this le0, where m = "nat n" and rolls = rolls] obtain ts s' v' where
    s': "addReplicas murmur True rolls nodeID [0..<nat n] s1 = (Inr ts, s')" "ring_ok murmur (upTo ?N nodeID (nat n)) s' v'"
      "nodeToReplicas s' = nodeToReplicas s1" "moved nodeID s1 s' (set ts)" "\<forall>t\<in>set ts. fst (snd t) = nodeID \<and> snd (snd t) \<noteq> {}" "0 < nat n \<longrightarrow> v' \<noteq> []" by (elim exE conjE) simp
  have d: "dom (nodeToReplicas s') = insert nodeID ?N" by (simp add: s'(3) s1_def AddNodeToReplica_def)
  have "named (\<lambda>n i. n \<in> dom (nodeToReplicas s')) v'"
    by (rule named_mono [of "upTo ?N nodeID (nat n)"]) (use s'(2) d in \<open>auto simp: ring_ok_def upTo_def\<close>)
  then have "hash_ok murmur (c\<lparr>hashRing := s'\<rparr>) v'" using s'(2) o(4) by (simp add: hash_ok_def ring_ok_def)
  moreover have "AddNode murmur rolls nodeID weight c = (Inr ts, c\<lparr>hashRing := s'\<rparr>)"
    using assms(2) s'(1) o(4) by (simp add: AddNode_def withRing_def ring_AddNode_def readS_def domIff Let_def n_def s1_def)
  moreover have "moved nodeID ?s s' (set ts)" using s'(4) by (simp add: moved_def s1_def)
  moreover have "0 < replicas c \<longrightarrow> v' \<noteq> []"
    using s'(6) by (auto simp: n_def getValidWeight_def zero_less_mult_iff)
  ultimately show ?thesis using d s'(5) by (intro exI [of _ ts] exI [of _ "c\<lparr>hashRing := s'\<rparr>"] exI [of _ v']) simp
qed

lemma GetNode_law:
  assumes "hash_ok murmur c v" "v \<noteq> []"
  shows "\<exists>n r. hash_GetNode murmur k c = (Inr r, c\<lparr>hashRing := AddNodeToDataKeys n {k} (hashRing c)\<rparr>) \<and>
    homeOf v (Encrypt murmur k) = Inr n \<and> n \<in> dom (nodeToReplicas (hashRing c)) \<and> hash_ok murmur (c\<lparr>hashRing := AddNodeToDataKeys n {k} (hashRing c)\<rparr>) v"
proof -
  let ?s = "hashRing c" and ?D = "\<lambda>n i. n \<in> dom (nodeToReplicas (hashRing c))"
  have o: "represents ?s v" "named ?D v" "placed murmur ?s v" "hasMigrator c"
    using assms(1) by (simp_all add: hash_ok_def ring_ok_def)
  obtain r rs where r: "Ceiling ?s (Encrypt murmur k) = Inr (ceilV v (Encrypt murmur k))"
    "Node ?s (ceilV v (Encrypt murmur k)) = Inr (r # rs)" "map_of v (ceilV v (Encrypt murmur k)) = Some (r # rs)"
    using skip.successor [OF o(1) assms(2)] by blast
  have "(ceilV v (Encrypt murmur k), r # rs) \<in> set v" using r(3) by (rule map_of_SomeD)
  then obtain n j where n: "r = getRawNodeKey n j" "ceilV v (Encrypt murmur k) \<noteq> - 1" "n \<in> dom (nodeToReplicas ?s)"
    using o(2) unfolding named_def by fastforce
  define s' where "s' = AddNodeToDataKeys n {k} ?s"
  have h: "homeOf v (Encrypt murmur k) = Inr n" using r(3) n by (simp add: homeOf_def getNodeID_raw)
  have "hash_GetNode murmur k c = (Inr (takeWhile (\<lambda>c. c \<noteq> CHR ''_'') r), c\<lparr>hashRing := s'\<rparr>)"
    using r n by (simp add: hash_GetNode_def withRing_def ring_GetNode_def readS_def getNodeID_raw s'_def)
  moreover have "placed murmur s' v" using o(3) h assms(2) by (auto simp: placed_def s'_def split: if_splits)
  moreover have "represents s' v" using o(1) represents_cong [of s' ?s] by (simp add: s'_def)
  ultimately show ?thesis
    using o(2,4) h n(3) by (intro exI [of _ n] exI [of _ "takeWhile (\<lambda>c. c \<noteq> CHR ''_'') r"]) (simp add: hash_ok_def ring_ok_def s'_def)
qed

lemma new_hash_ok: "hash_ok murmur (NewConsistentHash NewSkiplistHashRing True r e) []"
  using new_represents
  by (simp add: hash_ok_def NewConsistentHash_def ring_ok_def named_def placed_def NewSkiplistHashRing_def DataKeys_def)

section \<open>Properties\<close>

text \<open>C37. A node can join without misplacing a key: adding a new node succeeds and keeps every recorded data key recorded
  at its owner, the node of the first score at or after the key's on the circle of scores. No key is lost, a key
  moves only to the new node, and for each key that moves there is a migration task from its old node.\<close>

theorem join_keeps_keys_with_their_owner:
  assumes "hash_ok murmur c v" "nodeID \<notin> dom (nodeToReplicas (hashRing c))"
  shows "\<exists>tasks c' v'. AddNode murmur rolls nodeID weight c = (Inr tasks, c') \<and> hash_ok murmur c' v' \<and>
    dom (nodeToReplicas (hashRing c')) = insert nodeID (dom (nodeToReplicas (hashRing c))) \<and>
    moved nodeID (hashRing c) (hashRing c') (set tasks) \<and> (\<forall>t\<in>set tasks. fst (snd t) = nodeID \<and> snd (snd t) \<noteq> {}) \<and>
    (0 < replicas c \<longrightarrow> v' \<noteq> [])"
  using assms by (rule AddNode_law)

theorem join_keeps_keys_with_their_owner_witness:
  "\<exists>c c' v' tasks n. DataKeys (hashRing c) ''0'' = {''key''} \<and>
     AddNode (\<lambda>b. of_nat (length b)) (\<lambda>i. i) ''1'' 1 c = (Inr tasks, c') \<and>
     hash_ok (\<lambda>b. of_nat (length b)) c' v' \<and> ''key'' \<in> DataKeys (hashRing c') n"
proof -
  let ?m = "\<lambda>b :: bytes. of_nat (length b) :: 32 word" and ?c = "NewConsistentHash NewSkiplistHashRing True 2 5"
  have "''0'' \<notin> dom (nodeToReplicas (hashRing ?c))" by (simp add: NewConsistentHash_def NewSkiplistHashRing_def)
  from join_keeps_keys_with_their_owner [OF new_hash_ok this, of ?m "\<lambda>i. i" 1] obtain t c1 v1 where
    c1: "hash_ok ?m c1 v1" "dom (nodeToReplicas (hashRing c1)) = {''0''}" "moved ''0'' (hashRing ?c) (hashRing c1) (set t)" "v1 \<noteq> []"
    by (elim exE conjE) (simp add: NewConsistentHash_def NewSkiplistHashRing_def)
  have e: "DataKeys (hashRing c1) n = {}" for n
    using c1(3) by (auto simp: moved_def NewConsistentHash_def NewSkiplistHashRing_def DataKeys_def)
  define c2 where "c2 = c1\<lparr>hashRing := AddNodeToDataKeys ''0'' {''key''} (hashRing c1)\<rparr>"
  have c2: "hash_ok ?m c2 v1" using GetNode_law [OF c1(1,4), of "''key''"] c1(2) by (auto simp: c2_def)
  have k: "DataKeys (hashRing c2) ''0'' = {''key''}" by (simp add: c2_def e)
  have "''1'' \<notin> dom (nodeToReplicas (hashRing c2))" using c1(2) by (auto simp: c2_def)
  from join_keeps_keys_with_their_owner [OF c2 this, of "\<lambda>i. i" 1] obtain ts c3 v3 where
    c3: "AddNode ?m (\<lambda>i. i) ''1'' 1 c2 = (Inr ts, c3)" "hash_ok ?m c3 v3" "moved ''1'' (hashRing c2) (hashRing c3) (set ts)"
    by (elim exE conjE)
  then obtain n where "''key'' \<in> DataKeys (hashRing c3) n" using k unfolding moved_def by blast
  then show ?thesis using k c3 by blast
qed

end
