(* ===== verification/Sub_Proposer.thy ===== *)
theory Sub_Proposer
  imports Sub_Follower Consistent_Hash
begin

text \<open>
  \<^verbatim>\<open>src/consensus_shard/subMPT/proposer.go\<close> and \<^verbatim>\<open>proposerListen.go\<close>: a proposer takes transactions from its pending pool,
  allocates each to the followers of its sender and of its recipient, collects the transactions the followers have
  executed, and packs them into blocks of the memory chain.

  The goroutines of one handler that append to a shared map take its lock in any order: the order is an argument.
  \<^verbatim>\<open>TxAllocate\<close> sends a batch first and records it in the pool of allocated transactions afterwards, so it has two
  definitions. The goroutines that a handler leaves behind are part of its result: the allocations of
  \<^verbatim>\<open>SchedulingTxs\<close>, the start of \<^verbatim>\<open>blockGenerate\<close>, the signal for the next round. The table of addresses has the keys \<^verbatim>\<open>"p"\<close>
  and \<^verbatim>\<open>"f"+id\<close>, here \<open>PTable\<close> and \<open>FTable id\<close>. The package variables \<^verbatim>\<open>poollencount\<close> and \<^verbatim>\<open>params.FollowerNum\<close> are fields. The
  recordings for the measurements (\<^verbatim>\<open>Record\<close>, \<^verbatim>\<open>write_csv\<close>, time stamps) are left out.
\<close>

section \<open>The state\<close>

datatype node_table = PTable | FTable uint64

record ProposerNode =
  p_NodeID :: uint64
  p_ShardID :: uint64
  NeighborIDs :: "uint64 list"
  FollowerIDs :: "uint64 list"
  ip_nodeTable :: "node_table \<Rightarrow> uint64 \<Rightarrow> string"
  CurChain :: BlockChain
  chainHeight2Hash :: "uint64 \<rightharpoonup> bytes"
  p_stop :: bool
  blockHashGenDone :: "bytes \<rightharpoonup> bool"
  PendingTxpool :: "Transaction list"
  AllocatedTxpool :: "bytes \<rightharpoonup> Transaction"
  ProcessedTxpool :: "Transaction list"
  EpochId :: "32 word"
  GatherMap :: "uint64 \<Rightarrow> (uint64 \<times> bytes) list"
  VerifyBlock :: "Block option"
  VerifyLock :: bool
  p_Hash :: ConsistentHash
  ReceiveRequestDataMap :: "uint64 \<rightharpoonup> F_ResponseDataMsgs"
  ReadyMap :: "uint64 \<rightharpoonup> bool"
  txcount :: uint64
  Idx :: uint64
  poollencount :: "32 word"
  params_FollowerNum :: int

definition NewProposerNode ::
  "env \<Rightarrow> (bytes \<Rightarrow> 32 word) \<Rightarrow> (nat \<Rightarrow> nat \<Rightarrow> nat) \<Rightarrow> int \<Rightarrow> (node_table \<Rightarrow> uint64 \<Rightarrow> string) \<Rightarrow> uint64 \<Rightarrow> uint64 \<Rightarrow>
    uint64 \<Rightarrow> uint64 \<Rightarrow> uint64 list \<Rightarrow> uint64 list \<Rightarrow> Storage \<Rightarrow> ProposerNode res"
where
  "NewProposerNode E murmur rolls followerNum table pccShard pccSize sID nID fIDs pIDs bolt =
     bindR (orPanic (NewBlockChain E pccShard pccSize bolt)) (\<lambda>bc.
       bindR (foldR (\<lambda>i c. case AddNode murmur (rolls i) (itoa i) 1 c of (Inr ts, c') \<Rightarrow> Inr c' | (Inl e, c') \<Rightarrow> Inl Panic)
                [0..<length fIDs] (NewConsistentHash NewSkiplistHashRing True 2 5)) (\<lambda>hash.
         Inr \<lparr>p_NodeID = nID, p_ShardID = sID, NeighborIDs = pIDs, FollowerIDs = fIDs, ip_nodeTable = table, CurChain = bc,
              chainHeight2Hash = [Number (Header (CurrentBlock bc)) \<mapsto> BHash (CurrentBlock bc)], p_stop = False,
              blockHashGenDone = Map.empty, PendingTxpool = [], AllocatedTxpool = Map.empty, ProcessedTxpool = [],
              EpochId = 1, GatherMap = (\<lambda>e. []), VerifyBlock = None, VerifyLock = False, p_Hash = hash,
              ReceiveRequestDataMap = Map.empty, ReadyMap = map_of (map (\<lambda>f. (f, True)) fIDs), txcount = 0, Idx = 0,
              poollencount = 0, params_FollowerNum = followerNum\<rparr>))"

section \<open>The transactions of the data set\<close>

text \<open>\<^verbatim>\<open>temptool.go\<close>: the rows of the file are those that the CSV reader returns, an error of the reader panics. \<open>enc\<close> and \<open>sha\<close> are
  the encoding and the hash of a transaction.\<close>

definition isDigit :: "char \<Rightarrow> bool" where
  "isDigit c \<longleftrightarrow> (let n = of_char c :: nat in 48 \<le> n \<and> n \<le> 57)"

text \<open>\<^verbatim>\<open>SetString(s, 10)\<close> of \<^verbatim>\<open>big.Int\<close>: digits after an optional sign.\<close>

definition SetString10 :: "string \<Rightarrow> int option" where
  "SetString10 s =
     (let neg = (s \<noteq> [] \<and> hd s = CHR ''-''); ds = (if s \<noteq> [] \<and> (hd s = CHR ''-'' \<or> hd s = CHR ''+'') then tl s else s)
      in if ds \<noteq> [] \<and> list_all isDigit ds then Some (if neg then - int (decimal ds) else int (decimal ds)) else None)"

definition data2tx ::
  "(Transaction \<Rightarrow> bytes) \<Rightarrow> (bytes \<Rightarrow> bytes) \<Rightarrow> int \<Rightarrow> string list \<Rightarrow> uint64 \<Rightarrow> Transaction option res"
where
  "data2tx enc sha now row nonce =
     (if length row \<le> 6 then Inl Panic
      else if row ! 6 \<noteq> ''0'' then Inr None
      else if length row \<le> 7 then Inl Panic
      else if row ! 7 = ''0'' \<and> 16 < length (row ! 3) \<and> 16 < length (row ! 4) \<and> row ! 3 \<noteq> row ! 4
      then if length row \<le> 8 then Inl Panic
           else (case SetString10 (row ! 8) of
                   None \<Rightarrow> Inl Panic
                 | Some val \<Rightarrow> Inr (Some (NewTransaction4 enc sha (drop 2 (row ! 3)) (drop 2 (row ! 4)) val nonce now)))
      else Inr None)"

fun generateTxs ::
  "(Transaction \<Rightarrow> bytes) \<Rightarrow> (bytes \<Rightarrow> bytes) \<Rightarrow> (nat \<Rightarrow> int) \<Rightarrow> int \<Rightarrow> string list res list \<Rightarrow> Transaction list \<Rightarrow> Transaction list res"
where
  "generateTxs enc sha now txSize [] txlist = Inr txlist"
| "generateTxs enc sha now txSize (row # rows) txlist =
     bindR (orPanic row) (\<lambda>data.
       bindR (data2tx enc sha (now (length txlist)) data (of_nat (length txlist))) (\<lambda>t.
         let txlist' = txlist @ (case t of None \<Rightarrow> [] | Some tx \<Rightarrow> [tx])
         in if int (length txlist') = txSize then Inr txlist' else generateTxs enc sha now txSize rows txlist'))"

definition ProposerGenerateTxs3 ::
  "(Transaction \<Rightarrow> bytes) \<Rightarrow> (bytes \<Rightarrow> bytes) \<Rightarrow> (nat \<Rightarrow> int) \<Rightarrow> int \<Rightarrow> string list res list \<Rightarrow> Transaction list res"
where
  "ProposerGenerateTxs3 enc sha now txSize rows = generateTxs enc sha now txSize rows []"

definition last16bitsToInt :: "bytes \<Rightarrow> int res" where
  "last16bitsToInt data =
     (if length data < 2 then Inl Panic
      else Inr (foldl (\<lambda>result b. push_bit 8 result + uint b) 0 (drop (length data - 2) data)))"

text \<open>With a positive size no more transactions are generated than asked for.\<close>

lemma generateTxs_size:
  assumes "generateTxs enc sha now txSize rows txlist = Inr txs" "int (length txlist) < txSize"
  shows "int (length txs) \<le> txSize"
  using assms
proof (induction rows arbitrary: txlist)
  case (Cons row rows)
  obtain t where t: "(let txlist' = txlist @ (case t of None \<Rightarrow> [] | Some tx \<Rightarrow> [tx])
      in if int (length txlist') = txSize then Inr txlist' else generateTxs enc sha now txSize rows txlist') = Inr txs"
    using Cons.prems(1) by (simp only: generateTxs.simps bindR_eq_Inr) blast
  show ?case
  proof (cases "int (length (txlist @ (case t of None \<Rightarrow> [] | Some tx \<Rightarrow> [tx]))) = txSize")
    case False
    moreover from False have "int (length (txlist @ (case t of None \<Rightarrow> [] | Some tx \<Rightarrow> [tx]))) < txSize"
      using Cons.prems(2) by (cases t) simp_all
    ultimately show ?thesis using Cons.IH t by (simp only: Let_def if_False)
  qed (use t in \<open>auto simp: Let_def\<close>)
qed simp

section \<open>Injecting and allocating transactions\<close>

text \<open>One round of the injection loop of \<^verbatim>\<open>RunProposerNode\<close>: the transactions still to come are the result. A negative
  speed panics in the slice expression.\<close>

definition injectTxs :: "int \<Rightarrow> (nat \<Rightarrow> int) \<Rightarrow> Transaction list \<Rightarrow> ProposerNode \<Rightarrow> (Transaction list \<times> ProposerNode) res" where
  "injectTxs injectSpeed now txs p =
     (let selectTxs = (if int (length txs) < injectSpeed then int (length txs) else injectSpeed) in
      if selectTxs < 0 then Inl Panic
      else let k = nat selectTxs; new = map (\<lambda>(i, tx). tx\<lparr>TxTime := now i\<rparr>) (enumerate 0 (take k txs))
           in Inr (drop k txs, p\<lparr>PendingTxpool := PendingTxpool p @ new\<rparr>))"

definition allocateTx :: "int \<Rightarrow> Transaction \<Rightarrow> (int \<Rightarrow> Transaction list) \<Rightarrow> (int \<Rightarrow> Transaction list) res" where
  "allocateTx n tx allocMap =
     bindR (txDests n tx) (\<lambda>d.
       case d of
         None \<Rightarrow> Inr allocMap
       | Some (destId1, destId2) \<Rightarrow>
           if destId1 = destId2 then Inr (allocMap(destId1 := allocMap destId1 @ [tx]))
           else Inr (allocMap(destId1 := allocMap destId1 @ [tx], destId2 := allocMap destId2 @ [tx])))"

type_synonym allocation = "uint64 \<times> string \<times> Transaction list \<times> uint64"

text \<open>The fold over the transactions in the order in which their goroutines take the lock, and the goroutines started
  for the followers: identifier, address, batch and epoch.\<close>

definition allocate :: "(Transaction list \<Rightarrow> Transaction list) \<Rightarrow> node_table \<Rightarrow> Transaction list \<Rightarrow> ProposerNode \<Rightarrow> (allocation list \<times> ProposerNode) res" where
  "allocate order table txs p =
     bindR (foldR (allocateTx (int (length (FollowerIDs p)))) (order txs) (\<lambda>d. [])) (\<lambda>allocMap.
       let epochId = EpochId p + 1
       in Inr (map (\<lambda>fid. (fid, ip_nodeTable p table fid, allocMap (sint fid), ucast epochId)) (remdups (FollowerIDs p)),
               p\<lparr>EpochId := epochId\<rparr>))"

datatype sched =
    Allocs "allocation list"
  | SignalLater
  | Blocked

definition closeProposerNode :: "ProposerNode \<Rightarrow> ProposerNode" where
  "closeProposerNode p = p\<lparr>p_stop := True\<rparr>"

text \<open>After ten rounds on an empty pool the proposer closes itself and sends on \<^verbatim>\<open>stopchan\<close>. The only receiver is the loop
  that called \<^verbatim>\<open>SchedulingTxs\<close>, so that send never returns.\<close>

definition SchedulingTxs :: "int \<Rightarrow> (Transaction list \<Rightarrow> Transaction list) \<Rightarrow> ProposerNode \<Rightarrow> (sched \<times> ProposerNode) res" where
  "SchedulingTxs maxBlockSize order p =
     (if PendingTxpool p = [] then
        let p1 = p\<lparr>poollencount := poollencount p + 1\<rparr>
        in if 10 \<le> sint (poollencount p1) then Inr (Blocked, closeProposerNode p1) else Inr (SignalLater, p1)
      else let p1 = p\<lparr>poollencount := 0\<rparr>;
               txSize = (if int (length (PendingTxpool p)) < maxBlockSize then int (length (PendingTxpool p)) else maxBlockSize)
           in if txSize < 0 then Inl Panic
              else let localTxpool = take (nat txSize) (PendingTxpool p);
                       p2 = p1\<lparr>PendingTxpool := drop (nat txSize) (PendingTxpool p)\<rparr>
                   in bindR (allocate order (FTable (p_NodeID p)) localTxpool p2) (\<lambda>(as, p3). Inr (Allocs as, p3)))"

definition TxAllocate_send :: "ProposerNode \<Rightarrow> allocation \<Rightarrow> (string \<times> Allocate_TxMsgs) option" where
  "TxAllocate_send p a =
     (case a of (fid, fip, txs, epochId) \<Rightarrow>
        if ReadyMap p fid = None then None
        else Some (fip, \<lparr>al_Txs = txs, al_ProposerID = p_ShardID p, al_FollowerID = fid, al_EpochId = epochId\<rparr>))"

definition TxAllocate_record :: "Transaction list \<Rightarrow> ProposerNode \<Rightarrow> ProposerNode" where
  "TxAllocate_record txs p = p\<lparr>AllocatedTxpool := fold (\<lambda>tx m. m(TxHash tx \<mapsto> tx)) txs (AllocatedTxpool p)\<rparr>"

section \<open>Gathering results\<close>

text \<open>The times are taken from the entry of \<^verbatim>\<open>msg.Txs\<close> with the index of the hash.\<close>

definition gatherTx :: "Precessed_TxMsgs \<Rightarrow> nat \<times> bytes \<Rightarrow> ProposerNode \<Rightarrow> ProposerNode res" where
  "gatherTx msg ih p =
     (case ih of (i, txHash) \<Rightarrow>
        bindR (case AllocatedTxpool p txHash of
                 None \<Rightarrow> Inr p
               | Some tx \<Rightarrow>
                   if length (pr_Txs msg) \<le> i then Inl Panic
                   else Inr (p\<lparr>ProcessedTxpool := ProcessedTxpool p @
                                [tx\<lparr>AllocateTime := AllocateTime (pr_Txs msg ! i), ExecutionTime := ExecutionTime (pr_Txs msg ! i)\<rparr>]\<rparr>))
          (\<lambda>p1. Inr (p1\<lparr>AllocatedTxpool := (AllocatedTxpool p1)(txHash := None)\<rparr>)))"

definition GatherTxs :: "Precessed_TxMsgs \<Rightarrow> ProposerNode \<Rightarrow> ProposerNode res" where
  "GatherTxs msg p = foldR (gatherTx msg) (enumerate 0 (pr_TxHashs msg)) p"

text \<open>The result says whether \<^verbatim>\<open>blockGenerate\<close> is started.\<close>

definition handleProcessedTxs :: "Precessed_TxMsgs \<Rightarrow> ProposerNode \<Rightarrow> (bool \<times> ProposerNode) res" where
  "handleProcessedTxs msg p =
     bindR (GatherTxs msg p) (\<lambda>p1.
       let g = AList.update (pr_FollowerID msg) (pr_StateRoot msg) (GatherMap p1 (pr_EpochId msg));
           p2 = p1\<lparr>GatherMap := (GatherMap p1)(pr_EpochId msg := g)\<rparr>
       in Inr (int (length g) = params_FollowerNum p2 \<and> p_ShardID p2 = 0, p2))"

section \<open>Blocks\<close>

text \<open>The state root and the transaction root are the constant \<^verbatim>\<open>"123"\<close>. The result is the block, on which the
  signal for the next round depends: without a block there is none.\<close>

definition blockGenerate :: "env \<Rightarrow> int \<Rightarrow> ProposerNode \<Rightarrow> (Block option \<times> ProposerNode) res" where
  "blockGenerate E now p =
     (let cur = CurrentBlock (CurChain p); txs = ProcessedTxpool p in
      if blockHashGenDone p (BHash cur) \<noteq> None \<or> txs = [] then Inr (None, p)
      else bindR (GetBloomFilter txs) (\<lambda>bloom.
        let bh = \<lparr>ParentBlockHash = BHash cur, HStateRoot = strBytes ''123'', TxRoot = strBytes ''123'', BloomFilter = bloom,
                  Number = Number (Header cur) + 1, HTime = now, Miner = 0\<rparr>;
            b = (NewBlock bh txs)\<lparr>BHash := header_Hash (e_encodeBH E) (e_sha256 E) bh\<rparr>;
            p1 = p\<lparr>ProcessedTxpool := [], blockHashGenDone := (blockHashGenDone p)(BHash cur \<mapsto> True)\<rparr>
        in bindR (mem_AddBlock E (Some b) (CurChain p)) (\<lambda>(added, bc).
             Inr (Some b, p1\<lparr>CurChain := bc, txcount := txcount p + 10000\<rparr>))))"

definition VerifyingBlock :: "(Transaction list \<Rightarrow> Transaction list) \<Rightarrow> Block \<Rightarrow> ProposerNode \<Rightarrow> (allocation list \<times> ProposerNode) res" where
  "VerifyingBlock order block p = allocate order (FTable (p_ShardID p)) (Body block) p"

text \<open>\<^verbatim>\<open>handleBlockMsg\<close> takes \<^verbatim>\<open>VerifyLock\<close> and does not release it: \<open>None\<close> is a handler that waits for the lock.\<close>

definition handleBlockMsg ::
  "env \<Rightarrow> (Transaction list \<Rightarrow> Transaction list) \<Rightarrow> bytes \<Rightarrow> ProposerNode \<Rightarrow> (allocation list option \<times> ProposerNode) res"
where
  "handleBlockMsg E order enc p =
     (if VerifyLock p then Inr (None, p)
      else bindR (orPanic (e_decodeB E enc)) (\<lambda>b.
             bindR (VerifyingBlock order b (p\<lparr>VerifyLock := True, VerifyBlock := Some b\<rparr>)) (\<lambda>(as, p1). Inr (Some as, p1))))"

definition blockBroadcast :: "env \<Rightarrow> Block option \<Rightarrow> ProposerNode \<Rightarrow> (string \<times> proposer_msg) list" where
  "blockBroadcast E b p =
     (case b of
        None \<Rightarrow> []
      | Some b \<Rightarrow> map (\<lambda>i. (ip_nodeTable p PTable i, P_BlockBroadcast (e_encodeB E b) (p_ShardID p))) (NeighborIDs p))"

section \<open>Followers that join\<close>

text \<open>\<^verbatim>\<open>handleFollowerJoin\<close> up to the calls of the migrator, and after they have returned. The error of \<^verbatim>\<open>AddNode\<close> is dropped.\<close>

definition joinStart ::
  "(bytes \<Rightarrow> 32 word) \<Rightarrow> (nat \<Rightarrow> nat) \<Rightarrow> string \<Rightarrow> ProposerNode \<Rightarrow> ((string \<times> follower_msg) list \<times> task list \<times> ProposerNode) res"
where
  "joinStart murmur rolls ip p =
     (let newNodeId = length (FollowerIDs p); fid = of_nat newNodeId;
          p1 = p\<lparr>ip_nodeTable := (ip_nodeTable p)(FTable (p_NodeID p) := (ip_nodeTable p (FTable (p_NodeID p)))(fid := ip))\<rparr>
      in case AddNode murmur rolls (itoa newNodeId) 1 (p_Hash p1) of
           (Inr tasks, c) \<Rightarrow> Inr ([(ip, P_AllocFId fid)], tasks, p1\<lparr>p_Hash := c\<rparr>)
         | (Inl (ErrMsg m), c) \<Rightarrow> Inr ([(ip, P_AllocFId fid)], [], p1\<lparr>p_Hash := c\<rparr>)
         | (Inl e, c) \<Rightarrow> Inl e)"

definition joinEnd :: "ProposerNode \<Rightarrow> ProposerNode" where
  "joinEnd p = p\<lparr>params_FollowerNum := params_FollowerNum p + 1,
                 FollowerIDs := FollowerIDs p @ [of_nat (length (FollowerIDs p))]\<rparr>"

text \<open>The migrator: it asks the old follower for the accounts, waits for the answer and hands it to the new follower. The names of
  followers are decimal numbers. \<open>keys\<close> lists the data keys in the order of the range.\<close>

definition migratorRequest :: "ProposerNode \<Rightarrow> string list \<Rightarrow> string \<Rightarrow> string \<times> follower_msg" where
  "migratorRequest p keys src = (ip_nodeTable p (FTable (p_NodeID p)) (of_nat (decimal src)), P_RequestData keys)"

definition migratorForward :: "string \<Rightarrow> string \<Rightarrow> ProposerNode \<Rightarrow> ((string \<times> follower_msg) \<times> ProposerNode) option" where
  "migratorForward src to p =
     (case ReceiveRequestDataMap p (of_nat (decimal src)) of
        None \<Rightarrow> None
      | Some m \<Rightarrow> Some ((ip_nodeTable p (FTable (p_NodeID p)) (of_nat (decimal to)), P_AllocateData (rs_Keys m) (rs_Value m)),
                        p\<lparr>ReceiveRequestDataMap := (ReceiveRequestDataMap p)(of_nat (decimal src) := None)\<rparr>))"

definition handleFollowerResponse :: "F_ResponseDataMsgs \<Rightarrow> ProposerNode \<Rightarrow> ProposerNode" where
  "handleFollowerResponse msg p = p\<lparr>ReceiveRequestDataMap := (ReceiveRequestDataMap p)(rs_Fid msg \<mapsto> msg)\<rparr>"

definition handleFollowerReady :: "uint64 \<Rightarrow> ProposerNode \<Rightarrow> ProposerNode" where
  "handleFollowerReady fid p = p\<lparr>ReadyMap := (ReadyMap p)(fid \<mapsto> True)\<rparr>"

definition handleExecuteTimeMsg :: "ProposerNode \<Rightarrow> ProposerNode" where
  "handleExecuteTimeMsg p = p\<lparr>Idx := Idx p + 1\<rparr>"

end
