(* ===== verification/Sub_Execution.thy ===== *)
theory Sub_Execution
  imports Sub_Proposer
begin

text \<open>
  Split execution: the proposer sends a transaction to the follower of its sender and to that of its recipient, and
  each follower changes only its own accounts. When the accounts can pay what they spend in the round, the followers
  together bring every account to its balance after all transactions of the round, whatever the number of followers
  and the order inside the batches.
\<close>

section \<open>Which follower gets a transaction\<close>

definition touches :: "int \<Rightarrow> int \<Rightarrow> Transaction \<Rightarrow> bool" where
  "touches n d tx \<longleftrightarrow> (case txDests n tx of Inr (Some (d1, d2)) \<Rightarrow> d = d1 \<or> d = d2 | _ \<Rightarrow> False)"

lemma allocateTx_law:
  assumes "txDests n tx = Inr d"
  shows "\<exists>am'. allocateTx n tx am = Inr am' \<and> (\<forall>k. mset (am' k) = mset (am k) + (if touches n k tx then {#tx#} else {#}))"
  using assms by (cases d) (auto simp: allocateTx_def touches_def)

lemma allocate_fold:
  assumes "\<forall>tx\<in>set txs. isInr (txDests n tx)"
  shows "\<exists>am'. foldR (allocateTx n) txs am = Inr am' \<and> (\<forall>k. mset (am' k) = mset (am k) + filter_mset (touches n k) (mset txs))"
  using assms
proof (induction txs arbitrary: am)
  case (Cons tx txs)
  obtain d where "txDests n tx = Inr d" using Cons.prems by (auto simp: isInr_iff)
  from allocateTx_law [OF this] obtain am1 where
    1: "allocateTx n tx am = Inr am1" "\<And>k. mset (am1 k) = mset (am k) + (if touches n k tx then {#tx#} else {#})" by blast
  obtain am2 where "foldR (allocateTx n) txs am1 = Inr am2" "\<And>k. mset (am2 k) = mset (am1 k) + filter_mset (touches n k) (mset txs)"
    using Cons by force
  then show ?case using 1 by simp
qed simp

lemma allocate_panics:
  assumes "foldR (allocateTx n) txs am = Inr am'"
  shows "\<forall>tx\<in>set txs. isInr (txDests n tx)"
  using assms
proof (induction txs arbitrary: am)
  case (Cons tx txs)
  then show ?case by (auto simp: allocateTx_def isInr_iff)
qed simp

lemma allocate_law:
  assumes "allocate order table txs p = Inr (as, p')" "mset (order txs) = mset txs"
  shows "\<forall>tx\<in>set txs. isInr (txDests (int (length (FollowerIDs p))) tx)"
    and "p' = p\<lparr>EpochId := EpochId p + 1\<rparr>"
    and "map fst as = remdups (FollowerIDs p)"
    and "\<forall>(fid, fip, batch, epoch)\<in>set as. fip = ip_nodeTable p table fid \<and> epoch = ucast (EpochId p') \<and>
      mset batch = filter_mset (touches (int (length (FollowerIDs p))) (sint fid)) (mset txs)"
proof -
  let ?n = "int (length (FollowerIDs p))"
  obtain am where am: "foldR (allocateTx ?n) (order txs) (\<lambda>d. []) = Inr am" and
    r: "as = map (\<lambda>fid. (fid, ip_nodeTable p table fid, am (sint fid), ucast (EpochId p + 1))) (remdups (FollowerIDs p))"
       "p' = p\<lparr>EpochId := EpochId p + 1\<rparr>"
    using assms(1) by (auto simp: allocate_def Let_def)
  have s: "set (order txs) = set txs" using assms(2) by (metis set_mset_mset)
  show 1: "\<forall>tx\<in>set txs. isInr (txDests ?n tx)" using allocate_panics [OF am] s by simp
  then obtain am' where "foldR (allocateTx ?n) (order txs) (\<lambda>d. []) = Inr am'"
    "\<forall>k. mset (am' k) = filter_mset (touches ?n k) (mset (order txs))"
    using allocate_fold [of "order txs" ?n "\<lambda>d. []"] s by auto
  then show "\<forall>(fid, fip, batch, epoch)\<in>set as. fip = ip_nodeTable p table fid \<and> epoch = ucast (EpochId p') \<and>
      mset batch = filter_mset (touches ?n (sint fid)) (mset txs)"
    using am r assms(2) by simp
  show "p' = p\<lparr>EpochId := EpochId p + 1\<rparr>" "map fst as = remdups (FollowerIDs p)" using r by (simp_all add: o_def)
qed

section \<open>Flows\<close>

definition routable :: "Transaction \<Rightarrow> bool" where
  "routable tx \<longleftrightarrow> hexDigit (hd (Sender tx)) \<noteq> None \<and> hexDigit (hd (Recipient tx)) \<noteq> None"

definition outflow :: "Transaction list \<Rightarrow> address \<Rightarrow> int" where
  "outflow txs a = (\<Sum>tx\<leftarrow>txs. if routable tx \<and> Sender tx = a then TxValue tx else 0)"

definition inflow :: "Transaction list \<Rightarrow> address \<Rightarrow> int" where
  "inflow txs a = (\<Sum>tx\<leftarrow>txs. if routable tx \<and> Recipient tx = a then TxValue tx else 0)"

definition accountOf :: "FollowerNode \<Rightarrow> address \<Rightarrow> bool" where
  "accountOf f a \<longleftrightarrow> (case hexDigit (hd a) of Some d \<Rightarrow> owns f (int d smod FollowerNum f) | None \<Rightarrow> False)"

lemma dests_routable:
  assumes "isInr (txDests (FollowerNum f) tx)"
  shows "\<not> routable tx \<Longrightarrow> txDests (FollowerNum f) tx = Inr None"
    and "routable tx \<Longrightarrow> \<exists>d1 d2. txDests (FollowerNum f) tx = Inr (Some (d1, d2)) \<and>
      (owns f d1 \<longleftrightarrow> accountOf f (Sender tx)) \<and> (owns f d2 \<longleftrightarrow> accountOf f (Recipient tx))"
  using assms by (auto simp: txDests_def routable_def accountOf_def isInr_iff split: if_splits option.splits)

lemma outflow_nonneg: "\<forall>tx\<in>set txs. 0 \<le> TxValue tx \<Longrightarrow> 0 \<le> outflow txs a"
  and inflow_nonneg: "\<forall>tx\<in>set txs. 0 \<le> TxValue tx \<Longrightarrow> 0 \<le> inflow txs a"
  by (induction txs) (auto simp: outflow_def inflow_def)

text \<open>A transaction whose sender can pay changes the own accounts by what it moves.\<close>

lemma settle_one:
  assumes "isInr (txDests (FollowerNum f) tx)" "accountOf f (Sender tx) \<Longrightarrow> routable tx \<Longrightarrow> TxValue tx \<le> bal (Sender tx)"
  shows "fSettle f tx bal a = (if accountOf f a then bal a - outflow [tx] a + inflow [tx] a else bal a)"
    and "fPays f tx bal \<longleftrightarrow> routable tx"
proof -
  show "fSettle f tx bal a = (if accountOf f a then bal a - outflow [tx] a + inflow [tx] a else bal a)"
  proof (cases "routable tx")
    case True
    from dests_routable(2) [OF assms(1) True] obtain d1 d2 where "txDests (FollowerNum f) tx = Inr (Some (d1, d2))"
      "owns f d1 \<longleftrightarrow> accountOf f (Sender tx)" "owns f d2 \<longleftrightarrow> accountOf f (Recipient tx)" by blast
    then show ?thesis using True assms(2) by (auto simp: fSettle_def Let_def outflow_def inflow_def)
  qed (use dests_routable(1) [OF assms(1)] in \<open>simp add: fSettle_def outflow_def inflow_def\<close>)
  show "fPays f tx bal \<longleftrightarrow> routable tx"
    using dests_routable [OF assms(1)] assms(2) by (cases "routable tx") (force simp: fPays_def)+
qed

lemma settle_flow:
  assumes "\<forall>tx\<in>set txs. isInr (txDests (FollowerNum f) tx) \<and> 0 \<le> TxValue tx" "\<forall>a. accountOf f a \<longrightarrow> outflow txs a \<le> bal a"
  shows "fold (fSettle f) txs bal a = (if accountOf f a then bal a - outflow txs a + inflow txs a else bal a)"
    and "fReports f txs bal = map TxHash (filter routable txs)"
proof -
  have "(\<forall>a. fold (fSettle f) txs bal a = (if accountOf f a then bal a - outflow txs a + inflow txs a else bal a)) \<and>
    fReports f txs bal = map TxHash (filter routable txs)"
    using assms
  proof (induction txs arbitrary: bal)
    case (Cons tx txs)
    have c: "outflow (tx # txs) a = outflow [tx] a + outflow txs a" "inflow (tx # txs) a = inflow [tx] a + inflow txs a" for a
      by (simp_all add: outflow_def inflow_def)
    have pos: "0 \<le> outflow txs a" "0 \<le> inflow [tx] a" for a
      using Cons.prems(1) outflow_nonneg [of txs a] inflow_nonneg [of "[tx]" a] by simp_all
    have "TxValue tx \<le> bal (Sender tx)" if "accountOf f (Sender tx)" "routable tx"
      using Cons.prems(2) [rule_format, OF that(1)] pos(1) [of "Sender tx"] that(2) by (simp add: c outflow_def)
    note one = settle_one [where f = f and tx = tx and bal = bal, OF _ this]
    have d: "isInr (txDests (FollowerNum f) tx)" using Cons.prems(1) by simp
    have "outflow txs a \<le> fSettle f tx bal a" if "accountOf f a" for a
      using Cons.prems(2) [rule_format, OF that] pos(2) [of a] that one(1) [OF d] by (simp add: c)
    then have ih: "(\<forall>a. fold (fSettle f) txs (fSettle f tx bal) a =
        (if accountOf f a then fSettle f tx bal a - outflow txs a + inflow txs a else fSettle f tx bal a)) \<and>
      fReports f txs (fSettle f tx bal) = map TxHash (filter routable txs)"
      using Cons.IH [of "fSettle f tx bal"] Cons.prems(1) by (meson list.set_intros(2))
    have "fold (fSettle f) txs (fSettle f tx bal) a =
        (if accountOf f a then bal a - outflow (tx # txs) a + inflow (tx # txs) a else bal a)" for a
      using ih one(1) [OF d, of a] by (simp only: c split: if_split) simp
    then show ?case using ih one(2) [OF d] by simp
  qed (simp add: outflow_def inflow_def)
  then show "fold (fSettle f) txs bal a = (if accountOf f a then bal a - outflow txs a + inflow txs a else bal a)"
    "fReports f txs bal = map TxHash (filter routable txs)" by blast+
qed

section \<open>A batch has all the flows of the follower's accounts\<close>

lemma hexDigit_bound: "hexDigit c = Some d \<Longrightarrow> d < 16"
  by (auto simp: hexDigit_def Let_def split: if_splits)

lemma dest_word:
  assumes "0 < n" "k < 16"
  shows "(word_of_int (int k smod n) :: uint64) = fid \<longleftrightarrow> int k smod n = sint fid"
proof -
  have b: "0 \<le> int k mod n" "int k mod n < 16"
    using assms zmod_le_nonneg_dividend [of "int k" n] by simp_all
  have "sint (word_of_int (int k mod n) :: uint64) = int k mod n"
    using b by (simp add: sint_sbintrunc' signed_take_bit_int_eq_self)
  moreover have "w = fid \<longleftrightarrow> sint w = sint fid" for w :: uint64
    by (auto intro: signed_word_eqI)
  ultimately show ?thesis using assms(1) by (simp add: smod_pos)
qed

lemma touch:
  assumes "isInr (txDests (FollowerNum f) tx)" "0 < FollowerNum f" "routable tx" "accountOf f a" "Sender tx = a \<or> Recipient tx = a"
  shows "touches (FollowerNum f) (sint (FollowerID f)) tx"
proof -
  obtain k1 k2 where k: "hexDigit (hd (Sender tx)) = Some k1" "hexDigit (hd (Recipient tx)) = Some k2"
    using assms(3) by (auto simp: routable_def)
  then have d: "txDests (FollowerNum f) tx = Inr (Some (int k1 smod FollowerNum f, int k2 smod FollowerNum f))"
    using assms(1,2) by (auto simp: txDests_def isInr_iff split: if_splits)
  show ?thesis
    using assms(4,5) k dest_word [OF assms(2) hexDigit_bound [OF k(1)]] dest_word [OF assms(2) hexDigit_bound [OF k(2)]]
    by (auto simp: touches_def d accountOf_def owns_def)
qed

lemma flow_mset:
  "outflow txs a = (\<Sum>tx\<in>#mset txs. if routable tx \<and> Sender tx = a then TxValue tx else 0)"
  "inflow txs a = (\<Sum>tx\<in>#mset txs. if routable tx \<and> Recipient tx = a then TxValue tx else 0)"
  by (simp_all add: outflow_def inflow_def flip: sum_mset_sum_list mset_map)

lemma sum_mset_filter_zero:
  "\<forall>x\<in>#M. \<not> P x \<longrightarrow> g x = 0 \<Longrightarrow> (\<Sum>x\<in>#filter_mset P M. g x) = (\<Sum>x\<in>#M. g x)" for g :: "'a \<Rightarrow> int"
  by (induction M) auto

lemma batch_flow:
  assumes "\<forall>tx\<in>set txs. isInr (txDests (FollowerNum f) tx)" "0 < FollowerNum f" "accountOf f a"
    "mset batch = filter_mset (touches (FollowerNum f) (sint (FollowerID f))) (mset txs)"
  shows "outflow batch a = outflow txs a" "inflow batch a = inflow txs a"
  unfolding flow_mset assms(4) using touch [OF _ assms(2) _ assms(3)] assms(1)
  by (auto intro!: sum_mset_filter_zero)

text \<open>The batch of one follower from the transactions \<open>txs\<close> of the round.\<close>

lemma split_law:
  assumes E: "env_ok E" and s: "follower_state E f m"
    and d: "\<forall>tx\<in>set txs. isInr (txDests (FollowerNum f) tx) \<and> 0 \<le> TxValue tx" and n: "0 < FollowerNum f"
    and b: "mset (al_Txs msg) = filter_mset (touches (FollowerNum f) (sint (FollowerID f))) (mset txs)"
    and nc: "\<forall>s. executeTxs E nowA nowE (al_Txs msg) f = Inr s \<longrightarrow>
       noClash (e_rlp E) (e_keccak E) (e_emptyRoot E) (f_triedb f) (fst s)"
    and cov: "\<forall>a. accountOf f a \<longrightarrow> outflow txs a \<le> balance E m a"
    and ch: "accountOf f a0" "outflow txs a0 \<noteq> inflow txs a0"
  shows "\<exists>F m' dn rt.
    (\<forall>a. balance E m' a = (if accountOf f a then balance E m a - outflow txs a + inflow txs a else balance E m a)) \<and>
    list_all2 retimed (al_Txs msg) dn \<and>
    (\<forall>fuel\<ge>F. \<exists>db. let f' = f\<lparr>f_triedb := db, StateRoot := rt\<rparr> in
       handleAllocatedTxs E fuel nowA nowE us msg f =
         Inr ([F_ExecuteTimeMsg (of_nat (length (al_Txs msg))) (FollowerID f) us,
               F_Precessed \<lparr>pr_Txs = dn, pr_TxHashs = map TxHash (filter routable (al_Txs msg)), pr_Proofs = [],
                 pr_FollowerID = FollowerID f, pr_EpochId = al_EpochId msg, pr_StateRoot = rt\<rparr>], f') \<and>
       follower_state E f' m' \<and> state_at E (diskDatabase (diskdb db) pre) rt m')"
proof -
  have sub: "set (al_Txs msg) \<subseteq> set txs" using b by (metis mset_subset_eqD set_mset_mset subsetI multiset_filter_subset)
  have dt: "\<forall>tx\<in>set txs. isInr (txDests (FollowerNum f) tx)" using d by simp
  note fl = batch_flow [OF dt n _ b]
  have d': "\<forall>tx\<in>set (al_Txs msg). isInr (txDests (FollowerNum f) tx) \<and> 0 \<le> TxValue tx" using d sub by blast
  have "\<forall>a. accountOf f a \<longrightarrow> outflow (al_Txs msg) a \<le> balance E m a" using cov fl by simp
  note sf = settle_flow [OF d' this]
  have bal: "fold (fSettle f) (al_Txs msg) (balance E m) a =
      (if accountOf f a then balance E m a - outflow txs a + inflow txs a else balance E m a)" for a
    using sf(1) [of a] fl by simp
  have "fold (fSettle f) (al_Txs msg) (balance E m) \<noteq> balance E m" using bal [of a0] ch by auto
  moreover have "\<forall>tx\<in>set (al_Txs msg). isInr (txDests (FollowerNum f) tx)" using d' by blast
  ultimately obtain F m' dn rt where r: "balance E m' = fold (fSettle f) (al_Txs msg) (balance E m)"
    "list_all2 retimed (al_Txs msg) dn"
    "\<forall>fuel\<ge>F. \<exists>db. let f' = f\<lparr>f_triedb := db, StateRoot := rt\<rparr> in
       ProcessTxs E fuel nowA nowE us msg f = Inr ((fReports f (al_Txs msg) (balance E m), dn),
         [F_ExecuteTimeMsg (of_nat (length (al_Txs msg))) (FollowerID f) us], f') \<and>
       follower_state E f' m' \<and> state_at E (diskDatabase (diskdb db) pre) rt m'"
    using ProcessTxs_law [OF E s _ nc, of us pre] by meson
  then show ?thesis
    by (intro exI [of _ F] exI [of _ m'] exI [of _ dn] exI [of _ rt])
       (fastforce simp: Let_def handleAllocatedTxs_def bal sf(2))
qed

section \<open>The round\<close>

definition roundTxs :: "int \<Rightarrow> ProposerNode \<Rightarrow> Transaction list" where
  "roundTxs mx p = take (nat mx) (PendingTxpool p)"

lemma SchedulingTxs_law:
  assumes "SchedulingTxs mx order p = Inr (Allocs as, p')"
  shows "PendingTxpool p \<noteq> []" "0 \<le> mx"
    "allocate order (FTable (p_NodeID p)) (roundTxs mx p)
       (p\<lparr>poollencount := 0, PendingTxpool := drop (nat mx) (PendingTxpool p)\<rparr>) = Inr (as, p')"
proof -
  show ne: "PendingTxpool p \<noteq> []" using assms by (auto simp: SchedulingTxs_def Let_def split: if_splits)
  show ge: "0 \<le> mx" using assms ne by (auto simp: SchedulingTxs_def Let_def split: if_splits)
  have t: "take (nat (if int (length xs) < mx then int (length xs) else mx)) xs = take (nat mx) xs"
    "drop (nat (if int (length xs) < mx then int (length xs) else mx)) xs = drop (nat mx) xs" for xs :: "Transaction list"
    by auto
  show "allocate order (FTable (p_NodeID p)) (roundTxs mx p)
       (p\<lparr>poollencount := 0, PendingTxpool := drop (nat mx) (PendingTxpool p)\<rparr>) = Inr (as, p')"
    using assms ne ge unfolding SchedulingTxs_def Let_def t roundTxs_def by (auto split: if_splits)
qed

lemma round_batch:
  assumes "SchedulingTxs mx order p = Inr (Allocs as, p')" "\<forall>xs. mset (order xs) = mset xs" "(fid, fip, batch, epoch) \<in> set as"
  shows "mset batch = filter_mset (touches (int (length (FollowerIDs p))) (sint fid)) (mset (roundTxs mx p))"
    "\<forall>tx\<in>set (roundTxs mx p). isInr (txDests (int (length (FollowerIDs p))) tx)" "0 < length (FollowerIDs p)"
proof -
  note a = allocate_law [OF SchedulingTxs_law(3) [OF assms(1)] assms(2) [rule_format]]
  show "\<forall>tx\<in>set (roundTxs mx p). isInr (txDests (int (length (FollowerIDs p))) tx)" using a(1) by simp
  show "mset batch = filter_mset (touches (int (length (FollowerIDs p))) (sint fid)) (mset (roundTxs mx p))"
    using bspec [OF a(4) assms(3)] by simp
  have "map fst as = remdups (FollowerIDs p)" using a(3) by simp
  moreover have "as \<noteq> []" using assms(3) by auto
  ultimately show "0 < length (FollowerIDs p)" by auto
qed

text \<open>C32. Split execution is exact when the accounts can pay. In a round of the proposer, with any number of followers and any interleaving of the
  goroutines that fill the batches, a follower that gets its batch executes it and brings each of its accounts to its balance
  minus all that the round takes from it plus all that the round gives to it, as if one node had executed the whole round, and
  leaves the accounts of the others alone. It reports the hashes of all routable transactions of its batch, and its new state is on its
  disk. Required is that all values of the round are non-negative, that every own account has at the start what the round takes from it
  in total, that the round changes the balance of at least one own account, that the follower counts the followers as the proposer does, and
  that no two different trie nodes have the same hash. Without the second condition a transaction that cannot be paid is skipped
  by the follower of its sender, see \<open>split_overdraft\<close>.\<close>

theorem split_execution_exact:
  assumes "env_ok E" "SchedulingTxs mx order p = Inr (Allocs as, p')" "\<forall>xs. mset (order xs) = mset xs"
    "(fid, fip, batch, epoch) \<in> set as" "TxAllocate_send p' (fid, fip, batch, epoch) = Some (ip, msg)"
    "follower_state E f m" "FollowerID f = fid" "FollowerNum f = int (length (FollowerIDs p))"
    "\<forall>tx\<in>set (roundTxs mx p). 0 \<le> TxValue tx"
    "\<forall>a. accountOf f a \<longrightarrow> outflow (roundTxs mx p) a \<le> balance E m a"
    "accountOf f a0" "outflow (roundTxs mx p) a0 \<noteq> inflow (roundTxs mx p) a0"
    "\<forall>s. executeTxs E nowA nowE batch f = Inr s \<longrightarrow> noClash (e_rlp E) (e_keccak E) (e_emptyRoot E) (f_triedb f) (fst s)"
  shows "\<exists>F m' dn rt.
    (\<forall>a. balance E m' a =
       (if accountOf f a then balance E m a - outflow (roundTxs mx p) a + inflow (roundTxs mx p) a else balance E m a)) \<and>
    list_all2 retimed batch dn \<and>
    (\<forall>fuel\<ge>F. \<exists>db. let f' = f\<lparr>f_triedb := db, StateRoot := rt\<rparr> in
       handleAllocatedTxs E fuel nowA nowE us msg f =
         Inr ([F_ExecuteTimeMsg (of_nat (length batch)) fid us,
               F_Precessed \<lparr>pr_Txs = dn, pr_TxHashs = map TxHash (filter routable batch), pr_Proofs = [],
                 pr_FollowerID = fid, pr_EpochId = epoch, pr_StateRoot = rt\<rparr>], f') \<and>
       follower_state E f' m' \<and> state_at E (diskDatabase (diskdb db) pre) rt m')"
proof -
  note b = round_batch [OF assms(2-4)]
  have msg: "al_Txs msg = batch" "al_EpochId msg = epoch"
    using assms(5) by (auto simp: TxAllocate_send_def split: if_splits)
  have "\<forall>tx\<in>set (roundTxs mx p). isInr (txDests (FollowerNum f) tx) \<and> 0 \<le> TxValue tx" "0 < FollowerNum f"
    "mset (al_Txs msg) = filter_mset (touches (FollowerNum f) (sint (FollowerID f))) (mset (roundTxs mx p))"
    using b assms(7-9) msg by simp_all
  from split_law [OF assms(1,6) this _ assms(10-12), of nowA nowE us pre] assms(13) show ?thesis
    by (simp add: msg assms(7))
qed

text \<open>An account that cannot pay is not seen by the follower of the recipient: the sender keeps its balance, the recipient gets
  the value, and the transaction is reported.\<close>

lemma split_overdraft:
  assumes "isInr (txDests (FollowerNum f) tx)" "isInr (txDests (FollowerNum g) tx)" "routable tx"
    "accountOf f (Sender tx)" "\<not> accountOf g (Sender tx)" "accountOf g (Recipient tx)" "balF (Sender tx) < TxValue tx"
  shows "fSettle f tx balF = balF" "fReports f [tx] balF = []"
    "fSettle g tx balG = balG(Recipient tx := balG (Recipient tx) + TxValue tx)" "fReports g [tx] balG = [TxHash tx]"
  using dests_routable(2) [OF assms(1,3)] dests_routable(2) [OF assms(2,3)] assms(4-)
  by (auto simp: fSettle_def fPays_def Let_def)

section \<open>An instance\<close>

definition proposer1 :: ProposerNode where
  "proposer1 =
     \<lparr>p_NodeID = 0, p_ShardID = 0, NeighborIDs = [], FollowerIDs = [0, 1], ip_nodeTable = (\<lambda>t i. ''ip''), CurChain = chain1,
      chainHeight2Hash = Map.empty, p_stop = False, blockHashGenDone = Map.empty, PendingTxpool = [transfer1 False 5],
      AllocatedTxpool = Map.empty, ProcessedTxpool = [], EpochId = 1, GatherMap = (\<lambda>e. []), VerifyBlock = None,
      VerifyLock = False, p_Hash = NewConsistentHash NewSkiplistHashRing True 2 5, ReceiveRequestDataMap = Map.empty,
      ReadyMap = [0 \<mapsto> True, 1 \<mapsto> True], txcount = 0, Idx = 0, poollencount = 0, params_FollowerNum = 2\<rparr>"

definition follower1 :: FollowerNode where
  "follower1 = \<lparr>FollowerID = 1, f_ProposerID = 0, f_ShardID = 0, f_triedb = db0, f_stop = False, StateRoot = [], FollowerNum = 2\<rparr>"

lemma dests1: "txDests 2 (transfer1 r v) = Inr (Some (0, 1))"
  by (simp add: txDests_def transfer1_fields hexDigit_def smod_pos)

lemma schedule1:
  "SchedulingTxs 10 id proposer1 =
     Inr (Allocs [(0, ''ip'', [transfer1 False 5], 2), (1, ''ip'', [transfer1 False 5], 2)], proposer1\<lparr>EpochId := 2, PendingTxpool := []\<rparr>)"
  by (simp add: SchedulingTxs_def Let_def proposer1_def allocate_def allocateTx_def dests1)

lemma follower1_state: "follower_state env1 follower1 Map.empty"
  using like_state [OF env1_like chain1_like] by (simp add: follower_state_def follower1_def chain_state_def chain1_def nilBlock_def NewBlock_def)

lemma account1: "accountOf follower1 ''b''" "\<not> accountOf follower1 ''a''" "routable (transfer1 r v)"
  by (simp_all add: accountOf_def owns_def follower1_def hexDigit_def smod_pos routable_def transfer1_fields)

lemma flow1:
  "outflow [transfer1 r v] a = (if a = ''a'' then v else 0)" "inflow [transfer1 r v] a = (if a = ''b'' then v else 0)"
  by (auto simp: outflow_def inflow_def account1 transfer1_fields)

lemma exec_follower1:
  assumes "executeTxs env1 nowA nowE [transfer1 False v] follower1 = Inr s"
  shows "\<exists>a. root (fst s) = ShortNode (keybytesToHex (strBytes ''b'')) (ValueNode (encAS1 a)) newFlag"
proof -
  obtain t where t: "newState env1 [] db0 = Inr t" "root t = NilNode"
    by (auto simp: newState_def trie_New_def zeroHash_def BytesToHash_def Let_def)
  have ne: "e_encodeAS env1 a \<noteq> []" for a by (simp add: env1_def encAS1_def)
  obtain t' where u: "trieUpdate env1 (strBytes ''b'') (e_encodeAS env1 (Deposit v (freshState 0))) t = Inr t'"
    "root t' = ShortNode (keybytesToHex (strBytes ''b'')) (ValueNode (encAS1 (Deposit v (freshState 0)))) newFlag"
    using nil_Update [OF t(2) ne, of env1 "strBytes ''b''" "Deposit v (freshState 0)"] by (auto simp: env1_def)
  have "creditAt env1 0 (transfer1 False v\<lparr>AllocateTime := x\<rparr>) t = Inr t'" for x
    by (simp add: creditAt_def transfer1_fields readState_def nil_Get [OF t(2)] u(1))
  then have "fst s = t'"
    using assms by (auto simp: executeTxs_def orPanic_def follower1_def t(1) processTx_def dests1)
  then show ?thesis using u(2) by blast
qed

theorem split_execution_exact_witness:
  "\<exists>F m' dn rt. balance env1 m' ''a'' = Init_Balance \<and> balance env1 m' ''b'' = Init_Balance + 5 \<and>
    (\<forall>fuel. \<exists>db. handleAllocatedTxs env1 (F + fuel) (\<lambda>i. 0) (\<lambda>i. 0) 7
         \<lparr>al_Txs = [transfer1 False 5], al_ProposerID = 0, al_FollowerID = 1, al_EpochId = 2\<rparr> follower1 =
       Inr ([F_ExecuteTimeMsg 1 1 7, F_Precessed \<lparr>pr_Txs = dn, pr_TxHashs = [TxHash (transfer1 False 5)], pr_Proofs = [],
               pr_FollowerID = 1, pr_EpochId = 2, pr_StateRoot = rt\<rparr>], follower1\<lparr>f_triedb := db, StateRoot := rt\<rparr>) \<and>
       state_at env1 (diskDatabase (diskdb db) Map.empty) rt m')"
proof -
  let ?p = "proposer1\<lparr>EpochId := 2, PendingTxpool := []\<rparr>" and ?tx = "transfer1 False 5"
  let ?msg = "\<lparr>al_Txs = [?tx], al_ProposerID = 0, al_FollowerID = 1, al_EpochId = 2\<rparr>"
  have send: "TxAllocate_send ?p (1, ''ip'', [?tx], 2) = Some (''ip'', ?msg)" by (simp add: TxAllocate_send_def proposer1_def)
  have r: "roundTxs 10 proposer1 = [?tx]" by (simp add: roundTxs_def proposer1_def)
  have nc: "\<forall>s. executeTxs env1 (\<lambda>i. 0) (\<lambda>i. 0) [?tx] follower1 = Inr s \<longrightarrow>
      noClash (e_rlp env1) (e_keccak env1) (e_emptyRoot env1) (f_triedb follower1) (fst s)"
    using exec_follower1 noClash_leaf by (fastforce simp: env1_def follower1_def)
  have cov: "\<forall>a. accountOf follower1 a \<longrightarrow> outflow (roundTxs 10 proposer1) a \<le> balance env1 Map.empty a"
    "outflow (roundTxs 10 proposer1) ''b'' \<noteq> inflow (roundTxs 10 proposer1) ''b''"
    "\<forall>tx\<in>set (roundTxs 10 proposer1). 0 \<le> TxValue tx"
    using account1(2) by (auto simp: r flow1 balance_def Init_Balance_def transfer1_fields)
  have f: "FollowerID follower1 = 1" "FollowerNum follower1 = int (length (FollowerIDs proposer1))"
    by (simp_all add: follower1_def proposer1_def)
  have "\<forall>xs. mset (id xs) = mset xs" "(1, ''ip'', [?tx], 2) \<in> set [(0, ''ip'', [?tx], 2), (1 :: uint64, ''ip'', [?tx], 2)]" by simp_all
  from split_execution_exact [OF env1_ok schedule1 this send follower1_state f cov(3,1) account1(1) cov(2) nc, of 7 Map.empty]
  obtain F m' dn rt where
    w: "\<forall>a. balance env1 m' a = (if accountOf follower1 a then balance env1 Map.empty a - outflow (roundTxs 10 proposer1) a +
          inflow (roundTxs 10 proposer1) a else balance env1 Map.empty a)"
      "\<forall>fuel\<ge>F. \<exists>db. let f' = follower1\<lparr>f_triedb := db, StateRoot := rt\<rparr> in
         handleAllocatedTxs env1 fuel (\<lambda>i. 0) (\<lambda>i. 0) 7 ?msg follower1 =
           Inr ([F_ExecuteTimeMsg (of_nat (length [?tx])) 1 7, F_Precessed \<lparr>pr_Txs = dn, pr_TxHashs = map TxHash (filter routable [?tx]),
             pr_Proofs = [], pr_FollowerID = 1, pr_EpochId = 2, pr_StateRoot = rt\<rparr>], f') \<and>
         follower_state env1 f' m' \<and> state_at env1 (diskDatabase (diskdb db) Map.empty) rt m'" by (elim exE conjE)
  have "\<exists>db. handleAllocatedTxs env1 (F + fuel) (\<lambda>i. 0) (\<lambda>i. 0) 7 ?msg follower1 =
       Inr ([F_ExecuteTimeMsg 1 1 7, F_Precessed \<lparr>pr_Txs = dn, pr_TxHashs = [TxHash ?tx], pr_Proofs = [],
               pr_FollowerID = 1, pr_EpochId = 2, pr_StateRoot = rt\<rparr>], follower1\<lparr>f_triedb := db, StateRoot := rt\<rparr>) \<and>
       state_at env1 (diskDatabase (diskdb db) Map.empty) rt m'" for fuel
    using w(2) [rule_format, of "F + fuel"] by (auto simp: Let_def account1(3))
  moreover have "balance env1 m' ''a'' = Init_Balance" "balance env1 m' ''b'' = Init_Balance + 5"
    using w(1) account1(1,2) by (simp_all add: r flow1 balance_def)
  ultimately show ?thesis by blast
qed

end
