(* ===== verification/Sub_Rounds.thy ===== *)
theory Sub_Rounds
  imports Sub_Execution
begin

text \<open>
  The proposer as a step relation. A state holds the node and the work its goroutines still have to do: the transactions
  to be injected, the batches to be sent, the batches sent and not yet recorded, the blocks to be generated and the
  signals for the next round. A step is one handler or goroutine, in any order; only the main loop, which schedules, stops when the
  proposer has closed itself. The messages of the followers and of other
  proposers are arbitrary, so what holds for all runs holds for followers that fail or cheat.

  Each step is atomic. For \<^verbatim>\<open>GatherTxs\<close> and \<^verbatim>\<open>blockGenerate\<close> the code does not ensure this: both change \<^verbatim>\<open>ProcessedTxpool\<close>, but
  under different locks. What an interleaving of the two can do is shown at the end.
\<close>

section \<open>Steps\<close>

record Round =
  node :: ProposerNode
  waiting :: "Transaction list"
  sending :: "allocation list"
  recording :: "Transaction list list"
  generating :: nat
  signals :: nat
  joining :: nat
  mined :: "Block list"
  scheduled :: "(int \<times> Transaction) list"
  dispatched :: "Transaction list"

definition startRound :: "Transaction list \<Rightarrow> ProposerNode \<Rightarrow> Round" where
  "startRound txs p = \<lparr>node = p, waiting = txs, sending = [], recording = [], generating = 0, signals = 1, joining = 0,
     mined = [], scheduled = [], dispatched = []\<rparr>"

text \<open>\<open>mined\<close> lists the blocks made so far, \<open>scheduled\<close> the transactions that were scheduled, each with the number of followers at that
  time, and \<open>dispatched\<close> the transactions of the batches that were sent.\<close>

definition followers :: "ProposerNode \<Rightarrow> int" where
  "followers p = int (length (FollowerIDs p))"

inductive round_step :: "env \<Rightarrow> (bytes \<Rightarrow> 32 word) \<Rightarrow> int \<Rightarrow> int \<Rightarrow> Round \<Rightarrow> Round \<Rightarrow> bool" for E murmur mx speed where
  inject: "\<not> p_stop (node s) \<Longrightarrow> injectTxs speed now (waiting s) (node s) = Inr (rest, p') \<Longrightarrow>
    round_step E murmur mx speed s (s\<lparr>node := p', waiting := rest\<rparr>)"
| schedule: "0 < signals s \<and> \<not> p_stop (node s) \<Longrightarrow> \<forall>xs. mset (order xs) = mset xs \<Longrightarrow> SchedulingTxs mx order (node s) = Inr (Allocs as, p') \<Longrightarrow>
    round_step E murmur mx speed s (s\<lparr>node := p', signals := signals s - 1, sending := sending s @ as,
      scheduled := scheduled s @ map (Pair (followers (node s))) (roundTxs mx (node s))\<rparr>)"
| pause: "0 < signals s \<and> \<not> p_stop (node s) \<Longrightarrow> SchedulingTxs mx order (node s) = Inr (SignalLater, p') \<Longrightarrow>
    round_step E murmur mx speed s (s\<lparr>node := p'\<rparr>)"
| stop: "0 < signals s \<and> \<not> p_stop (node s) \<Longrightarrow> SchedulingTxs mx order (node s) = Inr (Blocked, p') \<Longrightarrow>
    round_step E murmur mx speed s (s\<lparr>node := p', signals := 0\<rparr>)"
| send: "sending s = xs @ a # ys \<Longrightarrow> TxAllocate_send (node s) a = Some (ip, msg) \<Longrightarrow>
    round_step E murmur mx speed s (s\<lparr>sending := xs @ ys, recording := al_Txs msg # recording s, dispatched := dispatched s @ al_Txs msg\<rparr>)"
| unready: "sending s = xs @ a # ys \<Longrightarrow> TxAllocate_send (node s) a = None \<Longrightarrow>
    round_step E murmur mx speed s (s\<lparr>sending := xs @ ys\<rparr>)"
| record_batch: "recording s = xs @ batch # ys \<Longrightarrow>
    round_step E murmur mx speed s (s\<lparr>node := TxAllocate_record batch (node s), recording := xs @ ys\<rparr>)"
| report: "handleProcessedTxs msg (node s) = Inr (full, p') \<Longrightarrow>
    round_step E murmur mx speed s (s\<lparr>node := p', generating := generating s + (if full then 1 else 0)\<rparr>)"
| generate: "0 < generating s \<Longrightarrow> blockGenerate E now (node s) = Inr (Some b, p') \<Longrightarrow>
    round_step E murmur mx speed s (s\<lparr>node := p', generating := generating s - 1, signals := signals s + 1, mined := mined s @ [b]\<rparr>)"
| no_block: "0 < generating s \<Longrightarrow> blockGenerate E now (node s) = Inr (None, p') \<Longrightarrow>
    round_step E murmur mx speed s (s\<lparr>node := p', generating := generating s - 1\<rparr>)"
| verify: "\<forall>xs. mset (order xs) = mset xs \<Longrightarrow> handleBlockMsg E order enc (node s) = Inr (Some as, p') \<Longrightarrow> VerifyBlock p' = Some b \<Longrightarrow>
    round_step E murmur mx speed s (s\<lparr>node := p', sending := sending s @ as,
      scheduled := scheduled s @ map (Pair (followers (node s))) (Body b)\<rparr>)"
| join: "joinStart murmur rolls ip (node s) = Inr (out, tasks, p') \<Longrightarrow>
    round_step E murmur mx speed s (s\<lparr>node := p', joining := joining s + 1\<rparr>)"
| forward: "migratorForward src to (node s) = Some (out, p') \<Longrightarrow> round_step E murmur mx speed s (s\<lparr>node := p'\<rparr>)"
| joined: "0 < joining s \<Longrightarrow> round_step E murmur mx speed s (s\<lparr>node := joinEnd (node s), joining := joining s - 1\<rparr>)"
| response: "round_step E murmur mx speed s (s\<lparr>node := handleFollowerResponse r (node s)\<rparr>)"
| ready: "round_step E murmur mx speed s (s\<lparr>node := handleFollowerReady fid (node s)\<rparr>)"
| timed: "round_step E murmur mx speed s (s\<lparr>node := handleExecuteTimeMsg (node s)\<rparr>)"

section \<open>Counting a hash\<close>

definition occurs :: "bytes \<Rightarrow> Transaction list \<Rightarrow> nat" where
  "occurs h txs = length (filter (\<lambda>tx. TxHash tx = h) txs)"

text \<open>The number of followers that a transaction is scheduled to: the follower of the sender and that of the recipient.\<close>

definition fanout :: "int \<Rightarrow> Transaction \<Rightarrow> nat" where
  "fanout n tx = (case txDests n tx of Inr (Some (d1, d2)) \<Rightarrow> if d1 = d2 then 1 else 2 | _ \<Rightarrow> 0)"

definition allowance :: "bytes \<Rightarrow> (int \<times> Transaction) list \<Rightarrow> nat" where
  "allowance h txs = (\<Sum>(n, tx)\<leftarrow>txs. if TxHash tx = h then fanout n tx else 0)"

lemma occurs_simps [simp]:
  "occurs h [] = 0" "occurs h (tx # txs) = (if TxHash tx = h then 1 else 0) + occurs h txs" "occurs h (xs @ ys) = occurs h xs + occurs h ys"
  by (simp_all add: occurs_def)

lemma allowance_simps [simp]:
  "allowance h [] = 0" "allowance h ((n, tx) # txs) = (if TxHash tx = h then fanout n tx else 0) + allowance h txs"
  "allowance h (xs @ ys) = allowance h xs + allowance h ys"
  by (simp_all add: allowance_def)

definition batchOf :: "allocation \<Rightarrow> Transaction list" where
  "batchOf a = fst (snd (snd a))"

definition keyed :: "ProposerNode \<Rightarrow> bool" where
  "keyed p \<longleftrightarrow> (\<forall>h tx. AllocatedTxpool p h = Some tx \<longrightarrow> TxHash tx = h)"

section \<open>What the operations do to the count\<close>

lemma occurs_mset: "occurs h txs = size (filter_mset (\<lambda>tx. TxHash tx = h) (mset txs))"
  by (simp add: occurs_def flip: mset_filter)

lemma touched_few:
  assumes "distinct fids"
  shows "length (filter (\<lambda>fid :: uint64. touches n (sint fid) tx) fids) \<le> fanout n tx"
proof -
  let ?S = "{fid \<in> set fids. touches n (sint fid) tx}"
  have "card ?S \<le> fanout n tx"
  proof (cases "\<exists>d1 d2. txDests n tx = Inr (Some (d1, d2))")
    case True
    then obtain d1 d2 where dd: "txDests n tx = Inr (Some (d1, d2))" by blast
    have "sint ` ?S \<subseteq> {d1, d2}" by (auto simp: touches_def dd)
    then have "card (sint ` ?S) \<le> card {d1, d2}" by (intro card_mono) simp_all
    moreover have "inj_on (sint :: uint64 \<Rightarrow> int) ?S" by (rule inj_onI, erule signed_word_eqI)
    ultimately have "card ?S \<le> card {d1, d2}" by (simp only: card_image)
    then show ?thesis by (simp add: fanout_def dd card_insert_if split: if_splits)
  next
    case False
    then have "?S = {}" by (auto simp: touches_def split: sum.splits option.splits)
    then show ?thesis by (simp only: card.empty)
  qed
  then show ?thesis using assms by (simp add: distinct_length_filter Int_def conj_commute)
qed

lemma batches_few:
  assumes "distinct fids"
  shows "(\<Sum>fid\<leftarrow>fids. size (filter_mset (\<lambda>tx. TxHash tx = h) (filter_mset (touches n (sint (fid :: uint64))) (mset txs)))) \<le>
    allowance h (map (Pair n) txs)"
proof (induction txs)
  case (Cons tx txs)
  let ?c = "\<lambda>fid. size (filter_mset (\<lambda>tx. TxHash tx = h) (filter_mset (touches n (sint (fid :: uint64))) (mset txs)))"
  let ?hit = "\<lambda>fid. touches n (sint (fid :: uint64)) tx \<and> TxHash tx = h"
  have "(\<Sum>fid\<leftarrow>fids. size (filter_mset (\<lambda>tx. TxHash tx = h) (filter_mset (touches n (sint (fid :: uint64))) (mset (tx # txs))))) =
      (\<Sum>fid\<leftarrow>fids. (if ?hit fid then 1 else 0) + ?c fid)"
    by (rule arg_cong [of _ _ sum_list], rule map_cong) auto
  also have "\<dots> = (\<Sum>fid\<leftarrow>fids. if ?hit fid then 1 else 0) + (\<Sum>fid\<leftarrow>fids. ?c fid)" by (rule sum_list_addf)
  also have "(\<Sum>fid\<leftarrow>fids. if ?hit fid then 1 else 0) = length (filter ?hit fids)"
    by (induction fids) auto
  also have "\<dots> \<le> (if TxHash tx = h then fanout n tx else 0)"
    using touched_few [OF assms, of n tx] by (simp add: filter_empty_conv)
  finally show ?case using Cons by simp
qed (simp add: sum_list_triv)

lemma allocate_load:
  assumes "allocate order table txs p = Inr (as, p')" "mset (order txs) = mset txs"
  shows "occurs h (concat (map batchOf as)) \<le> allowance h (map (Pair (followers p)) txs)"
proof -
  note a = allocate_law [OF assms]
  let ?g = "\<lambda>fid. size (filter_mset (\<lambda>tx. TxHash tx = h)
    (filter_mset (touches (int (length (FollowerIDs p))) (sint (fid :: uint64))) (mset txs)))"
  have "occurs h (batchOf x) = ?g (fst x)" if "x \<in> set as" for x
    using bspec [OF a(4) that] by (cases x) (simp add: occurs_mset batchOf_def)
  then have "map (\<lambda>x. occurs h (batchOf x)) as = map ?g (map fst as)" by simp
  moreover have "occurs h (concat (map batchOf xs)) = (\<Sum>x\<leftarrow>xs. occurs h (batchOf x))" for xs by (induction xs) simp_all
  ultimately show ?thesis using batches_few [of "remdups (FollowerIDs p)"] a(3) by (simp add: followers_def)
qed

text \<open>What the pools for executed transactions hold of a hash.\<close>

definition held :: "bytes \<Rightarrow> ProposerNode \<Rightarrow> nat" where
  "held h p = (if AllocatedTxpool p h = None then 0 else 1) + occurs h (ProcessedTxpool p)"

lemma record_held:
  assumes "keyed p"
  shows "keyed (TxAllocate_record txs p)" "held h (TxAllocate_record txs p) \<le> held h p + occurs h txs"
proof -
  have "keyed (TxAllocate_record txs p) \<and> held h (TxAllocate_record txs p) \<le> held h p + occurs h txs"
    using assms
  proof (induction txs arbitrary: p)
    case (Cons tx txs)
    let ?p = "p\<lparr>AllocatedTxpool := (AllocatedTxpool p)(TxHash tx \<mapsto> tx)\<rparr>"
    have "TxAllocate_record (tx # txs) p = TxAllocate_record txs ?p" by (simp add: TxAllocate_record_def)
    moreover have "keyed ?p" "held h ?p \<le> held h p + (if TxHash tx = h then 1 else 0)" using Cons.prems by (simp_all add: keyed_def held_def)
    ultimately show ?case using Cons.IH [of ?p] by fastforce
  qed (simp add: TxAllocate_record_def)
  then show "keyed (TxAllocate_record txs p)" "held h (TxAllocate_record txs p) \<le> held h p + occurs h txs" by blast+
qed

lemma gatherTx_held:
  assumes "gatherTx msg ih p = Inr p'" "keyed p"
  shows "keyed p' \<and> held h p' = held h p \<and> PendingTxpool p' = PendingTxpool p"
  using assms by (auto simp: gatherTx_def keyed_def held_def split: prod.splits option.splits if_splits)

lemma GatherTxs_held:
  assumes "GatherTxs msg p = Inr p'" "keyed p"
  shows "keyed p' \<and> held h p' = held h p \<and> PendingTxpool p' = PendingTxpool p"
proof -
  have "keyed p' \<and> held h p' = held h p \<and> PendingTxpool p' = PendingTxpool p"
    if "foldR (gatherTx msg) ihs p = Inr p'" for ihs
    using that assms(2)
  proof (induction ihs arbitrary: p)
    case (Cons ih ihs)
    then obtain p1 where p1: "gatherTx msg ih p = Inr p1" "foldR (gatherTx msg) ihs p1 = Inr p'" by auto
    show ?case using Cons.IH [OF p1(2)] gatherTx_held [OF p1(1) Cons.prems(2)] by simp
  qed simp
  then show ?thesis using assms(1) by (simp add: GatherTxs_def)
qed

lemma blockGenerate_held:
  assumes "blockGenerate E now p = Inr (ob, p')"
  shows "AllocatedTxpool p' = AllocatedTxpool p \<and> PendingTxpool p' = PendingTxpool p \<and>
    ProcessedTxpool p = ProcessedTxpool p' @ (case ob of None \<Rightarrow> [] | Some b \<Rightarrow> Body b)"
  using assms by (auto simp: blockGenerate_def Let_def NewBlock_def split: if_splits)

text \<open>What is on its way of a hash, after it was sent and before it was sent.\<close>

definition afterSend :: "bytes \<Rightarrow> Round \<Rightarrow> nat" where
  "afterSend h s = occurs h (concat (recording s)) + held h (node s) + occurs h (concat (map Body (mined s)))"

definition beforeSend :: "bytes \<Rightarrow> Round \<Rightarrow> nat" where
  "beforeSend h s = occurs h (concat (map batchOf (sending s)))"

definition round_ok :: "bytes \<Rightarrow> Round \<Rightarrow> bool" where
  "round_ok h s \<longleftrightarrow> keyed (node s) \<and> afterSend h s \<le> occurs h (dispatched s) \<and>
     occurs h (dispatched s) + beforeSend h s \<le> allowance h (scheduled s)"

lemma joinStart_pools:
  assumes "joinStart murmur rolls ip p = Inr (out, tasks, p')"
  shows "PendingTxpool p' = PendingTxpool p \<and> AllocatedTxpool p' = AllocatedTxpool p \<and> ProcessedTxpool p' = ProcessedTxpool p"
  using assms by (auto simp: joinStart_def Let_def split: prod.splits sum.splits go_error.splits)

lemmas round_counts = round_ok_def afterSend_def beforeSend_def

lemma held_same:
  "AllocatedTxpool p' = AllocatedTxpool p \<Longrightarrow> ProcessedTxpool p' = ProcessedTxpool p \<Longrightarrow> held h p' = held h p \<and> keyed p' = keyed p"
  by (simp add: held_def keyed_def)

lemma round_step_ok: "round_step E murmur mx speed s s' \<Longrightarrow> round_ok h s \<Longrightarrow> round_ok h s'"
proof (induction rule: round_step.induct)
  case (inject s now rest p')
  have "held h p' = held h (node s) \<and> keyed p' = keyed (node s)"
    by (rule held_same) (use inject(2) in \<open>auto simp: injectTxs_def Let_def split: if_splits\<close>)
  then show ?case using inject(3) by (simp add: round_counts)
next
  case (schedule s order as p')
  note a = SchedulingTxs_law(3) [OF schedule(3)]
  let ?p = "node s\<lparr>poollencount := 0, PendingTxpool := drop (nat mx) (PendingTxpool (node s))\<rparr>"
  have "p' = node s\<lparr>poollencount := 0, PendingTxpool := drop (nat mx) (PendingTxpool (node s)), EpochId := EpochId (node s) + 1\<rparr>"
    using allocate_law(2) [OF a] schedule(2) by simp
  then have "held h p' = held h (node s) \<and> keyed p' = keyed (node s)" by (intro held_same) simp_all
  moreover have "occurs h (concat (map batchOf as)) \<le> allowance h (map (Pair (followers (node s))) (roundTxs mx (node s)))"
    using allocate_load [OF a, of h] schedule(2) by (simp add: followers_def)
  ultimately show ?case using schedule(4) by (simp add: round_counts)
next
  case (pause s order p')
  have "held h p' = held h (node s) \<and> keyed p' = keyed (node s)"
    by (rule held_same) (use pause(2) in \<open>auto simp: SchedulingTxs_def Let_def split: if_splits\<close>)
  then show ?case using pause(3) by (simp add: round_counts)
next
  case (stop s order p')
  have "held h p' = held h (node s) \<and> keyed p' = keyed (node s)"
    by (rule held_same) (use stop(2) in \<open>auto simp: SchedulingTxs_def Let_def closeProposerNode_def split: if_splits\<close>)
  then show ?case using stop(3) by (simp add: round_counts)
next
  case (send s xs a ys ip msg)
  then show ?case by (cases a) (auto simp: round_counts TxAllocate_send_def batchOf_def split: if_splits)
next
  case (unready s xs a ys)
  then show ?case by (simp add: round_counts)
next
  case (record_batch s xs batch ys)
  have "keyed (node s)" using record_batch(2) by (simp add: round_ok_def)
  from record_held(1) [OF this, where txs = batch] record_held(2) [OF this, where txs = batch and h = h] record_batch
  show ?case by (simp add: round_counts)
next
  case (report msg s full p')
  then obtain p1 where p1: "GatherTxs msg (node s) = Inr p1" "keyed p' \<longleftrightarrow> keyed p1" "held h p' = held h p1"
    by (auto simp: handleProcessedTxs_def Let_def keyed_def held_def)
  then show ?case using GatherTxs_held [OF p1(1), of h] report(2) by (simp add: round_counts)
next
  case (generate s now b p')
  then show ?case using blockGenerate_held [OF generate(2)] by (simp add: round_counts held_def keyed_def)
next
  case (no_block s now p')
  then show ?case using blockGenerate_held [OF no_block(2)] by (simp add: round_counts held_def keyed_def)
next
  case (verify order enc s as p' b)
  then obtain p1 b' where a: "allocate order (FTable (p_ShardID p1)) (Body b') p1 = Inr (as, p')" and
    p1: "p1 = node s\<lparr>VerifyLock := True, VerifyBlock := Some b'\<rparr>"
    by (auto simp: handleBlockMsg_def VerifyingBlock_def split: if_splits)
  have p': "p' = p1\<lparr>EpochId := EpochId p1 + 1\<rparr>" using allocate_law(2) [OF a] verify(1) by simp
  then have "b' = b" using verify(3) p1 by simp
  moreover have "held h p' = held h (node s) \<and> keyed p' = keyed (node s)" by (rule held_same) (simp_all add: p' p1)
  ultimately show ?case
    using allocate_load [OF a, of h] verify(1,4) by (simp add: round_counts followers_def p1)
next
  case (join rolls ip s out tasks p')
  then show ?case using joinStart_pools [OF join(1)] by (simp add: round_counts held_def keyed_def)
next
  case (forward src to s out p')
  then show ?case by (auto simp: migratorForward_def round_counts held_def keyed_def split: option.splits)
next
  case (joined s)
  then show ?case by (simp add: joinEnd_def round_counts held_def keyed_def)
qed (simp_all add: round_counts held_def keyed_def handleFollowerResponse_def handleFollowerReady_def handleExecuteTimeMsg_def)

section \<open>No transaction is confirmed more often than it was sent out\<close>

lemma round_run_ok:
  assumes "(round_step E murmur mx speed)\<^sup>*\<^sup>* (startRound txs p) s" "AllocatedTxpool p = Map.empty" "ProcessedTxpool p = []"
  shows "round_ok h s"
  using assms(1)
proof (induction rule: rtranclp_induct)
  case base
  then show ?case using assms(2,3) by (simp add: startRound_def keyed_def round_counts held_def)
next
  case (step s s')
  then show ?case using round_step_ok by blast
qed

text \<open>C33. In every run of a proposer that starts with empty pools for allocated and executed transactions, whatever the order of its handlers
  and goroutines, each taken as one atomic step, and whatever its followers and other proposers send: a transaction hash occurs in
  the blocks made and in the pool for the next block at most as often as in the batches sent to followers, and in these at most
  once for each follower (that of the sender and that of the recipient, which may be the same) to which a transaction with this
  hash was scheduled.\<close>

theorem confirmed_at_most_per_follower:
  assumes "(round_step E murmur mx speed)\<^sup>*\<^sup>* (startRound txs p) s" "AllocatedTxpool p = Map.empty" "ProcessedTxpool p = []"
  shows "occurs h (ProcessedTxpool (node s) @ concat (map Body (mined s))) \<le> occurs h (dispatched s) \<and>
    occurs h (dispatched s) \<le> allowance h (scheduled s)"
  using round_run_ok [OF assms, of h] by (simp add: round_counts held_def)

section \<open>A run in which the bound is reached\<close>

text \<open>The report of one follower arrives before the batch of the other is recorded: the transaction is confirmed twice.\<close>

definition idle1 :: ProposerNode where
  "idle1 = proposer1\<lparr>PendingTxpool := []\<rparr>"

definition report1 :: "uint64 \<Rightarrow> Precessed_TxMsgs" where
  "report1 fid = \<lparr>pr_Txs = [transfer1 False 5], pr_TxHashs = [TxHash (transfer1 False 5)], pr_Proofs = [], pr_FollowerID = fid,
     pr_EpochId = 2, pr_StateRoot = []\<rparr>"

lemma retime1 [simp]: "transfer1 r v\<lparr>TxTime := 0\<rparr> = transfer1 r v"
  by (simp add: transfer1_def NewTransaction4_def Let_def)

lemma running1: "\<not> p_stop proposer1"
  by (simp add: proposer1_def)

lemma report1_step:
  assumes "AllocatedTxpool (node s) (TxHash (transfer1 False 5)) = Some (transfer1 False 5)"
  shows "\<exists>s'. round_step E murmur mx speed s s' \<and> recording s' = recording s \<and> mined s' = mined s \<and> scheduled s' = scheduled s \<and>
    map TxHash (ProcessedTxpool (node s')) = map TxHash (ProcessedTxpool (node s)) @ [TxHash (transfer1 False 5)]"
proof -
  obtain full p' where h: "handleProcessedTxs (report1 0) (node s) = Inr (full, p')"
    "map TxHash (ProcessedTxpool p') = map TxHash (ProcessedTxpool (node s)) @ [TxHash (transfer1 False 5)]"
    using assms by (auto simp: handleProcessedTxs_def GatherTxs_def gatherTx_def report1_def Let_def)
  show ?thesis using round_step.report [OF h(1)] h(2)
    by (intro exI [of _ "s\<lparr>node := p', generating := generating s + (if full then 1 else 0)\<rparr>"]) simp
qed

lemma run_into:
  "(round_step E murmur mx speed)\<^sup>*\<^sup>* s s1 \<Longrightarrow> round_step E murmur mx speed s1 s2 \<Longrightarrow> (round_step E murmur mx speed)\<^sup>*\<^sup>* s s2"
  by (rule rtranclp.rtrancl_into_rtrancl)

lemma race_run:
  "\<exists>s. (round_step env1 (\<lambda>b. 0) 10 10)\<^sup>*\<^sup>* (startRound [transfer1 False 5] idle1) s \<and>
     map TxHash (ProcessedTxpool (node s)) = [TxHash (transfer1 False 5), TxHash (transfer1 False 5)] \<and>
     mined s = [] \<and> scheduled s = [(2, transfer1 False 5)]"
proof -
  let ?R = "round_step env1 (\<lambda>b. 0) 10 10" and ?tx = "transfer1 False 5"
  let ?A = "(0, ''ip'', [?tx], 2) :: allocation" and ?B = "(1, ''ip'', [?tx], 2) :: allocation"
  let ?p2 = "proposer1\<lparr>EpochId := 2, PendingTxpool := []\<rparr>"
  define s1 where "s1 = (startRound [?tx] idle1)\<lparr>node := proposer1, waiting := []\<rparr>"
  define s2 where "s2 = s1\<lparr>node := ?p2, signals := 0, sending := [?A, ?B], scheduled := [(2, ?tx)]\<rparr>"
  define s3 where "s3 = s2\<lparr>sending := [?B], recording := [[?tx]], dispatched := [?tx]\<rparr>"
  define s4 where "s4 = s2\<lparr>sending := [], recording := [[?tx], [?tx]], dispatched := [?tx, ?tx]\<rparr>"
  define s5 where "s5 = s4\<lparr>node := TxAllocate_record [?tx] ?p2, recording := [[?tx]]\<rparr>"
  have a1: "?R (startRound [?tx] idle1) s1"
    using round_step.inject [of "startRound [?tx] idle1" 10 "\<lambda>i. 0" "[]" proposer1 env1 "\<lambda>b. 0" 10]
    by (simp add: s1_def startRound_def idle1_def injectTxs_def proposer1_def)
  have a2: "?R s1 s2"
    using round_step.schedule [of s1 id 10 "[?A, ?B]" ?p2 env1 "\<lambda>b. 0" 10] schedule1 running1
    by (simp add: s1_def s2_def startRound_def followers_def roundTxs_def) (simp add: proposer1_def)
  have a3: "?R s2 s3"
    using round_step.send [of s2 "[]" ?A "[?B]"] by (simp add: s3_def s2_def s1_def startRound_def TxAllocate_send_def proposer1_def)
  have a4: "?R s3 s4"
    using round_step.send [of "s3" "[]" ?B "[]"]
    by (simp add: s4_def s3_def s2_def s1_def startRound_def TxAllocate_send_def proposer1_def)
  have a5: "?R s4 s5"
    using round_step.record_batch [of s4 "[]" "[?tx]" "[[?tx]]"] by (simp add: s5_def s4_def s2_def)
  have "?R\<^sup>*\<^sup>* (startRound [?tx] idle1) s1" using a1 by (rule r_into_rtranclp)
  then have "?R\<^sup>*\<^sup>* (startRound [?tx] idle1) s2" by (rule run_into [OF _ a2])
  then have "?R\<^sup>*\<^sup>* (startRound [?tx] idle1) s3"
    by (rule run_into [OF _ a3])
  then have "?R\<^sup>*\<^sup>* (startRound [?tx] idle1) s4" by (rule run_into [OF _ a4])
  then have run: "?R\<^sup>*\<^sup>* (startRound [?tx] idle1) s5" by (rule run_into [OF _ a5])
  have f5: "AllocatedTxpool (node s5) (TxHash ?tx) = Some ?tx" "recording s5 = [[?tx]]" "mined s5 = []" "scheduled s5 = [(2, ?tx)]"
    "map TxHash (ProcessedTxpool (node s5)) = []"
    by (simp_all add: s5_def s4_def s2_def s1_def startRound_def TxAllocate_record_def proposer1_def)
  from report1_step [OF f5(1), of env1 "\<lambda>b. 0" 10 10] obtain s6 where s6: "?R s5 s6" "recording s6 = [[?tx]]" "mined s6 = []" "scheduled s6 = [(2, ?tx)]"
    "map TxHash (ProcessedTxpool (node s6)) = [TxHash ?tx]" unfolding f5 append_Nil by (elim exE conjE)
  define s7 where "s7 = s6\<lparr>node := TxAllocate_record [?tx] (node s6), recording := []\<rparr>"
  have f7: "AllocatedTxpool (node s7) (TxHash ?tx) = Some ?tx" "mined s7 = []" "scheduled s7 = [(2, ?tx)]"
    "map TxHash (ProcessedTxpool (node s7)) = [TxHash ?tx]"
    using s6(3-5) by (simp_all only: s7_def TxAllocate_record_def) simp_all
  have a7: "?R s6 s7" using round_step.record_batch [of s6 "[]" "[?tx]" "[]"] s6(2) by (simp add: s7_def)
  have "?R\<^sup>*\<^sup>* (startRound [?tx] idle1) s6" using run s6(1) by (rule run_into)
  then have r7: "?R\<^sup>*\<^sup>* (startRound [?tx] idle1) s7" by (rule run_into [OF _ a7])
  from report1_step [OF f7(1), of env1 "\<lambda>b. 0" 10 10] obtain s8 where s8: "?R s7 s8" "mined s8 = []" "scheduled s8 = [(2, ?tx)]"
    "map TxHash (ProcessedTxpool (node s8)) = [TxHash ?tx, TxHash ?tx]" unfolding f7 append_Cons append_Nil by (elim exE conjE)
  show ?thesis using run_into [OF r7 s8(1)] s8(2-4) by (intro exI conjI)
qed

theorem confirmed_at_most_per_follower_witness:
  "\<exists>s. (round_step env1 (\<lambda>b. 0) 10 10)\<^sup>*\<^sup>* (startRound [transfer1 False 5] idle1) s \<and>
     occurs (TxHash (transfer1 False 5)) (ProcessedTxpool (node s) @ concat (map Body (mined s))) = 2 \<and>
     2 \<le> occurs (TxHash (transfer1 False 5)) (dispatched s) \<and> allowance (TxHash (transfer1 False 5)) (scheduled s) = 2"
proof -
  have o: "occurs h txs = length (filter (\<lambda>x. x = h) (map TxHash txs))" for h txs by (simp add: occurs_def filter_map o_def)
  obtain s where s: "(round_step env1 (\<lambda>b. 0) 10 10)\<^sup>*\<^sup>* (startRound [transfer1 False 5] idle1) s"
    "map TxHash (ProcessedTxpool (node s)) = [TxHash (transfer1 False 5), TxHash (transfer1 False 5)]" "mined s = []"
    "scheduled s = [(2, transfer1 False 5)]"
    using race_run by (elim exE conjE)
  have two: "occurs (TxHash (transfer1 False 5)) (ProcessedTxpool (node s) @ concat (map Body (mined s))) = 2"
    by (simp add: s(3)) (simp add: o s(2))
  have a: "allowance (TxHash (transfer1 False 5)) (scheduled s) = 2" by (simp add: s(4) fanout_def dests1)
  have "AllocatedTxpool idle1 = Map.empty" "ProcessedTxpool idle1 = []" by (simp_all add: idle1_def proposer1_def)
  from confirmed_at_most_per_follower [OF s(1) this, of "TxHash (transfer1 False 5)"]
  have "2 \<le> occurs (TxHash (transfer1 False 5)) (dispatched s)" unfolding two by (rule conjunct1)
  with s(1) two a show ?thesis by (intro exI conjI)
qed

section \<open>Gathering while a block is made\<close>

text \<open>\<^verbatim>\<open>GatherTxs\<close> appends to \<^verbatim>\<open>ProcessedTxpool\<close> under \<^verbatim>\<open>AllocatedTxpoolLock\<close>, \<^verbatim>\<open>blockGenerate\<close> cuts it under \<^verbatim>\<open>ProcessedTxpoolLock\<close>. When a block is
  made between the read and the write of an append, the append writes back the pool that it read.\<close>

definition appendStale :: "Transaction list \<Rightarrow> Transaction \<Rightarrow> ProposerNode \<Rightarrow> ProposerNode" where
  "appendStale pool tx p = p\<lparr>ProcessedTxpool := pool @ [tx]\<rparr>"

lemma gather_generate_race:
  assumes "blockGenerate E now p = Inr (Some b, p')"
  shows "Body b = ProcessedTxpool p \<and> ProcessedTxpool (appendStale (ProcessedTxpool p) tx p') = Body b @ [tx]"
  using assms by (auto simp: blockGenerate_def appendStale_def NewBlock_def Let_def split: if_splits)

end
