(* ===== verification/Sub_Progress.thy ===== *)
theory Sub_Progress
  imports Sub_Rounds
begin

text \<open>
  Progress of the proposer: a round in which every batch is recorded before the reports arrive ends with one block that
  holds each transaction of the round once. After a follower has joined, no later round ends.
\<close>

section \<open>Gathering the reports of a round\<close>

text \<open>From \<open>p\<close> to \<open>p'\<close> the hashes \<open>H\<close> have been gathered.\<close>

definition gathered :: "bytes set \<Rightarrow> ProposerNode \<Rightarrow> ProposerNode \<Rightarrow> bool" where
  "gathered H p p' \<longleftrightarrow>
     (\<exists>new g. p' = p\<lparr>AllocatedTxpool := AllocatedTxpool p |` (- H), ProcessedTxpool := ProcessedTxpool p @ new, GatherMap := g\<rparr> \<and>
        distinct (map TxHash new) \<and> set (map TxHash new) = dom (AllocatedTxpool p) \<inter> H)"

lemma gathered_refl: "gathered {} p p"
  unfolding gathered_def by (intro exI [of _ "[]"] exI [of _ "GatherMap p"]) (simp add: restrict_map_def)

lemma gathered_trans:
  assumes "gathered A p p1" "gathered B p1 p2"
  shows "gathered (A \<union> B) p p2"
proof -
  obtain n1 g1 where 1: "p1 = p\<lparr>AllocatedTxpool := AllocatedTxpool p |` (- A), ProcessedTxpool := ProcessedTxpool p @ n1, GatherMap := g1\<rparr>"
    "distinct (map TxHash n1)" "set (map TxHash n1) = dom (AllocatedTxpool p) \<inter> A" using assms(1) by (auto simp: gathered_def)
  obtain n2 g2 where 2: "p2 = p1\<lparr>AllocatedTxpool := AllocatedTxpool p1 |` (- B), ProcessedTxpool := ProcessedTxpool p1 @ n2, GatherMap := g2\<rparr>"
    "distinct (map TxHash n2)" "set (map TxHash n2) = dom (AllocatedTxpool p1) \<inter> B" using assms(2) by (auto simp: gathered_def)
  have d: "dom (AllocatedTxpool p1) = dom (AllocatedTxpool p) - A" using 1(1) by auto
  then have "set (map TxHash n1) \<inter> set (map TxHash n2) = {}" "set (map TxHash (n1 @ n2)) = dom (AllocatedTxpool p) \<inter> (A \<union> B)"
    using 1(3) 2(3) by auto
  moreover have "p2 = p\<lparr>AllocatedTxpool := AllocatedTxpool p |` (- (A \<union> B)), ProcessedTxpool := ProcessedTxpool p @ (n1 @ n2), GatherMap := g2\<rparr>"
    using 1(1) 2(1) by (simp add: Int_commute)
  ultimately show ?thesis
    unfolding gathered_def using 1(2) 2(2) by (intro exI [of _ "n1 @ n2"] exI [of _ g2]) simp
qed

lemma gathered_keyed: "gathered H p p' \<Longrightarrow> keyed p \<Longrightarrow> keyed p'"
  by (auto simp: gathered_def keyed_def restrict_map_def split: if_splits)

lemma gatherTx_law:
  assumes "keyed p" "i < length (pr_Txs msg)"
  shows "\<exists>p'. gatherTx msg (i, h) p = Inr p' \<and> gathered {h} p p' \<and> GatherMap p' = GatherMap p"
proof (cases "AllocatedTxpool p h")
  case None
  then have "AllocatedTxpool p |` (- {h}) = (AllocatedTxpool p)(h := None)" "dom (AllocatedTxpool p) \<inter> {h} = {}"
    by (auto simp: restrict_complement_singleton_eq)
  then show ?thesis
    unfolding gathered_def using None by (simp add: gatherTx_def exI [of _ "GatherMap p"])
next
  case (Some tx)
  let ?tx = "tx\<lparr>AllocateTime := AllocateTime (pr_Txs msg ! i), ExecutionTime := ExecutionTime (pr_Txs msg ! i)\<rparr>"
  have "TxHash ?tx = h" using assms(1) Some by (simp add: keyed_def)
  moreover have "AllocatedTxpool p |` (- {h}) = (AllocatedTxpool p)(h := None)" "dom (AllocatedTxpool p) \<inter> {h} = {h}"
    using Some by (auto simp: restrict_complement_singleton_eq)
  moreover have "gatherTx msg (i, h) p = Inr (p\<lparr>ProcessedTxpool := ProcessedTxpool p @ [?tx], AllocatedTxpool := (AllocatedTxpool p)(h := None)\<rparr>)"
    using Some assms(2) by (simp add: gatherTx_def)
  ultimately show ?thesis
    unfolding gathered_def by (simp add: exI [of _ "[?tx]"] exI [of _ "GatherMap p"])
qed

lemma GatherTxs_law:
  assumes "keyed p" "length (pr_TxHashs msg) \<le> length (pr_Txs msg)"
  shows "\<exists>p'. GatherTxs msg p = Inr p' \<and> gathered (set (pr_TxHashs msg)) p p' \<and> GatherMap p' = GatherMap p"
proof -
  have "\<exists>p'. foldR (gatherTx msg) (enumerate i hs) p = Inr p' \<and> gathered (set hs) p p' \<and> GatherMap p' = GatherMap p"
    if "i + length hs \<le> length (pr_Txs msg)" for i hs
    using that assms(1)
  proof (induction hs arbitrary: i p)
    case Nil
    then show ?case by (simp add: gathered_refl)
  next
    case (Cons h hs)
    obtain p1 where p1: "gatherTx msg (i, h) p = Inr p1" "gathered {h} p p1" "GatherMap p1 = GatherMap p"
      using gatherTx_law [OF Cons.prems(2), of i msg h] Cons.prems(1) by auto
    obtain p2 where p2: "foldR (gatherTx msg) (enumerate (Suc i) hs) p1 = Inr p2" "gathered (set hs) p1 p2" "GatherMap p2 = GatherMap p1"
      using Cons.IH [of "Suc i" p1] gathered_keyed [OF p1(2) Cons.prems(2)] Cons.prems(1) by auto
    show ?case using p1 p2 gathered_trans [OF p1(2) p2(2)] by simp
  qed
  from this [of 0 "pr_TxHashs msg"] show ?thesis using assms(2) by (simp add: GatherTxs_def)
qed

text \<open>A sequence of reports, and which of them start a block.\<close>

fun handleReports :: "Precessed_TxMsgs list \<Rightarrow> ProposerNode \<Rightarrow> (bool list \<times> ProposerNode) res" where
  "handleReports [] p = Inr ([], p)"
| "handleReports (m # ms) p =
     bindR (handleProcessedTxs m p) (\<lambda>(b, p1). bindR (handleReports ms p1) (\<lambda>(bs, p2). Inr (b # bs, p2)))"

definition complete :: "ProposerNode \<Rightarrow> (uint64 \<times> bytes) list \<Rightarrow> bool" where
  "complete p g \<longleftrightarrow> int (length g) = params_FollowerNum p \<and> p_ShardID p = 0"

lemma handleProcessedTxs_law:
  assumes "keyed p" "length (pr_TxHashs msg) \<le> length (pr_Txs msg)"
  shows "\<exists>p'. handleProcessedTxs msg p = Inr (complete p (GatherMap p' (pr_EpochId msg)), p') \<and> gathered (set (pr_TxHashs msg)) p p' \<and>
    GatherMap p' = (GatherMap p)(pr_EpochId msg := AList.update (pr_FollowerID msg) (pr_StateRoot msg) (GatherMap p (pr_EpochId msg)))"
proof -
  obtain p1 where "GatherTxs msg p = Inr p1" and p1: "gathered (set (pr_TxHashs msg)) p p1" "GatherMap p1 = GatherMap p"
    using GatherTxs_law [OF assms] by blast
  moreover have "params_FollowerNum p1 = params_FollowerNum p" "p_ShardID p1 = p_ShardID p" using p1(1) by (auto simp: gathered_def)
  moreover have "gathered (set (pr_TxHashs msg)) p (p1\<lparr>GatherMap := g\<rparr>)" for g
    using p1(1) unfolding gathered_def by fastforce
  ultimately show ?thesis by (simp add: handleProcessedTxs_def Let_def complete_def)
qed

lemma update_fresh: "k \<notin> fst ` set al \<Longrightarrow> AList.update k v al = al @ [(k, v)]"
  by (induction al) auto

lemma handleReports_law:
  assumes "keyed p" "p_ShardID p = 0" "\<forall>m\<in>set msgs. pr_EpochId m = e \<and> length (pr_TxHashs m) \<le> length (pr_Txs m)"
    "distinct (map pr_FollowerID msgs)" "set (map pr_FollowerID msgs) \<inter> fst ` set (GatherMap p e) = {}"
    "int (length (GatherMap p e) + length msgs) = params_FollowerNum p"
  shows "\<exists>p'. handleReports msgs p = Inr (if msgs = [] then [] else replicate (length msgs - 1) False @ [True], p') \<and>
    gathered (\<Union>m\<in>set msgs. set (pr_TxHashs m)) p p'"
  using assms
proof (induction msgs arbitrary: p)
  case Nil
  then show ?case by (simp add: gathered_refl)
next
  case (Cons m ms)
  have m: "length (pr_TxHashs m) \<le> length (pr_Txs m)" "pr_EpochId m = e" using Cons.prems(3) by simp_all
  obtain p1 where p1: "handleProcessedTxs m p = Inr (complete p (GatherMap p1 e), p1)" "gathered (set (pr_TxHashs m)) p p1"
    "GatherMap p1 e = AList.update (pr_FollowerID m) (pr_StateRoot m) (GatherMap p e)"
    using handleProcessedTxs_law [OF Cons.prems(1) m(1)] m(2) by auto
  have g: "GatherMap p1 e = GatherMap p e @ [(pr_FollowerID m, pr_StateRoot m)]"
    using p1(3) Cons.prems(5) update_fresh by fastforce
  have k: "keyed p1" "p_ShardID p1 = 0" "params_FollowerNum p1 = params_FollowerNum p"
    using gathered_keyed [OF p1(2) Cons.prems(1)] p1(2) Cons.prems(2) by (auto simp: gathered_def)
  have flag: "complete p (GatherMap p1 e) \<longleftrightarrow> ms = []" using g Cons.prems(2,6) by (cases ms) (auto simp: complete_def)
  have "\<exists>p'. handleReports ms p1 = Inr (if ms = [] then [] else replicate (length ms - 1) False @ [True], p') \<and>
    gathered (\<Union>m\<in>set ms. set (pr_TxHashs m)) p1 p'"
    by (rule Cons.IH) (use k g Cons.prems in auto)
  then obtain p2 where p2: "handleReports ms p1 = Inr (if ms = [] then [] else replicate (length ms - 1) False @ [True], p2)"
    "gathered (\<Union>m\<in>set ms. set (pr_TxHashs m)) p1 p2" by blast
  show ?case
    using p1(1) p2(1) flag gathered_trans [OF p1(2) p2(2)] by (cases ms) auto
qed

section \<open>A round\<close>

lemma records_law:
  "AllocatedTxpool (fold (\<lambda>a. TxAllocate_record (batchOf a)) as p) =
     fold (\<lambda>tx m. m(TxHash tx \<mapsto> tx)) (concat (map batchOf as)) (AllocatedTxpool p)"
  "fold (\<lambda>a. TxAllocate_record (batchOf a)) as p =
     p\<lparr>AllocatedTxpool := AllocatedTxpool (fold (\<lambda>a. TxAllocate_record (batchOf a)) as p)\<rparr>"
  by (induction as arbitrary: p) (simp_all add: TxAllocate_record_def)

lemma fold_upd_dom: "dom (fold (\<lambda>tx m. m(TxHash tx \<mapsto> tx)) txs m) = dom m \<union> TxHash ` set txs"
  by (induction txs arbitrary: m) auto

lemma records_keyed: "keyed p \<Longrightarrow> keyed (fold (\<lambda>a. TxAllocate_record (batchOf a)) as p)"
  using record_held(1) by (induction as arbitrary: p) auto

lemma touches_routable: "touches n d tx \<Longrightarrow> routable tx"
  by (auto simp: touches_def txDests_def routable_def split: if_splits option.splits)

lemma routable_touches:
  assumes "isInr (txDests n tx)" "0 < n" "routable tx"
  shows "\<exists>k<16. int k < n \<and> touches n (int k) tx"
proof -
  obtain k1 k2 where k: "hexDigit (hd (Sender tx)) = Some k1" "hexDigit (hd (Recipient tx)) = Some k2"
    using assms(3) by (auto simp: routable_def)
  then have "txDests n tx = Inr (Some (int k1 smod n, int k2 smod n))"
    using assms(1,2) by (auto simp: txDests_def isInr_iff split: if_splits)
  then have t: "touches n (int k1 mod n) tx" using assms(2) by (simp add: touches_def smod_pos)
  have "0 \<le> int k1 mod n" "int k1 mod n < n" "int k1 mod n < 16"
    using assms(2) hexDigit_bound [OF k(1)] zmod_le_nonneg_dividend [of "int k1" n] by simp_all
  then show ?thesis using t by (intro exI [of _ "nat (int k1 mod n)"]) simp
qed

text \<open>The batches of a round hold exactly its routable transactions.\<close>

lemma round_batches:
  assumes "SchedulingTxs mx order p = Inr (Allocs as, p1)" "\<forall>xs. mset (order xs) = mset xs" "FollowerIDs p = map of_nat [0..<n]" "0 < n"
  shows "set (concat (map batchOf as)) = {tx \<in> set (roundTxs mx p). routable tx}"
proof -
  note a = allocate_law [OF SchedulingTxs_law(3) [OF assms(1)] assms(2) [rule_format]]
  have batch: "set (batchOf x) = {tx \<in> set (roundTxs mx p). touches (int n) (sint (fst x)) tx}" if "x \<in> set as" for x
  proof -
    have "mset (batchOf x) = filter_mset (touches (int n) (sint (fst x))) (mset (roundTxs mx p))"
      using bspec [OF a(4) that] assms(3) by (cases x) (simp add: batchOf_def)
    from arg_cong [OF this, of set_mset] show ?thesis by auto
  qed
  have ids: "fst ` set as = of_nat ` {0..<n}" using arg_cong [OF a(3), of set] assms(3) by simp
  have "\<exists>x\<in>set as. touches (int n) (sint (fst x)) tx" if tx: "tx \<in> set (roundTxs mx p)" "routable tx" for tx
  proof -
    obtain k where k: "k < 16" "int k < int n" "touches (int n) (int k) tx"
      using routable_touches [of "int n" tx] a(1) assms(3,4) tx by auto
    then have "of_nat k \<in> fst ` set as" using ids by auto
    moreover have "sint (word_of_int (int k) :: uint64) = int k" using k(1) by (simp only: sint_sbintrunc') (simp add: signed_take_bit_int_eq_self)
    then have "sint (of_nat k :: uint64) = int k" by simp
    ultimately show ?thesis using k(3) by force
  qed
  then show ?thesis using batch touches_routable by fastforce
qed

text \<open>The report a follower makes of its batch: that of \<open>split_law\<close>.\<close>

definition reportOf :: "allocation list \<Rightarrow> Precessed_TxMsgs \<Rightarrow> bool" where
  "reportOf as m \<longleftrightarrow>
     (\<exists>ip batch. (pr_FollowerID m, ip, batch, pr_EpochId m) \<in> set as \<and>
        pr_TxHashs m = map TxHash (filter routable batch) \<and> length (pr_Txs m) = length batch)"

lemma reported_hashes:
  assumes "distinct (map fst as)" "fst ` set as \<subseteq> pr_FollowerID ` set msgs" "\<forall>m\<in>set msgs. reportOf as m"
    "\<forall>tx\<in>set (concat (map batchOf as)). routable tx"
  shows "(\<Union>m\<in>set msgs. set (pr_TxHashs m)) = TxHash ` set (concat (map batchOf as))"
proof -
  have m: "\<exists>x\<in>set as. fst x = pr_FollowerID m \<and> set (pr_TxHashs m) = TxHash ` set (batchOf x)" if mm: "m \<in> set msgs" for m
  proof -
    obtain ip batch where b: "(pr_FollowerID m, ip, batch, pr_EpochId m) \<in> set as" "pr_TxHashs m = map TxHash (filter routable batch)"
      using bspec [OF assms(3) mm] by (auto simp: reportOf_def)
    have "set batch \<subseteq> set (concat (map batchOf as))" using b(1) by (force simp: batchOf_def)
    then have "filter routable batch = batch" using assms(4) by (auto simp: filter_id_conv)
    then show ?thesis using b by (intro bexI [OF _ b(1)]) (simp add: batchOf_def)
  qed
  have "\<exists>m\<in>set msgs. set (pr_TxHashs m) = TxHash ` set (batchOf x)" if x: "x \<in> set as" for x
  proof -
    obtain m' where m': "m' \<in> set msgs" "pr_FollowerID m' = fst x" using assms(2) x by force
    obtain y where y: "y \<in> set as" "fst y = pr_FollowerID m'" "set (pr_TxHashs m') = TxHash ` set (batchOf y)" using m [OF m'(1)] by blast
    have "y = x" using inj_onD [of fst "set as" y x] assms(1) x y m'(2) by (simp add: distinct_map)
    then show ?thesis using m'(1) y(3) by blast
  qed
  with m show ?thesis by fastforce
qed

text \<open>C34. A round confirms every transaction exactly once, when all followers report all of their batches. The proposer of shard 0 with
  followers 0 to n - 1 starts the round with empty pools for allocated and executed transactions, with no report of the epoch gathered and with
  no block made yet on the current one, and the round has at least one routable transaction. When all batches are recorded before the reports come in,
  and each follower sends one report with the hashes of all routable transactions of its batch, in any order of the followers, then the last report and
  no earlier one starts a block, and the pool for that block holds every routable transaction of the round exactly once; the block
  takes them all. A follower whose accounts cannot pay reports less, and then the round may confirm less.\<close>

theorem round_confirms_each_tx_once:
  assumes "SchedulingTxs mx order p = Inr (Allocs as, p1)" "\<forall>xs. mset (order xs) = mset xs"
    "FollowerIDs p = map of_nat [0..<n]" "0 < n" "distinct (FollowerIDs p)" "params_FollowerNum p = int n" "p_ShardID p = 0"
    "AllocatedTxpool p = Map.empty" "ProcessedTxpool p = []" "GatherMap p e = []"
    "blockHashGenDone p (BHash (CurrentBlock (CurChain p))) = None"
    "mset (map pr_FollowerID msgs) = mset (FollowerIDs p)" "\<forall>m\<in>set msgs. pr_EpochId m = e \<and> reportOf as m"
    "tx \<in> set (roundTxs mx p)" "routable tx"
  shows "\<exists>p3. handleReports msgs (fold (\<lambda>a. TxAllocate_record (batchOf a)) as p1) = Inr (replicate (n - 1) False @ [True], p3) \<and>
    distinct (map TxHash (ProcessedTxpool p3)) \<and>
    set (map TxHash (ProcessedTxpool p3)) = TxHash ` {tx \<in> set (roundTxs mx p). routable tx} \<and>
    (\<forall>E now ob p4. blockGenerate E now p3 = Inr (ob, p4) \<longrightarrow> (\<exists>b. ob = Some b \<and> Body b = ProcessedTxpool p3))"
proof -
  note a = allocate_law [OF SchedulingTxs_law(3) [OF assms(1)] assms(2) [rule_format]]
  note rb = round_batches [OF assms(1-4)]
  define p2 where "p2 = fold (\<lambda>a. TxAllocate_record (batchOf a)) as p1"
  have p2: "p2 = p1\<lparr>AllocatedTxpool := AllocatedTxpool p2\<rparr>" unfolding p2_def by (rule records_law(2))
  have p1: "AllocatedTxpool p1 = Map.empty" "ProcessedTxpool p1 = []" "GatherMap p1 = GatherMap p" "params_FollowerNum p1 = int n"
    "p_ShardID p1 = 0" "CurChain p1 = CurChain p" "blockHashGenDone p1 = blockHashGenDone p"
    using a(2) assms(6-9) by simp_all
  have q2: "ProcessedTxpool p2 = []" "GatherMap p2 = GatherMap p" "params_FollowerNum p2 = int n" "p_ShardID p2 = 0"
    "CurChain p2 = CurChain p" "blockHashGenDone p2 = blockHashGenDone p"
    by (subst p2, simp add: p1)+
  have dom: "dom (AllocatedTxpool p2) = TxHash ` set (concat (map batchOf as))"
    unfolding p2_def records_law(1) fold_upd_dom p1(1) by simp
  have k: "keyed p2" unfolding p2_def by (rule records_keyed) (simp add: keyed_def p1(1))
  have len: "length msgs = n" using arg_cong [OF assms(12), of size] assms(3) by simp
  have ids: "set (map pr_FollowerID msgs) = set (FollowerIDs p)" using arg_cong [OF assms(12), of set_mset] by simp
  have di: "distinct (map pr_FollowerID msgs)" using mset_eq_imp_distinct_iff [OF assms(12)] assms(5) by simp
  have lens: "\<forall>m\<in>set msgs. pr_EpochId m = e \<and> length (pr_TxHashs m) \<le> length (pr_Txs m)"
    using assms(13) by (auto simp: reportOf_def)
  have "\<exists>p3. handleReports msgs p2 = Inr (if msgs = [] then [] else replicate (length msgs - 1) False @ [True], p3) \<and>
      gathered (\<Union>m\<in>set msgs. set (pr_TxHashs m)) p2 p3"
    by (rule handleReports_law [OF k q2(4) lens di]) (simp_all add: q2 assms(10) len)
  then obtain p3 where p3: "handleReports msgs p2 = Inr (replicate (n - 1) False @ [True], p3)"
    "gathered (\<Union>m\<in>set msgs. set (pr_TxHashs m)) p2 p3" using len assms(4) by fastforce
  have f: "map fst as = FollowerIDs p" using a(3) assms(5) by (simp add: distinct_remdups_id)
  have "(\<Union>m\<in>set msgs. set (pr_TxHashs m)) = TxHash ` set (concat (map batchOf as))"
  proof (rule reported_hashes)
    show "fst ` set as \<subseteq> pr_FollowerID ` set msgs" using arg_cong [OF f, of set] ids by simp
  qed (use f assms(5,13) rb in simp_all)
  with p3(2) dom have "gathered (dom (AllocatedTxpool p2)) p2 p3" by simp
  then have "distinct (map TxHash (ProcessedTxpool p3)) \<and> set (map TxHash (ProcessedTxpool p3)) = dom (AllocatedTxpool p2) \<and>
    CurChain p3 = CurChain p \<and> blockHashGenDone p3 = blockHashGenDone p"
    unfolding gathered_def using q2 by (elim exE conjE) simp
  then have h: "distinct (map TxHash (ProcessedTxpool p3))" "set (map TxHash (ProcessedTxpool p3)) = TxHash ` set (concat (map batchOf as))"
    "CurChain p3 = CurChain p" "blockHashGenDone p3 = blockHashGenDone p" unfolding dom by blast+
  have "ProcessedTxpool p3 \<noteq> []" using h(2) rb assms(14,15) by auto
  then have "\<exists>b. ob = Some b \<and> Body b = ProcessedTxpool p3" if "blockGenerate E now p3 = Inr (ob, p4)" for E now ob p4
    using that h(3,4) assms(11) by (auto simp: blockGenerate_def Let_def NewBlock_def)
  then show ?thesis using p3(1) h(1,2) rb unfolding p2_def by blast
qed

section \<open>A follower that joins stops the proposer\<close>

text \<open>A run in which the set of ready followers stays as it is and only ready followers report. A follower becomes ready when it gets
  accounts, and it reports when it gets a batch, which only ready followers do.\<close>

definition quiet :: "Round \<Rightarrow> Round \<Rightarrow> bool" where
  "quiet s s' \<longleftrightarrow> dom (ReadyMap (node s')) = dom (ReadyMap (node s)) \<and>
     (\<forall>e. fst ` set (GatherMap (node s') e) \<subseteq> fst ` set (GatherMap (node s) e) \<union> dom (ReadyMap (node s)))"

definition starved :: "ProposerNode \<Rightarrow> bool" where
  "starved p \<longleftrightarrow> finite (dom (ReadyMap p)) \<and> int (card (dom (ReadyMap p))) < params_FollowerNum p \<and>
     (\<forall>e. fst ` set (GatherMap p e) \<subseteq> dom (ReadyMap p) \<and> distinct (map fst (GatherMap p e)))"

lemma starved_incomplete:
  assumes "starved p"
  shows "int (length (GatherMap p e)) < params_FollowerNum p"
proof -
  have "length (GatherMap p e) = card (fst ` set (GatherMap p e))"
    using assms distinct_card [of "map fst (GatherMap p e)"] by (simp add: starved_def)
  also have "\<dots> \<le> card (dom (ReadyMap p))" using assms by (intro card_mono) (simp_all add: starved_def)
  finally show ?thesis using assms by (simp add: starved_def)
qed

lemma GatherTxs_fields:
  assumes "GatherTxs msg p = Inr p'"
  shows "GatherMap p' = GatherMap p" "params_FollowerNum p' = params_FollowerNum p" "ReadyMap p' = ReadyMap p"
proof -
  have "GatherMap p' = GatherMap p \<and> params_FollowerNum p' = params_FollowerNum p \<and> ReadyMap p' = ReadyMap p"
    if "foldR (gatherTx msg) ihs p = Inr p'" for ihs
    using that
  proof (induction ihs arbitrary: p)
    case (Cons ih ihs)
    then obtain p1 where p1: "gatherTx msg ih p = Inr p1" "foldR (gatherTx msg) ihs p1 = Inr p'" by auto
    have "GatherMap p1 = GatherMap p \<and> params_FollowerNum p1 = params_FollowerNum p \<and> ReadyMap p1 = ReadyMap p"
      using p1(1) by (auto simp: gatherTx_def split: prod.splits option.splits if_splits)
    then show ?case using Cons.IH [OF p1(2)] by simp
  qed simp
  then show "GatherMap p' = GatherMap p" "params_FollowerNum p' = params_FollowerNum p" "ReadyMap p' = ReadyMap p"
    using assms by (simp_all add: GatherTxs_def)
qed

lemma allocate_fields:
  "allocate order table txs p = Inr (as, p') \<Longrightarrow> GatherMap p' = GatherMap p \<and> params_FollowerNum p' = params_FollowerNum p"
  by (auto simp: allocate_def Let_def)

text \<open>No step lowers the number of followers or puts a follower twice into a gathering; a step that is not the last report of an
  epoch starts no block.\<close>

lemma step_fields:
  assumes "round_step E murmur mx speed s s'" "generating s = 0" "\<forall>e. distinct (map fst (GatherMap (node s) e))"
  shows "params_FollowerNum (node s) \<le> params_FollowerNum (node s') \<and> (\<forall>e. distinct (map fst (GatherMap (node s') e))) \<and>
    mined s' = mined s \<and> (generating s' = 0 \<or> (\<exists>e. int (length (GatherMap (node s') e)) = params_FollowerNum (node s')))"
  using assms
proof (induction rule: round_step.induct)
  case (inject s now rest p')
  then show ?case by (auto simp: injectTxs_def Let_def split: if_splits)
next
  case (schedule s order as p')
  then show ?case using allocate_fields [OF SchedulingTxs_law(3) [OF schedule(3)]] by simp
next
  case (pause s order p')
  then show ?case by (auto simp: SchedulingTxs_def Let_def split: if_splits)
next
  case (stop s order p')
  then show ?case by (auto simp: SchedulingTxs_def Let_def closeProposerNode_def split: if_splits)
next
  case (report msg s full p')
  then obtain p1 where "GatherTxs msg (node s) = Inr p1" and
    p': "p' = p1\<lparr>GatherMap := (GatherMap p1)(pr_EpochId msg := AList.update (pr_FollowerID msg) (pr_StateRoot msg) (GatherMap p1 (pr_EpochId msg)))\<rparr>"
      "full \<longrightarrow> int (length (GatherMap p' (pr_EpochId msg))) = params_FollowerNum p'"
    by (auto simp: handleProcessedTxs_def Let_def)
  note g = GatherTxs_fields [OF this(1)]
  have "distinct (map fst (GatherMap p' e))" for e
    using report(3) distinct_update [of "GatherMap (node s) (pr_EpochId msg)"] by (simp add: p'(1) g)
  then show ?case using report(2) p' g by auto
next
  case (verify order enc s as p' b)
  then obtain p1 b' where "allocate order (FTable (p_ShardID p1)) (Body b') p1 = Inr (as, p')"
    "p1 = node s\<lparr>VerifyLock := True, VerifyBlock := Some b'\<rparr>"
    by (auto simp: handleBlockMsg_def VerifyingBlock_def split: if_splits)
  then show ?case using allocate_fields verify(4,5) by simp
next
  case (join rolls ip s out tasks p')
  then show ?case by (auto simp: joinStart_def Let_def split: prod.splits sum.splits go_error.splits)
next
  case (forward src to s out p')
  then show ?case by (auto simp: migratorForward_def split: option.splits)
qed (simp_all add: TxAllocate_record_def joinEnd_def handleFollowerResponse_def handleFollowerReady_def handleExecuteTimeMsg_def)

lemma starved_run:
  assumes "(\<lambda>s s'. round_step E murmur mx speed s s' \<and> quiet s s')\<^sup>*\<^sup>* s0 s" "starved (node s0)" "generating s0 = 0"
  shows "starved (node s) \<and> generating s = 0 \<and> mined s = mined s0"
  using assms(1)
proof (induction rule: rtranclp_induct)
  case (step s s')
  have st: "starved (node s)" "generating s = 0" "mined s = mined s0" using step.IH by simp_all
  have "\<forall>e. distinct (map fst (GatherMap (node s) e))" using st(1) by (simp add: starved_def)
  note f = step_fields [OF conjunct1 [OF step(2)] st(2) this]
  have q: "quiet s s'" using step(2) by simp
  have "starved (node s')"
    using f q st(1) unfolding starved_def quiet_def by (metis (no_types, lifting) order_less_le_trans sup_least order_refl subset_trans)
  moreover from this have "\<not> (\<exists>e. int (length (GatherMap (node s') e)) = params_FollowerNum (node s'))"
    using starved_incomplete by (metis less_irrefl)
  ultimately show ?case using f st(3) by simp
qed (use assms in simp)

text \<open>A ring without data keys gives no migration. The proposer never asks the ring for the node of a key, so its ring has none.\<close>

definition noData :: "SkiplistHashRing \<Rightarrow> bool" where
  "noData s \<longleftrightarrow> (\<forall>n. DataKeys s n = {})"

lemma noData_cong: "nodeToDataKey s' = nodeToDataKey s \<Longrightarrow> noData s' = noData s"
  by (simp add: noData_def DataKeys_def)

lemma ring_Add_data: "ring_Add l sc nodeID s = Inr s' \<Longrightarrow> nodeToDataKey s' = nodeToDataKey s"
  by (auto simp: ring_Add_def Let_def split: option.splits if_splits)

lemma migrateIn_noData:
  assumes "noData s" "migrateIn murmur migrator sc nodeID s = (r, s')"
  shows "noData s' \<and> (\<forall>src to ds. r = Inr (src, to, ds) \<longrightarrow> ds = {})"
proof -
  have d: "DataKeys s n = {}" for n using assms(1) by (simp add: noData_def)
  have "noData (AddNodeToDataKeys nodeID {} (DeleteNodeToDataKeys n {} s))" for n
    using assms(1) by (auto simp: noData_def DataKeys_def AddNodeToDataKeys_def DeleteNodeToDataKeys_def split: option.splits)
  then show ?thesis
    using assms by (auto simp: migrateIn_def bindS_apply readS_def d split: prod.splits sum.splits if_splits)
qed

lemma addReplicas_noData:
  assumes "noData s" "addReplicas murmur migrator rolls nodeID is s = (r, s')"
  shows "noData s' \<and> (\<forall>ts. r = Inr ts \<longrightarrow> ts = [])"
  using assms
proof (induction "is" arbitrary: s r s')
  case (Cons i "is")
  let ?k = "getRawNodeKey nodeID i"
  show ?case
  proof (cases "ring_Add (rolls i) (Encrypt murmur ?k) ?k s")
    case (Inl x)
    then show ?thesis using Cons.prems by (auto simp: Let_def bindS_apply writeS_def)
  next
    case (Inr s1)
    have n1: "noData s1" using noData_cong [OF ring_Add_data [OF Inr]] Cons.prems(1) by simp
    obtain r2 s2 where 2: "migrateIn murmur migrator (Encrypt murmur ?k) nodeID s1 = (r2, s2)" by fastforce
    note m = migrateIn_noData [OF n1 2]
    obtain r3 s3 where 3: "addReplicas murmur migrator rolls nodeID is s2 = (r3, s3)" by fastforce
    show ?thesis
      using Cons.prems(2) m Cons.IH [OF conjunct1 [OF m] 3]
      by (auto simp: Let_def bindS_apply writeS_def Inr 2 3 split: sum.splits)
  qed
qed auto

lemma AddNode_noData:
  assumes "noData (hashRing c)" "AddNode murmur rolls nodeID weight c = (r, c')"
  shows "noData (hashRing c') \<and> (\<forall>ts. r = Inr ts \<longrightarrow> ts = [])"
proof -
  obtain s' where s': "ring_AddNode murmur (hasMigrator c) (replicas c) rolls nodeID weight (hashRing c) = (r, s')" "c' = c\<lparr>hashRing := s'\<rparr>"
    using assms(2) by (auto simp: AddNode_def withRing_def split: prod.splits)
  have "noData (AddNodeToReplica nodeID n (hashRing c))" for n
    using noData_cong [of "AddNodeToReplica nodeID n (hashRing c)" "hashRing c"] assms(1) by (simp add: AddNodeToReplica_def)
  note r = addReplicas_noData [OF this]
  show ?thesis
  proof (cases "nodeToReplicas (hashRing c) nodeID")
    case None
    then show ?thesis using s' by (simp add: ring_AddNode_def bindS_apply readS_def Let_def) (use r in blast)
  next
    case (Some x)
    then show ?thesis using s' assms(1) by (auto simp: ring_AddNode_def bindS_apply readS_def)
  qed
qed

lemma join_law:
  assumes "joinStart murmur rolls ip p = Inr (out, tasks, p')" "noData (hashRing (p_Hash p))"
  shows "tasks = []" "out = [(ip, P_AllocFId (of_nat (length (FollowerIDs p))))]" "noData (hashRing (p_Hash p'))"
    "ReadyMap p' = ReadyMap p" "GatherMap p' = GatherMap p" "params_FollowerNum p' = params_FollowerNum p"
proof -
  obtain r c where r: "AddNode murmur rolls (itoa (length (FollowerIDs p))) 1 (p_Hash p) = (r, c)" by fastforce
  show "tasks = []" "out = [(ip, P_AllocFId (of_nat (length (FollowerIDs p))))]" "noData (hashRing (p_Hash p'))"
    "ReadyMap p' = ReadyMap p" "GatherMap p' = GatherMap p" "params_FollowerNum p' = params_FollowerNum p"
    using assms(1) AddNode_noData [OF assms(2) r] by (auto simp: joinStart_def Let_def r split: sum.splits go_error.splits)
qed

text \<open>C35. A joining follower stops the production of blocks until something else makes it ready. The proposer's ring holds no data keys, so the join migrates no
  account and the new follower is only told its identifier; the code has a follower announce that it is ready only when it is given accounts. But the proposer now
  waits for one report more. Let before the join exactly the known followers be ready and counted, and no block be waiting to be generated at its end. In every
  run after the join in which no further follower becomes ready and only ready followers report, whatever else happens, no block is started and none is made.\<close>

theorem join_stops_blocks:
  assumes "joinStart murmur rolls ip p = Inr (out, tasks, p')" "noData (hashRing (p_Hash p))"
    "dom (ReadyMap p) = set (FollowerIDs p)" "distinct (FollowerIDs p)" "params_FollowerNum p = int (length (FollowerIDs p))"
    "\<forall>e. fst ` set (GatherMap p e) \<subseteq> set (FollowerIDs p) \<and> distinct (map fst (GatherMap p e))"
    "node s0 = joinEnd p'" "generating s0 = 0"
    "(\<lambda>s s'. round_step E murmur mx speed s s' \<and> quiet s s')\<^sup>*\<^sup>* s0 s"
  shows "tasks = [] \<and> out = [(ip, P_AllocFId (of_nat (length (FollowerIDs p))))] \<and> generating s = 0 \<and> mined s = mined s0"
proof -
  note j = join_law [OF assms(1,2)]
  have "starved (node s0)" unfolding starved_def assms(7)
    using j(4-6) assms(3-6) by (simp add: joinEnd_def distinct_card)
  then show ?thesis using starved_run [OF assms(9) _ assms(8)] j(1,2) by simp
qed

section \<open>Instances\<close>

lemma reportOf1:
  assumes "fid = 0 \<or> fid = 1"
  shows "reportOf [(0, ''ip'', [transfer1 False 5], 2), (1, ''ip'', [transfer1 False 5], 2)] (report1 fid)"
  using assms by (auto simp: reportOf_def report1_def account1)

theorem round_confirms_each_tx_once_witness:
  "\<exists>p3. handleReports [report1 1, report1 0] (fold (\<lambda>a. TxAllocate_record (batchOf a))
       [(0, ''ip'', [transfer1 False 5], 2), (1, ''ip'', [transfer1 False 5], 2)] (proposer1\<lparr>EpochId := 2, PendingTxpool := []\<rparr>)) =
     Inr ([False, True], p3) \<and> distinct (map TxHash (ProcessedTxpool p3)) \<and>
     set (map TxHash (ProcessedTxpool p3)) = {TxHash (transfer1 False 5)}"
proof -
  let ?as = "[(0, ''ip'', [transfer1 False 5], 2), (1, ''ip'', [transfer1 False 5], 2)] :: allocation list"
  have r: "roundTxs 10 proposer1 = [transfer1 False 5]" by (simp add: roundTxs_def proposer1_def)
  have ids: "FollowerIDs proposer1 = map of_nat [0..<2]" by (simp add: proposer1_def upt_rec)
  have "mset (map pr_FollowerID [report1 1, report1 0]) = mset (FollowerIDs proposer1)"
    by (simp add: proposer1_def report1_def)
  moreover have "\<forall>m\<in>set [report1 1, report1 0]. pr_EpochId m = 2 \<and> reportOf ?as m"
    using reportOf1 by (auto simp: report1_def)
  moreover have "distinct (FollowerIDs proposer1)" "params_FollowerNum proposer1 = int 2" "p_ShardID proposer1 = 0"
    "AllocatedTxpool proposer1 = Map.empty" "ProcessedTxpool proposer1 = []" "GatherMap proposer1 2 = []"
    "blockHashGenDone proposer1 (BHash (CurrentBlock (CurChain proposer1))) = None"
    by (simp_all add: proposer1_def)
  moreover have "\<forall>xs. mset (id xs) = mset xs" "(0 :: nat) < 2" "transfer1 False 5 \<in> set (roundTxs 10 proposer1)" by (simp_all add: r)
  ultimately obtain p3 where
    "handleReports [report1 1, report1 0] (fold (\<lambda>a. TxAllocate_record (batchOf a)) ?as (proposer1\<lparr>EpochId := 2, PendingTxpool := []\<rparr>)) =
       Inr (replicate (2 - 1) False @ [True], p3)"
    "distinct (map TxHash (ProcessedTxpool p3))"
    "set (map TxHash (ProcessedTxpool p3)) = TxHash ` {tx \<in> set (roundTxs 10 proposer1). routable tx}"
    using round_confirms_each_tx_once [OF schedule1 _ ids, of 2 "[report1 1, report1 0]" "transfer1 False 5"] account1(3) by blast
  moreover have "TxHash ` {tx \<in> set (roundTxs 10 proposer1). routable tx} = {TxHash (transfer1 False 5)}" by (auto simp: r account1)
  ultimately show ?thesis by (intro exI [of _ p3]) simp
qed

lemma report_quiet:
  assumes "keyed (node s)" "fid \<in> dom (ReadyMap (node s))"
  shows "\<exists>s'. round_step E murmur mx speed s s' \<and> quiet s s' \<and> keyed (node s') \<and> ReadyMap (node s') = ReadyMap (node s) \<and>
    GatherMap (node s') 2 = AList.update fid [] (GatherMap (node s) 2)"
proof -
  obtain p' where p': "handleProcessedTxs (report1 fid) (node s) = Inr (complete (node s) (GatherMap p' 2), p')"
    "gathered (set (pr_TxHashs (report1 fid))) (node s) p'" "GatherMap p' = (GatherMap (node s))(2 := AList.update fid [] (GatherMap (node s) 2))"
    using handleProcessedTxs_law [OF assms(1), of "report1 fid"] by (auto simp: report1_def)
  have r: "ReadyMap p' = ReadyMap (node s)" using p'(2) by (auto simp: gathered_def)
  let ?s = "s\<lparr>node := p', generating := generating s + (if complete (node s) (GatherMap p' 2) then 1 else 0)\<rparr>"
  have "round_step E murmur mx speed s ?s" by (rule round_step.report [OF p'(1)])
  moreover have "quiet s ?s" using assms(2) by (auto simp: quiet_def r p'(3) dom_update)
  moreover have "keyed (node ?s)" using gathered_keyed [OF p'(2) assms(1)] by simp
  ultimately show ?thesis using r p'(3) by (intro exI [of _ ?s]) simp
qed

theorem join_stops_blocks_witness:
  "\<exists>p' s. joinStart (\<lambda>b. of_nat (length b)) (\<lambda>i. i) ''ip2'' proposer1 = Inr ([(''ip2'', P_AllocFId 2)], [], p') \<and>
     (\<lambda>s s'. round_step env1 (\<lambda>b. of_nat (length b)) 10 10 s s' \<and> quiet s s')\<^sup>*\<^sup>* (startRound [] (joinEnd p')) s \<and>
     map fst (GatherMap (node s) 2) = [0, 1] \<and> generating s = 0 \<and> mined s = []"
proof -
  let ?m = "\<lambda>b :: bytes. of_nat (length b) :: 32 word"
  let ?R = "\<lambda>s s'. round_step env1 ?m 10 10 s s' \<and> quiet s s'"
  have c: "p_Hash proposer1 = NewConsistentHash NewSkiplistHashRing True 2 5" "length (FollowerIDs proposer1) = 2" by (simp_all add: proposer1_def)
  have nd: "noData (hashRing (p_Hash proposer1))" by (simp add: c noData_def DataKeys_def NewConsistentHash_def NewSkiplistHashRing_def)
  have "itoa 2 \<notin> dom (nodeToReplicas (hashRing (p_Hash proposer1)))" by (simp add: c NewConsistentHash_def NewSkiplistHashRing_def)
  with new_hash_ok [of ?m 2 5] obtain ts c' where "AddNode ?m (\<lambda>i. i) (itoa 2) 1 (p_Hash proposer1) = (Inr ts, c')"
    using AddNode_law [of ?m "p_Hash proposer1" "[]" "itoa 2"] unfolding c by blast
  then obtain out tasks p' where j: "joinStart ?m (\<lambda>i. i) ''ip2'' proposer1 = Inr (out, tasks, p')"
    by (simp add: joinStart_def Let_def c)
  note jl = join_law [OF j nd]
  let ?s0 = "startRound [] (joinEnd p')"
  have pools: "AllocatedTxpool p' = Map.empty" using joinStart_pools [OF j] by (simp add: proposer1_def)
  have k: "keyed (node ?s0)" "0 \<in> dom (ReadyMap (node ?s0))" "GatherMap (node ?s0) 2 = []" "ReadyMap (node ?s0) = ReadyMap proposer1"
    using jl(4,5) pools by (simp_all add: startRound_def joinEnd_def keyed_def) (simp_all add: proposer1_def)
  obtain s1 where s1: "?R ?s0 s1" "keyed (node s1)" "ReadyMap (node s1) = ReadyMap proposer1" "GatherMap (node s1) 2 = [(0, [])]"
    using report_quiet [OF k(1,2), of env1 ?m 10 10] k(3,4) by auto
  have "1 \<in> dom (ReadyMap (node s1))" using s1(3) by (simp add: proposer1_def)
  then obtain s2 where s2: "?R s1 s2" "GatherMap (node s2) 2 = [(0, []), (1, [])]"
    using report_quiet [OF s1(2), of 1 env1 ?m 10 10] s1(4) by auto
  have run: "?R\<^sup>*\<^sup>* ?s0 s2" by (rule rtranclp.rtrancl_into_rtrancl [where b = s1, OF r_into_rtranclp [of ?R, OF s1(1)] s2(1)])
  have h: "dom (ReadyMap proposer1) = set (FollowerIDs proposer1)" "distinct (FollowerIDs proposer1)"
    "params_FollowerNum proposer1 = int (length (FollowerIDs proposer1))"
    "\<forall>e. fst ` set (GatherMap proposer1 e) \<subseteq> set (FollowerIDs proposer1) \<and> distinct (map fst (GatherMap proposer1 e))"
    "node ?s0 = joinEnd p'" "generating ?s0 = 0" "mined ?s0 = []"
    by (auto simp: proposer1_def startRound_def)
  show ?thesis using join_stops_blocks [OF j nd h(1-6) run] j run s2(2) h(7) c(2) by (intro exI [of _ p'] exI [of _ s2]) simp
qed

end
