(* ===== verification/Chain_Store.thy ===== *)
theory Chain_Store
  imports Block_Exec
begin

text \<open>
  The blocks of a chain: the block store returns what was put into it, the blocks under the current one
  form a chain down to the genesis block, and the fork choice of the memory chain replaces the upper part
  of that chain by a block with a smaller hash.
\<close>

section \<open>The block store\<close>

text \<open>A block that the encoders and the database can take.\<close>

definition codable :: "env \<Rightarrow> Block \<Rightarrow> bool" where
  "codable E b \<longleftrightarrow> e_decodeB E (e_encodeB E b) = Inr b \<and> e_decodeBH E (e_encodeBH E (Header b)) = Inr (Header b) \<and>
     BHash b \<noteq> [] \<and> length (BHash b) \<le> 32768 \<and> length (e_encodeB E b) \<le> 2147483646 \<and>
     length (e_encodeBH E (Header b)) \<le> 2147483646"

definition putBlock :: "env \<Rightarrow> Block \<Rightarrow> Storage \<Rightarrow> Storage" where
  "putBlock E b s = \<lparr>blockBucket = (blockBucket s)(BHash b \<mapsto> e_encodeB E b),
     blockHeaderBucket = (blockHeaderBucket s)(BHash b \<mapsto> e_encodeBH E (Header b)), newestBlockHash = Some (BHash b)\<rparr>"

lemma storage_AddBlock_put: "codable E b \<Longrightarrow> storage_AddBlock E b s = Inr (putBlock E b s)"
  by (simp add: codable_def storage_AddBlock_def AddBlockHeader_def boltPut_def UpdateNewestBlock_def putBlock_def)

lemma GetBlock_put:
  "codable E b \<Longrightarrow> GetBlock E h (putBlock E b s) = (if h = BHash b then Inr b else GetBlock E h s)"
  by (simp add: GetBlock_def putBlock_def codable_def)

lemma GetBlock_blank: "codable E b \<Longrightarrow> blockBucket (putBlock E b s) [] = blockBucket s []"
  by (auto simp: putBlock_def codable_def)

lemma newest_put: "newestBlockHash (putBlock E b s) = Some (BHash b)"
  by (simp add: putBlock_def)

section \<open>The chain of blocks\<close>

text \<open>The blocks from \<open>hd bs\<close> down to the genesis block, as the parent hashes lead through the store.\<close>

fun linked :: "env \<Rightarrow> Storage \<Rightarrow> Block list \<Rightarrow> bool" where
  "linked E s [] = False"
| "linked E s [g] \<longleftrightarrow> GetBlock E (BHash g) s = Inr g \<and> Number (Header g) = 0 \<and> ParentBlockHash (Header g) = []"
| "linked E s (b # p # bs) \<longleftrightarrow> GetBlock E (BHash b) s = Inr b \<and> ParentBlockHash (Header b) = BHash p \<and>
     Number (Header b) = Number (Header p) + 1 \<and> linked E s (p # bs)"

definition chain_inv :: "env \<Rightarrow> BlockChain \<Rightarrow> Block list \<Rightarrow> bool" where
  "chain_inv E bc bs \<longleftrightarrow> linked E (bc_Storage bc) bs \<and> hd bs = CurrentBlock bc \<and>
     isInr (GetNewestBlockHash (bc_Storage bc)) \<and> GetNewestBlockHash (bc_Storage bc) = Inr (BHash (CurrentBlock bc)) \<and>
     blockBucket (bc_Storage bc) [] = None"

text \<open>A block whose hash is new to the store, or that is the one stored under it.\<close>

definition unseen :: "env \<Rightarrow> Storage \<Rightarrow> Block \<Rightarrow> bool" where
  "unseen E s b \<longleftrightarrow> blockBucket s (BHash b) = None \<or> GetBlock E (BHash b) s = Inr b"

lemma linked_nonempty: "linked E s bs \<Longrightarrow> bs \<noteq> []"
  by auto

lemma unseen_put:
  "codable E b \<Longrightarrow> unseen E s b \<Longrightarrow> GetBlock E h s = Inr c \<Longrightarrow> GetBlock E h (putBlock E b s) = Inr c"
  by (auto simp: GetBlock_put unseen_def) (simp add: GetBlock_def)

lemma linked_put:
  assumes "codable E b" "unseen E s b"
  shows "linked E s bs \<Longrightarrow> linked E (putBlock E b s) bs"
proof (induction bs rule: induct_list012)
  case (2 g)
  then show ?case using unseen_put [OF assms] by simp
next
  case (3 x y bs)
  then show ?case using unseen_put [OF assms] by simp
qed simp

lemma linked_stored: "linked E s bs \<Longrightarrow> i < length bs \<Longrightarrow> GetBlock E (BHash (bs ! i)) s = Inr (bs ! i)"
proof (induction E s bs arbitrary: i rule: linked.induct)
  case (3 E s b p bs)
  then show ?case by (cases i) auto
qed auto

lemma linked_parent:
  "linked E s bs \<Longrightarrow> Suc i < length bs \<Longrightarrow> ParentBlockHash (Header (bs ! i)) = BHash (bs ! Suc i)"
proof (induction E s bs arbitrary: i rule: linked.induct)
  case (3 E s b p bs)
  then show ?case by (cases i) auto
qed auto

lemma linked_genesis: "linked E s bs \<Longrightarrow> ParentBlockHash (Header (last bs)) = []"
  by (induction E s bs rule: linked.induct) auto

lemma linked_drop: "linked E s bs \<Longrightarrow> i < length bs \<Longrightarrow> linked E s (drop i bs)"
proof (induction E s bs arbitrary: i rule: linked.induct)
  case (3 E s b p bs)
  then show ?case by (cases i) auto
qed auto

lemma linked_number:
  "linked E s bs \<Longrightarrow> i < length bs \<Longrightarrow> Number (Header (bs ! i)) = word_of_nat (length bs - 1 - i)"
proof (induction E s bs arbitrary: i rule: linked.induct)
  case (3 E s b p bs)
  then show ?case using "3.IH" [of 0] "3.IH" [of "i - 1"] by (cases i) auto
qed auto

lemma chain_inv_append:
  assumes "chain_inv E bc bs" "codable E b" "unseen E (bc_Storage bc) b" "extendsChain b bc"
  shows "chain_inv E (bc\<lparr>triedb := db, CurrentBlock := b, bc_Storage := putBlock E b (bc_Storage bc)\<rparr>) (b # bs)"
proof -
  obtain c cs where bs: "bs = c # cs" "c = CurrentBlock bc"
    using assms(1) by (cases bs) (auto simp: chain_inv_def)
  have "linked E (putBlock E b (bc_Storage bc)) bs"
    using linked_put [OF assms(2,3)] assms(1) by (simp add: chain_inv_def)
  then show ?thesis
    using assms bs by (auto simp: chain_inv_def extendsChain_def GetBlock_put newest_put GetBlock_blank GetNewestBlockHash_def)
qed

lemma chain_inv_cong:
  "chain_inv E bc bs \<Longrightarrow> bc_Storage bc' = bc_Storage bc \<Longrightarrow> CurrentBlock bc' = CurrentBlock bc \<Longrightarrow> chain_inv E bc' bs"
  by (simp add: chain_inv_def)

lemma appendBlock_put:
  "codable E b \<Longrightarrow> appendBlock E b bc = Inr (True, bc\<lparr>CurrentBlock := b, bc_Storage := putBlock E b (bc_Storage bc)\<rparr>)"
  by (simp add: appendBlock_def storage_AddBlock_put)

lemma mem_AddBlock_law:
  assumes "codable E b"
  shows "mem_AddBlock E (Some b) bc =
    Inr (if extendsChain b bc then (True, bc\<lparr>CurrentBlock := b, bc_Storage := putBlock E b (bc_Storage bc)\<rparr>) else (False, bc))"
  using assms by (simp add: mem_AddBlock_def appendBlock_put)

section \<open>The fork choice\<close>

lemma findHeight_step:
  "findHeight E s (Suc fuel) now target query found =
     (if now < target then Inr (Some found)
      else case GetBlock E query s of
             Inl (ErrMsg e) \<Rightarrow> Inr None
           | Inl e \<Rightarrow> Inl e
           | Inr block \<Rightarrow>
               findHeight E s fuel (now - 1) target (ParentBlockHash (Header block)) (if now = target then Some block else found))"
  by (simp add: findHeight.simps [of E s "Suc fuel"])

lemma unat_u64: "n < 2 ^ 64 \<Longrightarrow> unat (word_of_nat n :: uint64) = n"
  by (simp add: unsigned_of_nat take_bit_nat_eq_self)

text \<open>The walk from the \<open>i\<close>-th block down to height \<open>h > 0\<close> finds the block of that height.\<close>

lemma findHeight_walk:
  assumes l: "linked E s bs" and len: "length bs \<le> 2 ^ 64" and h: "0 < h" and k: "h + i + k + 1 = length bs"
    and f: "k + 2 \<le> fuel"
  shows "findHeight E s fuel (word_of_nat (h + k)) (word_of_nat h) (BHash (bs ! i)) None = Inr (Some (Some (bs ! (i + k))))"
  using k f
proof (induction k arbitrary: i fuel)
  case 0
  obtain f' where f': "fuel = Suc (Suc f')" using 0 by (metis add_2_eq_Suc le_Suc_ex add_0)
  have "GetBlock E (BHash (bs ! i)) s = Inr (bs ! i)" by (rule linked_stored [OF l]) (use 0 in simp)
  moreover have "(word_of_nat h :: uint64) - 1 < word_of_nat h"
    using h len 0 by (simp add: word_less_nat_alt unat_of_nat unat_sub_if' take_bit_nat_eq_self)
  ultimately show ?case by (simp add: f' findHeight_step)
next
  case (Suc k)
  obtain f' where f': "fuel = Suc f'" using Suc.prems(2) by (cases fuel) auto
  have "GetBlock E (BHash (bs ! i)) s = Inr (bs ! i)" by (rule linked_stored [OF l]) (use Suc.prems in simp)
  moreover have "ParentBlockHash (Header (bs ! i)) = BHash (bs ! Suc i)"
    by (rule linked_parent [OF l]) (use Suc.prems in simp)
  moreover have "unat (word_of_nat (h + Suc k) :: uint64) = h + Suc k" "unat (word_of_nat h :: uint64) = h"
    by (rule unat_u64; use len Suc.prems(1) in simp)+
  then have "\<not> (word_of_nat (h + Suc k) :: uint64) < word_of_nat h" "(word_of_nat (h + Suc k) :: uint64) \<noteq> word_of_nat h"
    unfolding word_less_nat_alt word_unat_eq_iff by linarith+
  moreover have "(word_of_nat (h + Suc k) :: uint64) - 1 = word_of_nat (h + k)" by simp
  ultimately show ?case using Suc.IH [of "Suc i" f'] Suc.prems by (simp add: f' findHeight_step)
qed

text \<open>Whatever the walk finds is a block of the chain with the height asked for.\<close>

definition at_height :: "Block list \<Rightarrow> uint64 \<Rightarrow> Block option \<Rightarrow> bool" where
  "at_height bs n r \<longleftrightarrow> (\<forall>c. r = Some c \<longrightarrow> (\<exists>i<length bs. c = bs ! i \<and> Number (Header c) = n))"

lemma findHeight_below:
  assumes "blockBucket s [] = None" "findHeight E s fuel (- 1) target [] found = Inr (Some r)"
  shows False
proof -
  have "\<not> (- 1 :: uint64) < target" by (simp add: not_less)
  then show False
    using assms by (cases fuel) (auto simp: findHeight.simps [of E s] GetBlock_def)
qed

lemma findHeight_member:
  assumes l: "linked E s bs" and 0: "blockBucket s [] = None"
  shows "i < length bs \<Longrightarrow> findHeight E s fuel (Number (Header (bs ! i))) target (BHash (bs ! i)) found = Inr (Some r) \<Longrightarrow>
    at_height bs target found \<Longrightarrow> at_height bs target r"
proof (induction fuel arbitrary: i found)
  case 0
  then show ?case by (simp add: findHeight.simps split: if_splits)
next
  case (Suc fuel)
  let ?n = "Number (Header (bs ! i))"
  let ?found = "if ?n = target then Some (bs ! i) else found"
  show ?case
  proof (cases "?n < target")
    case True
    then show ?thesis using Suc.prems by (simp add: findHeight_step)
  next
    case False
    have st: "GetBlock E (BHash (bs ! i)) s = Inr (bs ! i)" by (rule linked_stored [OF l Suc.prems(1)])
    have next_call: "findHeight E s fuel (?n - 1) target (ParentBlockHash (Header (bs ! i))) ?found = Inr (Some r)"
      using Suc.prems(2) False by (simp add: findHeight_step st)
    have f: "at_height bs target ?found" using Suc.prems(1,3) by (auto simp: at_height_def)
    show ?thesis
    proof (cases "Suc i < length bs")
      case True
      have "?n - 1 = Number (Header (bs ! Suc i))"
        using linked_number [OF l Suc.prems(1)] linked_number [OF l True] True
        by (metis add_diff_cancel_right' of_nat_Suc Suc_diff_Suc add.commute diff_diff_left plus_1_eq_Suc)
      then show ?thesis using Suc.IH [OF True _ f] next_call linked_parent [OF l True] by simp
    next
      case False
      then have i: "i = length bs - 1" using Suc.prems(1) by simp
      then have "?n = 0" using linked_number [OF l Suc.prems(1)] by simp
      moreover have "ParentBlockHash (Header (bs ! i)) = []"
        using linked_genesis [OF l] i by (simp add: last_conv_nth linked_nonempty [OF l])
      ultimately show ?thesis using findHeight_below [OF 0, of E fuel target ?found r] next_call by simp
    qed
  qed
qed

lemma chain_inv_bs: "chain_inv E bc bs \<Longrightarrow> 0 < length bs \<and> bs ! 0 = CurrentBlock bc"
  by (cases bs) (auto simp: chain_inv_def)

lemma switch_law:
  assumes inv: "chain_inv E bc bs" and b: "codable E b" "unseen E (bc_Storage bc) b"
    and i: "Suc i < length bs" "Number (Header b) = Number (Header (bs ! i))"
      "ParentBlockHash (Header b) = ParentBlockHash (Header (bs ! i))"
  shows "switchTo E b (bs ! Suc i) bc = Inr (True, bc\<lparr>CurrentBlock := b, bc_Storage := putBlock E b (bc_Storage bc)\<rparr>)"
    and "chain_inv E (bc\<lparr>CurrentBlock := b, bc_Storage := putBlock E b (bc_Storage bc)\<rparr>) (b # drop (Suc i) bs)"
proof -
  have l: "linked E (bc_Storage bc) bs" using inv by (simp add: chain_inv_def)
  have d: "linked E (bc_Storage bc) (drop i bs)" "drop i bs = bs ! i # bs ! Suc i # drop (Suc (Suc i)) bs"
    using linked_drop [OF l] i(1) by (simp_all add: Cons_nth_drop_Suc)
  then have x: "Number (Header b) = Number (Header (bs ! Suc i)) + 1" "ParentBlockHash (Header b) = BHash (bs ! Suc i)"
    using i by auto
  then have "extendsChain b (bc\<lparr>CurrentBlock := bs ! Suc i\<rparr>)" by (simp add: extendsChain_def)
  then show "switchTo E b (bs ! Suc i) bc = Inr (True, bc\<lparr>CurrentBlock := b, bc_Storage := putBlock E b (bc_Storage bc)\<rparr>)"
    by (simp add: switchTo_def mem_AddBlock_law [OF b(1)])
  have "linked E (putBlock E b (bc_Storage bc)) (drop (Suc i) bs)"
    by (rule linked_put [OF b linked_drop [OF l i(1)]])
  moreover have "drop (Suc i) bs = bs ! Suc i # drop (Suc (Suc i)) bs" using i(1) by (simp add: Cons_nth_drop_Suc)
  ultimately show "chain_inv E (bc\<lparr>CurrentBlock := b, bc_Storage := putBlock E b (bc_Storage bc)\<rparr>) (b # drop (Suc i) bs)"
    using inv b(1) x by (simp add: chain_inv_def GetBlock_put newest_put GetNewestBlockHash_def GetBlock_blank)
qed

lemma judge_switch:
  assumes j: "JudgeForkValid_RollBack E fuel b bc = Inr (r, bc')" and n: "bc' \<noteq> bc"
  shows "\<exists>cur parent. findHeight E (bc_Storage bc) fuel (Number (Header (CurrentBlock bc))) (Number (Header b))
      (BHash (CurrentBlock bc)) None = Inr (Some (Some cur)) \<and>
    ParentBlockHash (Header b) = ParentBlockHash (Header cur) \<and>
    GetBlock E (ParentBlockHash (Header b)) (bc_Storage bc) = Inr parent \<and> switchTo E b parent bc = Inr (r, bc')"
proof -
  have h: "\<not> Number (Header b) > Number (Header (CurrentBlock bc))"
    using j n by (auto simp: JudgeForkValid_RollBack_def)
  obtain x where x: "findHeight E (bc_Storage bc) fuel (Number (Header (CurrentBlock bc))) (Number (Header b))
      (BHash (CurrentBlock bc)) None = Inr x"
    using j h by (auto simp: JudgeForkValid_RollBack_def)
  obtain cur where cur: "x = Some (Some cur)"
    using j h x n by (cases x; cases "the x") (auto simp: JudgeForkValid_RollBack_def)
  have p: "ParentBlockHash (Header b) = ParentBlockHash (Header cur)" "\<not> BHash cur \<le> BHash b"
    using j h x n cur by (auto simp: JudgeForkValid_RollBack_def split: if_splits)
  show ?thesis
  proof (cases "GetBlock E (ParentBlockHash (Header b)) (bc_Storage bc)")
    case (Inl e)
    then show ?thesis using j h x n cur p by (cases e) (auto simp: JudgeForkValid_RollBack_def)
  next
    case (Inr parent)
    then show ?thesis using j h x n cur p by (auto simp: JudgeForkValid_RollBack_def)
  qed
qed

lemma fork_at:
  assumes inv: "chain_inv E bc bs" and b: "codable E b" "unseen E (bc_Storage bc) b"
    and i: "i < length bs" "Number (Header b) = Number (Header (bs ! i))" "ParentBlockHash (Header b) = ParentBlockHash (Header (bs ! i))"
    and p: "GetBlock E (ParentBlockHash (Header b)) (bc_Storage bc) = Inr parent" and s: "switchTo E b parent bc = Inr (r, bc')"
  shows "\<exists>bs'. chain_inv E bc' bs' \<and> last bs' = last bs"
proof -
  have l: "linked E (bc_Storage bc) bs" "blockBucket (bc_Storage bc) [] = None" using inv by (auto simp: chain_inv_def)
  have si: "Suc i < length bs"
  proof (rule ccontr)
    assume "\<not> Suc i < length bs"
    then have "i = length bs - 1" using i(1) by simp
    then have "ParentBlockHash (Header (bs ! i)) = []"
      using linked_genesis [OF l(1)] by (simp add: last_conv_nth linked_nonempty [OF l(1)])
    then show False using i(3) p l(2) by (simp add: GetBlock_def)
  qed
  have "parent = bs ! Suc i"
    using i(3) p linked_parent [OF l(1) si] linked_stored [OF l(1) si] by simp
  then show ?thesis using switch_law [OF inv b si i(2,3)] s si by (intro exI [of _ "b # drop (Suc i) bs"]) simp
qed

lemma fork_inv:
  assumes inv: "chain_inv E bc bs" and b: "codable E b" "unseen E (bc_Storage bc) b"
    and j: "JudgeForkValid_RollBack E fuel b bc = Inr (r, bc')"
  shows "\<exists>bs'. chain_inv E bc' bs' \<and> last bs' = last bs"
proof (cases "bc' = bc")
  case False
  have l: "linked E (bc_Storage bc) bs" "blockBucket (bc_Storage bc) [] = None" using inv by (auto simp: chain_inv_def)
  note bs = chain_inv_bs [OF inv]
  obtain cur parent where c: "findHeight E (bc_Storage bc) fuel (Number (Header (CurrentBlock bc))) (Number (Header b))
        (BHash (CurrentBlock bc)) None = Inr (Some (Some cur))"
      "ParentBlockHash (Header b) = ParentBlockHash (Header cur)"
      "GetBlock E (ParentBlockHash (Header b)) (bc_Storage bc) = Inr parent" "switchTo E b parent bc = Inr (r, bc')"
    using judge_switch [OF j False] by blast
  have "at_height bs (Number (Header b)) (Some cur)"
    by (rule findHeight_member [OF l, of 0 fuel _ None]) (use bs c(1) in \<open>auto simp: at_height_def\<close>)
  then obtain i where i: "i < length bs" "cur = bs ! i" "Number (Header b) = Number (Header (bs ! i))"
    by (auto simp: at_height_def)
  have "ParentBlockHash (Header b) = ParentBlockHash (Header (bs ! i))" using c(2) i(2) by simp
  then show ?thesis by (rule fork_at [OF inv b i(1,3) _ c(3,4)])
qed (use inv in auto)

text \<open>The variant with maps is given maps that describe the chain: heights lead to blocks of the chain, hashes to stored blocks.\<close>

lemma linked_hash: "linked E s (p # bs) \<Longrightarrow> blockBucket s [] = None \<Longrightarrow> BHash p \<noteq> []"
  using linked_stored [of E s "p # bs" 0] by (auto simp: GetBlock_def split: option.splits)

lemma linked_unique:
  assumes "linked E s xs" "linked E s ys" "hd xs = hd ys" "blockBucket s [] = None"
  shows "xs = ys"
  using assms(1-3)
proof (induction xs arbitrary: ys)
  case (Cons b xs)
  obtain cs where ys: "ys = b # cs" using Cons.prems(2,3) by (cases ys) auto
  show ?case
  proof (cases xs)
    case Nil
    have "cs = []"
    proof (cases cs)
      case q: (Cons q ds)
      then have "linked E s (q # ds)" "BHash q = []" using Cons.prems(1,2) Nil ys by auto
      then show ?thesis using linked_hash [OF _ assms(4)] by blast
    qed simp
    then show ?thesis using Nil ys by simp
  next
    case p: (Cons p bs)
    have "linked E s (p # bs)" "ParentBlockHash (Header b) = BHash p" using Cons.prems(1) p by auto
    then have "ParentBlockHash (Header b) \<noteq> []" using linked_hash [OF _ assms(4)] by force
    then obtain q ds where q: "cs = q # ds" using Cons.prems(2) ys by (cases cs) auto
    have l: "linked E s xs" "linked E s cs" "BHash q = BHash p" using Cons.prems(1,2) ys p q by auto
    then have "q = p" using linked_stored [OF l(1), of 0] linked_stored [OF l(2), of 0] p q by simp
    then show ?thesis using Cons.IH [OF l(1,2)] p q ys by simp
  qed
qed simp

definition maps_ok :: "env \<Rightarrow> (uint64 \<rightharpoonup> bytes) \<Rightarrow> (bytes \<rightharpoonup> Block) \<Rightarrow> BlockChain \<Rightarrow> bool" where
  "maps_ok E height2Hash hashToBlock bc \<longleftrightarrow>
     (\<forall>h b. hashToBlock h = Some b \<longrightarrow> GetBlock E h (bc_Storage bc) = Inr b) \<and>
     (\<exists>bs. linked E (bc_Storage bc) bs \<and> hd bs = CurrentBlock bc \<and>
        (\<forall>n h. height2Hash n = Some h \<longrightarrow> (\<exists>i<length bs. h = BHash (bs ! i) \<and> n = Number (Header (bs ! i)))))"

lemma fork_map_inv:
  assumes inv: "chain_inv E bc bs" and b: "codable E b" "unseen E (bc_Storage bc) b" and m: "maps_ok E h2h h2b bc"
    and j: "JudgeForkValid_RollBack_withMap E b h2h h2b bc = Inr (r, h2h', bc')"
  shows "\<exists>bs'. chain_inv E bc' bs' \<and> last bs' = last bs"
proof (cases "bc' = bc")
  case False
  have l: "linked E (bc_Storage bc) bs" "hd bs = CurrentBlock bc" "blockBucket (bc_Storage bc) [] = None"
    using inv by (auto simp: chain_inv_def)
  obtain h cur parent where c: "h2h (Number (Header b)) = Some h" "h2b h = Some cur" "ParentBlockHash (Header b) = ParentBlockHash (Header cur)"
    "h2b (ParentBlockHash (Header b)) = Some parent" "switchTo E b parent bc = Inr (r, bc')"
    using j False by (auto simp: JudgeForkValid_RollBack_withMap_def split: if_splits option.splits)
  obtain bs1 where "linked E (bc_Storage bc) bs1" "hd bs1 = CurrentBlock bc"
    "\<forall>n h. h2h n = Some h \<longrightarrow> (\<exists>i<length bs1. h = BHash (bs1 ! i) \<and> n = Number (Header (bs1 ! i)))"
    using m by (auto simp: maps_ok_def)
  moreover from this have "bs1 = bs" using linked_unique [OF _ l(1) _ l(3)] l(2) by simp
  ultimately obtain i where i: "i < length bs" "h = BHash (bs ! i)" "Number (Header b) = Number (Header (bs ! i))"
    using c(1) by blast
  have s: "GetBlock E h (bc_Storage bc) = Inr cur" "GetBlock E (ParentBlockHash (Header b)) (bc_Storage bc) = Inr parent"
    using m c(2,4) by (auto simp: maps_ok_def)
  then have "cur = bs ! i" using linked_stored [OF l(1) i(1)] i(2) by simp
  then show ?thesis using fork_at [OF inv b i(1,3) _ s(2) c(5)] c(3) by simp
qed (use inv in auto)

text \<open>A chain that is opened again on its store has the same blocks.\<close>

lemma reopen_inv:
  assumes "chain_inv E bc bs" "openChain E shard bsize db (bc_Storage bc) = Inr bc'"
  shows "chain_inv E bc' bs"
proof -
  have "GetBlock E (BHash (CurrentBlock bc)) (bc_Storage bc) = Inr (CurrentBlock bc)"
    using assms(1) linked_stored [of E "bc_Storage bc" bs 0] chain_inv_bs [OF assms(1)] by (auto simp: chain_inv_def)
  then have "bc_Storage bc' = bc_Storage bc \<and> CurrentBlock bc' = CurrentBlock bc"
    using assms by (auto simp: openChain_def Let_def chain_inv_def orPanic_def split: sum.splits go_error.splits)
  then show ?thesis using chain_inv_cong [OF assms(1)] by blast
qed

section \<open>The operations of a chain\<close>

lemma sealBlock_fields:
  "sealBlock E now parent num rt miner txs = Inr b \<Longrightarrow> ParentBlockHash (Header b) = parent \<and> Number (Header b) = num \<and>
     HStateRoot (Header b) = rt \<and> Body b = txs \<and> BHash b = header_Hash (e_encodeBH E) (e_sha256 E) (Header b)"
  by (auto simp: sealBlock_def NewBlock_def Let_def)

lemma triedb_same: "\<exists>db. bc = bc\<lparr>triedb := db\<rparr>"
  by (rule exI [of _ "triedb bc"]) simp

lemma db_exec_keeps:
  "db_GetUpdateStatusTrie E fuel txs bc = Inr (rt, bc') \<Longrightarrow> \<exists>db. bc' = bc\<lparr>triedb := db\<rparr>"
  by (auto simp: db_GetUpdateStatusTrie_def Let_def split: if_splits intro!: triedb_same)

lemma mem_exec_keeps: "mem_GetUpdateStatusTrie E fuel txs bc = Inr (rt, bc') \<Longrightarrow> bc' = bc"
  by (auto simp: mem_GetUpdateStatusTrie_def Let_def split: if_splits)

lemma Generate_keeps:
  assumes "GenerateBlock E exec now miner bc = Inr (b, bc')"
    "\<And>txs bc rt bc'. exec txs bc = Inr (rt, bc') \<Longrightarrow> \<exists>db. bc' = bc\<lparr>triedb := db\<rparr>"
  shows "bc_Storage bc' = bc_Storage bc \<and> CurrentBlock bc' = CurrentBlock bc"
  using assms(1) by (auto simp: GenerateBlock_def Let_def split: prod.splits dest!: assms(2))

lemma db_AddBlock_cases:
  assumes "db_AddBlock E fuel (Some b) bc = Inr (r, bc')" "codable E b" "bc' \<noteq> bc"
  shows "extendsChain b bc \<and> (\<exists>db. bc' = bc\<lparr>triedb := db, CurrentBlock := b, bc_Storage := putBlock E b (bc_Storage bc)\<rparr>)"
proof -
  have x: "extendsChain b bc" using assms(1,3) by (auto simp: db_AddBlock_def split: if_splits)
  show ?thesis
  proof (cases "newState E (HStateRoot (Header b)) (triedb bc)")
    case (Inr t)
    then show ?thesis
      using assms(1) x by (auto simp: db_AddBlock_def appendBlock_put [OF assms(2)] intro!: exI [of _ "triedb bc"])
  next
    case (Inl e)
    then obtain rt bc1 where "db_GetUpdateStatusTrie E fuel (Body b) bc = Inr (rt, bc1)" "appendBlock E b bc1 = Inr (r, bc')"
      using assms(1) x by (cases e) (auto simp: db_AddBlock_def)
    then show ?thesis using x by (auto simp: appendBlock_put [OF assms(2)] dest!: db_exec_keeps)
  qed
qed

lemma AddAccounts_cases:
  assumes "AddAccounts E fuel ac as bc = Inr bc'" "codable E (CurrentBlock bc')"
  shows "extendsChain (CurrentBlock bc') bc \<and>
    (\<exists>db. bc' = bc\<lparr>triedb := db, CurrentBlock := CurrentBlock bc', bc_Storage := putBlock E (CurrentBlock bc') (bc_Storage bc)\<rparr>)"
proof -
  obtain rt db b s where b: "sealBlock E 0 (BHash (CurrentBlock bc)) (Number (Header (CurrentBlock bc)) + 1) rt 0 [] = Inr b"
    "storage_AddBlock E b (bc_Storage bc) = Inr s" "bc' = bc\<lparr>triedb := db, CurrentBlock := b, bc_Storage := s\<rparr>"
    using assms(1) unfolding AddAccounts_def Let_def by (auto simp only: bindR_eq_Inr split: prod.splits) auto
  then show ?thesis
    using assms(2) sealBlock_fields [OF b(1)] by (auto simp: extendsChain_def storage_AddBlock_put)
qed

text \<open>The operations of the two chains that touch the blocks, and a restart on the store. Required of a block that is added or
  switched to, which \<^verbatim>\<open>AddBlock\<close> does not check, is that it can be encoded and decoded and that its hash is not that of a different
  stored block.\<close>

inductive chain_step :: "env \<Rightarrow> BlockChain \<Rightarrow> BlockChain \<Rightarrow> bool" for E where
  send: "chain_step E bc (SendTx2Pool now txs bc)"
| partition: "chain_step E bc (Update_PartitionMap key val bc)"
| db_generate: "db_GenerateBlock E fuel now miner bc = Inr (b, bc') \<Longrightarrow> chain_step E bc bc'"
| mem_generate: "mem_GenerateBlock E fuel now miner bc = Inr (b, bc') \<Longrightarrow> chain_step E bc bc'"
| db_add: "db_AddBlock E fuel (Some b) bc = Inr (r, bc') \<Longrightarrow> codable E b \<Longrightarrow> unseen E (bc_Storage bc) b \<Longrightarrow> chain_step E bc bc'"
| mem_add: "mem_AddBlock E (Some b) bc = Inr (r, bc') \<Longrightarrow> codable E b \<Longrightarrow> unseen E (bc_Storage bc) b \<Longrightarrow> chain_step E bc bc'"
| accounts: "AddAccounts E fuel ac as bc = Inr bc' \<Longrightarrow> codable E (CurrentBlock bc') \<Longrightarrow>
    unseen E (bc_Storage bc) (CurrentBlock bc') \<Longrightarrow> chain_step E bc bc'"
| fork: "JudgeForkValid_RollBack E fuel b bc = Inr (r, bc') \<Longrightarrow> codable E b \<Longrightarrow> unseen E (bc_Storage bc) b \<Longrightarrow> chain_step E bc bc'"
| fork_map: "JudgeForkValid_RollBack_withMap E b h2h h2b bc = Inr (r, h2h', bc') \<Longrightarrow> maps_ok E h2h h2b bc \<Longrightarrow>
    codable E b \<Longrightarrow> unseen E (bc_Storage bc) b \<Longrightarrow> chain_step E bc bc'"
| restart: "openChain E shard bsize db (bc_Storage bc) = Inr bc' \<Longrightarrow> chain_step E bc bc'"

lemma chain_step_inv: "chain_step E bc bc' \<Longrightarrow> chain_inv E bc bs \<Longrightarrow> \<exists>bs'. chain_inv E bc' bs' \<and> last bs' = last bs"
proof (induction rule: chain_step.induct)
  case (send bc now txs)
  then show ?case by (intro exI [of _ bs]) (simp add: SendTx2Pool_def chain_inv_def)
next
  case (partition bc key val)
  then show ?case by (intro exI [of _ bs]) (simp add: Update_PartitionMap_def chain_inv_def)
next
  case (db_generate fuel now miner bc b bc')
  have "bc_Storage bc' = bc_Storage bc \<and> CurrentBlock bc' = CurrentBlock bc"
    using Generate_keeps [OF db_generate.hyps [unfolded db_GenerateBlock_def]] db_exec_keeps by blast
  then show ?case using db_generate.prems chain_inv_cong by blast
next
  case (mem_generate fuel now miner bc b bc')
  have "bc_Storage bc' = bc_Storage bc \<and> CurrentBlock bc' = CurrentBlock bc"
    by (rule Generate_keeps [OF mem_generate.hyps [unfolded mem_GenerateBlock_def]])
       (use mem_exec_keeps triedb_same in metis)
  then show ?case using mem_generate.prems chain_inv_cong by blast
next
  case (db_add fuel b bc r bc')
  then show ?case
    using db_AddBlock_cases [OF db_add.hyps(1,2)] chain_inv_append [OF db_add.prems db_add.hyps(2,3)] chain_inv_bs
    by (metis last_ConsR length_greater_0_conv)
next
  case (mem_add b bc r bc')
  then show ?case
    using chain_inv_append [OF mem_add.prems mem_add.hyps(2,3), of "triedb bc"] chain_inv_bs [OF mem_add.prems]
    by (auto simp: mem_AddBlock_law split: if_splits)
next
  case (accounts fuel ac as bc bc')
  then show ?case
    using AddAccounts_cases [OF accounts.hyps(1,2)] chain_inv_append [OF accounts.prems accounts.hyps(2,3)] chain_inv_bs
    by (metis last_ConsR length_greater_0_conv)
next
  case (fork fuel b bc r bc')
  then show ?case using fork_inv by blast
next
  case (fork_map b h2h h2b bc r h2h' bc')
  then show ?case using fork_map_inv by blast
next
  case (restart shard bsize db bc bc')
  then show ?case using reopen_inv by blast
qed

section \<open>The genesis block\<close>

definition genesisBlock :: "env \<Rightarrow> Block" where
  "genesisBlock E =
     (let bh = \<lparr>ParentBlockHash = [], HStateRoot = e_emptyRoot E, TxRoot = e_emptyRoot E, BloomFilter = {}, Number = 0,
                HTime = 0, Miner = 0\<rparr>
      in (NewBlock bh [])\<lparr>BHash := header_Hash (e_encodeBH E) (e_sha256 E) bh\<rparr>)"

lemma newState_empty: "\<exists>t. newState E [] db = Inr t \<and> trieHash E t = Inr (e_emptyRoot E)"
  by (simp add: newState_def trie_New_def BytesToHash_def Let_def trieHash_def trie_Hash_def hashRoot_def)

lemma seal_genesis: "sealBlock E 0 [] 0 (e_emptyRoot E) 0 [] = Inr (genesisBlock E)"
  using newState_empty [of E memDatabase]
  by (auto simp: sealBlock_def GetTxTreeRoot_def GetBloomFilter_def genesisBlock_def Let_def)

lemma newest_new: "GetNewestBlockHash NewStorage = Inl (ErrMsg ''cannot find the newest block hash'')"
  by (simp add: GetNewestBlockHash_def NewStorage_def)

lemma openChain_new:
  assumes "codable E (genesisBlock E)"
  shows "\<exists>bc. openChain E shard bsize db NewStorage = Inr bc \<and> triedb bc = db \<and> CurrentBlock bc = genesisBlock E \<and>
    chain_inv E bc [genesisBlock E]"
proof -
  let ?s = "putBlock E (genesisBlock E) NewStorage"
  have g: "GetBlock E (BHash (genesisBlock E)) ?s = Inr (genesisBlock E)" "GetNewestBlockHash ?s = Inr (BHash (genesisBlock E))"
    "blockBucket ?s [] = None"
    using assms by (simp_all add: GetBlock_put GetNewestBlockHash_def newest_put GetBlock_blank, simp add: NewStorage_def)
  have "linked E ?s [genesisBlock E]" using g by (simp add: genesisBlock_def NewBlock_def Let_def)
  moreover obtain t where "newState E [] db = Inr t" "trieHash E t = Inr (e_emptyRoot E)" using newState_empty by blast
  ultimately show ?thesis
    using g by (simp add: openChain_def newest_new Let_def NewGenisisBlock_def
        seal_genesis AddGenisisBlock_def storage_AddBlock_put [OF assms] orPanic_def chain_inv_def)
qed

section \<open>Properties\<close>

text \<open>C20. In every run of a chain that was created on an empty store (sending transactions, generating and adding blocks on either
  chain, adding accounts, the fork choice with and without maps, restarts), in which every block that is added can be encoded and decoded and has
  a hash that no different stored block has, and in which the maps given to the fork choice describe the chain: the blocks stay linked. The
  parent hashes lead from the current block through the store to the genesis block, with heights that go down by one, and
  the store knows the current block as the newest.\<close>

theorem chain_stays_linked:
  assumes "codable E (genesisBlock E)" "openChain E shard bsize db NewStorage = Inr bc0" "(chain_step E)\<^sup>*\<^sup>* bc0 bc"
  shows "\<exists>bs. linked E (bc_Storage bc) bs \<and> hd bs = CurrentBlock bc \<and> last bs = genesisBlock E \<and>
    GetNewestBlockHash (bc_Storage bc) = Inr (BHash (CurrentBlock bc))"
proof -
  have "chain_inv E bc0 [genesisBlock E]" using openChain_new [OF assms(1), of shard bsize db] assms(2) by auto
  from assms(3) this have "\<exists>bs. chain_inv E bc bs \<and> last bs = genesisBlock E"
  proof (induction rule: rtranclp_induct)
    case base
    then show ?case by (intro exI [of _ "[genesisBlock E]"]) simp
  next
    case (step bc1 bc2)
    then show ?case using chain_step_inv by metis
  qed
  then show ?thesis by (auto simp: chain_inv_def)
qed

text \<open>The instance: a block is added to a new chain, and the chain is opened again.\<close>

definition blockN :: "uint64 \<Rightarrow> uint64 \<Rightarrow> bytes \<Rightarrow> bytes \<Rightarrow> Block" where
  "blockN num miner parent hash = (NewBlock ((Header nilBlock)\<lparr>ParentBlockHash := parent, Number := num, Miner := miner\<rparr>) [])\<lparr>BHash := hash\<rparr>"

lemma blockN_fields:
  "Number (Header (blockN n m p h)) = n" "ParentBlockHash (Header (blockN n m p h)) = p" "BHash (blockN n m p h) = h"
  "Miner (Header (blockN n m p h)) = m" "HStateRoot (Header (blockN n m p h)) = []"
  by (simp_all add: blockN_def NewBlock_def nilBlock_def)

definition block2 :: Block where
  "block2 = blockN 1 2 (K0 [0]) [2]"

definition env2 :: env where
  "env2 = env1\<lparr>e_encodeB := \<lambda>b. [ucast (Number (Header b))], e_decodeB := \<lambda>e. Inr (if e = [0] then genesisBlock env1 else block2),
     e_decodeBH := \<lambda>e. Inr (Header (if e = [0] then genesisBlock env1 else block2))\<rparr>"

lemma env2_genesis: "genesisBlock env2 = genesisBlock env1" "codable env2 (genesisBlock env1)" "codable env2 block2"
  "BHash (genesisBlock env1) = K0 [0]" "Number (Header (genesisBlock env1)) = 0"
proof -
  show "genesisBlock env2 = genesisBlock env1" by (simp add: genesisBlock_def env2_def)
  show h: "BHash (genesisBlock env1) = K0 [0]" "Number (Header (genesisBlock env1)) = 0"
    by (simp_all add: genesisBlock_def Let_def header_Hash_def env1_def NewBlock_def)
  moreover have "length (K0 [0]) = 32" using K0_32 by (simp add: hash32_def)
  ultimately show "codable env2 (genesisBlock env1)" by (simp add: codable_def env2_def env1_def) force
  show "codable env2 block2" by (simp add: codable_def env2_def env1_def block2_def blockN_fields)
qed

theorem chain_stays_linked_witness:
  "\<exists>bc0 bc1 bc bs. openChain env2 0 10 memDatabase NewStorage = Inr bc0 \<and> mem_AddBlock env2 (Some block2) bc0 = Inr (True, bc1) \<and>
     openChain env2 0 10 memDatabase (bc_Storage bc1) = Inr bc \<and> CurrentBlock bc = block2 \<and>
     linked env2 (bc_Storage bc) bs \<and> hd bs = block2 \<and> last bs = genesisBlock env2"
proof -
  have g: "codable env2 (genesisBlock env2)" by (simp add: env2_genesis)
  obtain bc0 where 0: "openChain env2 0 10 memDatabase NewStorage = Inr bc0" "CurrentBlock bc0 = genesisBlock env2"
    "chain_inv env2 bc0 [genesisBlock env2]" using openChain_new [OF g] by blast
  have x: "extendsChain block2 bc0" using 0(2) by (simp add: extendsChain_def env2_genesis block2_def blockN_fields)
  let ?s = "putBlock env2 block2 (bc_Storage bc0)"
  define bc1 where "bc1 = bc0\<lparr>CurrentBlock := block2, bc_Storage := ?s\<rparr>"
  have 1: "mem_AddBlock env2 (Some block2) bc0 = Inr (True, bc1)" using x by (simp add: mem_AddBlock_law env2_genesis bc1_def)
  obtain t where t: "newState env2 [] memDatabase = Inr t" using newState_empty by blast
  obtain bc where 2: "openChain env2 0 10 memDatabase (bc_Storage bc1) = Inr bc" "CurrentBlock bc = block2"
    using t env2_genesis(3)
    by (simp add: openChain_def bc1_def GetNewestBlockHash_def newest_put GetBlock_put orPanic_def Let_def) (simp add: block2_def blockN_fields)
  have "unseen env2 (bc_Storage bc0) block2"
  proof -
    have "bc_Storage bc0 = putBlock env2 (genesisBlock env2) NewStorage"
      using 0(1) newState_empty [of env2 memDatabase]
      by (auto simp: openChain_def newest_new Let_def NewGenisisBlock_def seal_genesis AddGenisisBlock_def storage_AddBlock_put [OF g])
    then show ?thesis by (simp add: unseen_def putBlock_def block2_def blockN_fields NewStorage_def env2_genesis K0_def)
  qed
  from chain_step.mem_add [OF 1 env2_genesis(3) this] chain_step.restart [OF 2(1)]
  have "(chain_step env2)\<^sup>*\<^sup>* bc0 bc" by (meson converse_rtranclp_into_rtranclp rtranclp.rtrancl_refl)
  from chain_stays_linked [OF g 0(1) this] show ?thesis using 0(1) 1 2 by metis
qed

text \<open>C22. On a linked chain of at most 2^64 blocks, given a block whose height is that of a block above the genesis block, that can be encoded and
  decoded, and whose hash no different stored block has: the fork choice replaces the upper part of the chain exactly when the new block has the
  same parent as the block of its height and a smaller hash, in the order of the bytes. Then the new block is the
  current one, on top of the blocks below it; otherwise nothing changes. Fuel for one step per block
  of the chain is enough.\<close>

theorem fork_choice:
  assumes "chain_inv E bc bs" "length bs \<le> 2 ^ 64" "codable E b" "unseen E (bc_Storage bc) b" "length bs + 1 \<le> fuel"
    "Suc i < length bs" "Number (Header b) = Number (Header (bs ! i))"
  shows "if ParentBlockHash (Header b) = ParentBlockHash (Header (bs ! i)) \<and> BHash b < BHash (bs ! i)
    then \<exists>bc'. JudgeForkValid_RollBack E fuel b bc = Inr (True, bc') \<and> CurrentBlock bc' = b \<and> chain_inv E bc' (b # drop (Suc i) bs)
    else JudgeForkValid_RollBack E fuel b bc = Inr (False, bc)"
proof -
  have l: "linked E (bc_Storage bc) bs" using assms(1) by (simp add: chain_inv_def)
  let ?h = "length bs - 1 - i"
  note bs = chain_inv_bs [OF assms(1)]
  have n: "Number (Header b) = word_of_nat ?h" "Number (Header (CurrentBlock bc)) = word_of_nat (?h + i)"
    using linked_number [OF l, of i] linked_number [OF l, of 0] assms(6,7) bs by auto
  have "unat (word_of_nat ?h :: uint64) = ?h" "unat (word_of_nat (?h + i) :: uint64) = ?h + i"
    by (rule unat_u64; use assms(2,6) in simp)+
  then have lt: "\<not> Number (Header b) > Number (Header (CurrentBlock bc))"
    unfolding n word_less_nat_alt by linarith
  have f: "findHeight E (bc_Storage bc) fuel (Number (Header (CurrentBlock bc))) (Number (Header b)) (BHash (CurrentBlock bc)) None =
      Inr (Some (Some (bs ! i)))"
    unfolding n using findHeight_walk [OF l assms(2), of ?h 0 i fuel] assms(5,6) bs by simp
  show ?thesis
  proof (cases "ParentBlockHash (Header b) = ParentBlockHash (Header (bs ! i)) \<and> BHash b < BHash (bs ! i)")
    case True
    have "GetBlock E (ParentBlockHash (Header b)) (bc_Storage bc) = Inr (bs ! Suc i)"
      using True linked_parent [OF l assms(6)] linked_stored [OF l assms(6)] by simp
    then show ?thesis
      using True switch_law [OF assms(1,3,4,6,7)] f lt by (auto simp: JudgeForkValid_RollBack_def not_le [symmetric])
  next
    case False
    then have "\<not> BHash (bs ! i) \<le> BHash b \<Longrightarrow> ParentBlockHash (Header b) \<noteq> ParentBlockHash (Header (bs ! i))"
      by (simp add: not_le)
    then show ?thesis using False f lt by (auto simp: JudgeForkValid_RollBack_def)
  qed
qed

text \<open>Three blocks, the last two of the same height, coded by their hashes.\<close>

definition env3 :: env where
  "env3 = env1\<lparr>e_encodeB := BHash, e_decodeB := (\<lambda>e. Inr (if e = [1] then blockN 0 1 [] [1] else if e = [2] then blockN 1 2 [1] [2] else blockN 1 3 [1] [3])),
     e_encodeBH := (\<lambda>h. [ucast (Miner h)]),
     e_decodeBH := (\<lambda>e. Inr (Header (if e = [1] then blockN 0 1 [] [1] else if e = [2] then blockN 1 2 [1] [2] else blockN 1 3 [1] [3])))\<rparr>"

lemma env3_codable: "codable env3 (blockN 0 1 [] [1])" "codable env3 (blockN 1 2 [1] [2])" "codable env3 (blockN 1 3 [1] [3])"
  by (simp_all add: codable_def env3_def env1_def blockN_fields)

definition chain3 :: BlockChain where
  "chain3 = chain1\<lparr>CurrentBlock := blockN 1 3 [1] [3],
     bc_Storage := putBlock env3 (blockN 1 3 [1] [3]) (putBlock env3 (blockN 0 1 [] [1]) NewStorage)\<rparr>"

lemma chain3_inv: "chain_inv env3 chain3 [blockN 1 3 [1] [3], blockN 0 1 [] [1]]"
proof -
  have "blockBucket NewStorage [] = None" by (simp add: NewStorage_def)
  then show ?thesis
    by (simp add: chain_inv_def chain3_def GetBlock_put GetBlock_blank newest_put env3_codable blockN_fields GetNewestBlockHash_def)
qed

theorem fork_choice_witness:
  "\<exists>bc'. JudgeForkValid_RollBack env3 3 (blockN 1 2 [1] [2]) chain3 = Inr (True, bc') \<and> CurrentBlock bc' = blockN 1 2 [1] [2]"
proof -
  have "unseen env3 (bc_Storage chain3) (blockN 1 2 [1] [2])"
    by (simp add: unseen_def chain3_def putBlock_def blockN_fields NewStorage_def)
  from fork_choice [OF chain3_inv _ env3_codable(2) this, of 3 0] show ?thesis
    by (simp add: blockN_fields) blast
qed

text \<open>C23. A block that can be encoded and decoded and was added is found again under its hash, with its header, it is the newest, and no other
  block is affected.\<close>

theorem block_store_roundtrip:
  assumes "codable E b"
  shows "\<exists>s'. storage_AddBlock E b s = Inr s' \<and> GetBlock E (BHash b) s' = Inr b \<and>
    GetBlockHeader E (BHash b) s' = Inr (Header b) \<and> GetNewestBlockHash s' = Inr (BHash b) \<and>
    (\<forall>h. h = BHash b \<or> GetBlock E h s' = GetBlock E h s \<and> GetBlockHeader E h s' = GetBlockHeader E h s)"
  using assms
  by (auto simp: storage_AddBlock_put GetBlock_put GetNewestBlockHash_def newest_put)
     (auto simp: GetBlockHeader_def putBlock_def codable_def)

theorem block_store_roundtrip_witness:
  "\<exists>s'. storage_AddBlock env3 (blockN 1 2 [1] [2]) NewStorage = Inr s' \<and> GetBlock env3 [2] s' = Inr (blockN 1 2 [1] [2]) \<and>
     GetNewestBlockHash s' = Inr [2]"
  using block_store_roundtrip [OF env3_codable(2), of NewStorage] by (auto simp: blockN_fields)

text \<open>\<^verbatim>\<open>AddBlock\<close> takes the hash of a block from the block. A block that carries the hash of the current one is accepted,
  overwrites it in the store, and is then its own parent.\<close>

lemma forged_hash_overwrites:
  assumes "codable E b" "extendsChain b bc" "BHash b = BHash (CurrentBlock bc)"
  shows "\<exists>bc'. mem_AddBlock E (Some b) bc = Inr (True, bc') \<and> GetBlock E (ParentBlockHash (Header b)) (bc_Storage bc') = Inr b"
  using assms by (simp add: mem_AddBlock_law GetBlock_put extendsChain_def)

end
