(* ===== verification/Chain_Recovery.thy ===== *)
theory Chain_Recovery
  imports Chain_Store
begin

text \<open>
  The chain as a whole: a block that the disk chain mines and adds is there after a restart, with the state
  it led to; the memory chain executes its blocks and keeps nothing of it.
\<close>

section \<open>Making a block\<close>

lemma txTree_loop:
  assumes "trie_holds (hash_pol (e_rlp E) (e_keccak E)) (e_rlp E) t m"
  shows "\<exists>t' m'. foldR (\<lambda>tx. trieUpdate E (TxHash tx) (e_encodeTx E tx)) txs t = Inr t' \<and>
    trie_holds (hash_pol (e_rlp E) (e_keccak E)) (e_rlp E) t' m'"
  using assms
proof (induction txs arbitrary: t m)
  case (Cons tx txs)
  obtain t1 m1 where "Update (e_rlp E) t (TxHash tx) (e_encodeTx E tx) = (Inr (), t1)"
    "trie_holds (hash_pol (e_rlp E) (e_keccak E)) (e_rlp E) t1 m1"
    using hp.Update_law [OF Cons.prems] by blast
  then show ?case using Cons.IH [of t1 m1] by (simp add: trieUpdate_def)
qed auto

lemma GetTxTreeRoot_total: "env_ok E \<Longrightarrow> \<exists>rt. GetTxTreeRoot E txs = Inr rt"
proof -
  assume E: "env_ok E"
  obtain t where t: "newState E [] memDatabase = Inr t" "root t = NilNode"
    by (simp add: newState_def trie_New_def BytesToHash_def Let_def)
  have "trie_holds (hash_pol (e_rlp E) (e_keccak E)) (e_rlp E) t Map.empty" by (rule trie_holds_empty [OF t(2)])
  from txTree_loop [OF this] obtain t' m' where
    t': "foldR (\<lambda>tx. trieUpdate E (TxHash tx) (e_encodeTx E tx)) txs t = Inr t'"
      "trie_holds (hash_pol (e_rlp E) (e_keccak E)) (e_rlp E) t' m'" by blast
  obtain p where p: "rep (hash_pol (e_rlp E) (e_keccak E)) (e_rlp E) (reader t') [] (root t') p" "canon p"
    using t'(2) by (rule trie_holdsE)
  have R: "rlp_ok (e_rlp E)" using E by (simp add: env_ok_def)
  show ?thesis
    using Hash_law [OF R p, of "e_emptyRoot E"] by (auto simp: GetTxTreeRoot_def t(1) t'(1) trieHash_def)
qed

lemma GetBloomFilter_total: "\<exists>bs. GetBloomFilter txs = Inr bs"
proof -
  have "mapR (\<lambda>tx. ModBytes (TxHash tx) 2048) txs =
      Inr (map (\<lambda>tx. word_of_int (int (bigBytes (TxHash tx) 0) mod \<bar>sint (2048 :: uint64)\<bar>)) txs)"
    by (rule mapR_Inr) (simp add: ModBytes_def)
  then show ?thesis by (simp add: GetBloomFilter_def)
qed

lemma sealBlock_total: "env_ok E \<Longrightarrow> \<exists>b. sealBlock E now parent num rt miner txs = Inr b"
  using GetTxTreeRoot_total [of E txs] GetBloomFilter_total [of txs] by (auto simp: sealBlock_def Let_def)

section \<open>Mining, adding and restarting\<close>

definition packed :: "BlockChain \<Rightarrow> Transaction list" where
  "packed bc = fst (PackTxs (BlockSize bc) (Txpool bc))"

definition unpooled :: "BlockChain \<Rightarrow> BlockChain" where
  "unpooled bc = bc\<lparr>Txpool := snd (PackTxs (BlockSize bc) (Txpool bc))\<rparr>"

lemma chain_state_unpooled: "chain_state E (unpooled bc) m \<longleftrightarrow> chain_state E bc m"
  by (simp add: chain_state_def unpooled_def)

text \<open>What can go wrong with a block: an account with no shard, a hash collision, or no change at all.\<close>

definition minable :: "env \<Rightarrow> BlockChain \<Rightarrow> (bytes \<rightharpoonup> bytes) \<Rightarrow> bool" where
  "minable E bc m \<longleftrightarrow> list_all (homed E (unpooled bc)) (packed bc) \<and>
     (\<forall>s. db_execute E (packed bc) (unpooled bc) = Inr s \<longrightarrow>
        noClash (e_rlp E) (e_keccak E) (e_emptyRoot E) (triedb bc) (fst (snd s))) \<and>
     fold (settle E (unpooled bc)) (packed bc) (balance E m) \<noteq> balance E m"

lemma generate_law:
  assumes E: "env_ok E" and c: "chain_state E bc m" and m: "minable E bc m"
  shows "\<exists>F b m'. Body b = packed bc \<and> ParentBlockHash (Header b) = BHash (CurrentBlock bc) \<and>
    Number (Header b) = Number (Header (CurrentBlock bc)) + 1 \<and>
    BHash b = header_Hash (e_encodeBH E) (e_sha256 E) (Header b) \<and>
    balance E m' = fold (settle E (unpooled bc)) (packed bc) (balance E m) \<and> accounts_ok E m' \<and>
    (\<forall>fuel\<ge>F. \<exists>db'. db_GenerateBlock E fuel now miner bc = Inr (b, (unpooled bc)\<lparr>triedb := db'\<rparr>) \<and>
       db_ok (e_rlp E) db' \<and> state_at E db' (HStateRoot (Header b)) m' \<and>
       state_at E (diskDatabase (diskdb db') pre) (HStateRoot (Header b)) m')"
proof -
  have c': "chain_state E (unpooled bc) m" using c by (simp add: chain_state_unpooled)
  have m': "list_all (homed E (unpooled bc)) (packed bc)"
    "\<forall>s. db_execute E (packed bc) (unpooled bc) = Inr s \<longrightarrow>
      noClash (e_rlp E) (e_keccak E) (e_emptyRoot E) (triedb (unpooled bc)) (fst (snd s))"
    "fold (settle E (unpooled bc)) (packed bc) (balance E m) \<noteq> balance E m"
    using m by (auto simp: minable_def unpooled_def)
  obtain F rt ms where r: "balance E ms = fold (settle E (unpooled bc)) (packed bc) (balance E m)" "accounts_ok E ms"
    "\<forall>fuel\<ge>F. \<exists>db'. db_GetUpdateStatusTrie E fuel (packed bc) (unpooled bc) = Inr (rt, (unpooled bc)\<lparr>triedb := db'\<rparr>) \<and>
       db_ok (e_rlp E) db' \<and> state_at E db' rt ms \<and> state_at E (diskDatabase (diskdb db') pre) rt ms"
    using execution_law [OF E c' m', of pre] by blast
  obtain b where b: "sealBlock E now (BHash (CurrentBlock bc)) (Number (Header (CurrentBlock bc)) + 1) rt miner (packed bc) = Inr b"
    using sealBlock_total [OF E] by blast
  note f = sealBlock_fields [OF b]
  have "\<exists>db'. db_GenerateBlock E fuel now miner bc = Inr (b, (unpooled bc)\<lparr>triedb := db'\<rparr>) \<and>
       db_ok (e_rlp E) db' \<and> state_at E db' (HStateRoot (Header b)) ms \<and>
       state_at E (diskDatabase (diskdb db') pre) (HStateRoot (Header b)) ms" if fuel: "F \<le> fuel" for fuel
  proof -
    obtain db' where x: "db_GetUpdateStatusTrie E fuel (packed bc) (unpooled bc) = Inr (rt, (unpooled bc)\<lparr>triedb := db'\<rparr>)"
      "db_ok (e_rlp E) db'" "state_at E db' rt ms" "state_at E (diskDatabase (diskdb db') pre) rt ms"
      using r(3) fuel by blast
    have "db_GenerateBlock E fuel now miner bc = Inr (b, (unpooled bc)\<lparr>triedb := db'\<rparr>)"
      using x(1) b by (simp add: db_GenerateBlock_def GenerateBlock_def case_prod_unfold Let_def packed_def unpooled_def)
    then show ?thesis using x f by auto
  qed
  then show ?thesis using f r(1,2) by (intro exI [of _ F] exI [of _ b] exI [of _ ms]) auto
qed

lemma restart_law:
  assumes "chain_inv E bc bs" "state_at E (diskDatabase disk pre) (HStateRoot (Header (CurrentBlock bc))) m"
    "accounts_ok E m" "\<forall>h. disk h \<noteq> Some []"
  shows "\<exists>bc'. NewBlockChain_dbMPT E shard bsize disk pre (bc_Storage bc) = Inr bc' \<and>
    CurrentBlock bc' = CurrentBlock bc \<and> chain_inv E bc' bs \<and> chain_state E bc' m"
proof -
  have s: "GetNewestBlockHash (bc_Storage bc) = Inr (BHash (CurrentBlock bc))"
    "GetBlock E (BHash (CurrentBlock bc)) (bc_Storage bc) = Inr (CurrentBlock bc)"
    using assms(1) linked_stored [of E "bc_Storage bc" bs 0] chain_inv_bs [OF assms(1)] by (auto simp: chain_inv_def)
  obtain t where "newState E (HStateRoot (Header (CurrentBlock bc))) (diskDatabase disk pre) = Inr t"
    using newState_law [OF assms(2)] by blast
  moreover have "db_ok (e_rlp E) (diskDatabase disk pre)"
    unfolding diskDatabase_def by (rule db_ok_New [OF assms(4)])
  ultimately show ?thesis
    using s assms by (simp add: NewBlockChain_dbMPT_def openChain_def Let_def orPanic_def chain_inv_def chain_state_def)
qed

lemma add_mined:
  assumes b: "codable E b" "unseen E (bc_Storage bc) b" and inv: "chain_inv E bc bs"
    and x: "ParentBlockHash (Header b) = BHash (CurrentBlock bc)" "Number (Header b) = Number (Header (CurrentBlock bc)) + 1"
    and s: "state_at E (triedb bc) (HStateRoot (Header b)) m"
  shows "\<exists>bc'. db_AddBlock E fuel (Some b) bc = Inr (True, bc') \<and> triedb bc' = triedb bc \<and> CurrentBlock bc' = b \<and>
    chain_inv E bc' (b # bs)"
proof -
  have e: "extendsChain b bc" using x by (simp add: extendsChain_def)
  obtain t where "newState E (HStateRoot (Header b)) (triedb bc) = Inr t" using newState_law [OF s] by blast
  then show ?thesis
    using chain_inv_append [OF inv b e, of "triedb bc"] e by (simp add: db_AddBlock_def appendBlock_put [OF b(1)])
qed

section \<open>The memory chain\<close>





section \<open>Properties\<close>

text \<open>C18. From the transaction pool to the disk and back: the disk chain mines a block from its pool, adds it,
  and is opened again from the trie database and the block store on the disk. Then the mined block is
  the current one, the chain below it is the old chain, and the balances are the old ones with the
  packed transactions applied in order. Required is that the shards of the packed transactions can be computed, that they change at least one balance,
  that no two different trie nodes have the same hash, and that the mined block can be encoded and decoded and has a hash that no different stored
  block has; the recursion of the database needs enough fuel.\<close>

theorem mined_block_survives_restart:
  assumes "env_ok E" "chain_state E bc m" "chain_inv E bc bs" "minable E bc m"
  shows "\<exists>F b. Body b = packed bc \<and> (\<forall>fuel\<ge>F. \<exists>bc1. db_GenerateBlock E fuel now miner bc = Inr (b, bc1) \<and>
    (codable E b \<and> unseen E (bc_Storage bc) b \<longrightarrow>
      (\<exists>bc2 bc3 m'. db_AddBlock E fuel (Some b) bc1 = Inr (True, bc2) \<and>
         NewBlockChain_dbMPT E shard bsize (diskdb (triedb bc2)) pre (bc_Storage bc2) = Inr bc3 \<and>
         CurrentBlock bc3 = b \<and> chain_inv E bc3 (b # bs) \<and> chain_state E bc3 m' \<and>
         balance E m' = fold (settle E (unpooled bc)) (packed bc) (balance E m))))"
proof -
  obtain F b m' where g: "Body b = packed bc" "ParentBlockHash (Header b) = BHash (CurrentBlock bc)"
    "Number (Header b) = Number (Header (CurrentBlock bc)) + 1"
    "balance E m' = fold (settle E (unpooled bc)) (packed bc) (balance E m)" "accounts_ok E m'"
    "\<forall>fuel\<ge>F. \<exists>db'. db_GenerateBlock E fuel now miner bc = Inr (b, (unpooled bc)\<lparr>triedb := db'\<rparr>) \<and>
       db_ok (e_rlp E) db' \<and> state_at E db' (HStateRoot (Header b)) m' \<and>
       state_at E (diskDatabase (diskdb db') pre) (HStateRoot (Header b)) m'"
    using generate_law [OF assms(1,2,4), of now miner pre] by blast
  have "\<exists>bc1. db_GenerateBlock E fuel now miner bc = Inr (b, bc1) \<and>
    (codable E b \<and> unseen E (bc_Storage bc) b \<longrightarrow>
      (\<exists>bc2 bc3 m'. db_AddBlock E fuel (Some b) bc1 = Inr (True, bc2) \<and>
         NewBlockChain_dbMPT E shard bsize (diskdb (triedb bc2)) pre (bc_Storage bc2) = Inr bc3 \<and>
         CurrentBlock bc3 = b \<and> chain_inv E bc3 (b # bs) \<and> chain_state E bc3 m' \<and>
         balance E m' = fold (settle E (unpooled bc)) (packed bc) (balance E m)))" if fuel: "F \<le> fuel" for fuel
  proof -
    obtain db' where d: "db_GenerateBlock E fuel now miner bc = Inr (b, (unpooled bc)\<lparr>triedb := db'\<rparr>)"
      "db_ok (e_rlp E) db'" "state_at E db' (HStateRoot (Header b)) m'"
      "state_at E (diskDatabase (diskdb db') pre) (HStateRoot (Header b)) m'" using g(6) fuel by blast
    define bc1 where "bc1 = (unpooled bc)\<lparr>triedb := db'\<rparr>"
    have bc1: "bc_Storage bc1 = bc_Storage bc" "CurrentBlock bc1 = CurrentBlock bc" "triedb bc1 = db'"
      by (simp_all add: bc1_def unpooled_def)
    have i1: "chain_inv E bc1 bs" by (rule chain_inv_cong [OF assms(3)]) (simp_all add: bc1)
    have "\<exists>bc2 bc3. db_AddBlock E fuel (Some b) bc1 = Inr (True, bc2) \<and>
         NewBlockChain_dbMPT E shard bsize (diskdb (triedb bc2)) pre (bc_Storage bc2) = Inr bc3 \<and>
         CurrentBlock bc3 = b \<and> chain_inv E bc3 (b # bs) \<and> chain_state E bc3 m'"
      if c: "codable E b" "unseen E (bc_Storage bc) b"
    proof -
      obtain bc2 where a: "db_AddBlock E fuel (Some b) bc1 = Inr (True, bc2)" "triedb bc2 = db'" "CurrentBlock bc2 = b"
        "chain_inv E bc2 (b # bs)"
        using add_mined [OF c(1) _ i1, of m' fuel] c(2) g(2,3) d(3) by (auto simp: bc1)
      have "\<forall>h. diskdb db' h \<noteq> Some []" using d(2) by (simp add: db_ok_def)
      from restart_law [OF a(4) _ g(5) this, of pre shard bsize] d(4) a show ?thesis by auto
    qed
    then show ?thesis using d(1) g(4) unfolding bc1_def by blast
  qed
  then show ?thesis using g(1) by blast
qed

text \<open>The instance: a genesis block, and a block \<open>b\<close> to be mined on it.\<close>

definition envC :: env where
  "envC = env1\<lparr>e_encodeB := \<lambda>b. [ucast (Number (Header b))]\<rparr>"

definition envB :: "Block \<Rightarrow> env" where
  "envB b = envC\<lparr>e_decodeB := \<lambda>e. Inr (if e = [0] then genesisBlock env1 else b),
     e_decodeBH := \<lambda>e. Inr (Header (if e = [0] then genesisBlock env1 else b))\<rparr>"

definition chainC :: BlockChain where
  "chainC = chain1\<lparr>CurrentBlock := genesisBlock env1, bc_Storage := putBlock envC (genesisBlock env1) NewStorage,
     Txpool := NewTxPool\<lparr>TxQueue := [transfer1 True 5]\<rparr>\<rparr>"

lemma envB_like: "env1_like (envB b)"
  by (simp add: env1_like_def envB_def envC_def env1_def)

lemma chainC_packed: "packed chainC = [transfer1 True 5]" "unpooled chainC = chainC\<lparr>Txpool := NewTxPool\<rparr>"
  by (simp_all add: packed_def unpooled_def PackTxs_def chainC_def chain1_def NewTxPool_def)

lemma chainC_like: "chain1_like chainC" "chain1_like (unpooled chainC)"
  unfolding chainC_packed
  by (simp_all add: chain1_like_def chainC_def chain1_def genesisBlock_def Let_def NewBlock_def BytesToHash_def env1_def er0_def)

lemma genesis_hash: "BHash (genesisBlock env1) = K0 [0]" "Number (Header (genesisBlock env1)) = 0"
  "ParentBlockHash (Header (genesisBlock env1)) = []"
  by (simp_all add: genesisBlock_def Let_def header_Hash_def env1_def NewBlock_def)

lemma chainC_inv: "chain_inv (envB b) chainC [genesisBlock env1]"
proof -
  have "length (K0 [0]) = 32" using K0_32 by (simp add: hash32_def)
  then show ?thesis
    by (auto simp: chain_inv_def chainC_def putBlock_def GetBlock_def GetNewestBlockHash_def genesis_hash envB_def envC_def NewStorage_def)
qed

lemma chainC_minable: "minable (envB b) chainC Map.empty"
proof -
  have "triedb (unpooled chainC) = triedb chainC" by (simp add: unpooled_def)
  moreover have "fold (settle (envB b) (unpooled chainC)) [transfer1 True 5] (balance (envB b) Map.empty) \<noteq> balance (envB b) Map.empty"
    by (simp only: like_settle [OF chainC_like(2)]) (simp add: fun_eq_iff)
  ultimately show ?thesis
    using like_noClash [OF envB_like chainC_like(2), of b 5] unfolding minable_def chainC_packed(1)
    by (simp add: homed_def like_here [OF chainC_like(2)])
qed

text \<open>Mining does not decode blocks.\<close>

lemma envB_irrelevant:
  "newState (envB b) = newState envC" "trieGet (envB b) = trieGet envC" "trieUpdate (envB b) = trieUpdate envC"
  "trieHash (envB b) = trieHash envC" "Get_PartitionMap (envB b) = Get_PartitionMap envC" "storeState (envB b) = storeState envC"
  "e_encodeAS (envB b) = e_encodeAS envC" "e_decodeAS (envB b) = e_decodeAS envC" "e_encodeTx (envB b) = e_encodeTx envC"
  "e_encodeBH (envB b) = e_encodeBH envC" "e_sha256 (envB b) = e_sha256 envC"
  by (simp_all add: fun_eq_iff envB_def newState_def trieGet_def trieUpdate_def trieHash_def Get_PartitionMap_def storeState_def
      split: option.split)

lemma envB_irrelevant2:
  "senderHere (envB b) = senderHere envC" "recipientHere (envB b) = recipientHere envC"
  "readState (envB b) = readState envC" "writeState (envB b) = writeState envC"
  by (simp_all add: fun_eq_iff senderHere_def recipientHere_def readState_def writeState_def envB_irrelevant
        cong: option.case_cong)

lemma envB_irrelevant3: "readAccounts (envB b) = readAccounts envC" "applyTx (envB b) = applyTx envC"
  by (intro ext, simp only: readAccounts_def applyTx_def envB_irrelevant2)+

lemma envB_generate: "db_GenerateBlock (envB b) = db_GenerateBlock (envB c)"
proof -
  have "db_GetUpdateStatusTrie (envB b) = db_GetUpdateStatusTrie envC" "sealBlock (envB b) = sealBlock envC" for b
    by (intro ext, simp only: db_GetUpdateStatusTrie_def db_execute_def sealBlock_def GetTxTreeRoot_def envB_irrelevant envB_irrelevant3)+
  then show ?thesis by (intro ext) (simp only: db_GenerateBlock_def GenerateBlock_def)
qed

lemma env1_codes: "e_encodeBH env1 = (\<lambda>h. [ucast (Number h)])" "e_sha256 env1 = K0"
  by (simp_all add: env1_def)

lemma envB_codable:
  assumes "Number (Header b) = 1" "BHash b = header_Hash (e_encodeBH envC) (e_sha256 envC) (Header b)"
  shows "codable (envB b) b" "unseen (envB b) (bc_Storage chainC) b"
proof -
  have "BHash b = K0 [1]" using assms by (simp add: header_Hash_def envC_def env1_codes)
  moreover have "length (K0 [1]) = 32" using K0_32 by (simp add: hash32_def)
  moreover have "K0 [1] \<noteq> K0 [0]" by (simp add: K0_def)
  ultimately show "codable (envB b) b" "unseen (envB b) (bc_Storage chainC) b"
    using assms(1) by (auto simp: codable_def unseen_def chainC_def putBlock_def genesis_hash envB_def envC_def env1_codes NewStorage_def)
qed

theorem mined_block_survives_restart_witness:
  "\<exists>b fuel bc1 bc2 bc3 m. db_GenerateBlock (envB b) fuel 0 0 chainC = Inr (b, bc1) \<and>
     db_AddBlock (envB b) fuel (Some b) bc1 = Inr (True, bc2) \<and>
     NewBlockChain_dbMPT (envB b) 0 10 (diskdb (triedb bc2)) Map.empty (bc_Storage bc2) = Inr bc3 \<and>
     CurrentBlock bc3 = b \<and> chain_state (envB b) bc3 m \<and> balance (envB b) m ''b'' = Init_Balance + 5"
proof -
  obtain F b where b: "Number (Header b) = 1" "BHash b = header_Hash (e_encodeBH envC) (e_sha256 envC) (Header b)"
    "\<forall>fuel\<ge>F. \<exists>bc1. db_GenerateBlock (envB nilBlock) fuel 0 0 chainC = Inr (b, bc1)"
  proof -
    have "Number (Header (CurrentBlock chainC)) + 1 = 1" by (simp add: chainC_def genesis_hash)
    then show ?thesis
      using that generate_law [OF like_ok [OF envB_like] like_state [OF envB_like chainC_like(1)] chainC_minable, of nilBlock 0 0 Map.empty]
      unfolding envB_irrelevant by metis
  qed
  from mined_block_survives_restart [OF like_ok [OF envB_like] like_state [OF envB_like chainC_like(1)] chainC_inv chainC_minable,
      where now = 0 and miner = 0 and b1 = b and shard = 0 and bsize = 10 and pre = Map.empty]
  obtain F' b' where r: "\<forall>fuel\<ge>F'. \<exists>bc1. db_GenerateBlock (envB b) fuel 0 0 chainC = Inr (b', bc1) \<and>
    (codable (envB b) b' \<and> unseen (envB b) (bc_Storage chainC) b' \<longrightarrow>
      (\<exists>bc2 bc3 m'. db_AddBlock (envB b) fuel (Some b') bc1 = Inr (True, bc2) \<and>
         NewBlockChain_dbMPT (envB b) 0 10 (diskdb (triedb bc2)) Map.empty (bc_Storage bc2) = Inr bc3 \<and>
         CurrentBlock bc3 = b' \<and> chain_inv (envB b) bc3 (b' # [genesisBlock env1]) \<and> chain_state (envB b) bc3 m' \<and>
         balance (envB b) m' = fold (settle (envB b) (unpooled chainC)) (packed chainC) (balance (envB b) Map.empty)))"
    by blast
  define fuel where "fuel = max F F'"
  obtain bc0 where "db_GenerateBlock (envB b) fuel 0 0 chainC = Inr (b, bc0)"
    using b(3) unfolding envB_generate [of nilBlock b] by (metis fuel_def max.cobounded1)
  moreover obtain bc1 where g: "db_GenerateBlock (envB b) fuel 0 0 chainC = Inr (b', bc1)"
    "codable (envB b) b' \<and> unseen (envB b) (bc_Storage chainC) b' \<longrightarrow>
      (\<exists>bc2 bc3 m'. db_AddBlock (envB b) fuel (Some b') bc1 = Inr (True, bc2) \<and>
         NewBlockChain_dbMPT (envB b) 0 10 (diskdb (triedb bc2)) Map.empty (bc_Storage bc2) = Inr bc3 \<and>
         CurrentBlock bc3 = b' \<and> chain_state (envB b) bc3 m' \<and>
         balance (envB b) m' = fold (settle (envB b) (unpooled chainC)) (packed chainC) (balance (envB b) Map.empty))"
    using r by (metis fuel_def max.cobounded2)
  ultimately have "b' = b" by simp
  moreover have "fold (settle (envB b) (unpooled chainC)) (packed chainC) (balance (envB b) Map.empty) ''b'' = Init_Balance + 5"
    unfolding chainC_packed(1) like_settle [OF chainC_like(2)] by (simp add: balance_def)
  ultimately show ?thesis using g envB_codable [OF b(1,2)] by metis
qed



end
