(* ===== verification/Trie_Proof.thy ===== *)
theory Trie_Proof
  imports Trie_Persist
begin

text \<open>
  \<^verbatim>\<open>src/trie/proof.go\<close>: \<^verbatim>\<open>Prove\<close> collects the nodes on the path of a key, \<^verbatim>\<open>VerifyProof\<close> follows them from a root hash. A proof
  database is the list of its entries. The theorems say that the proof of a key gives the value of the key, that no
  proof made of entries under their own hashes gives another value, and that \<^verbatim>\<open>VerifyProof\<close> does not check
  the hashes itself.
\<close>

section \<open>Definitions\<close>

type_synonym proofDb = "(bytes \<times> bytes) list"

text \<open>\<^verbatim>\<open>hashReader.Node\<close> on the database \<open>db\<close>, and \<^verbatim>\<open>trieReader.node\<close>; \<open>NilNode\<close> is the nil node. The copy of a node that the database leaves in
  its clean cache is not passed on: it has the bytes of the disk.\<close>

definition hashReader_Node :: "rlp_lib \<Rightarrow> Database \<Rightarrow> bytes \<Rightarrow> bytes \<Rightarrow> bytes \<Rightarrow> node res" where
  "hashReader_Node R db own path hash = fst (db_node R hash db)"

definition reader_node :: "rlp_lib \<Rightarrow> Database \<Rightarrow> trieReader \<Rightarrow> bytes \<Rightarrow> bytes \<Rightarrow> node res" where
  "reader_node R db r path hash =
     (if (case rd_banned r of None \<Rightarrow> False | Some bs \<Rightarrow> path \<in> bs) then Inl (MissingNode path hash)
      else if rd_reader r = None then Inl (MissingNode path hash)
      else case hashReader_Node R db (rd_owner r) path hash of
             Inl Panic \<Rightarrow> Inl Panic
           | Inl e \<Rightarrow> Inl (MissingNode path hash)
           | Inr NilNode \<Rightarrow> Inl (MissingNode path hash)
           | Inr n \<Rightarrow> Inr n)"

text \<open>The loop that collects the nodes on the path.\<close>

fun proveNodes :: "(bytes \<Rightarrow> bytes \<Rightarrow> node res) \<Rightarrow> nat \<Rightarrow> node \<Rightarrow> bytes \<Rightarrow> bytes \<Rightarrow> node list res" where
  "proveNodes rn 0 tn pre key = Inl OutOfFuel"
| "proveNodes rn (Suc fuel) tn pre key =
     (if key = [] \<or> tn = NilNode then Inr []
      else case tn of
        ShortNode k v fl \<Rightarrow>
          if length key < length k \<or> k \<noteq> take (length k) key
          then bindR (proveNodes rn fuel NilNode pre key) (\<lambda>ns. Inr (tn # ns))
          else bindR (proveNodes rn fuel v (pre @ k) (drop (length k) key)) (\<lambda>ns. Inr (tn # ns))
      | FullNode cs fl \<Rightarrow>
          if unat (key ! 0) < length cs
          then bindR (proveNodes rn fuel (cs ! unat (key ! 0)) (pre @ [key ! 0]) (drop 1 key)) (\<lambda>ns. Inr (tn # ns))
          else Inl Panic
      | HashNode h \<Rightarrow> bindR (rn pre h) (\<lambda>n. proveNodes rn fuel n pre key)
      | _ \<Rightarrow> Inl Panic)"

text \<open>The loop that writes them; \<open>i\<close> is the index of the first node of the list.\<close>

fun proveWrite :: "rlp_lib \<Rightarrow> (bytes \<Rightarrow> bytes) \<Rightarrow> nat \<Rightarrow> nat \<Rightarrow> node list \<Rightarrow> proofDb \<Rightarrow> proofDb" where
  "proveWrite R K i fromLevel [] db = db"
| "proveWrite R K i fromLevel (n # ns) db =
     (if 0 < fromLevel then proveWrite R K (i + 1) (fromLevel - 1) ns db
      else let (n', hn) = proofHash R K n; enc = nodeToBytes R n'
           in proveWrite R K (i + 1) 0 ns
                (case hn of
                   HashNode h \<Rightarrow> AList.update h enc db
                 | _ \<Rightarrow> if i = 0 then AList.update (K enc) enc db else db))"

definition Prove :: "rlp_lib \<Rightarrow> (bytes \<Rightarrow> bytes) \<Rightarrow> Database \<Rightarrow> Trie \<Rightarrow> bytes \<Rightarrow> nat \<Rightarrow> proofDb \<Rightarrow> proofDb res" where
  "Prove R K db t key fromLevel pdb =
     (let k = keybytesToHex key in
      bindR (proveNodes (reader_node R db (reader t)) (trie_fuel k) (root t) [] k) (\<lambda>nodes.
        Inr (proveWrite R K 0 fromLevel nodes pdb)))"

text \<open>\<^verbatim>\<open>get\<close>: the child of a decoded node, through embedded nodes when \<open>skipResolved\<close> is set.\<close>

function get :: "node \<Rightarrow> bytes \<Rightarrow> bool \<Rightarrow> (bytes \<times> node) res" where
  "get (ShortNode k v fl) key skipResolved =
     (if length key < length k \<or> k \<noteq> take (length k) key then Inr ([], NilNode)
      else if \<not> skipResolved then Inr (drop (length k) key, v)
      else get v (drop (length k) key) skipResolved)"
| "get (FullNode cs fl) key skipResolved =
     (if key = [] \<or> length cs \<le> unat (key ! 0) then Inl Panic
      else if \<not> skipResolved then Inr (drop 1 key, cs ! unat (key ! 0))
      else get (cs ! unat (key ! 0)) (drop 1 key) skipResolved)"
| "get (HashNode h) key skipResolved = Inr (key, HashNode h)"
| "get NilNode key skipResolved = Inr (key, NilNode)"
| "get (ValueNode v) key skipResolved = Inr ([], ValueNode v)"
  by pat_completeness auto
termination
proof (relation "measure (\<lambda>(n, _). size n)")
  fix cs :: "node list" and fl and key :: bytes and skip :: bool
  assume "\<not> (key = [] \<or> length cs \<le> unat (key ! 0))"
  then have "size (cs ! unat (key ! 0)) \<le> size_list size cs" by (intro size_list_estimation' [of "cs ! unat (key ! 0)"]) auto
  then show "((cs ! unat (key ! 0), drop 1 key, skip), FullNode cs fl, key, skip) \<in> measure (\<lambda>(n, _). size n)" by simp
qed auto

text \<open>\<^verbatim>\<open>copy(wantHash[:], cld)\<close> on the 32 bytes of the hash.\<close>

definition copyHash :: "bytes \<Rightarrow> bytes \<Rightarrow> bytes" where
  "copyHash want h = take 32 h @ drop (length (take 32 h)) want"

fun verifyLoop :: "rlp_lib \<Rightarrow> nat \<Rightarrow> bytes \<Rightarrow> bytes \<Rightarrow> proofDb \<Rightarrow> bytes option res" where
  "verifyLoop R 0 want key db = Inl OutOfFuel"
| "verifyLoop R (Suc fuel) want key db =
     (case map_of db want of
        None \<Rightarrow> Inl (ErrMsg ''proof node missing'')
      | Some buf \<Rightarrow>
          (case decodeNode R (Some want) buf of
             Inl Panic \<Rightarrow> Inl Panic
           | Inl e \<Rightarrow> Inl (ErrMsg ''bad proof node'')
           | Inr n \<Rightarrow>
               bindR (get n key True) (\<lambda>(keyrest, cld).
                 case cld of
                   NilNode \<Rightarrow> Inr None
                 | HashNode h \<Rightarrow> verifyLoop R fuel (copyHash want h) keyrest db
                 | ValueNode v \<Rightarrow> Inr (Some v)
                 | _ \<Rightarrow> verifyLoop R fuel want key db)))"

definition VerifyProof :: "rlp_lib \<Rightarrow> nat \<Rightarrow> bytes \<Rightarrow> bytes \<Rightarrow> proofDb \<Rightarrow> bytes option res" where
  "VerifyProof R fuel rootHash key db = verifyLoop R fuel rootHash (keybytesToHex key) db"

section \<open>The path of a key in the abstract trie\<close>

fun ppath :: "ptrie \<Rightarrow> bytes \<Rightarrow> ptrie list" where
  "ppath (PShort s p) k =
     (if k = [] then [] else PShort s p # (if take (length s) k = s then ppath p (drop (length s) k) else []))"
| "ppath (PFull ps) k =
     (if k = [] then [] else PFull ps # (if unat (k ! 0) < length ps then ppath (ps ! unat (k ! 0)) (drop 1 k) else []))"
| "ppath p k = []"

lemma ppath_subtries: "q \<in> set (ppath p k) \<Longrightarrow> \<exists>pa. (pa, q) \<in> subtries path p"
proof (induction p k arbitrary: path rule: ppath.induct)
  case (1 s p k)
  show ?case
  proof (cases "q = PShort s p")
    case False
    then obtain pa where "(pa, q) \<in> subtries (path @ s) p"
      using "1.IH" [of "path @ s"] "1.prems" by (auto split: if_splits)
    then show ?thesis by auto
  qed auto
next
  case (2 ps k)
  let ?i = "unat (k ! 0)"
  show ?case
  proof (cases "q = PFull ps")
    case False
    then have "?i < length ps" and "\<exists>pa. (pa, q) \<in> subtries (path @ [word_of_nat ?i]) (ps ! ?i)"
      using "2.IH" [of "path @ [word_of_nat ?i]"] "2.prems" by (auto split: if_splits)
    then show ?thesis unfolding subtries.simps by blast
  qed auto
qed auto

lemma ppath_encodings: "q \<in> set (ppath p k) \<Longrightarrow> penc R K q \<in> encodings R K p"
  using ppath_subtries [of q p k "[]"] by force

text \<open>What \<^verbatim>\<open>get\<close> finds in the decoded node of a subtrie: the hash of a subtrie further down the path, the
  value, or nothing.\<close>

definition got_ok :: "rlp_lib \<Rightarrow> (bytes \<Rightarrow> bytes) \<Rightarrow> ptrie \<Rightarrow> bytes \<Rightarrow> (bytes \<times> node) res \<Rightarrow> bool" where
  "got_ok R K q key r \<longleftrightarrow>
     (\<exists>k' q'. r = Inr (k', HashNode (K (penc R K q'))) \<and> pwf q' \<and> pok q' k' \<and> length k' < length key \<and>
        pget q' k' = pget q key \<and> set (q' # ppath q' k') \<subseteq> set (ppath q key) \<and> 32 \<le> length (penc R K q')) \<or>
     (\<exists>k' v. r = Inr (k', ValueNode v) \<and> pget q key = Some v) \<or>
     (\<exists>k'. r = Inr (k', NilNode) \<and> pget q key = None)"

lemma got_child:
  assumes IH: "\<And>key h. pok q key \<Longrightarrow> got_ok R K q key (get (expand h (pnode R K q)) key True)"
    and q: "psub q" and k: "pok q k'" "length k' < length key"
    and up: "pget q0 key = pget q k'" "set (ppath q k') \<subseteq> set (ppath q0 key)"
  shows "got_ok R K q0 key (get (expand None (cref R K (pnode R K q))) k' True)"
proof (cases "pwf q \<and> 32 \<le> length (penc R K q)")
  case True
  then have "cref R K (pnode R K q) = RawHash (K (penc R K q))" by (cases q) (auto simp: cref_def)
  moreover have "q \<in> set (ppath q k')"
    using True k(1) by (cases q) (auto simp: pok_def split: if_splits)
  ultimately show ?thesis using True k up unfolding got_ok_def by (intro disjI1 exI [of _ k'] exI [of _ q]) auto
next
  case False
  then have "cref R K (pnode R K q) = pnode R K q" using q by (cases q) (auto simp: cref_def psub_def)
  moreover have "got_ok R K q k' (get (expand None (pnode R K q)) k' True)" by (rule IH [OF k(1)])
  ultimately show ?thesis using k(2) up unfolding got_ok_def by fastforce
qed

lemma get_law:
  assumes "psub q" "pok q key"
  shows "got_ok R K q key (get (expand h (pnode R K q)) key True)"
  using assms
proof (induction q arbitrary: key h)
  case (PShort s q)
  have w: "pwf (PShort s q)" "hexkey key" using PShort.prems by (auto simp: psub_def pok_def split: if_splits)
  have q: "psub q" "s \<noteq> []" using psub_short [OF w(1)] by auto
  have "nibs s \<or> hexkey s" using w(1) by (auto simp: pwf_short_iff)
  then have c: "compactToHex (compactKey s) = s" by (rule compactKey_inverse)
  have key: "key \<noteq> []" using w(2) by (auto simp: hexkey_def)
  show ?case
  proof (cases "take (length s) key = s")
    case False
    then have "get (expand h (pnode R K (PShort s q))) key True = Inr ([], NilNode)" by (auto simp: c)
    then show ?thesis using False by (simp add: got_ok_def)
  next
    case True
    then obtain r where r: "key = s @ r" by (metis append_take_drop_id)
    have "pok q r" using pok_short(1) [OF w True] r by simp
    then have "got_ok R K (PShort s q) key (get (expand None (cref R K (pnode R K q))) r True)"
      by (intro got_child [OF PShort.IH [OF q(1)] q(1)]) (use q(2) r key in auto)
    then show ?thesis by (simp add: c r)
  qed
next
  case (PFull ps)
  obtain b r where k: "key = b # r" and w: "pwf (PFull ps)" "hexkey (b # r)"
    using PFull.prems by (cases key) (auto simp: pok_def psub_def)
  note o = pok_full [OF w]
  have q: "psub (ps ! unat b)" using psub_full [OF w(1)] o(1) by simp
  have "got_ok R K (PFull ps) key (get (expand None (cref R K (pnode R K (ps ! unat b)))) r True)"
    by (intro got_child [OF PFull.IH [OF _ q] q o(2)]) (use o(1) k in auto)
  then show ?case using o(1) by (simp add: k)
qed (auto simp: got_ok_def pok_def split: if_splits)

section \<open>Verification\<close>

text \<open>The nodes of the path that a proof has to contain: the first one, and those that are not embedded.\<close>

definition proof_nodes :: "rlp_lib \<Rightarrow> (bytes \<Rightarrow> bytes) \<Rightarrow> ptrie \<Rightarrow> bytes \<Rightarrow> ptrie set" where
  "proof_nodes R K q key = {q' \<in> set (ppath q key). q' = q \<or> 32 \<le> length (penc R K q')}"

lemma ppath_self: "pwf q \<Longrightarrow> key \<noteq> [] \<Longrightarrow> q \<in> set (ppath q key)"
  by (cases q) auto

lemma decode_proof_node:
  assumes "rlp_ok R" "hash32 K" "pwf q"
  shows "decodeNode R hash (penc R K q) = Inr (expand hash (pnode R K q))"
  using decode_pnode [OF assms, of hash] by (auto simp: mustDecodeNode_def split: sum.splits)

lemma copyHash_32: "length want = 32 \<Longrightarrow> length h = 32 \<Longrightarrow> copyHash want h = h"
  by (simp add: copyHash_def)

lemma verify_law:
  assumes R: "rlp_ok R" and K: "hash32 K"
  shows "pwf q \<Longrightarrow> pok q key \<Longrightarrow> length key < fuel \<Longrightarrow>
    \<forall>q'\<in>proof_nodes R K q key. map_of db (K (penc R K q')) \<in> {None, Some (penc R K q')} \<Longrightarrow>
    verifyLoop R fuel (K (penc R K q)) key db = Inr (pget q key) \<or>
    verifyLoop R fuel (K (penc R K q)) key db = Inl (ErrMsg ''proof node missing'') \<and>
      (\<exists>q'\<in>proof_nodes R K q key. map_of db (K (penc R K q')) = None)"
proof (induction fuel arbitrary: q key)
  case (Suc fuel)
  have key: "key \<noteq> []" using Suc.prems(1,2) by (auto simp: pok_def)
  have self: "q \<in> proof_nodes R K q key" using ppath_self [OF Suc.prems(1) key] by (simp add: proof_nodes_def)
  show ?case
  proof (cases "map_of db (K (penc R K q))")
    case None
    then show ?thesis using self by auto
  next
    case (Some buf)
    then have buf: "buf = penc R K q" using Suc.prems(4) self by auto
    have sub: "psub q" using Suc.prems(1) by (simp add: psub_def)
    note d = decode_proof_node [OF R K Suc.prems(1), of "Some (K (penc R K q))"]
    from get_law [OF sub Suc.prems(2), of R K "Some (K (penc R K q))"] consider
      (hash) k' q' where "get (expand (Some (K (penc R K q))) (pnode R K q)) key True = Inr (k', HashNode (K (penc R K q')))"
        "pwf q'" "pok q' k'" "length k' < length key" "pget q' k' = pget q key"
        "set (q' # ppath q' k') \<subseteq> set (ppath q key)" "32 \<le> length (penc R K q')"
    | (val) k' v where "get (expand (Some (K (penc R K q))) (pnode R K q)) key True = Inr (k', ValueNode v)" "pget q key = Some v"
    | (nil) k' where "get (expand (Some (K (penc R K q))) (pnode R K q)) key True = Inr (k', NilNode)" "pget q key = None"
      unfolding got_ok_def by blast
    then show ?thesis
    proof cases
      case hash
      have "proof_nodes R K q' k' \<subseteq> proof_nodes R K q key" using hash(6,7) by (auto simp: proof_nodes_def)
      moreover have "copyHash (K (penc R K q)) (K (penc R K q')) = K (penc R K q')"
        using K by (simp add: copyHash_32 hash32_def)
      ultimately show ?thesis
        using Suc.IH [OF hash(2,3)] hash(1,4,5) Suc.prems(3,4) by (auto simp: Some buf d)
    qed (simp_all add: Some buf d)
  qed
qed simp

section \<open>Construction\<close>

lemma proofHash_law:
  assumes R: "rlp_ok R" and F: "hash_sound R K F" and rp: "rep F R rd path n q" and w: "pwf q" and h: "\<not> is_hash n"
  shows "\<exists>n'. proofHash R K n = (n', if length (penc R K q) < 32 then n' else HashNode (K (penc R K q))) \<and>
    node_encode R n' = penc R K q \<and> \<not> is_hash n'"
  using rp
proof (cases rule: rep.cases)
  case (rep_short k c p fl)
  have k: "k \<noteq> []" "psub p" using psub_short w rep_short by auto
  have "hashed_as R K (path @ k) p (fst (hasher_hash R K c False))"
    using hash_refines [OF R F rep_short(3) k(2)] k(1) by simp
  then have "node_encode R (ShortNode (compactKey k) (fst (hasher_hash R K c False)) fl) = penc R K (PShort k p)"
    using cref_refraw [of "path @ k" R K p] k by (simp add: hashed_as_def)
  then show ?thesis
    using rep_short by (simp add: proofHash_def hash_short_children case_prod_unfold Let_def shortnodeToHash_def hashData_def)
next
  case (rep_full cs ps fl)
  have pw: "pwf (PFull ps)" using w rep_full by simp
  note ps = psub_full [OF pw]
  have hs: "hashed_as R K (path @ [word_of_nat i]) (ps ! i) (fst (hasher_hash R K (cs ! i) False))" if "i < 16" for i
    using hash_refines [OF R F rep_full(4) [of i]] that ps rep_full(3) by auto
  let ?hc = "fst (hashFullNodeChildren (\<lambda>c. hasher_hash R K c False) cs fl)"
  have "node_encode R ?hc = penc R K (PFull ps)"
    by (rule hash_full_encode [OF R pw rep_full(3) hs rep_full(4) [of 16]]) (use ps rep_full(3) in auto)
  moreover have "\<not> is_hash ?hc" by (simp add: hashFullNodeChildren_def Let_def)
  ultimately show ?thesis
    using rep_full by (simp add: proofHash_def Let_def fullnodeToHash_def hashData_def)
qed (use w h in auto)

definition stands :: "flag_pred \<Rightarrow> rlp_lib \<Rightarrow> trieReader \<Rightarrow> node \<Rightarrow> ptrie \<Rightarrow> bool" where
  "stands F R rd n q \<longleftrightarrow> \<not> is_hash n \<and> pwf q \<and> (\<exists>path. rep F R rd path n q)"

lemma proveNodes_law:
  assumes rn: "\<forall>path h n. resolves R rd path h = Inr n \<longrightarrow> rn path h = Inr n" and rp: "rep F R rd path n p"
    and o: "pok p key" and fuel: "need n key \<le> fuel"
  shows "\<exists>ns. proveNodes rn fuel n path key = Inr ns \<and> list_all2 (stands F R rd) ns (ppath p key)"
  using rp o fuel
proof (induction arbitrary: key fuel rule: rep.induct)
  case (rep_nil path)
  then show ?case using need_pos [OF rep_nil(2)] by auto
next
  case (rep_value path v)
  then show ?case using need_pos [OF rep_value(2)] by (auto simp: pok_def split: if_splits)
next
  case (rep_short path s n p fl)
  obtain f where f: "fuel = Suc f" using need_pos [OF rep_short.prems(2)] by blast
  have w: "pwf (PShort s p)" "hexkey key" using rep_short.prems(1) by (auto simp: pok_def split: if_splits)
  have key: "key \<noteq> []" using w(2) by (auto simp: hexkey_def)
  have st: "stands F R rd (ShortNode s n fl) (PShort s p)"
    using rep.rep_short [OF rep_short.hyps] w(1) by (auto simp: stands_def)
  show ?case
  proof (cases "take (length s) key = s")
    case False
    obtain f' where "f = Suc f'" using rep_short.prems(2) f key by (cases f) (auto simp: need_def)
    then show ?thesis using False st key by (auto simp: f)
  next
    case True
    note o = pok_short [OF w True]
    have "need n (drop (length s) key) \<le> f"
      by (rule need_child [of "ShortNode s n fl" key]) (use rep_short.prems(2) f o(2) key True in auto)
    then obtain ns where "proveNodes rn f n (path @ s) (drop (length s) key) = Inr ns"
      "list_all2 (stands F R rd) ns (ppath p (drop (length s) key))"
      using rep_short.IH [OF o(1)] by blast
    moreover have "\<not> length key < length s" using True by (metis length_take min.cobounded1 not_less)
    ultimately show ?thesis using True st key by (simp add: f)
  qed
next
  case (rep_full cs ps path fl)
  obtain f where f: "fuel = Suc f" using need_pos [OF rep_full.prems(2)] by blast
  obtain b r where k: "key = b # r" and w: "pwf (PFull ps)" "hexkey (b # r)"
    using rep_full.prems(1) by (cases key) (auto simp: pok_def)
  note o = pok_full [OF w]
  have st: "stands F R rd (FullNode cs fl) (PFull ps)"
    using rep.rep_full [OF rep_full.hyps] w(1) by (auto simp: stands_def)
  have "need (cs ! unat b) r \<le> f"
    using need_child [of "FullNode cs fl" key f r] rep_full.prems(2) f by (simp add: k)
  then obtain ns where "proveNodes rn f (cs ! unat b) (path @ [b]) r = Inr ns"
    "list_all2 (stands F R rd) ns (ppath (ps ! unat b) r)"
    using rep_full.IH [OF _ o(2), of f] o(1) rep_full.hyps(1) by auto
  then show ?case using o(1) rep_full.hyps(1) st by (simp add: f k)
next
  case (rep_hash path h n p)
  obtain f where f: "fuel = Suc f" using need_pos [OF rep_hash.prems(2)] by blast
  have "key \<noteq> []" using rep_hash.prems(1) rep_resolved [OF rep_hash.hyps(1,2)] by (auto simp: pok_def)
  moreover have "need n key \<le> f"
    using need_resolved [of h _ f n] rep_hash.prems(2) resolves_not_hash [OF rep_hash.hyps(1)] by (simp add: f)
  moreover have "rn path h = Inr n" using rn rep_hash.hyps(1) by blast
  ultimately show ?case using rep_hash.IH [OF rep_hash.prems(1), of f] by (simp add: f)
qed

lemma proveWrite_step:
  assumes R: "rlp_ok R" and F: "hash_sound R K F" and st: "stands F R rd n q"
  shows "proveWrite R K i 0 (n # ns) db =
    proveWrite R K (i + 1) 0 ns (if 32 \<le> length (penc R K q) \<or> i = 0 then AList.update (K (penc R K q)) (penc R K q) db else db)"
proof -
  obtain path where "rep F R rd path n q" "pwf q" "\<not> is_hash n" using st by (auto simp: stands_def)
  from proofHash_law [OF R F this] obtain n' where
    n': "proofHash R K n = (n', if length (penc R K q) < 32 then n' else HashNode (K (penc R K q)))"
      "node_encode R n' = penc R K q" "\<not> is_hash n'" by blast
  then show ?thesis
    by (cases "length (penc R K q) < 32"; cases n') (simp_all add: nodeToBytes_def Let_def)
qed

lemma proveWrite_keep:
  assumes R: "rlp_ok R" and F: "hash_sound R K F" and inj: "inj_on K S" and e: "e \<in> S"
  shows "list_all2 (stands F R rd) ns qs \<Longrightarrow> (\<forall>q\<in>set qs. penc R K q \<in> S) \<Longrightarrow> map_of db (K e) = Some e \<Longrightarrow>
    map_of (proveWrite R K i 0 ns db) (K e) = Some e"
proof (induction ns qs arbitrary: i db rule: list_all2_induct)
  case (Cons n ns q qs)
  have "map_of (if 32 \<le> length (penc R K q) \<or> i = 0 then AList.update (K (penc R K q)) (penc R K q) db else db) (K e) = Some e"
    using Cons.prems inj_onD [OF inj _ _ e, of "penc R K q"] by (auto simp: update_conv')
  then show ?case unfolding proveWrite_step [OF R F Cons.hyps(1)] using Cons.IH Cons.prems(1) by simp
qed simp

lemma proveWrite_law:
  assumes R: "rlp_ok R" and F: "hash_sound R K F" and inj: "inj_on K S"
  shows "list_all2 (stands F R rd) ns qs \<Longrightarrow> (\<forall>q\<in>set qs. penc R K q \<in> S) \<Longrightarrow> q \<in> set qs \<Longrightarrow>
    32 \<le> length (penc R K q) \<or> (i = 0 \<and> q = hd qs) \<Longrightarrow>
    map_of (proveWrite R K i 0 ns db) (K (penc R K q)) = Some (penc R K q)"
proof (induction ns qs arbitrary: i db rule: list_all2_induct)
  case (Cons n ns q0 qs)
  have tl: "\<forall>q\<in>set qs. penc R K q \<in> S" and q0: "penc R K q \<in> S" using Cons.prems by auto
  note step = proveWrite_step [OF R F Cons.hyps(1)]
  show ?case
  proof (cases "q = q0")
    case True
    then have "32 \<le> length (penc R K q0) \<or> i = 0" using Cons.prems(3) by auto
    then show ?thesis unfolding step True
      using proveWrite_keep [OF R F inj _ Cons.hyps(2) tl, of "penc R K q0"] q0 True by (simp add: update_conv')
  next
    case False
    then have "q \<in> set qs" "32 \<le> length (penc R K q)" using Cons.prems(2,3) by auto
    then show ?thesis unfolding step using Cons.IH [OF tl] by blast
  qed
qed simp

section \<open>Properties\<close>

text \<open>No hash collision among the nodes of the trie.\<close>

definition distinct_nodes :: "rlp_lib \<Rightarrow> (bytes \<Rightarrow> bytes) \<Rightarrow> Trie \<Rightarrow> bool" where
  "distinct_nodes R K t \<longleftrightarrow> (\<forall>p. rep (\<lambda>_ _ _. True) R (reader t) [] (root t) p \<longrightarrow> inj_on K (encodings R K p))"

text \<open>The two ways of reading a node agree: from the bytes, and through the object in the dirty cache.\<close>

lemma node_agrees:
  assumes R: "rlp_ok R" and ok: "db_ok R db" and rd: "rd = newTrieReader R db own" and n: "resolves R rd path h = Inr n"
  shows "reader_node R db rd path h = Inr n"
proof -
  obtain b where b: "blob_at R db h = Some b" "mustDecodeNode R (Some h) b = Inr n"
    using n unfolding resolves_def rd by (auto simp: nodeBlob_db [OF R ok] split: sum.splits)
  have h: "h \<noteq> zeroHash" using b(1) by (auto simp: blob_at_def)
  have "fst (db_node R h db) = Inr n"
  proof (cases "case cleans db of None \<Rightarrow> None | Some c \<Rightarrow> c h")
    case None
    show ?thesis
    proof (cases "dirty db h")
      case (Some d)
      then have "rwf R (cn_node d)" "b = raw_encode R (cn_node d)" using ok h b(1) by (auto simp: db_ok_def blob_at_def)
      then have "mustDecodeNode R (Some h) b = expandNode (Some h) (cn_node d)"
        using decode_encode(2) [OF R, of "cn_node d" "[]" "Suc (length b)" "Some h"] expandNode_rwf(2)
        by (simp add: mustDecodeNode_def decodeNode_def)
      moreover have "cached_obj R h d = expandNode (Some h) (cn_node d)"
        using \<open>rwf R (cn_node d)\<close> by (cases rule: rwf.cases) (simp_all add: cached_obj_def)
      ultimately have "cached_obj R h d = Inr n" using b(2) by simp
      then show ?thesis using None Some by (simp add: db_node_def)
    qed (use None b h in \<open>auto simp: db_node_def blob_at_def\<close>)
  next
    case (Some b')
    then have "b' = b" using ok b(1) by (auto simp: db_ok_def split: option.splits)
    then show ?thesis using Some b(2) by (simp add: db_node_def)
  qed
  moreover have "n \<noteq> NilNode" using b(2) by (auto simp: mustDecodeNode_def dest: decodeNode_shape split: sum.splits)
  ultimately show ?thesis by (cases n) (simp_all add: reader_node_def hashReader_Node_def rd newTrieReader_def)
qed

lemma root_of:
  assumes R: "rlp_ok R" and t: "trie_holds (hash_pol R K) R t m" "root t \<noteq> NilNode"
  obtains p where "rep (hash_pol R K) R (reader t) [] (root t) p" "canon p" "pwf p" "m = (\<lambda>k. pget p (keybytesToHex k))"
    "fst (trie_Hash R K er t) = Inr (K (penc R K p))"
proof -
  obtain p where p: "rep (hash_pol R K) R (reader t) [] (root t) p" "canon p" "m = (\<lambda>k. pget p (keybytesToHex k))"
    using t(1) by (rule trie_holdsE)
  have "pwf p" using rep_not_nil [OF p(1)] t(2) canon_pwf [OF p(2)] by auto
  then have "fst (trie_Hash R K er t) = Inr (K (penc R K p))"
    using Hash_law [OF R p(1,2), of er] by (auto simp: root_hash_def)
  then show ?thesis using that p \<open>pwf p\<close> by blast
qed

lemma key_length: "length (keybytesToHex key) = 2 * length key + 1"
  by (induction key) auto

lemma prove_verify:
  assumes "rlp_ok R" "hash32 K" "trie_holds (hash_pol R K) R t m" "root t \<noteq> NilNode" "distinct_nodes R K t"
    "db_ok R db" "reader t = newTrieReader R db own" "2 * length key + 1 < fuel"
  shows "\<exists>pdb' rt. Prove R K db t key 0 pdb = Inr pdb' \<and> fst (trie_Hash R K er t) = Inr rt \<and>
    VerifyProof R fuel rt key pdb' = Inr (m key)"
proof -
  obtain p where p: "rep (hash_pol R K) R (reader t) [] (root t) p" "canon p" "pwf p" "m = (\<lambda>k. pget p (keybytesToHex k))"
    "fst (trie_Hash R K er t) = Inr (K (penc R K p))" using root_of [OF assms(1,3,4)] .
  let ?k = "keybytesToHex key"
  have rn: "\<forall>path h n. resolves R (reader t) path h = Inr n \<longrightarrow> reader_node R db (reader t) path h = Inr n"
    using node_agrees [OF assms(1,6,7)] by blast
  have k: "?k \<noteq> []" using key_length [of key] by (metis add_is_0 list.size(3) one_neq_zero)
  obtain ns where ns: "proveNodes (reader_node R db (reader t)) (trie_fuel ?k) (root t) [] ?k = Inr ns"
    "list_all2 (stands (hash_pol R K) R (reader t)) ns (ppath p ?k)"
    using proveNodes_law [OF rn p(1) pok_hex [OF p(2)] need_fuel] by blast
  let ?db = "proveWrite R K 0 0 ns pdb"
  have inj: "inj_on K (encodings R K p)"
    using assms(5) rep_mono [OF p(1), of "\<lambda>_ _ _. True"] by (simp add: distinct_nodes_def)
  have "hd (ppath p ?k) = p" using p(3) k by (cases p) auto
  then have "\<forall>q\<in>proof_nodes R K p ?k. map_of ?db (K (penc R K q)) = Some (penc R K q)"
    using proveWrite_law [OF assms(1) hash_sound_pol inj ns(2), of _ 0 pdb] ppath_encodings by (auto simp: proof_nodes_def)
  then have "VerifyProof R fuel (K (penc R K p)) key ?db = Inr (m key)"
    using verify_law [OF assms(1,2) p(3) pok_hex [OF p(2)], of key fuel ?db] assms(8)
    by (auto simp: VerifyProof_def p(4) key_length)
  moreover have "Prove R K db t key 0 pdb = Inr ?db" by (simp add: Prove_def ns(1) Let_def)
  ultimately show ?thesis using p(5) by blast
qed

text \<open>C27. On every trie that reads its nodes from a consistent node database, with no collision among the hashes of its nodes: the proof
  that \<^verbatim>\<open>Prove\<close> makes for a key, from all levels, is accepted. \<^verbatim>\<open>VerifyProof\<close>, given the root hash of the trie, returns
  the value of the key, or nil for a key that is not in the trie, and ends within one step per nibble of the key. Only for
  the empty trie there is no proof: \<^verbatim>\<open>Prove\<close> writes nothing.\<close>

theorem proof_complete:
  assumes "rlp_ok R" "hash32 K" "db_ok R db" "reader t = newTrieReader R db own" "trie_holds (hash_pol R K) R t m"
    "distinct_nodes R K t" "2 * length key + 1 < fuel"
  shows "\<exists>pdb' rt. Prove R K db t key 0 pdb = Inr pdb' \<and> fst (trie_Hash R K er t) = Inr rt \<and>
    (if m = Map.empty then pdb' = pdb \<and> rt = er else VerifyProof R fuel rt key pdb' = Inr (m key))"
proof (cases "root t = NilNode")
  case True
  then have "m = Map.empty" using trie_holds_unique [OF assms(5) trie_holds_empty] by blast
  moreover have "fst (trie_Hash R K er t) = Inr er" using True by (simp add: trie_Hash_def hashRoot_def)
  moreover have "Prove R K db t key 0 pdb = Inr pdb" using True by (simp add: Prove_def trie_fuel_def)
  ultimately show ?thesis by simp
next
  case False
  obtain p where p: "rep (hash_pol R K) R (reader t) [] (root t) p" "canon p" "m = (\<lambda>k. pget p (keybytesToHex k))"
    using assms(5) by (rule trie_holdsE)
  have "m \<noteq> Map.empty"
  proof
    assume "m = Map.empty"
    then have "pget p (keybytesToHex k) = pget PNil (keybytesToHex k)" for k using p(3) by (metis pget.simps(1))
    then have "p = PNil" using canon_ext [OF p(2) canon_PNil] by blast
    then show False using rep_not_nil [OF p(1)] False by blast
  qed
  then show ?thesis using prove_verify [OF assms(1,2,5) False assms(6,3,4,7)] by simp
qed

text \<open>The instance: a trie whose only node is on the disk.\<close>

definition leafP :: ptrie where
  "leafP = PShort [1, 2, 16] (PVal [7])"

definition hashP :: bytes where
  "hashP = K0 (penc rlp1 K0 leafP)"

definition dbP :: Database where
  "dbP = NewDatabaseWithConfig [hashP \<mapsto> penc rlp1 K0 leafP] Map.empty 0 True"

definition trieP :: Trie where
  "trieP = \<lparr>root = HashNode hashP, owner = [], unhashed = 0, reader = newTrieReader rlp1 dbP [], tr_tracer = newTracer\<rparr>"

lemma trie1_hash_holds: "trie_holds (hash_pol rlp1 K0) rlp1 trie1 [[0x12] \<mapsto> [7]]"
proof -
  let ?t = "\<lparr>root = NilNode, owner = [], unhashed = 0, reader = newTrieReader rlp1 db0 [], tr_tracer = newTracer\<rparr>"
  have "trie_holds (hash_pol rlp1 K0) rlp1 ?t Map.empty" by (rule trie_holds_empty) simp
  from hp.Update_law [OF this, of "[0x12]" "[7]"] show ?thesis by (auto simp: trie1_def)
qed

lemma trie1_encodings: "rep (\<lambda>_ _ _. True) rlp1 (reader trie1) [] (root trie1) p \<Longrightarrow>
    p = PShort [1, 2, 16] (PVal [7])"
  unfolding trie1_root by (auto elim!: rep_ShortE simp: rep_simps)

lemma leafP_ok: "pwf leafP" "canon leafP" "(\<lambda>k. pget leafP (keybytesToHex k)) = [[0x12] \<mapsto> [7]]"
proof -
  obtain p where p: "rep (hash_pol rlp1 K0) rlp1 (reader trie1) [] (root trie1) p" "canon p" "[[0x12] \<mapsto> [7]] = (\<lambda>k. pget p (keybytesToHex k))"
    using trie1_hash_holds by (rule trie_holdsE)
  have "p = leafP" using trie1_encodings [OF rep_mono [OF p(1), of "\<lambda>_ _ _. True"]] by (simp add: leafP_def)
  then show "canon leafP" "(\<lambda>k. pget leafP (keybytesToHex k)) = [[0x12] \<mapsto> [7]]" using p by simp_all
  then show "pwf leafP" using canon_pwf [of leafP] by (simp add: leafP_def)
qed

lemma dbP_ok: "db_ok rlp1 dbP"
proof -
  have "penc rlp1 K0 leafP \<noteq> []" by code_simp
  then show ?thesis unfolding dbP_def by (intro db_ok_New) simp
qed

lemma trieP_resolves: "resolves rlp1 (reader trieP) [] hashP = Inr (expand (Some hashP) (pnode rlp1 K0 leafP))"
proof -
  have "hashP \<noteq> zeroHash" by code_simp
  then have "blob_at rlp1 dbP hashP = Some (penc rlp1 K0 leafP)" by (simp add: blob_at_def dbP_def NewDatabaseWithConfig_def)
  then have "nodeBlob (reader trieP) [] hashP = Inr (penc rlp1 K0 leafP)"
    by (simp add: trieP_def nodeBlob_db [OF rlp1_ok dbP_ok])
  then show ?thesis
    using decode_pnode [OF rlp1_ok K0_32 leafP_ok(1), of "Some hashP"] by (simp add: resolves_def)
qed

lemma leafP_node: "expand (Some h) (pnode rlp1 K0 leafP) = ShortNode [1, 2, 16] (ValueNode [7]) \<lparr>flag_hash = Some h, flag_dirty = False\<rparr>"
proof -
  have "compactToHex (compactKey [1, 2, 16]) = [1, 2, 16]" by code_simp
  then show ?thesis by (simp add: leafP_def cref_def)
qed

lemma trieP_rep: "rep (hash_pol rlp1 K0) rlp1 (reader trieP) [] (root trieP) leafP"
proof -
  let ?fl = "\<lparr>flag_hash = Some hashP, flag_dirty = False\<rparr>"
  have f: "hash_pol rlp1 K0 [] leafP ?fl" by (simp add: hash_pol_def hash_of_def leafP_def hashP_def)
  have "rep (hash_pol rlp1 K0) rlp1 (reader trieP) [] (ShortNode [1, 2, 16] (ValueNode [7]) ?fl) leafP"
    using f unfolding leafP_def by (intro rep.rep_short rep.rep_value)
  then show ?thesis using rep.rep_hash [OF trieP_resolves] f by (simp add: leafP_node trieP_def)
qed

lemma trieP_holds: "trie_holds (hash_pol rlp1 K0) rlp1 trieP [[0x12] \<mapsto> [7]]"
  using trie_holdsI [OF trieP_rep leafP_ok(2)] by (simp add: leafP_ok(3))

lemma trieP_distinct: "distinct_nodes rlp1 K0 trieP"
proof -
  have "p = leafP" if "rep (\<lambda>_ _ _. True) rlp1 (reader trieP) [] (root trieP) p" for p
    using rep_fun [OF that trieP_rep] .
  moreover have "inj_on K0 (encodings rlp1 K0 leafP)" by (simp add: leafP_def)
  ultimately show ?thesis unfolding distinct_nodes_def by blast
qed

theorem proof_complete_witness:
  "\<exists>pdb' rt. Prove rlp1 K0 dbP trieP [0x12] 0 [] = Inr pdb' \<and> fst (trie_Hash rlp1 K0 er0 trieP) = Inr rt \<and>
     VerifyProof rlp1 9 rt [0x12] pdb' = Inr (Some [7])"
  using proof_complete [OF rlp1_ok K0_32 dbP_ok _ trieP_holds trieP_distinct, where key = "[0x12]" and fuel = 9 and pdb = "[]" and er = er0 and own = "[]"]
  by (simp add: trieP_def)

text \<open>C28. For the root hash of a non-empty trie, no proof whose entries are stored under their own hashes makes \<^verbatim>\<open>VerifyProof\<close> return a wrong
  value, unless it contains a collision with a node of the trie: the result is the value of the key, or the error that
  a node is missing. It ends within one step per nibble of the key.\<close>

theorem proof_sound:
  assumes "rlp_ok R" "hash32 K" "trie_holds (hash_pol R K) R t m" "root t \<noteq> NilNode" "fst (trie_Hash R K er t) = Inr rt"
    "\<forall>(h, b)\<in>set pdb. K b = h"
    "\<forall>p. rep (\<lambda>_ _ _. True) R (reader t) [] (root t) p \<longrightarrow> (\<forall>(h, b)\<in>set pdb. \<forall>e\<in>encodings R K p. K b = K e \<longrightarrow> b = e)"
    "2 * length key + 1 < fuel"
  shows "VerifyProof R fuel rt key pdb \<in> {Inr (m key), Inl (ErrMsg ''proof node missing'')}"
proof -
  obtain p where p: "rep (hash_pol R K) R (reader t) [] (root t) p" "canon p" "pwf p" "m = (\<lambda>k. pget p (keybytesToHex k))"
    "fst (trie_Hash R K er t) = Inr (K (penc R K p))" using root_of [OF assms(1,3,4)] .
  let ?k = "keybytesToHex key"
  have c: "\<forall>(h, b)\<in>set pdb. \<forall>e\<in>encodings R K p. K b = K e \<longrightarrow> b = e"
    using assms(7) rep_mono [OF p(1), of "\<lambda>_ _ _. True"] by blast
  have "map_of pdb (K (penc R K q)) \<in> {None, Some (penc R K q)}" if "q \<in> proof_nodes R K p ?k" for q
  proof (cases "map_of pdb (K (penc R K q))")
    case (Some b)
    then have "(K (penc R K q), b) \<in> set pdb" by (rule map_of_SomeD)
    moreover have "penc R K q \<in> encodings R K p" using that ppath_encodings by (auto simp: proof_nodes_def)
    ultimately show ?thesis using c assms(6) Some by fastforce
  qed simp
  moreover have "rt = K (penc R K p)" using assms(5) p(5) by simp
  ultimately show ?thesis
    using verify_law [OF assms(1,2) p(3) pok_hex [OF p(2)], of key fuel pdb] assms(8)
    by (auto simp: VerifyProof_def p(4) key_length)
qed

theorem proof_sound_witness:
  "\<exists>rt. fst (trie_Hash rlp1 K0 er0 trie1) = Inr rt \<and>
     VerifyProof rlp1 9 rt [0x13] [(K0 [0xC0], [0xC0])] \<in> {Inr None, Inl (ErrMsg ''proof node missing'')}"
proof -
  obtain rt where rt: "fst (trie_Hash rlp1 K0 er0 trie1) = Inr rt"
    using root_of [OF rlp1_ok trie1_hash_holds, of er0] trie1_root by auto
  have "K0 [0xC0] \<noteq> K0 (penc rlp1 K0 (PShort [1, 2, 16] (PVal [7])))" by code_simp
  then have "\<forall>p. rep (\<lambda>_ _ _. True) rlp1 (reader trie1) [] (root trie1) p \<longrightarrow>
      (\<forall>(h, b)\<in>set [(K0 [0xC0], [0xC0])]. \<forall>e\<in>encodings rlp1 K0 p. K0 b = K0 e \<longrightarrow> b = e)"
    by (auto dest!: trie1_encodings)
  from proof_sound [OF rlp1_ok K0_32 trie1_hash_holds _ rt _ this, of "[0x13]" 9] rt show ?thesis by (simp add: trie1_root)
qed

text \<open>C29. \<^verbatim>\<open>VerifyProof\<close> does not hash the entries of the proof: for every root hash, key and non-empty value there is a proof that
  it accepts, a single leaf put under the root hash.\<close>

theorem proof_forgeable:
  assumes "rlp_ok R" "v \<noteq> []"
  shows "VerifyProof R (Suc fuel) rt key [(rt, raw_encode R (RawShort (compactKey (keybytesToHex key)) (RawValue v)))] = Inr (Some v)"
proof -
  let ?K = "\<lambda>b. replicate 32 (0 :: byte)" and ?k = "keybytesToHex key"
  have w: "pwf (PShort ?k (PVal v))" using assms(2) by (simp add: pwf_leaf)
  have "decodeNode R (Some rt) (penc R ?K (PShort ?k (PVal v))) = Inr (expand (Some rt) (pnode R ?K (PShort ?k (PVal v))))"
    by (rule decode_proof_node [OF assms(1) _ w]) (simp add: hash32_def)
  then have "decodeNode R (Some rt) (raw_encode R (RawShort (compactKey ?k) (RawValue v))) =
      Inr (ShortNode ?k (ValueNode v) \<lparr>flag_hash = Some rt, flag_dirty = False\<rparr>)"
    by (simp add: cref_def compactKey_inverse)
  then show ?thesis by (simp add: VerifyProof_def)
qed

theorem proof_forgeable_witness:
  "VerifyProof rlp1 (Suc 0) (replicate 32 3) [0x12]
     [(replicate 32 3, raw_encode rlp1 (RawShort (compactKey (keybytesToHex [0x12])) (RawValue [9])))] = Inr (Some [9])"
  by (rule proof_forgeable [OF rlp1_ok]) simp

end
