(* ===== verification/Chain_Verify.thy ===== *)
theory Chain_Verify
  imports Chain_Recovery Trie_Proof
begin

text \<open>
  \<^verbatim>\<open>TxOnChainVerify\<close> of \<^verbatim>\<open>src/chain/blockchain.go\<close>: the search for a transaction down the chain, with the Bloom filter of each
  block and a Merkle proof. Every transaction of the chain is found; but so is every hash that meets the
  Bloom filter of a block, because the value that the proof shows is not looked at.
\<close>

section \<open>Definitions\<close>

datatype verify_msg = VMsg string | VBlock bytes

type_synonym verify_result = "bool \<times> verify_msg \<times> bytes \<times> uint64 \<times> bytes list \<times> bytes list"

definition verifyFails :: "string \<Rightarrow> bytes list \<Rightarrow> bytes list \<Rightarrow> verify_result" where
  "verifyFails e keys vals = (False, VMsg e, [], 0, keys, vals)"

definition txTree :: "env \<Rightarrow> Transaction list \<Rightarrow> Trie res" where
  "txTree E txs =
     bindR (newState E [] memDatabase) (foldR (\<lambda>tx. trieUpdate E (TxHash tx) (e_encodeTx E tx)) txs)"

text \<open>The conversion \<^verbatim>\<open>common.Hash(...)\<close> of a slice panics when it is too short.\<close>

definition toHash :: "bytes \<Rightarrow> bytes res" where
  "toHash b = (if length b < 32 then Inl Panic else Inr (take 32 b))"

text \<open>The work on a block whose Bloom filter is met; \<open>None\<close> when the search goes on. The entries of the proof are
  listed in the order of the keys, as the iterator of the memory database does.\<close>

definition checkBlock :: "env \<Rightarrow> bytes \<Rightarrow> bytes \<Rightarrow> uint64 \<Rightarrow> Block \<Rightarrow> verify_result option res" where
  "checkBlock E txhash nowblockHash nowheight block =
     bindR (txTree E (Body block)) (\<lambda>t.
       case trie_Hash (e_rlp E) (e_keccak E) (e_emptyRoot E) t of
         (Inl e, t1) \<Rightarrow> Inl e
       | (Inr rt, t1) \<Rightarrow>
           if rt \<noteq> TxRoot (Header block) then Inr (Some (verifyFails ''err Tx root'' [] []))
           else (case Prove (e_rlp E) (e_keccak E) memDatabase t1 txhash 0 [] of
                   Inl Panic \<Rightarrow> Inl Panic
                 | Inl OutOfFuel \<Rightarrow> Inl OutOfFuel
                 | Inl e \<Rightarrow> Inr None
                 | Inr pdb \<Rightarrow>
                     let kvs = sort_key fst pdb; keylist = map fst kvs; valuelist = map snd kvs;
                         proof2 = fold (\<lambda>(k, v). AList.update k v) kvs []
                     in bindR (toHash (TxRoot (Header block))) (\<lambda>h.
                          case VerifyProof (e_rlp E) (trie_fuel (keybytesToHex txhash)) h txhash proof2 of
                            Inl Panic \<Rightarrow> Inl Panic
                          | Inl OutOfFuel \<Rightarrow> Inl OutOfFuel
                          | Inl e \<Rightarrow> Inr (Some (verifyFails ''err verify'' keylist valuelist))
                          | Inr v \<Rightarrow> Inr (Some (True, VBlock nowblockHash, TxRoot (Header block), nowheight, keylist, valuelist)))))"

fun verifyDown :: "env \<Rightarrow> Storage \<Rightarrow> bytes \<Rightarrow> nat \<Rightarrow> nat \<Rightarrow> bytes \<Rightarrow> verify_result res" where
  "verifyDown E s txhash idx 0 nowblockHash = Inr (verifyFails ''no block has this tx'' [] [])"
| "verifyDown E s txhash idx (Suc h) nowblockHash =
     (case GetBlock E nowblockHash s of
        Inl (ErrMsg e) \<Rightarrow> Inr (verifyFails e [] [])
      | Inl e \<Rightarrow> Inl e
      | Inr block \<Rightarrow>
          if idx \<notin> BloomFilter (Header block) then verifyDown E s txhash idx h (ParentBlockHash (Header block))
          else bindR (checkBlock E txhash nowblockHash (word_of_nat (Suc h)) block) (\<lambda>r.
                 case r of
                   None \<Rightarrow> verifyDown E s txhash idx h (ParentBlockHash (Header block))
                 | Some res \<Rightarrow> Inr res))"

definition TxOnChainVerify :: "env \<Rightarrow> bytes \<Rightarrow> BlockChain \<Rightarrow> verify_result res" where
  "TxOnChainVerify E txhash bc =
     bindR (ModBytes txhash 2048) (\<lambda>idx.
       verifyDown E (bc_Storage bc) txhash (unat idx) (unat (Number (Header (CurrentBlock bc)))) (BHash (CurrentBlock bc)))"

section \<open>A block that meets the Bloom filter\<close>

text \<open>What a block that this code made satisfies, and what is relied on of the hashes.\<close>

definition sealed :: "env \<Rightarrow> Block \<Rightarrow> bool" where
  "sealed E b \<longleftrightarrow> GetTxTreeRoot E (Body b) = Inr (TxRoot (Header b)) \<and>
     GetBloomFilter (Body b) = Inr (BloomFilter (Header b)) \<and> (\<forall>tx\<in>set (Body b). e_encodeTx E tx \<noteq> []) \<and>
     (\<forall>t. txTree E (Body b) = Inr t \<longrightarrow> distinct_nodes (e_rlp E) (e_keccak E) t)"

lemma GetTxTreeRoot_tree: "GetTxTreeRoot E txs = bindR (txTree E txs) (trieHash E)"
  by (cases "newState E [] memDatabase") (simp_all add: GetTxTreeRoot_def txTree_def)

lemma txTree_fold:
  assumes "trie_holds (hash_pol (e_rlp E) (e_keccak E)) (e_rlp E) t m" "\<forall>tx\<in>set txs. e_encodeTx E tx \<noteq> []"
    "foldR (\<lambda>tx. trieUpdate E (TxHash tx) (e_encodeTx E tx)) txs t = Inr t'"
  shows "\<exists>m'. trie_holds (hash_pol (e_rlp E) (e_keccak E)) (e_rlp E) t' m' \<and> reader t' = reader t \<and>
    dom m' = dom m \<union> TxHash ` set txs"
  using assms
proof (induction txs arbitrary: t m)
  case (Cons tx txs)
  obtain t1 where t1: "Update (e_rlp E) t (TxHash tx) (e_encodeTx E tx) = (Inr (), t1)" "reader t1 = reader t"
    "trie_holds (hash_pol (e_rlp E) (e_keccak E)) (e_rlp E) t1 (m(TxHash tx \<mapsto> e_encodeTx E tx))"
    using hp.Update_law [OF Cons.prems(1), of "TxHash tx" "e_encodeTx E tx"] Cons.prems(2) by auto
  have "trieUpdate E (TxHash tx) (e_encodeTx E tx) t = Inr t1" using t1(1) by (simp add: trieUpdate_def)
  then have "foldR (\<lambda>tx. trieUpdate E (TxHash tx) (e_encodeTx E tx)) txs t1 = Inr t'" using Cons.prems(3) by simp
  moreover have "\<forall>tx\<in>set txs. e_encodeTx E tx \<noteq> []" using Cons.prems(2) by simp
  ultimately obtain m' where
    "trie_holds (hash_pol (e_rlp E) (e_keccak E)) (e_rlp E) t' m'" "reader t' = reader t1"
    "dom m' = dom (m(TxHash tx \<mapsto> e_encodeTx E tx)) \<union> TxHash ` set txs"
    using Cons.IH [OF t1(3)] by blast
  then show ?case using t1(2) by (intro exI [of _ m']) simp
qed auto

lemma txTree_holds:
  assumes "txTree E txs = Inr t" "\<forall>tx\<in>set txs. e_encodeTx E tx \<noteq> []"
  shows "\<exists>m. trie_holds (hash_pol (e_rlp E) (e_keccak E)) (e_rlp E) t m \<and>
    reader t = newTrieReader (e_rlp E) memDatabase zeroHash \<and> dom m = TxHash ` set txs"
proof -
  obtain t0 where t0: "newState E [] memDatabase = Inr t0" "root t0 = NilNode" "reader t0 = newTrieReader (e_rlp E) memDatabase zeroHash"
    by (simp add: newState_def trie_New_def BytesToHash_def Let_def)
  have "trie_holds (hash_pol (e_rlp E) (e_keccak E)) (e_rlp E) t0 Map.empty" by (rule trie_holds_empty [OF t0(2)])
  from txTree_fold [OF this assms(2)] show ?thesis using assms(1) t0 by (auto simp: txTree_def)
qed

text \<open>Only the entries of a proof matter, not their order.\<close>

lemma verifyLoop_cong: "map_of db = map_of db' \<Longrightarrow> verifyLoop R fuel want key db = verifyLoop R fuel want key db'"
proof (induction fuel arbitrary: want key)
  case (Suc fuel)
  then have "verifyLoop R fuel = (\<lambda>want key db. verifyLoop R fuel want key db)" by simp
  show ?case unfolding verifyLoop.simps Suc.prems Suc.IH [OF Suc.prems] ..
qed simp

lemma proveWrite_distinct: "distinct (map fst db) \<Longrightarrow> distinct (map fst (proveWrite R K i l ns db))"
proof (induction ns arbitrary: i l db)
  case (Cons n ns)
  obtain n' hn where p: "proofHash R K n = (n', hn)" by fastforce
  have "distinct (map fst (case hn of HashNode h \<Rightarrow> AList.update h (nodeToBytes R n') db
      | _ \<Rightarrow> if i = 0 then AList.update (K (nodeToBytes R n')) (nodeToBytes R n') db else db))"
    using Cons.prems by (cases hn) (simp_all add: distinct_update)
  then show ?case using Cons by (simp add: p Let_def)
qed simp

lemma fold_update: "map_of (fold (\<lambda>(k, v). AList.update k v) kvs db) = map_of db ++ map_of (rev kvs)"
  by (induction kvs arbitrary: db) (auto simp: update_conv' fun_eq_iff map_add_def split: option.splits)

lemma copied_proof:
  assumes "distinct (map fst pdb)"
  shows "map_of (fold (\<lambda>(k, v). AList.update k v) (sort_key fst pdb) []) = map_of pdb"
proof -
  have "distinct (map fst (sort_key fst pdb))"
    using assms by (metis distinct_sort distinct_map set_sort)
  then have "distinct (map fst (rev (sort_key fst pdb)))" by (simp add: rev_map [symmetric])
  then have "map_of (rev (sort_key fst pdb)) = map_of pdb"
    by (subst map_of_inject_set) (use assms in auto)
  then show ?thesis by (simp add: fold_update)
qed

lemma checkBlock_law:
  assumes E: "env_ok E" and s: "sealed E b" and n: "Body b \<noteq> []"
  shows "\<exists>keys vals. checkBlock E txhash bh height b = Inr (Some (True, VBlock bh, TxRoot (Header b), height, keys, vals))"
proof -
  let ?R = "e_rlp E" and ?K = "e_keccak E" and ?er = "e_emptyRoot E"
  have RK: "rlp_ok ?R" "hash32 ?K" using E by (auto simp: env_ok_def)
  obtain t where t: "txTree E (Body b) = Inr t" "trieHash E t = Inr (TxRoot (Header b))"
    using s by (auto simp: sealed_def GetTxTreeRoot_tree)
  have ne: "\<forall>tx\<in>set (Body b). e_encodeTx E tx \<noteq> []" using s by (simp add: sealed_def)
  obtain m where m: "trie_holds (hash_pol ?R ?K) ?R t m" "reader t = newTrieReader ?R memDatabase zeroHash" "dom m = TxHash ` set (Body b)"
    using txTree_holds [OF t(1) ne] by blast
  have "root t \<noteq> NilNode"
  proof
    assume "root t = NilNode"
    then have "m = Map.empty" using trie_holds_unique [OF m(1) trie_holds_empty] by blast
    then show False using m(3) n by auto
  qed
  then obtain p where p: "rep (hash_pol ?R ?K) ?R (reader t) [] (root t) p" "canon p" "pwf p"
    "m = (\<lambda>k. pget p (keybytesToHex k))" "fst (trie_Hash ?R ?K ?er t) = Inr (?K (penc ?R ?K p))"
    using root_of [OF RK(1) m(1)] by blast
  from Hash_law [OF RK(1) p(1,2), of ?er] obtain t1 where
    t1: "trie_Hash ?R ?K ?er t = (Inr (TxRoot (Header b)), t1)" "reader t1 = reader t" "rep (hash_pol ?R ?K) ?R (reader t) [] (root t1) p"
    using t(2) by (auto simp: trieHash_def)
  have h1: "trie_holds (hash_pol ?R ?K) ?R t1 m" unfolding p(4) by (rule trie_holdsI) (use t1 p in auto)
  have n1: "root t1 \<noteq> NilNode" using rep_not_nil [OF t1(3)] p(3) by auto
  have "distinct_nodes ?R ?K t" using s t(1) by (simp add: sealed_def)
  then have d1: "distinct_nodes ?R ?K t1"
    using rep_mono [OF p(1), of "\<lambda>_ _ _. True"] rep_fun [OF t1(3)] t1(2) unfolding distinct_nodes_def by auto
  have a1: "db_ok ?R memDatabase" "reader t1 = newTrieReader ?R memDatabase zeroHash"
    using t1(2) m(2) by (simp_all add: memDatabase_def db_ok_New)
  have "2 * length txhash + 1 < trie_fuel (keybytesToHex txhash)" by (simp add: trie_fuel_def key_length)
  from prove_verify [OF RK h1 n1 d1 a1 this, of "[]" ?er] obtain pdb rt where
    v: "Prove ?R ?K memDatabase t1 txhash 0 [] = Inr pdb"
      "fst (trie_Hash ?R ?K ?er t1) = Inr rt" "VerifyProof ?R (trie_fuel (keybytesToHex txhash)) rt txhash pdb = Inr (m txhash)"
    by blast
  have rt: "rt = TxRoot (Header b)" "length rt = 32"
  proof -
    have "fst (trie_Hash ?R ?K ?er t1) = Inr (?K (penc ?R ?K p))"
      using Hash_law [of ?R ?K t1 p ?er] RK(1) t1(2,3) p(2,3) by (auto simp: root_hash_def)
    then show "rt = TxRoot (Header b)" "length rt = 32" using v(2) p(5) t1(1) RK(2) by (auto simp: hash32_def)
  qed
  have "distinct (map fst pdb)" using v(1) by (auto simp: Prove_def Let_def intro: proveWrite_distinct)
  then have "VerifyProof ?R (trie_fuel (keybytesToHex txhash)) rt txhash
      (fold (\<lambda>(k, v). AList.update k v) (sort_key fst pdb) []) = Inr (m txhash)"
    using v(3) verifyLoop_cong [OF copied_proof] by (simp add: VerifyProof_def)
  then show ?thesis using rt by (simp add: checkBlock_def t(1) t1(1) v(1) toHash_def Let_def)
qed

section \<open>Properties\<close>

lemma Bloom_iff:
  assumes "GetBloomFilter txs = Inr B" "ModBytes txhash 2048 = Inr idx" "tx \<in> set txs" "TxHash tx = txhash"
  shows "unat idx \<in> B"
proof -
  have "mapR (\<lambda>tx. ModBytes (TxHash tx) 2048) txs =
      Inr (map (\<lambda>tx. word_of_int (int (bigBytes (TxHash tx) 0) mod \<bar>sint (2048 :: uint64)\<bar>)) txs)"
    by (rule mapR_Inr) (simp add: ModBytes_def)
  then show ?thesis using assms by (auto simp: GetBloomFilter_def ModBytes_def)
qed

lemma verify_hit:
  assumes E: "env_ok E" and b: "GetBlock E bh s = Inr b" "sealed E b" "idx \<in> BloomFilter (Header b)"
  shows "\<exists>keys vals. verifyDown E s txhash idx (Suc h) bh =
    Inr (True, VBlock bh, TxRoot (Header b), word_of_nat (Suc h), keys, vals)"
proof -
  have "Body b \<noteq> []" using b(2,3) by (auto simp: sealed_def GetBloomFilter_def)
  from checkBlock_law [OF E b(2) this, of txhash bh "word_of_nat (Suc h)"] b(1,3) show ?thesis by auto
qed

lemma verify_walk:
  assumes E: "env_ok E" and l: "linked E s bs" and se: "\<forall>b\<in>set (butlast bs). sealed E b"
    and idx: "ModBytes txhash 2048 = Inr idx" and tx: "tx \<in> set (Body (bs ! (i + k)))" "TxHash tx = txhash" "Suc (i + k) < length bs"
  shows "\<exists>r. verifyDown E s txhash (unat idx) (length bs - 1 - i) (BHash (bs ! i)) = Inr (True, r)"
  using tx
proof (induction k arbitrary: i)
  case 0
  have i: "i < length bs" "length bs - 1 - i = Suc (length bs - 2 - i)" using 0(3) by auto
  have "bs ! i \<in> set (butlast bs)" using 0(3) by (auto simp: in_set_conv_nth nth_butlast intro!: exI [of _ i])
  then have s: "sealed E (bs ! i)" using se by blast
  have "unat idx \<in> BloomFilter (Header (bs ! i))"
    using Bloom_iff [OF _ idx _ tx(2)] s 0(1) by (auto simp: sealed_def)
  then show ?case unfolding i(2) using verify_hit [OF E linked_stored [OF l i(1)] s] by fastforce
next
  case (Suc k)
  have i: "Suc i < length bs" "i < length bs" "length bs - 1 - i = Suc (length bs - 1 - Suc i)" using Suc.prems(3) by auto
  have st: "GetBlock E (BHash (bs ! i)) s = Inr (bs ! i)" by (rule linked_stored [OF l i(2)])
  show ?case
  proof (cases "unat idx \<in> BloomFilter (Header (bs ! i))")
    case True
    have "bs ! i \<in> set (butlast bs)" using i by (auto simp: in_set_conv_nth nth_butlast intro!: exI [of _ i])
    then show ?thesis unfolding i(3) using verify_hit [OF E st _ True] se by fastforce
  next
    case False
    then show ?thesis
      unfolding i(3) using Suc.IH [of "Suc i"] Suc.prems linked_parent [OF l i(1)] by (simp add: st)
  qed
qed

text \<open>C30. \<^verbatim>\<open>TxOnChainVerify\<close> ends and answers yes for the hash of every transaction in a block of a linked chain above the
  genesis block, when every such block is sealed: its header carries the transaction root and the Bloom filter that this code
  computes for its body, its transactions have non-empty encodings, and no two nodes of its transaction trie have the same hash.
  \<^verbatim>\<open>AddBlock\<close> checks none of this, and the blocks of \<^verbatim>\<open>blockGenerate\<close> do not have such a transaction root.\<close>

theorem onchain_tx_found:
  assumes "env_ok E" "chain_inv E bc bs" "length bs \<le> 2 ^ 64" "\<forall>b\<in>set (butlast bs). sealed E b"
    "b \<in> set (butlast bs)" "tx \<in> set (Body b)"
  shows "\<exists>r. TxOnChainVerify E (TxHash tx) bc = Inr (True, r)"
proof -
  have l: "linked E (bc_Storage bc) bs" using assms(2) by (simp add: chain_inv_def)
  note bs = chain_inv_bs [OF assms(2)]
  obtain i where "i < length (butlast bs)" "b = butlast bs ! i" using assms(5) by (metis in_set_conv_nth)
  then have i: "Suc i < length bs" "b = bs ! i" by (auto simp: nth_butlast)
  obtain idx where idx: "ModBytes (TxHash tx) 2048 = Inr idx" by (simp add: ModBytes_def)
  have "Number (Header (CurrentBlock bc)) = word_of_nat (length bs - 1)"
    using linked_number [OF l, of 0] bs by (simp only: diff_zero)
  moreover have "unat (word_of_nat (length bs - 1) :: uint64) = length bs - 1"
    by (rule unat_u64) (use assms(3) bs in linarith)
  ultimately have "unat (Number (Header (CurrentBlock bc))) = length bs - 1" by (simp only:)
  then show ?thesis
    using verify_walk [OF assms(1) l assms(4) idx, of tx 0 i] i assms(6) bs by (simp add: TxOnChainVerify_def idx)
qed

text \<open>C31. The answer of \<^verbatim>\<open>TxOnChainVerify\<close> is yes for every hash, whether or not a block has it, whose position in the Bloom filter
  of the current block is set, when the current block is sealed and above the genesis block: the proof that the key is absent
  counts as well.\<close>

theorem absent_tx_accepted:
  assumes "env_ok E" "chain_inv E bc bs" "0 < Number (Header (CurrentBlock bc))" "sealed E (CurrentBlock bc)"
    "ModBytes txhash 2048 = Inr idx" "unat idx \<in> BloomFilter (Header (CurrentBlock bc))"
  shows "\<exists>r. TxOnChainVerify E txhash bc = Inr (True, r)"
proof -
  have "GetBlock E (BHash (CurrentBlock bc)) (bc_Storage bc) = Inr (CurrentBlock bc)"
    using assms(2) linked_stored [of E "bc_Storage bc" bs 0] chain_inv_bs [OF assms(2)] by (auto simp: chain_inv_def)
  moreover obtain h where "unat (Number (Header (CurrentBlock bc))) = Suc h"
    using assms(3) by (cases "unat (Number (Header (CurrentBlock bc)))") (auto simp: word_less_nat_alt)
  ultimately show ?thesis
    using verify_hit [OF assms(1) _ assms(4,6)] by (fastforce simp: TxOnChainVerify_def assms(5))
qed

section \<open>An instance\<close>

definition txT :: Transaction where
  "txT = (transfer1 False 5)\<lparr>TxHash := [1]\<rparr>"

definition blockT :: Block where
  "blockT = (blockN 1 2 [1] [2])\<lparr>Header := (Header (blockN 1 2 [1] [2]))\<lparr>BloomFilter := {1},
     TxRoot := (case GetTxTreeRoot env1 [txT] of Inr rt \<Rightarrow> rt | Inl e \<Rightarrow> [])\<rparr>, Body := [txT]\<rparr>"

definition envT :: env where
  "envT = env1\<lparr>e_encodeB := BHash, e_decodeB := \<lambda>e. Inr (if e = [1] then blockN 0 1 [] [1] else blockT)\<rparr>"

definition chainT :: BlockChain where
  "chainT = chain1\<lparr>CurrentBlock := blockT, bc_Storage := putBlock envT blockT (putBlock envT (blockN 0 1 [] [1]) NewStorage)\<rparr>"

lemma blockT_fields:
  "Number (Header blockT) = 1" "ParentBlockHash (Header blockT) = [1]" "BHash blockT = [2]" "Body blockT = [txT]"
  "BloomFilter (Header blockT) = {1}"
  by (simp_all add: blockT_def blockN_fields)

lemma chainT_inv: "chain_inv envT chainT [blockT, blockN 0 1 [] [1]]"
  by (simp add: chain_inv_def chainT_def putBlock_def GetBlock_def GetNewestBlockHash_def blockT_fields blockN_fields envT_def NewStorage_def)

lemma envT_ok: "env_ok envT"
  by (rule like_ok) (simp add: env1_like_def envT_def env1_def)

lemma blockT_sealed: "sealed envT blockT"
proof -
  have "newState envT = newState env1" "trieUpdate envT = trieUpdate env1" "trieHash envT = trieHash env1"
    "e_encodeTx envT = e_encodeTx env1"
    by (simp_all add: fun_eq_iff newState_def trieUpdate_def trieHash_def envT_def)
  then have "GetTxTreeRoot envT txs = GetTxTreeRoot env1 txs" for txs by (simp only: GetTxTreeRoot_def)
  moreover obtain rt where "GetTxTreeRoot env1 [txT] = Inr rt" using GetTxTreeRoot_total [OF env1_ok] by blast
  ultimately have root: "GetTxTreeRoot envT (Body blockT) = Inr (TxRoot (Header blockT))"
    by (simp add: blockT_fields) (simp add: blockT_def)
  have "ModBytes [1] 2048 = Inr 1" by code_simp
  then have bloom: "GetBloomFilter (Body blockT) = Inr (BloomFilter (Header blockT))"
    by (simp add: GetBloomFilter_def blockT_fields txT_def)
  have enc: "e_encodeTx envT tx \<noteq> []" for tx by (simp add: envT_def env1_def)
  have "distinct_nodes (e_rlp envT) (e_keccak envT) t" if "txTree envT (Body blockT) = Inr t" for t
  proof -
    obtain t0 where t0: "newState envT [] memDatabase = Inr t0" "root t0 = NilNode"
      by (simp add: newState_def trie_New_def BytesToHash_def Let_def)
    from nil_Update [OF t0(2) enc, of envT "TxHash txT" txT] that have
      "\<exists>k v. root t = ShortNode k (ValueNode v) newFlag" by (auto simp: txTree_def t0(1) blockT_fields)
    then show ?thesis by (auto simp: distinct_nodes_def rep_simps elim!: rep_ShortE)
  qed
  then show ?thesis using root bloom enc by (simp add: sealed_def)
qed

theorem onchain_tx_found_witness: "\<exists>r. TxOnChainVerify envT [1] chainT = Inr (True, r)"
  using onchain_tx_found [OF envT_ok chainT_inv, of blockT txT] blockT_sealed by (simp add: blockT_fields txT_def)

theorem absent_tx_accepted_witness: "(\<exists>r. TxOnChainVerify envT [8, 1] chainT = Inr (True, r)) \<and> [8, 1] \<notin> TxHash ` set (Body blockT)"
proof -
  have "ModBytes [8, 1] 2048 = Inr 1" by code_simp
  moreover have "CurrentBlock chainT = blockT" by (simp add: chainT_def)
  ultimately show ?thesis
    using absent_tx_accepted [OF envT_ok chainT_inv, of "[8, 1]" 1] blockT_sealed by (simp add: blockT_fields txT_def)
qed

end
