(* ===== verification/Pbft_Node.thy ===== *)
theory Pbft_Node
  imports Chain_Verify
begin

text \<open>
  \<^verbatim>\<open>src/consensus_shard/pbft_all\<close>: the node of the PBFT consensus of a shard. \<^verbatim>\<open>pbft.go\<close>, \<^verbatim>\<open>messageHandle.go\<close> and \<^verbatim>\<open>toolFuncs.go\<close> hold the protocol,
  \<^verbatim>\<open>pbftInside_module.go\<close>, \<^verbatim>\<open>pbftInside_moduleBroker.go\<close>, \<^verbatim>\<open>pbftInside_moduleCLPA.go\<close> and \<^verbatim>\<open>accountTransfer_module.go\<close> what the modules
  \<open>RawRelay\<close>, \<open>RawBroker\<close> and \<open>CLPA\<close> do in its phases, the \<^verbatim>\<open>pbftOutside\<close> files the messages between shards, and
  \<^verbatim>\<open>clientMsgHandler.go\<close> those of the clients.

  A handler takes a decoded message and returns the messages it sends with their addresses and the new node; \<open>None\<close> is a handler that
  waits for a lock. Unlocking a mutex that is not locked ends the process, which is a panic here. The votes are counted in maps whose keys
  are pointers to decoded senders. Every message decodes to a new pointer, so the maps are lists. The node runs
  on the memory chain, whose field \<^verbatim>\<open>Txpool\<close> is nil after \<^verbatim>\<open>NewBlockChain\<close>; it is \<open>n_Txpool\<close>, apart from the pool the chain packs
  blocks from. The JSON coding of requests, for the digest, and the gob coding of transfers are parameters.
\<close>

section \<open>Messages\<close>

record shard_Node =
  nd_NodeID :: uint64
  nd_ShardID :: uint64
  nd_IPaddr :: string

record Request =
  RequestType :: string
  ReqContent :: bytes
  ReqTime :: int

record PrePrepare =
  RequestMsg :: Request
  pp_Digest :: bytes
  pp_SeqID :: uint64

record Prepare =
  pm_Digest :: bytes
  pm_SeqID :: uint64
  pm_SenderNode :: shard_Node

record Commit =
  cm_Digest :: bytes
  cm_SeqID :: uint64
  cm_SenderNode :: shard_Node

record RequestOldMessage =
  ro_Start :: uint64
  ro_End :: uint64
  ro_ServerNode :: shard_Node
  ro_SenderNode :: shard_Node

record SendOldMessage =
  so_Start :: uint64
  so_End :: uint64
  OldRequest :: "Request list"
  so_SenderNode :: shard_Node

record BlockInfoMsg =
  bi_BlockBodyLength :: nat
  bi_ExcutedTxs :: "Transaction list"
  bi_Epoch :: int
  bi_ProposeTime :: int
  bi_CommitTime :: int
  bi_SenderShardID :: uint64
  bi_Relay1Txs :: "Transaction list"
  bi_Broker1Txs :: "Transaction list"
  bi_Broker2Txs :: "Transaction list"

record AccountTransferMsg =
  at_ModifiedMap :: "(address \<times> uint64) list"
  at_Addrs :: "address list"
  at_AccountState :: "AccountState list"
  ATid :: uint64

record AccountStateAndTx =
  as_Addrs :: "address list"
  as_AccountState :: "AccountState list"
  as_Txs :: "Transaction list"
  as_FromShard :: uint64

datatype pbft_msg =
    CPrePrepare PrePrepare
  | CPrepare Prepare
  | CCommit Commit
  | CRequestOldrequest RequestOldMessage
  | CSendOldrequest SendOldMessage
  | CStop
  | CClientTxSend Transaction string
  | CClientRequestTxProof bytes string
  | CClientRequestAccountState address string
  | CRelay "Transaction list" uint64 uint64
  | CInject "Transaction list"
  | CSeqIDinfo uint64 uint64
  | CBlockInfo BlockInfoMsg
  | CTxOnChainProof verify_result bytes uint64
  | CAccountStateForClient address AccountState int int bytes bytes
  | CPartitionMsg "(address \<times> uint64) list"
  | CPartitionReady uint64 uint64
  | AccountState_and_TX AccountStateAndTx

type_synonym sends = "(string \<times> pbft_msg) list"

section \<open>The state\<close>

text \<open>The maps of \<^verbatim>\<open>Data_supportCLPA\<close> over which the code ranges, or of which it takes the length, are association lists.\<close>

record Data_supportCLPA =
  ModifiedMap :: "(address \<times> uint64) list list"
  AccountTransferRound :: uint64
  ReceivedNewAccountState :: "(address \<times> AccountState) list"
  ReceivedNewTx :: "Transaction list"
  AccountStateTx :: "(uint64 \<times> AccountStateAndTx) list"
  PartitionOn :: bool
  PartitionReady :: "(uint64 \<times> bool) list"
  ReadySeq :: "uint64 \<rightharpoonup> uint64"
  CollectOver :: bool

definition NewCLPADataSupport :: Data_supportCLPA where
  "NewCLPADataSupport = \<lparr>ModifiedMap = [], AccountTransferRound = 0, ReceivedNewAccountState = [], ReceivedNewTx = [],
     AccountStateTx = [], PartitionOn = False, PartitionReady = [], ReadySeq = Map.empty, CollectOver = False\<rparr>"

datatype pbft_mod = RawRelay | RawBroker | CLPA

text \<open>Where the loop of \<^verbatim>\<open>Propose\<close> is: before the lock, or in one of the two waiting loops of a repartition.\<close>

datatype stage = Idle | WaitReady | WaitCollect

record PbftConsensusNode =
  RunningNode :: shard_Node
  n_ShardID :: uint64
  n_NodeID :: uint64
  n_Chain :: BlockChain
  n_Txpool :: "TxPool option"
  txRequest2Client :: "bytes \<rightharpoonup> string"
  n_ipTable :: "uint64 \<Rightarrow> (uint64 \<times> string) list"
  ShardNums :: uint64
  node_nums :: uint64
  malicious_nums :: uint64
  view :: uint64
  sequenceID :: uint64
  n_stop :: bool
  requestPool :: "bytes \<rightharpoonup> Request"
  cntPrepareConfirm :: "bytes \<Rightarrow> shard_Node list"
  cntCommitConfirm :: "bytes \<Rightarrow> shard_Node list"
  isCommitBordcast :: "bytes \<Rightarrow> bool"
  isReply :: "bytes \<Rightarrow> bool"
  height2Digest :: "uint64 \<rightharpoonup> bytes"
  sequenceLock :: bool
  askForLock :: bool
  seqIDMap :: "(uint64 \<times> uint64) list"
  n_mod :: pbft_mod
  cdm :: Data_supportCLPA
  proposing :: stage

record penv =
  pe_env :: env
  pe_json :: "Request \<Rightarrow> bytes"
  pe_encodeATM :: "AccountTransferMsg \<Rightarrow> bytes"
  pe_decodeATM :: "bytes \<Rightarrow> AccountTransferMsg res"

definition DeciderShard :: uint64 where
  "DeciderShard = 0xffffffff"

definition BlockRequest :: string where
  "BlockRequest = ''Block''"

definition PartitionReq :: string where
  "PartitionReq = ''PartitionReq''"

text \<open>The table of addresses is not set, so every address is blank.\<close>

definition NewPbftNode :: "penv \<Rightarrow> uint64 \<Rightarrow> uint64 \<Rightarrow> uint64 \<Rightarrow> uint64 \<Rightarrow> uint64 \<Rightarrow> pbft_mod \<Rightarrow> Storage \<Rightarrow> PbftConsensusNode res" where
  "NewPbftNode P shardID nodeID nodesPerShard shardNums blockSize md bolt =
     bindR (orPanic (NewBlockChain (pe_env P) shardID blockSize bolt)) (\<lambda>bc.
       Inr \<lparr>RunningNode = \<lparr>nd_NodeID = nodeID, nd_ShardID = shardID, nd_IPaddr = []\<rparr>, n_ShardID = shardID, n_NodeID = nodeID,
            n_Chain = bc, n_Txpool = None, txRequest2Client = Map.empty, n_ipTable = (\<lambda>s. []), ShardNums = shardNums,
            node_nums = nodesPerShard, malicious_nums = (nodesPerShard - 1) div 3, view = 0,
            sequenceID = Number (Header (CurrentBlock bc)) + 1, n_stop = False, requestPool = Map.empty,
            cntPrepareConfirm = (\<lambda>d. []), cntCommitConfirm = (\<lambda>d. []), isCommitBordcast = (\<lambda>d. False), isReply = (\<lambda>d. False),
            height2Digest = Map.empty, sequenceLock = False, askForLock = False, seqIDMap = [], n_mod = md,
            cdm = NewCLPADataSupport, proposing = Idle\<rparr>)"

definition getDigest :: "penv \<Rightarrow> Request \<Rightarrow> bytes" where
  "getDigest P r = e_sha256 (pe_env P) (pe_json P r)"

definition set2DMap :: "bool \<Rightarrow> bytes \<Rightarrow> shard_Node \<Rightarrow> PbftConsensusNode \<Rightarrow> PbftConsensusNode" where
  "set2DMap isPrePareConfirm key val p =
     (if isPrePareConfirm then p\<lparr>cntPrepareConfirm := (cntPrepareConfirm p)(key := cntPrepareConfirm p key @ [val])\<rparr>
      else p\<lparr>cntCommitConfirm := (cntCommitConfirm p)(key := cntCommitConfirm p key @ [val])\<rparr>)"

definition getNeighborNodes :: "PbftConsensusNode \<Rightarrow> string list" where
  "getNeighborNodes p = map snd (n_ipTable p (n_ShardID p))"

definition Broadcast :: "string list \<Rightarrow> pbft_msg \<Rightarrow> sends" where
  "Broadcast receivers msg = map (\<lambda>ip. (ip, msg)) receivers"

definition ipOf :: "PbftConsensusNode \<Rightarrow> uint64 \<Rightarrow> uint64 \<Rightarrow> string" where
  "ipOf p shard n = (case map_of (n_ipTable p shard) n of None \<Rightarrow> [] | Some ip \<Rightarrow> ip)"

definition otherShards :: "PbftConsensusNode \<Rightarrow> uint64 list" where
  "otherShards p = filter (\<lambda>sid. sid \<noteq> n_ShardID p) (map of_nat [0..<unat (ShardNums p)])"

definition withPool :: "(TxPool \<Rightarrow> TxPool) \<Rightarrow> PbftConsensusNode \<Rightarrow> PbftConsensusNode res" where
  "withPool f p = (case n_Txpool p of None \<Rightarrow> Inl Panic | Some pool \<Rightarrow> Inr (p\<lparr>n_Txpool := Some (f pool)\<rparr>))"

section \<open>Moving accounts between shards\<close>

definition sendPartitionReady :: "PbftConsensusNode \<Rightarrow> sends \<times> PbftConsensusNode" where
  "sendPartitionReady p =
     (map (\<lambda>sid. (ipOf p sid 0, CPartitionReady (n_ShardID p) (sequenceID p))) (otherShards p),
      p\<lparr>cdm := (cdm p)\<lparr>PartitionReady := AList.update (n_ShardID p) True (PartitionReady (cdm p))\<rparr>\<rparr>)"

definition getPartitionReady :: "PbftConsensusNode \<Rightarrow> bool" where
  "getPartitionReady p \<longleftrightarrow>
     int (length (PartitionReady (cdm p))) = sint (ShardNums p) \<and>
     list_all (\<lambda>(sid, val). case ReadySeq (cdm p) sid of None \<Rightarrow> False | Some rval \<Rightarrow> rval - 1 = val) (seqIDMap p)"

definition lookup0 :: "(address \<times> uint64) list \<Rightarrow> address \<Rightarrow> uint64" where
  "lookup0 m a = (case map_of m a of None \<Rightarrow> 0 | Some s \<Rightarrow> s)"

definition accountsToFetch :: "penv \<Rightarrow> (address \<times> uint64) list \<Rightarrow> PbftConsensusNode \<Rightarrow> address list res" where
  "accountsToFetch P m p =
     foldR (\<lambda>(key, val) acc.
       if val = n_ShardID p then Inr acc
       else bindR (Get_PartitionMap (pe_env P) (n_Chain p) key) (\<lambda>s. Inr (if s = n_ShardID p then acc @ [key] else acc))) m []"

text \<open>The accounts and the transactions for the shard \<open>i\<close>; the transactions leave the queue.\<close>

definition transferTo ::
  "(address \<times> uint64) list \<Rightarrow> (address \<times> AccountState) list \<Rightarrow> uint64 \<Rightarrow> uint64 \<Rightarrow> Transaction list \<Rightarrow> AccountStateAndTx \<times> Transaction list"
where
  "transferTo m fetched from i queue =
     (let sel = filter (\<lambda>(addr, as). lookup0 m addr = i) fetched;
          moves = (\<lambda>tx. Sender tx \<in> fst ` set sel \<and> \<not> Relayed tx \<or> Recipient tx \<in> fst ` set sel \<and> Relayed tx)
      in (\<lparr>as_Addrs = map fst sel, as_AccountState = map snd sel, as_Txs = filter moves queue, as_FromShard = from\<rparr>,
          filter (\<lambda>tx. \<not> moves tx) queue))"

fun transferLoop ::
  "(address \<times> uint64) list \<Rightarrow> (address \<times> AccountState) list \<Rightarrow> uint64 \<Rightarrow> uint64 list \<Rightarrow> Transaction list \<Rightarrow>
    (uint64 \<times> AccountStateAndTx) list \<times> Transaction list"
where
  "transferLoop m fetched from [] queue = ([], queue)"
| "transferLoop m fetched from (i # is) queue =
     (let (ast, queue1) = transferTo m fetched from i queue; (rest, queue2) = transferLoop m fetched from is queue1
      in ((i, ast) # rest, queue2))"

definition sendAccounts_and_Txs :: "penv \<Rightarrow> PbftConsensusNode \<Rightarrow> (sends \<times> PbftConsensusNode) res" where
  "sendAccounts_and_Txs P p =
     (if ModifiedMap (cdm p) = [] then Inl Panic
      else let m = last (ModifiedMap (cdm p)) in
        bindR (accountsToFetch P m p) (\<lambda>addrs.
          bindR (FetchAccounts (pe_env P) addrs (n_Chain p)) (\<lambda>(states, rest).
            case n_Txpool p of
              None \<Rightarrow> Inl Panic
            | Some pool \<Rightarrow>
                let (out, queue) = transferLoop m (zip addrs states) (n_ShardID p) (otherShards p) (TxQueue pool)
                in Inr (map (\<lambda>(i, ast). (ipOf p i 0, AccountState_and_TX ast)) out, p\<lparr>n_Txpool := Some (pool\<lparr>TxQueue := queue\<rparr>)\<rparr>))))"

definition receiveState :: "AccountStateAndTx \<Rightarrow> Data_supportCLPA \<Rightarrow> Data_supportCLPA res" where
  "receiveState at d =
     bindR (foldR (\<lambda>(i, addr) acc.
              if length (as_AccountState at) \<le> i then Inl Panic else Inr (AList.update addr (as_AccountState at ! i) acc))
              (enumerate 0 (as_Addrs at)) (ReceivedNewAccountState d)) (\<lambda>acc.
       Inr (d\<lparr>ReceivedNewAccountState := acc, ReceivedNewTx := ReceivedNewTx d @ as_Txs at\<rparr>))"

definition proposePartition :: "penv \<Rightarrow> int \<Rightarrow> PbftConsensusNode \<Rightarrow> (Request \<times> PbftConsensusNode) res" where
  "proposePartition P now p =
     bindR (foldR (\<lambda>(s, at). receiveState at) (AccountStateTx (cdm p)) (cdm p)) (\<lambda>d.
       let round = unat (AccountTransferRound d) in
       if length (ModifiedMap d) \<le> round then Inl Panic
       else let m = ModifiedMap d ! round in
         if list_ex (\<lambda>tx. lookup0 m (if Relayed tx then Recipient tx else Sender tx) \<noteq> n_ShardID p) (ReceivedNewTx d) then Inl Panic
         else bindR (withPool (AddTxs2Pool now (ReceivedNewTx d)) (p\<lparr>cdm := d\<rparr>)) (\<lambda>p1.
           let atm = \<lparr>at_ModifiedMap = m, at_Addrs = map fst (ReceivedNewAccountState d),
                      at_AccountState = map snd (ReceivedNewAccountState d), ATid = of_nat (length (ModifiedMap d))\<rparr>
           in Inr (\<lparr>RequestType = PartitionReq, ReqContent = pe_encodeATM P atm, ReqTime = now\<rparr>, p1)))"

definition accountTransfer_do :: "penv \<Rightarrow> nat \<Rightarrow> AccountTransferMsg \<Rightarrow> PbftConsensusNode \<Rightarrow> PbftConsensusNode res" where
  "accountTransfer_do P fuel atm p =
     (let bc = fold (\<lambda>(key, val). Update_PartitionMap key val) (at_ModifiedMap atm) (n_Chain p)
      in bindR (AddAccounts (pe_env P) fuel (at_Addrs atm) (at_AccountState atm) bc) (\<lambda>bc1.
           let d = cdm p; mm = (if of_nat (length (ModifiedMap d)) \<noteq> ATid atm then ModifiedMap d @ [at_ModifiedMap atm] else ModifiedMap d)
           in Inr (p\<lparr>n_Chain := bc1,
                     cdm := d\<lparr>ModifiedMap := mm, AccountTransferRound := ATid atm, AccountStateTx := [], ReceivedNewAccountState := [],
                              ReceivedNewTx := [], PartitionOn := False, CollectOver := False, PartitionReady := []\<rparr>\<rparr>)))"

section \<open>What the modules do in the phases\<close>

definition blockRequest :: "penv \<Rightarrow> nat \<Rightarrow> int \<Rightarrow> PbftConsensusNode \<Rightarrow> (Request \<times> PbftConsensusNode) res" where
  "blockRequest P fuel now p =
     bindR (mem_GenerateBlock (pe_env P) fuel now 0 (n_Chain p)) (\<lambda>(block, bc).
       Inr (\<lparr>RequestType = BlockRequest, ReqContent = e_encodeB (pe_env P) block, ReqTime = now\<rparr>, p\<lparr>n_Chain := bc\<rparr>))"

definition HandleinPrePrepare :: "penv \<Rightarrow> PrePrepare \<Rightarrow> PbftConsensusNode \<Rightarrow> (bool \<times> PbftConsensusNode) res" where
  "HandleinPrePrepare P ppmsg p =
     (let accept = (True, p\<lparr>requestPool := (requestPool p)(pp_Digest ppmsg \<mapsto> RequestMsg ppmsg)\<rparr>) in
      if n_mod p = CLPA \<and> RequestType (RequestMsg ppmsg) = PartitionReq then Inr accept
      else bindR (orPanic (e_decodeB (pe_env P) (ReqContent (RequestMsg ppmsg)))) (\<lambda>b.
        case IsValidBlock (pe_env P) b (n_Chain p) of
          Inr u \<Rightarrow> Inr accept
        | Inl (ErrMsg m) \<Rightarrow> Inr (False, p)
        | Inl e \<Rightarrow> Inl e))"

text \<open>A transaction of a committed block that goes on to another shard is put into the relay pool. The transaction is marked as relayed
  through its pointer, also in the body of the block.\<close>

definition relayTx :: "penv \<Rightarrow> PbftConsensusNode \<Rightarrow> Transaction \<Rightarrow> TxPool \<times> Transaction list \<times> Transaction list \<times> Transaction list \<Rightarrow>
    (TxPool \<times> Transaction list \<times> Transaction list \<times> Transaction list) res"
where
  "relayTx P p tx s =
     (case s of (pool, relay1, excuted, body) \<Rightarrow>
        bindR (Get_PartitionMap (pe_env P) (n_Chain p) (Sender tx)) (\<lambda>ssid.
          bindR (Get_PartitionMap (pe_env P) (n_Chain p) (Recipient tx)) (\<lambda>rsid.
            if n_mod p = CLPA \<and> (\<not> Relayed tx \<and> ssid \<noteq> n_ShardID p \<or> Relayed tx \<and> rsid \<noteq> n_ShardID p) then Inl Panic
            else if rsid \<noteq> n_ShardID p then
              let ntx = tx\<lparr>Relayed := True\<rparr>
              in bindR (AddRelayTx ntx rsid pool) (\<lambda>pool1. Inr (pool1, relay1 @ [ntx], excuted, body @ [ntx]))
            else Inr (pool, relay1, excuted @ [tx], body @ [tx]))))"

definition relayTxRaw :: "penv \<Rightarrow> PbftConsensusNode \<Rightarrow> Transaction \<Rightarrow> TxPool \<times> Transaction list \<times> Transaction list \<times> Transaction list \<Rightarrow>
    (TxPool \<times> Transaction list \<times> Transaction list \<times> Transaction list) res"
where
  "relayTxRaw P p tx s =
     (case s of (pool, relay1, excuted, body) \<Rightarrow>
        bindR (Get_PartitionMap (pe_env P) (n_Chain p) (Recipient tx)) (\<lambda>rsid.
          if rsid \<noteq> n_ShardID p then
            let ntx = tx\<lparr>Relayed := True\<rparr>
            in bindR (AddRelayTx ntx rsid pool) (\<lambda>pool1. Inr (pool1, relay1 @ [ntx], excuted, body @ [ntx]))
          else Inr (pool, relay1, excuted @ [tx], body @ [tx])))"

definition SendProofMsg :: "verify_result \<Rightarrow> bytes \<Rightarrow> string \<Rightarrow> PbftConsensusNode \<Rightarrow> sends" where
  "SendProofMsg v txhash clientIp p = [(clientIp, CTxOnChainProof v txhash (n_ShardID p))]"

text \<open>The proofs for the clients that wait for a transaction of the block (module \<open>RawRelay\<close>).\<close>

definition proveTx :: "penv \<Rightarrow> Transaction \<Rightarrow> sends \<times> PbftConsensusNode \<Rightarrow> (sends \<times> PbftConsensusNode) res" where
  "proveTx P tx s =
     (case s of (out, p) \<Rightarrow>
        (case txRequest2Client p (TxHash tx) of
           None \<Rightarrow> Inr (out, p)
         | Some clientID \<Rightarrow>
             bindR (TxOnChainVerify (pe_env P) (TxHash tx) (n_Chain p)) (\<lambda>v.
               Inr (out @ SendProofMsg v (TxHash tx) clientID p, p\<lparr>txRequest2Client := (txRequest2Client p)(TxHash tx := None)\<rparr>))))"

definition relayTo :: "PbftConsensusNode \<Rightarrow> TxPool \<Rightarrow> sends" where
  "relayTo p pool =
     map (\<lambda>sid. (ipOf p sid 0,
        CRelay (case map_of (case RelayPool pool of None \<Rightarrow> [] | Some rp \<Rightarrow> rp) sid of None \<Rightarrow> [] | Some txs \<Rightarrow> txs) (n_ShardID p) (sequenceID p)))
       (otherShards p)"

definition addBlockOf :: "penv \<Rightarrow> Block \<Rightarrow> PbftConsensusNode \<Rightarrow> (bool \<times> PbftConsensusNode) res" where
  "addBlockOf P block p =
     bindR (mem_AddBlock (pe_env P) (Some block) (n_Chain p)) (\<lambda>(added, bc). Inr (added, p\<lparr>n_Chain := bc\<rparr>))"

text \<open>The main node's part after a block was committed.\<close>

definition relayBlock :: "penv \<Rightarrow> int \<Rightarrow> Request \<Rightarrow> Block \<Rightarrow> bool \<Rightarrow> PbftConsensusNode \<Rightarrow> (sends \<times> PbftConsensusNode) res" where
  "relayBlock P now r block added p =
     (case n_Txpool p of
        None \<Rightarrow> Inl Panic
      | Some pool \<Rightarrow>
          bindR (foldR (if n_mod p = CLPA then relayTx P p else relayTxRaw P p) (Body block) (pool\<lparr>RelayPool := Some []\<rparr>, [], [], []))
            (\<lambda>(pool1, relay1, excuted, body).
              bindR (if n_mod p = CLPA then Inr ([], p) else foldR (proveTx P) (Body block) ([], p)) (\<lambda>(proofs, p1).
                let p2 = p1\<lparr>n_Txpool := Some (ClearRelayPool pool1),
                            n_Chain := (if added then (n_Chain p1)\<lparr>CurrentBlock := block\<lparr>Body := body\<rparr>\<rparr> else n_Chain p1)\<rparr>;
                    bim = \<lparr>bi_BlockBodyLength = length (Body block), bi_ExcutedTxs = excuted,
                           bi_Epoch = (if n_mod p = CLPA then sint (AccountTransferRound (cdm p)) else 0), bi_ProposeTime = ReqTime r,
                           bi_CommitTime = now, bi_SenderShardID = n_ShardID p, bi_Relay1Txs = relay1, bi_Broker1Txs = [], bi_Broker2Txs = []\<rparr>
                in Inr (proofs @ relayTo p pool1 @ [(ipOf p DeciderShard 0, CBlockInfo bim)], p2))))"

definition isBroker2Tx :: "Transaction \<Rightarrow> bool" where
  "isBroker2Tx tx \<longleftrightarrow> RawTxHash tx \<noteq> [] \<and> Recipient tx = FinalRecipient tx"

definition isBroker1Tx :: "Transaction \<Rightarrow> bool" where
  "isBroker1Tx tx \<longleftrightarrow> RawTxHash tx \<noteq> [] \<and> Sender tx = OriginalSender tx"

definition brokerBlock :: "int \<Rightarrow> Request \<Rightarrow> Block \<Rightarrow> PbftConsensusNode \<Rightarrow> (sends \<times> PbftConsensusNode) res" where
  "brokerBlock now r block p =
     (if n_Txpool p = None then Inl Panic
      else let bim = \<lparr>bi_BlockBodyLength = length (Body block),
                      bi_ExcutedTxs = filter (\<lambda>tx. \<not> isBroker2Tx tx \<and> \<not> isBroker1Tx tx) (Body block), bi_Epoch = 0, bi_ProposeTime = ReqTime r,
                      bi_CommitTime = now, bi_SenderShardID = n_ShardID p, bi_Relay1Txs = [],
                      bi_Broker1Txs = filter (\<lambda>tx. \<not> isBroker2Tx tx \<and> isBroker1Tx tx) (Body block),
                      bi_Broker2Txs = filter isBroker2Tx (Body block)\<rparr>
           in Inr (map (\<lambda>sid. (ipOf p sid 0, CSeqIDinfo (n_ShardID p) (sequenceID p))) (otherShards p) @ [(ipOf p DeciderShard 0, CBlockInfo bim)], p))"

definition HandleinCommit :: "penv \<Rightarrow> nat \<Rightarrow> int \<Rightarrow> Commit \<Rightarrow> PbftConsensusNode \<Rightarrow> (sends \<times> PbftConsensusNode) res" where
  "HandleinCommit P fuel now cmsg p =
     (case requestPool p (cm_Digest cmsg) of
        None \<Rightarrow> Inl Panic
      | Some r \<Rightarrow>
          if n_mod p = CLPA \<and> RequestType r = PartitionReq then
            bindR (orPanic (pe_decodeATM P (ReqContent r))) (\<lambda>atm. bindR (accountTransfer_do P fuel atm p) (\<lambda>p1. Inr ([], p1)))
          else bindR (orPanic (e_decodeB (pe_env P) (ReqContent r))) (\<lambda>block.
            bindR (addBlockOf P block p) (\<lambda>(added, p1).
              if n_NodeID p \<noteq> view p then Inr ([], p1)
              else if n_mod p = RawBroker then brokerBlock now r block p1
              else relayBlock P now r block added p1)))"

text \<open>\<^verbatim>\<open>HandleforSequentialRequest\<close>. The loop counts heights of 64 bits up to the last one and ends by a panic when that is the largest. The
  condition of \<open>RawBroker\<close> subtracts in the other order.\<close>

definition oldRequest :: "penv \<Rightarrow> nat \<Rightarrow> SendOldMessage \<Rightarrow> nat \<Rightarrow> PbftConsensusNode \<Rightarrow> PbftConsensusNode res" where
  "oldRequest P fuel som i p =
     (if length (OldRequest som) \<le> i then Inl Panic
      else let r = OldRequest som ! i in
        if RequestType r = BlockRequest then
          bindR (orPanic (e_decodeB (pe_env P) (ReqContent r))) (\<lambda>b. bindR (addBlockOf P b p) (\<lambda>(added, p1). Inr p1))
        else if n_mod p = CLPA then bindR (orPanic (pe_decodeATM P (ReqContent r))) (\<lambda>atm. accountTransfer_do P fuel atm p)
        else Inr p)"

definition HandleforSequentialRequest :: "penv \<Rightarrow> nat \<Rightarrow> SendOldMessage \<Rightarrow> PbftConsensusNode \<Rightarrow> PbftConsensusNode res" where
  "HandleforSequentialRequest P fuel som p =
     (let expected = (if n_mod p = RawBroker then sint (so_Start som - so_End som) else sint (so_End som - so_Start som + 1));
          heights = unat (so_End som) + 1 - unat (so_Start som) + (if so_End som = - 1 then 1 else 0)
      in if expected \<noteq> int (length (OldRequest som)) then Inr p
         else bindR (foldR (oldRequest P fuel som) [0..<heights] p) (\<lambda>p1. Inr (p1\<lparr>sequenceID := so_End som + 1\<rparr>)))"

section \<open>The protocol\<close>

definition mapRes :: "('a \<Rightarrow> 'b) \<Rightarrow> 'a res \<Rightarrow> 'b res" where
  "mapRes f m = bindR m (\<lambda>a. Inr (f a))"

definition prePrepare :: "penv \<Rightarrow> Request \<Rightarrow> PbftConsensusNode \<Rightarrow> sends \<times> PbftConsensusNode" where
  "prePrepare P r p =
     (let digest = getDigest P r;
          ppmsg = \<lparr>RequestMsg = r, pp_Digest = digest, pp_SeqID = sequenceID p\<rparr>
      in (Broadcast (getNeighborNodes p) (CPrePrepare ppmsg),
          p\<lparr>requestPool := (requestPool p)(digest \<mapsto> r), height2Digest := (height2Digest p)(sequenceID p \<mapsto> digest)\<rparr>))"

text \<open>One round of the loop of \<^verbatim>\<open>Propose\<close>. In a repartition it stops twice, for the other shards to be ready and for their accounts.\<close>

definition Propose :: "penv \<Rightarrow> nat \<Rightarrow> int \<Rightarrow> PbftConsensusNode \<Rightarrow> (sends \<times> PbftConsensusNode) option res" where
  "Propose P fuel now p =
     (if view p \<noteq> n_NodeID p then Inr (Some ([], p))
      else case proposing p of
        Idle \<Rightarrow>
          if sequenceLock p then Inr None
          else let p1 = p\<lparr>sequenceLock := True\<rparr> in
            if n_mod p = CLPA \<and> PartitionOn (cdm p) then
              let (out, p2) = sendPartitionReady p1 in Inr (Some (out, p2\<lparr>proposing := WaitReady\<rparr>))
            else bindR (blockRequest P fuel now p1) (\<lambda>(r, p2). Inr (Some (prePrepare P r p2)))
      | WaitReady \<Rightarrow>
          if \<not> getPartitionReady p then Inr None
          else bindR (sendAccounts_and_Txs P p) (\<lambda>(out, p1). Inr (Some (out, p1\<lparr>proposing := WaitCollect\<rparr>)))
      | WaitCollect \<Rightarrow>
          if \<not> CollectOver (cdm p) then Inr None
          else bindR (proposePartition P now p) (\<lambda>(r, p1). Inr (Some (prePrepare P r (p1\<lparr>proposing := Idle\<rparr>)))))"

definition prepareOf :: "bytes \<Rightarrow> uint64 \<Rightarrow> PbftConsensusNode \<Rightarrow> sends" where
  "prepareOf digest seq p =
     Broadcast (getNeighborNodes p) (CPrepare \<lparr>pm_Digest = digest, pm_SeqID = seq, pm_SenderNode = RunningNode p\<rparr>)"

definition poolRequest :: "penv \<Rightarrow> uint64 \<Rightarrow> Request \<Rightarrow> PbftConsensusNode \<Rightarrow> PbftConsensusNode" where
  "poolRequest P seq r p =
     p\<lparr>requestPool := (requestPool p)(getDigest P r \<mapsto> r), height2Digest := (height2Digest p)(seq \<mapsto> getDigest P r)\<rparr>"

definition handlePrePrepare :: "penv \<Rightarrow> PrePrepare \<Rightarrow> PbftConsensusNode \<Rightarrow> (sends \<times> PbftConsensusNode) res" where
  "handlePrePrepare P ppmsg p =
     (if getDigest P (RequestMsg ppmsg) \<noteq> pp_Digest ppmsg then Inr ([], p)
      else if sequenceID p < pp_SeqID ppmsg then Inr ([], poolRequest P (pp_SeqID ppmsg) (RequestMsg ppmsg) p)
      else bindR (HandleinPrePrepare P ppmsg p) (\<lambda>(flag, p1).
        let p2 = poolRequest P (pp_SeqID ppmsg) (RequestMsg ppmsg) p1
        in Inr (if flag then prepareOf (pp_Digest ppmsg) (pp_SeqID ppmsg) p2 else [], p2)))"

definition handlePrepare :: "Prepare \<Rightarrow> PbftConsensusNode \<Rightarrow> sends \<times> PbftConsensusNode" where
  "handlePrepare pmsg p =
     (if requestPool p (pm_Digest pmsg) = None \<or> sequenceID p < pm_SeqID pmsg then ([], p)
      else let p1 = set2DMap True (pm_Digest pmsg) (pm_SenderNode pmsg) p;
               cnt = int (length (cntPrepareConfirm p1 (pm_Digest pmsg)));
               specifiedcnt = sint (2 * malicious_nums p) - (if n_NodeID p \<noteq> view p then 1 else 0)
           in if cnt \<ge> specifiedcnt \<and> \<not> isCommitBordcast p1 (pm_Digest pmsg) then
                (Broadcast (getNeighborNodes p1) (CCommit \<lparr>cm_Digest = pm_Digest pmsg, cm_SeqID = pm_SeqID pmsg, cm_SenderNode = RunningNode p1\<rparr>),
                 p1\<lparr>isCommitBordcast := (isCommitBordcast p1)(pm_Digest pmsg := True)\<rparr>)
              else ([], p1))"

definition requestOld :: "Commit \<Rightarrow> PbftConsensusNode \<Rightarrow> sends" where
  "requestOld cmsg p =
     (let sn = \<lparr>nd_NodeID = view p, nd_ShardID = n_ShardID p, nd_IPaddr = ipOf p (n_ShardID p) (view p)\<rparr>
      in [(nd_IPaddr sn, CRequestOldrequest \<lparr>ro_Start = sequenceID p + 1, ro_End = cm_SeqID cmsg, ro_ServerNode = sn, ro_SenderNode = RunningNode p\<rparr>)])"

definition unlockSequence :: "PbftConsensusNode \<Rightarrow> PbftConsensusNode res" where
  "unlockSequence p =
     (if n_NodeID p \<noteq> view p then Inr p else if sequenceLock p then Inr (p\<lparr>sequenceLock := False\<rparr>) else Inl Panic)"

definition committed :: "Commit \<Rightarrow> PbftConsensusNode \<Rightarrow> bool" where
  "committed cmsg p \<longleftrightarrow>
     int (length (cntCommitConfirm p (cm_Digest cmsg)) + 1) \<ge> sint (2 * malicious_nums p) \<and> \<not> isReply p (cm_Digest cmsg)"

definition handleCommit :: "penv \<Rightarrow> nat \<Rightarrow> int \<Rightarrow> Commit \<Rightarrow> PbftConsensusNode \<Rightarrow> (sends \<times> PbftConsensusNode) option res" where
  "handleCommit P fuel now cmsg p =
     (let p1 = set2DMap False (cm_Digest cmsg) (cm_SenderNode cmsg) p;
          reply = (\<lambda>q. q\<lparr>isReply := (isReply q)(cm_Digest cmsg := True)\<rparr>)
      in if \<not> committed cmsg p then Inr (Some ([], p1))
         else if requestPool p1 (cm_Digest cmsg) = None then
           (if askForLock p1 then Inr None
            else bindR (unlockSequence ((reply p1)\<lparr>askForLock := True\<rparr>)) (\<lambda>p2. Inr (Some (requestOld cmsg p1, p2))))
         else bindR (HandleinCommit P fuel now cmsg p1) (\<lambda>(out, p2).
           bindR (unlockSequence ((reply p2)\<lparr>sequenceID := sequenceID p2 + 1\<rparr>)) (\<lambda>p3. Inr (Some (out, p3)))))"

text \<open>The loop over the heights ends at the first one without a request.\<close>

fun oldRequests :: "PbftConsensusNode \<Rightarrow> uint64 \<Rightarrow> nat \<Rightarrow> Request list" where
  "oldRequests p height 0 = []"
| "oldRequests p height (Suc n) =
     (case height2Digest p height of
        None \<Rightarrow> []
      | Some d \<Rightarrow> (case requestPool p d of None \<Rightarrow> [] | Some r \<Rightarrow> r # oldRequests p (height + 1) n))"

definition handleRequestOldSeq :: "RequestOldMessage \<Rightarrow> PbftConsensusNode \<Rightarrow> sends" where
  "handleRequestOldSeq rom p =
     (if view p \<noteq> n_NodeID p then []
      else [(nd_IPaddr (ro_SenderNode rom),
             CSendOldrequest \<lparr>so_Start = ro_Start rom, so_End = ro_End rom,
               OldRequest = oldRequests p (ro_Start rom) (unat (ro_End rom) + 1 - unat (ro_Start rom)), so_SenderNode = RunningNode p\<rparr>)])"

definition replyRequest :: "penv \<Rightarrow> uint64 \<Rightarrow> nat \<times> Request \<Rightarrow> PbftConsensusNode \<Rightarrow> PbftConsensusNode" where
  "replyRequest P beginSeq ir p =
     (case ir of (idx, r) \<Rightarrow>
        (poolRequest P (of_nat idx + beginSeq) r p)\<lparr>isReply := (isReply p)(getDigest P r := True)\<rparr>)"

definition handleSendOldSeq :: "penv \<Rightarrow> nat \<Rightarrow> SendOldMessage \<Rightarrow> PbftConsensusNode \<Rightarrow> (sends \<times> PbftConsensusNode) res" where
  "handleSendOldSeq P fuel som p =
     bindR (HandleforSequentialRequest P fuel som p) (\<lambda>p1.
       let p2 = (fold (replyRequest P (so_Start som)) (enumerate 0 (OldRequest som)) p1)\<lparr>sequenceID := so_End som + 1\<rparr> in
       bindR (case Option.bind (height2Digest p2 (sequenceID p2)) (requestPool p2) of
                None \<Rightarrow> Inr ([], p2)
              | Some r \<Rightarrow>
                  bindR (HandleinPrePrepare P \<lparr>RequestMsg = r, pp_Digest = getDigest P r, pp_SeqID = sequenceID p2\<rparr> p2) (\<lambda>(flag, p3).
                    Inr (if flag then prepareOf (getDigest P r) (sequenceID p2) p3 else [], p3))) (\<lambda>(out, p4).
         if askForLock p4 then Inr (out, p4\<lparr>askForLock := False\<rparr>) else Inl Panic))"

section \<open>Messages from outside\<close>

definition handleClientTxSend :: "int \<Rightarrow> Transaction \<Rightarrow> string \<Rightarrow> PbftConsensusNode \<Rightarrow> PbftConsensusNode res" where
  "handleClientTxSend now tx clientIp p =
     withPool (AddTx2Pool now tx) (p\<lparr>txRequest2Client := (txRequest2Client p)(TxHash tx \<mapsto> clientIp)\<rparr>)"

definition handleClientRequestTxProof :: "penv \<Rightarrow> bytes \<Rightarrow> string \<Rightarrow> PbftConsensusNode \<Rightarrow> sends res" where
  "handleClientRequestTxProof P txHash clientIp p =
     bindR (TxOnChainVerify (pe_env P) txHash (n_Chain p)) (\<lambda>v. Inr (SendProofMsg v txHash clientIp p))"

definition handleRequestAccountState :: "penv \<Rightarrow> address \<Rightarrow> string \<Rightarrow> PbftConsensusNode \<Rightarrow> sends res" where
  "handleRequestAccountState P addr clientIp p =
     bindR (FetchAccounts (pe_env P) [addr] (n_Chain p)) (\<lambda>(as, shardId, blockHeight, blockHash, stroot).
       if as = [] then Inl Panic
       else Inr [(clientIp, CAccountStateForClient addr (hd as) shardId blockHeight blockHash stroot)])"

definition handleRelay :: "int \<Rightarrow> Transaction list \<Rightarrow> uint64 \<Rightarrow> uint64 \<Rightarrow> PbftConsensusNode \<Rightarrow> PbftConsensusNode res" where
  "handleRelay now txs shard seq p =
     bindR (withPool (AddTxs2Pool now txs) p) (\<lambda>p1. Inr (p1\<lparr>seqIDMap := AList.update shard seq (seqIDMap p1)\<rparr>))"

definition handleInjectTx :: "int \<Rightarrow> Transaction list \<Rightarrow> PbftConsensusNode \<Rightarrow> PbftConsensusNode res" where
  "handleInjectTx now txs = withPool (AddTxs2Pool now txs)"

definition handleSeqIDinfos :: "uint64 \<Rightarrow> uint64 \<Rightarrow> PbftConsensusNode \<Rightarrow> PbftConsensusNode" where
  "handleSeqIDinfos shard seq p = p\<lparr>seqIDMap := AList.update shard seq (seqIDMap p)\<rparr>"

definition handlePartitionMsg :: "(address \<times> uint64) list \<Rightarrow> PbftConsensusNode \<Rightarrow> PbftConsensusNode" where
  "handlePartitionMsg m p = p\<lparr>cdm := (cdm p)\<lparr>ModifiedMap := ModifiedMap (cdm p) @ [m], PartitionOn := True\<rparr>\<rparr>"

definition handlePartitionReady :: "uint64 \<Rightarrow> uint64 \<Rightarrow> PbftConsensusNode \<Rightarrow> PbftConsensusNode" where
  "handlePartitionReady shard seq p =
     p\<lparr>cdm := (cdm p)\<lparr>PartitionReady := AList.update shard True (PartitionReady (cdm p)), ReadySeq := (ReadySeq (cdm p))(shard \<mapsto> seq)\<rparr>\<rparr>"

definition handleAccountStateAndTxMsg :: "AccountStateAndTx \<Rightarrow> PbftConsensusNode \<Rightarrow> PbftConsensusNode" where
  "handleAccountStateAndTxMsg at p =
     (let ast = AList.update (as_FromShard at) at (AccountStateTx (cdm p)); d = (cdm p)\<lparr>AccountStateTx := ast\<rparr>
      in p\<lparr>cdm := (if int (length ast) = sint (ShardNums p) - 1 then d\<lparr>CollectOver := True\<rparr> else d)\<rparr>)"

definition HandleMessageOutsidePBFT :: "int \<Rightarrow> pbft_msg \<Rightarrow> PbftConsensusNode \<Rightarrow> PbftConsensusNode res" where
  "HandleMessageOutsidePBFT now msg p =
     (case msg of
        CRelay txs shard seq \<Rightarrow> if n_mod p = RawBroker then Inr p else handleRelay now txs shard seq p
      | CInject txs \<Rightarrow> handleInjectTx now txs p
      | CSeqIDinfo shard seq \<Rightarrow> Inr (if n_mod p = RawBroker then handleSeqIDinfos shard seq p else p)
      | CPartitionMsg m \<Rightarrow> Inr (if n_mod p = CLPA then handlePartitionMsg m p else p)
      | CPartitionReady shard seq \<Rightarrow> Inr (if n_mod p = CLPA then handlePartitionReady shard seq p else p)
      | AccountState_and_TX at \<Rightarrow> Inr (if n_mod p = CLPA then handleAccountStateAndTxMsg at p else p)
      | _ \<Rightarrow> Inr p)"

definition WaitToStop :: "PbftConsensusNode \<Rightarrow> PbftConsensusNode" where
  "WaitToStop p = p\<lparr>n_stop := True\<rparr>"

definition pbft_handleMessage :: "penv \<Rightarrow> nat \<Rightarrow> int \<Rightarrow> pbft_msg \<Rightarrow> PbftConsensusNode \<Rightarrow> (sends \<times> PbftConsensusNode) option res" where
  "pbft_handleMessage P fuel now msg p =
     (case msg of
        CPrePrepare m \<Rightarrow> mapRes Some (handlePrePrepare P m p)
      | CPrepare m \<Rightarrow> Inr (Some (handlePrepare m p))
      | CCommit m \<Rightarrow> handleCommit P fuel now m p
      | CRequestOldrequest m \<Rightarrow> Inr (Some (handleRequestOldSeq m p, p))
      | CSendOldrequest m \<Rightarrow> mapRes Some (handleSendOldSeq P fuel m p)
      | CStop \<Rightarrow> Inr (Some ([], WaitToStop p))
      | CClientTxSend tx ip \<Rightarrow> mapRes (\<lambda>p1. Some ([], p1)) (handleClientTxSend now tx ip p)
      | CClientRequestTxProof h ip \<Rightarrow> mapRes (\<lambda>out. Some (out, p)) (handleClientRequestTxProof P h ip p)
      | CClientRequestAccountState a ip \<Rightarrow> mapRes (\<lambda>out. Some (out, p)) (handleRequestAccountState P a ip p)
      | _ \<Rightarrow> mapRes (\<lambda>p1. Some ([], p1)) (HandleMessageOutsidePBFT now msg p))"

end
