(* ===== verification/Pbft_Run.thy ===== *)
theory Pbft_Run
  imports Pbft_Node
begin

text \<open>
  Runs of a PBFT node: the loop of the main node and the messages it handles, in any order and from anyone. Messages are handled one after the other, as
  \<^verbatim>\<open>handleClientRequest\<close> does under \<^verbatim>\<open>tcpPoolLock\<close>; a round of the loop of \<^verbatim>\<open>Propose\<close> (or its part between two waits) is taken as one
  step, though the code runs it beside the handlers under \<^verbatim>\<open>sequenceLock\<close> only. The commit handler executes a
  request at most once and only after enough commit messages; the request pool is addressed by content; the main node cannot execute a
  block, because the pool it relays from is nil.
\<close>

section \<open>Runs\<close>

record prun =
  pbft :: PbftConsensusNode
  executed :: "bytes list"
  heard :: "pbft_msg list"

text \<open>\<open>executed\<close> lists the digests whose requests were executed, \<open>heard\<close> the messages handled.\<close>

definition executes :: "pbft_msg \<Rightarrow> PbftConsensusNode \<Rightarrow> bytes list" where
  "executes msg p =
     (case msg of CCommit m \<Rightarrow> if committed m p \<and> requestPool p (cm_Digest m) \<noteq> None then [cm_Digest m] else [] | _ \<Rightarrow> [])"

definition startRun :: "PbftConsensusNode \<Rightarrow> prun" where
  "startRun p = \<lparr>pbft = p, executed = [], heard = []\<rparr>"

inductive pbft_step :: "penv \<Rightarrow> prun \<Rightarrow> prun \<Rightarrow> bool" for P where
  propose: "Propose P fuel now (pbft s) = Inr (Some (out, p')) \<Longrightarrow> pbft_step P s (s\<lparr>pbft := p'\<rparr>)"
| handle: "\<not> n_stop (pbft s) \<Longrightarrow> pbft_handleMessage P fuel now msg (pbft s) = Inr (Some (out, p')) \<Longrightarrow>
    pbft_step P s (s\<lparr>pbft := p', executed := executed s @ executes msg (pbft s), heard := heard s @ [msg]\<rparr>)"

section \<open>What the handlers leave alone\<close>

text \<open>\<open>keeps\<close> holds for every operation but the counting of commits; \<open>inner\<close> holds for those that do not change the request pool.\<close>

definition keeps :: "PbftConsensusNode \<Rightarrow> PbftConsensusNode \<Rightarrow> bool" where
  "keeps p p' \<longleftrightarrow> cntCommitConfirm p' = cntCommitConfirm p \<and> malicious_nums p' = malicious_nums p \<and> n_NodeID p' = n_NodeID p \<and>
     view p' = view p \<and> n_mod p' = n_mod p \<and> (\<forall>d. isReply p d \<longrightarrow> isReply p' d) \<and> (n_Txpool p = None \<longrightarrow> n_Txpool p' = None)"

definition inner :: "PbftConsensusNode \<Rightarrow> PbftConsensusNode \<Rightarrow> bool" where
  "inner p p' \<longleftrightarrow> keeps p p' \<and> requestPool p' = requestPool p \<and> height2Digest p' = height2Digest p"

lemma keeps_refl [simp, intro]: "keeps p p"
  and inner_refl [simp, intro]: "inner p p"
  by (simp_all add: keeps_def inner_def)

lemma keeps_trans: "keeps p q \<Longrightarrow> keeps q r \<Longrightarrow> keeps p r"
  and inner_trans: "inner p q \<Longrightarrow> inner q r \<Longrightarrow> inner p r"
  by (auto simp: keeps_def inner_def)

lemma keeps_updates [simp]:
  "keeps p (q\<lparr>n_Chain := a\<rparr>) = keeps p q" "keeps p (q\<lparr>cdm := b\<rparr>) = keeps p q" "keeps p (q\<lparr>requestPool := c\<rparr>) = keeps p q"
  "keeps p (q\<lparr>height2Digest := d\<rparr>) = keeps p q" "keeps p (q\<lparr>sequenceID := e\<rparr>) = keeps p q" "keeps p (q\<lparr>proposing := f\<rparr>) = keeps p q"
  "keeps p (q\<lparr>sequenceLock := g\<rparr>) = keeps p q" "keeps p (q\<lparr>askForLock := g\<rparr>) = keeps p q" "keeps p (q\<lparr>seqIDMap := h\<rparr>) = keeps p q"
  "keeps p (q\<lparr>txRequest2Client := i\<rparr>) = keeps p q" "keeps p (q\<lparr>cntPrepareConfirm := j\<rparr>) = keeps p q"
  "keeps p (q\<lparr>isCommitBordcast := k\<rparr>) = keeps p q" "keeps p (q\<lparr>n_stop := g\<rparr>) = keeps p q"
  by (simp_all add: keeps_def)

lemma inner_updates [simp]:
  "inner p (q\<lparr>n_Chain := a\<rparr>) = inner p q" "inner p (q\<lparr>cdm := b\<rparr>) = inner p q" "inner p (q\<lparr>sequenceID := e\<rparr>) = inner p q"
  "inner p (q\<lparr>proposing := f\<rparr>) = inner p q" "inner p (q\<lparr>sequenceLock := g\<rparr>) = inner p q" "inner p (q\<lparr>askForLock := g\<rparr>) = inner p q"
  "inner p (q\<lparr>seqIDMap := h\<rparr>) = inner p q" "inner p (q\<lparr>txRequest2Client := i\<rparr>) = inner p q" "inner p (q\<lparr>n_stop := g\<rparr>) = inner p q"
  "inner p (q\<lparr>cntPrepareConfirm := j\<rparr>) = inner p q" "inner p (q\<lparr>isCommitBordcast := k\<rparr>) = inner p q"
  by (simp_all add: inner_def)

lemma reply_inner: "inner p (q\<lparr>isReply := (isReply q)(d := True)\<rparr>)" if "inner p q"
  using that by (auto simp: inner_def keeps_def)

lemma withPool_inner: "withPool f p = Inr p' \<Longrightarrow> inner q p \<Longrightarrow> inner q p'"
  by (auto simp: withPool_def keeps_def inner_def split: option.splits)

lemma foldR_inner:
  assumes "foldR f xs p = Inr p'" "\<And>x p p'. f x p = Inr p' \<Longrightarrow> inner p p'"
  shows "inner p p'"
  using assms(1)
proof (induction xs arbitrary: p)
  case (Cons x xs)
  then obtain q where "f x p = Inr q" "foldR f xs q = Inr p'" by auto
  then show ?case using Cons.IH assms(2) inner_trans by blast
qed simp

lemma accountTransfer_inner: "accountTransfer_do P fuel atm p = Inr p' \<Longrightarrow> inner p p'"
  by (auto simp: accountTransfer_do_def Let_def)

lemma addBlockOf_inner: "addBlockOf P b p = Inr (added, p') \<Longrightarrow> inner p p'"
  by (auto simp: addBlockOf_def)

lemma proveTx_inner: "foldR (proveTx P) txs (out, p) = Inr (out', p') \<Longrightarrow> inner p p'"
proof (induction txs arbitrary: out p)
  case (Cons tx txs)
  then obtain out1 p1 where 1: "proveTx P tx (out, p) = Inr (out1, p1)" "foldR (proveTx P) txs (out1, p1) = Inr (out', p')" by auto
  have "inner p p1" using 1(1) by (auto simp: proveTx_def split: option.splits)
  then show ?case using Cons.IH [OF 1(2)] inner_trans by blast
qed simp

lemma relayBlock_inner:
  assumes "relayBlock P now r block added p = Inr (out, p')"
  shows "inner p p'"
proof -
  obtain pool where pool: "n_Txpool p = Some pool" using assms by (auto simp: relayBlock_def split: option.splits)
  obtain proofs p1 where 1: "(if n_mod p = CLPA then Inr ([], p) else foldR (proveTx P) (Body block) ([], p)) = Inr (proofs, p1)"
    and p': "n_Txpool p' \<noteq> None" "inner p1 (p'\<lparr>n_Txpool := n_Txpool p1\<rparr>)"
    using assms by (auto simp: relayBlock_def pool Let_def)
  have "inner p p1" using 1 proveTx_inner by (auto split: if_splits)
  then show ?thesis using p' pool by (auto simp: inner_def keeps_def)
qed

lemma brokerBlock_inner: "brokerBlock now r block p = Inr (out, p') \<Longrightarrow> inner p p'"
  by (auto simp: brokerBlock_def Let_def split: if_splits)

lemma HandleinCommit_inner:
  assumes "HandleinCommit P fuel now cmsg p = Inr (out, p')"
  shows "inner p p'"
proof -
  obtain r where r: "requestPool p (cm_Digest cmsg) = Some r" using assms by (auto simp: HandleinCommit_def split: option.splits)
  show ?thesis
  proof (cases "n_mod p = CLPA \<and> RequestType r = PartitionReq")
    case True
    then show ?thesis using assms accountTransfer_inner by (auto simp: HandleinCommit_def r)
  next
    case False
    then obtain block added p1 where 1: "addBlockOf P block p = Inr (added, p1)"
      "(if n_NodeID p \<noteq> view p then Inr ([], p1) else if n_mod p = RawBroker then brokerBlock now r block p1
        else relayBlock P now r block added p1) = Inr (out, p')"
      using assms by (auto simp: HandleinCommit_def r)
    have "inner p1 p'" using 1(2) brokerBlock_inner relayBlock_inner by (auto split: if_splits)
    then show ?thesis using addBlockOf_inner [OF 1(1)] inner_trans by blast
  qed
qed

lemma oldRequest_inner: "oldRequest P fuel som i p = Inr p' \<Longrightarrow> inner p p'"
  using addBlockOf_inner accountTransfer_inner by (auto simp: oldRequest_def Let_def split: if_splits)

lemma Sequential_inner: "HandleforSequentialRequest P fuel som p = Inr p' \<Longrightarrow> inner p p'"
  using foldR_inner [OF _ oldRequest_inner] by (auto simp: HandleforSequentialRequest_def Let_def split: if_splits)

lemma sendAccounts_inner: "sendAccounts_and_Txs P p = Inr (out, p') \<Longrightarrow> inner p p'"
  by (auto simp: sendAccounts_and_Txs_def Let_def case_prod_beta inner_def keeps_def split: if_splits option.splits)

lemma proposePartition_inner: "proposePartition P now p = Inr (r, p') \<Longrightarrow> inner p p'"
  using withPool_inner [where q = p] by (auto simp: proposePartition_def Let_def split: if_splits)

lemma blockRequest_inner: "blockRequest P fuel now p = Inr (r, p') \<Longrightarrow> inner p p'"
  by (auto simp: blockRequest_def)

lemma Outside_inner: "HandleMessageOutsidePBFT now msg p = Inr p' \<Longrightarrow> inner p p'"
  using withPool_inner [where q = p and p = p]
  by (auto simp: HandleMessageOutsidePBFT_def handleRelay_def handleInjectTx_def handleSeqIDinfos_def handlePartitionMsg_def
      handlePartitionReady_def handleAccountStateAndTxMsg_def Let_def split: pbft_msg.splits if_splits)

lemma unlock_inner: "unlockSequence p = Inr p' \<Longrightarrow> inner q p \<Longrightarrow> inner q p'"
  by (auto simp: unlockSequence_def split: if_splits)

definition pool_ok :: "penv \<Rightarrow> PbftConsensusNode \<Rightarrow> bool" where
  "pool_ok P p \<longleftrightarrow> (\<forall>d r. requestPool p d = Some r \<longrightarrow> getDigest P r = d) \<and> (\<forall>h d. height2Digest p h = Some d \<longrightarrow> requestPool p d \<noteq> None)"

definition outer :: "penv \<Rightarrow> PbftConsensusNode \<Rightarrow> PbftConsensusNode \<Rightarrow> bool" where
  "outer P p p' \<longleftrightarrow> keeps p p' \<and> (pool_ok P p \<longrightarrow> pool_ok P p')"

lemma outer_trans: "outer P p q \<Longrightarrow> outer P q r \<Longrightarrow> outer P p r"
  by (auto simp: outer_def intro: keeps_trans)

lemma inner_outer: "inner p p' \<Longrightarrow> outer P p p'"
  by (simp add: inner_def outer_def pool_ok_def)

lemma outer_inner: "outer P p q \<Longrightarrow> inner q r \<Longrightarrow> outer P p r"
  using inner_outer outer_trans by blast

lemma poolRequest_outer: "outer P p (poolRequest P seq r p)"
  by (auto simp: outer_def poolRequest_def pool_ok_def)

lemma HandleinPrePrepare_outer:
  assumes "HandleinPrePrepare P ppmsg p = Inr (flag, p')" "getDigest P (RequestMsg ppmsg) = pp_Digest ppmsg"
  shows "outer P p p'"
proof -
  let ?q = "p\<lparr>requestPool := (requestPool p)(pp_Digest ppmsg \<mapsto> RequestMsg ppmsg)\<rparr>"
  have q: "outer P p ?q" using assms(2) by (simp add: outer_def pool_ok_def)
  show ?thesis
  proof (cases "n_mod p = CLPA \<and> RequestType (RequestMsg ppmsg) = PartitionReq")
    case True
    then show ?thesis using assms(1) q by (auto simp: HandleinPrePrepare_def)
  next
    case False
    then obtain b where b: "(case IsValidBlock (pe_env P) b (n_Chain p) of Inl (ErrMsg m) \<Rightarrow> Inr (False, p) | Inl e \<Rightarrow> Inl e | Inr u \<Rightarrow> Inr (True, ?q)) = Inr (flag, p')"
      using assms(1) by (auto simp: HandleinPrePrepare_def Let_def simp del: not_None_eq)
    show ?thesis
    proof (cases "IsValidBlock (pe_env P) b (n_Chain p)")
      case (Inl e)
      then show ?thesis using b by (cases e) (auto simp: inner_outer)
    next
      case (Inr u)
      then show ?thesis using b q by simp
    qed
  qed
qed

lemma prePrepare_outer: "prePrepare P r p = (out, p') \<Longrightarrow> outer P p p'"
  using poolRequest_outer [of P p "sequenceID p" r] by (auto simp: prePrepare_def poolRequest_def Let_def)

lemma replyRequest_outer: "outer P p (replyRequest P seq ir p)"
proof -
  obtain idx r where ir: "ir = (idx, r)" by (cases ir)
  show ?thesis
    using outer_inner [OF poolRequest_outer reply_inner [OF inner_refl]] by (simp add: replyRequest_def ir poolRequest_def)
qed

lemma replyRequests_outer: "outer P p (fold (replyRequest P seq) irs p)"
  by (induction irs arbitrary: p) (auto simp: inner_outer intro: outer_trans replyRequest_outer)

lemma Propose_outer:
  assumes "Propose P fuel now p = Inr (Some (out, p'))"
  shows "outer P p p'"
proof (cases "view p \<noteq> n_NodeID p \<or> (proposing p = Idle \<and> n_mod p = CLPA \<and> PartitionOn (cdm p)) \<or> proposing p = WaitReady")
  case True
  then have "inner p p'" using assms sendAccounts_inner
    by (auto simp: Propose_def sendPartitionReady_def Let_def split: if_splits stage.splits)
  then show ?thesis by (rule inner_outer)
next
  case False
  then obtain q r where "inner p q" "prePrepare P r q = (out, p')"
    using assms blockRequest_inner [of P fuel now "p\<lparr>sequenceLock := True\<rparr>"] proposePartition_inner
    by (cases "proposing p") (fastforce simp: Propose_def Let_def inner_def keeps_def split: if_splits)+
  then show ?thesis using inner_outer prePrepare_outer outer_trans by blast
qed

lemma handlePrePrepare_outer: "handlePrePrepare P m p = Inr (out, p') \<Longrightarrow> outer P p p'"
  using poolRequest_outer outer_trans [OF HandleinPrePrepare_outer poolRequest_outer]
  by (auto simp: handlePrePrepare_def Let_def inner_outer split: if_splits)

lemma handlePrepare_inner: "handlePrepare m p = (out, p') \<Longrightarrow> inner p p'"
  by (auto simp: handlePrepare_def set2DMap_def Let_def split: if_splits)

lemma handleSendOldSeq_outer:
  assumes "handleSendOldSeq P fuel som p = Inr (out, p')"
  shows "outer P p p'"
proof -
  obtain p1 where 1: "HandleforSequentialRequest P fuel som p = Inr p1" using assms by (auto simp: handleSendOldSeq_def)
  define p2 where "p2 = (fold (replyRequest P (so_Start som)) (enumerate 0 (OldRequest som)) p1)\<lparr>sequenceID := so_End som + 1\<rparr>"
  have 2: "outer P p p2"
    using outer_trans [OF inner_outer [OF Sequential_inner [OF 1]]
        replyRequests_outer [of P p1 "so_Start som" "enumerate 0 (OldRequest som)"]]
    by (rule outer_inner) (simp add: p2_def)
  obtain p4 where 4: "p' = p4\<lparr>askForLock := False\<rparr>" "p4 = p2 \<or>
      (\<exists>r flag. HandleinPrePrepare P \<lparr>RequestMsg = r, pp_Digest = getDigest P r, pp_SeqID = sequenceID p2\<rparr> p2 = Inr (flag, p4))"
    using assms by (auto simp: handleSendOldSeq_def 1 Let_def p2_def [symmetric] split: option.splits if_splits)
  have "outer P p2 p4" using 4(2) HandleinPrePrepare_outer by (auto simp: inner_outer)
  with 2 show ?thesis using 4(1) outer_inner [OF outer_trans] by auto
qed

lemma handleClientTxSend_inner: "handleClientTxSend now tx ip p = Inr p' \<Longrightarrow> inner p p'"
  unfolding handleClientTxSend_def by (erule withPool_inner) simp

lemma handleMessage_outer:
  assumes "pbft_handleMessage P fuel now msg p = Inr (Some (out, p'))" "\<And>m. msg \<noteq> CCommit m"
  shows "outer P p p'"
proof (cases "\<exists>tx ip. msg = CClientTxSend tx ip")
  case True
  then show ?thesis using assms(1) by (auto simp: pbft_handleMessage_def mapRes_def inner_outer dest!: handleClientTxSend_inner)
next
  case False
  then show ?thesis
    using assms handlePrePrepare_outer handlePrepare_inner [THEN inner_outer] handleSendOldSeq_outer Outside_inner [THEN inner_outer]
    by (cases msg) (auto simp: pbft_handleMessage_def mapRes_def WaitToStop_def inner_outer)
qed

lemma unlock_isReply: "unlockSequence q = Inr p' \<Longrightarrow> isReply p' = isReply q"
  by (auto simp: unlockSequence_def split: if_splits)

lemma handleCommit_cases:
  assumes "handleCommit P fuel now m p = Inr (Some (out, p'))"
  obtains "\<not> committed m p" "p' = set2DMap False (cm_Digest m) (cm_SenderNode m) p"
  | q s where "committed m p" "inner (set2DMap False (cm_Digest m) (cm_SenderNode m) p) q"
      "inner (q\<lparr>isReply := (isReply q)(cm_Digest m := True)\<rparr>) s" "isReply s = (isReply q)(cm_Digest m := True)" "unlockSequence s = Inr p'"
proof -
  let ?p = "set2DMap False (cm_Digest m) (cm_SenderNode m) p"
  show ?thesis
  proof (cases "committed m p")
    case False
    then show ?thesis using assms that(1) by (simp add: handleCommit_def)
  next
    case c: True
    show ?thesis
    proof (cases "requestPool ?p (cm_Digest m)")
      case None
      then show ?thesis using assms that(2) [OF c inner_refl, of "?p\<lparr>isReply := (isReply ?p)(cm_Digest m := True), askForLock := True\<rparr>"] c
        by (simp add: handleCommit_def Let_def split: if_splits)
    next
      case (Some r)
      then obtain q where q: "HandleinCommit P fuel now m ?p = Inr (out, q)"
        "unlockSequence (q\<lparr>isReply := (isReply q)(cm_Digest m := True), sequenceID := sequenceID q + 1\<rparr>) = Inr p'"
        using assms c by (auto simp: handleCommit_def Let_def)
      show ?thesis using that(2) [OF c HandleinCommit_inner [OF q(1)] _ _ q(2)] by simp
    qed
  qed
qed

lemma handleCommit_inner:
  assumes "handleCommit P fuel now m p = Inr (Some (out, p'))"
  shows "inner (set2DMap False (cm_Digest m) (cm_SenderNode m) p) p'" "committed m p \<longrightarrow> isReply p' (cm_Digest m)"
proof -
  let ?p = "set2DMap False (cm_Digest m) (cm_SenderNode m) p"
  have "inner ?p p' \<and> (committed m p \<longrightarrow> isReply p' (cm_Digest m))"
    using assms
  proof (cases rule: handleCommit_cases)
    case (2 q s)
    show ?thesis
      using unlock_inner [OF 2(5) inner_trans [OF reply_inner [OF 2(2)] 2(3)]] unlock_isReply [OF 2(5)] 2(4) by simp
  qed simp
  then show "inner ?p p'" "committed m p \<longrightarrow> isReply p' (cm_Digest m)" by blast+
qed

section \<open>The invariant of the runs\<close>

definition commitFor :: "bytes \<Rightarrow> pbft_msg \<Rightarrow> bool" where
  "commitFor d msg \<longleftrightarrow> (case msg of CCommit m \<Rightarrow> cm_Digest m = d | _ \<Rightarrow> False)"

definition commits :: "bytes \<Rightarrow> pbft_msg list \<Rightarrow> nat" where
  "commits d msgs = length (filter (commitFor d) msgs)"

definition run_ok :: "penv \<Rightarrow> PbftConsensusNode \<Rightarrow> prun \<Rightarrow> bool" where
  "run_ok P p s \<longleftrightarrow> malicious_nums (pbft s) = malicious_nums p \<and> n_NodeID (pbft s) = n_NodeID p \<and> view (pbft s) = view p \<and>
     n_mod (pbft s) = n_mod p \<and> (n_Txpool p = None \<longrightarrow> n_Txpool (pbft s) = None) \<and>
     (\<forall>d. length (cntCommitConfirm (pbft s) d) = commits d (heard s)) \<and> distinct (executed s) \<and>
     (\<forall>d\<in>set (executed s). isReply (pbft s) d \<and> sint (2 * malicious_nums p) \<le> int (commits d (heard s))) \<and> pool_ok P (pbft s)"

lemma commits_append: "commits d (msgs @ [msg]) = commits d msgs + (if commitFor d msg then 1 else 0)"
  by (simp add: commits_def)

lemma start_ok: "NewPbftNode P shard nodeID nodes shards bsize md bolt = Inr p \<Longrightarrow> run_ok P p (startRun p)"
  by (auto simp: NewPbftNode_def run_ok_def startRun_def commits_def pool_ok_def)

lemma run_ok_outer: "run_ok P p s \<Longrightarrow> outer P (pbft s) q \<Longrightarrow> run_ok P p (s\<lparr>pbft := q\<rparr>)"
  by (simp add: run_ok_def outer_def keeps_def)

lemma run_ok_heard: "run_ok P p s \<Longrightarrow> (\<And>m. msg \<noteq> CCommit m) \<Longrightarrow> run_ok P p (s\<lparr>heard := heard s @ [msg]\<rparr>)"
proof -
  assume "run_ok P p s" "\<And>m. msg \<noteq> CCommit m"
  then have "commits d (heard s @ [msg]) = commits d (heard s)" for d by (cases msg) (auto simp: commits_append commitFor_def)
  with \<open>run_ok P p s\<close> show ?thesis by (simp add: run_ok_def)
qed

lemma run_ok_commit:
  assumes ok: "run_ok P p s" and h: "handleCommit P fuel now m (pbft s) = Inr (Some (out, q))"
  shows "run_ok P p (s\<lparr>pbft := q, executed := executed s @ executes (CCommit m) (pbft s), heard := heard s @ [CCommit m]\<rparr>)"
proof -
  let ?d = "cm_Digest m"
  have i: "inner (set2DMap False ?d (cm_SenderNode m) (pbft s)) q" "committed m (pbft s) \<longrightarrow> isReply q ?d"
    using handleCommit_inner [OF h] by blast+
  have q: "malicious_nums q = malicious_nums (pbft s)" "n_NodeID q = n_NodeID (pbft s)" "view q = view (pbft s)" "n_mod q = n_mod (pbft s)"
    "n_Txpool (pbft s) = None \<longrightarrow> n_Txpool q = None" "\<forall>d. isReply (pbft s) d \<longrightarrow> isReply q d"
    "requestPool q = requestPool (pbft s)" "height2Digest q = height2Digest (pbft s)"
    "\<forall>d. length (cntCommitConfirm q d) = length (cntCommitConfirm (pbft s) d) + (if d = ?d then 1 else 0)"
    using i(1) by (auto simp: inner_def keeps_def set2DMap_def)
  have c: "\<forall>d. length (cntCommitConfirm q d) = commits d (heard s @ [CCommit m])"
    using ok q(9) by (simp add: run_ok_def commits_append commitFor_def)
  have more: "commits d (heard s) \<le> commits d (heard s @ [CCommit m])" for d by (simp add: commits_append)
  have old: "isReply q d \<and> sint (2 * malicious_nums p) \<le> int (commits d (heard s @ [CCommit m]))" if "d \<in> set (executed s)" for d
    using that ok q(6) more [of d] by (force simp: run_ok_def)
  have new: "d = ?d \<and> \<not> isReply (pbft s) d \<and> isReply q d \<and> sint (2 * malicious_nums p) \<le> int (commits d (heard s @ [CCommit m]))"
    if "d \<in> set (executes (CCommit m) (pbft s))" for d
    using that ok i(2) by (auto simp: executes_def run_ok_def committed_def commits_append commitFor_def split: if_splits)
  have "distinct (executed s @ executes (CCommit m) (pbft s))"
  proof -
    have "distinct (executes (CCommit m) (pbft s))" by (simp add: executes_def)
    moreover have "set (executed s) \<inter> set (executes (CCommit m) (pbft s)) = {}" using ok new by (auto simp: run_ok_def)
    ultimately show ?thesis using ok by (simp add: run_ok_def)
  qed
  moreover have "\<forall>d\<in>set (executed s @ executes (CCommit m) (pbft s)).
      isReply q d \<and> sint (2 * malicious_nums p) \<le> int (commits d (heard s @ [CCommit m]))"
    using old new by auto
  moreover have "pool_ok P q" using ok q(7,8) by (simp add: run_ok_def pool_ok_def)
  ultimately show ?thesis using ok q(1-5) c by (simp add: run_ok_def)
qed

lemma pbft_step_ok: "pbft_step P s s' \<Longrightarrow> run_ok P p s \<Longrightarrow> run_ok P p s'"
proof (induction rule: pbft_step.induct)
  case (propose fuel now s out p')
  then show ?case using Propose_outer run_ok_outer by blast
next
  case (handle s fuel now msg out p')
  show ?case
  proof (cases "\<exists>m. msg = CCommit m")
    case True
    then show ?thesis using handle run_ok_commit by (auto simp: pbft_handleMessage_def)
  next
    case False
    then have "outer P (pbft s) p'" "executes msg (pbft s) = []"
      using handleMessage_outer [OF handle(2)] by (auto simp: executes_def split: pbft_msg.split)
    then show ?thesis using run_ok_heard [OF run_ok_outer [OF handle(3)], of p' msg] False by simp
  qed
qed

lemma pbft_run_ok:
  assumes "NewPbftNode P shard nodeID nodes shards bsize md bolt = Inr p" "(pbft_step P)\<^sup>*\<^sup>* (startRun p) s"
  shows "run_ok P p s"
  using assms(2) start_ok [OF assms(1)] by (induction rule: rtranclp_induct) (auto intro: pbft_step_ok)

section \<open>The main node\<close>

text \<open>The node whose identifier is the view relays transactions from a pool that \<^verbatim>\<open>NewBlockChain\<close> of the memory chain never creates.\<close>

lemma main_commit_fails:
  assumes "n_NodeID p = view p" "n_mod p \<noteq> CLPA" "n_Txpool p = None" "committed m p" "requestPool p (cm_Digest m) \<noteq> None"
  shows "\<exists>e. handleCommit P fuel now m p = Inl e"
proof -
  let ?p = "set2DMap False (cm_Digest m) (cm_SenderNode m) p"
  have q: "n_NodeID ?p = view ?p" "n_mod ?p \<noteq> CLPA" "n_Txpool ?p = None" "requestPool ?p = requestPool p"
    using assms(1-3) by (simp_all add: set2DMap_def)
  obtain r where r: "requestPool ?p (cm_Digest m) = Some r" using assms(5) q(4) by auto
  have "\<exists>e. HandleinCommit P fuel now m ?p = Inl e"
  proof (cases "HandleinCommit P fuel now m ?p")
    case (Inr x)
    then obtain block added p1 where "addBlockOf P block ?p = Inr (added, p1)"
      "(if n_mod ?p = RawBroker then brokerBlock now r block p1 else relayBlock P now r block added p1) = Inr x"
      using q(1,2) r by (auto simp: HandleinCommit_def)
    moreover have "n_Txpool p1 = None" using addBlockOf_inner [OF calculation(1)] q(3) by (simp add: inner_def keeps_def)
    ultimately show ?thesis by (auto simp: brokerBlock_def relayBlock_def split: if_splits)
  qed auto
  then show ?thesis using assms(4) r by (auto simp: handleCommit_def Let_def)
qed

lemma main_executes_nothing:
  assumes "NewPbftNode P shard 0 nodes shards bsize md bolt = Inr p" "md \<noteq> CLPA" "(pbft_step P)\<^sup>*\<^sup>* (startRun p) s"
  shows "n_NodeID (pbft s) = view (pbft s) \<and> n_mod (pbft s) \<noteq> CLPA \<and> n_Txpool (pbft s) = None \<and> executed s = []"
proof -
  have p: "n_NodeID p = view p" "n_mod p \<noteq> CLPA" "n_Txpool p = None" using assms(1,2) by (auto simp: NewPbftNode_def)
  have s: "n_NodeID (pbft s) = view (pbft s) \<and> n_mod (pbft s) \<noteq> CLPA \<and> n_Txpool (pbft s) = None"
    if "(pbft_step P)\<^sup>*\<^sup>* (startRun p) s" for s
    using pbft_run_ok [OF assms(1) that] p by (simp add: run_ok_def)
  have "executed s = []"
    using assms(3)
  proof (induction rule: rtranclp_induct)
    case (step s s')
    from step(2) show ?case
    proof cases
      case (handle fuel now msg out p')
      have "executes msg (pbft s) = []"
      proof (rule ccontr)
        assume "executes msg (pbft s) \<noteq> []"
        then obtain m where m: "msg = CCommit m" "committed m (pbft s)" "requestPool (pbft s) (cm_Digest m) \<noteq> None"
          by (auto simp: executes_def split: pbft_msg.splits if_splits)
        then show False using main_commit_fails [OF _ _ _ m(2,3), of P fuel now] s [OF step(1)] handle(3) by (auto simp: pbft_handleMessage_def)
      qed
      then show ?thesis using handle(1) step.IH by simp
    qed (use step.IH in simp)
  qed (simp add: startRun_def)
  then show ?thesis using s [OF assms(3)] by blast
qed

end
