(* ===== verification/Pbft_Catchup.thy ===== *)
theory Pbft_Catchup
  imports Pbft_Run
begin

text \<open>
  A node that was left behind: it gets enough commits for a request that it does not know, asks the main node for old requests and
  handles the answer. The request begins one height too late, so the node never executes the block that it misses.
\<close>

section \<open>The answer of the main node\<close>

definition requestAt :: "PbftConsensusNode \<Rightarrow> uint64 \<Rightarrow> Request option" where
  "requestAt q h = Option.bind (height2Digest q h) (requestPool q)"

lemma oldRequests_law:
  "length (oldRequests q h n) \<le> n"
  "i < length (oldRequests q h n) \<Longrightarrow> requestAt q (h + of_nat i) = Some (oldRequests q h n ! i)"
proof -
  show "length (oldRequests q h n) \<le> n" by (induction q h n rule: oldRequests.induct) (auto split: option.splits)
  show "i < length (oldRequests q h n) \<Longrightarrow> requestAt q (h + of_nat i) = Some (oldRequests q h n ! i)"
  proof (induction q h n arbitrary: i rule: oldRequests.induct)
    case (2 p height n)
    then obtain d r where d: "height2Digest p height = Some d" "requestPool p d = Some r" by (auto split: option.splits)
    show ?case
    proof (cases i)
      case 0
      then show ?thesis using d by (simp add: requestAt_def)
    next
      case (Suc j)
      then have "requestAt p (height + 1 + of_nat j) = Some (oldRequests p (height + 1) n ! j)" using "2.IH" [OF d, of j] "2.prems" d by simp
      then show ?thesis using d Suc by (simp add: add.assoc)
    qed
  qed simp
qed

section \<open>Handling the answer\<close>

lemma replyRequest_fields:
  "n_Chain (replyRequest P b ir p) = n_Chain p" "askForLock (replyRequest P b ir p) = askForLock p"
  "height2Digest (replyRequest P b ir p) h = (if h = of_nat (fst ir) + b then Some (getDigest P (snd ir)) else height2Digest p h)"
  "n_mod (replyRequest P b ir p) = n_mod p"
  by (cases ir; simp add: replyRequest_def poolRequest_def)+

lemma replyRequests_fields:
  "n_Chain (fold (replyRequest P b) irs p) = n_Chain p" "askForLock (fold (replyRequest P b) irs p) = askForLock p"
  "\<forall>ir\<in>set irs. h \<noteq> of_nat (fst ir) + b \<Longrightarrow> height2Digest (fold (replyRequest P b) irs p) h = height2Digest p h"
  by (induction irs arbitrary: p) (simp_all add: replyRequest_fields)

text \<open>A block that does not follow the current one is not added.\<close>

lemma oldRequest_skips:
  assumes "i < length (OldRequest som)" "RequestType (OldRequest som ! i) = BlockRequest"
    "e_decodeB (pe_env P) (ReqContent (OldRequest som ! i)) = Inr b" "\<not> extendsChain b (n_Chain p)"
  shows "oldRequest P fuel som i p = Inr p"
  using assms by (simp add: oldRequest_def addBlockOf_def mem_AddBlock_def orPanic_def)

lemma foldR_fixed: "(\<And>x. x \<in> set xs \<Longrightarrow> f x p = Inr p) \<Longrightarrow> foldR f xs p = Inr p"
  by (induction xs) simp_all

text \<open>The answer holds blocks whose numbers are the heights, from \<open>start\<close> on; none of them follows the current block.\<close>

lemma sequential_skips:
  assumes m: "n_mod p = RawRelay" and e: "so_Start som \<le> so_End som + 1" "so_Start som \<noteq> 0" "unat (so_End som) < 2 ^ 63"
    and b: "\<And>i. i < length (OldRequest som) \<Longrightarrow> \<exists>b. RequestType (OldRequest som ! i) = BlockRequest \<and>
      e_decodeB (pe_env P) (ReqContent (OldRequest som ! i)) = Inr b \<and> \<not> extendsChain b (n_Chain p)"
  shows "\<exists>q. HandleforSequentialRequest P fuel som p = Inr (p\<lparr>sequenceID := q\<rparr>)"
proof -
  let ?n = "unat (so_End som) + 1 - unat (so_Start som)"
  have s1: "unat (so_End som + 1) = unat (so_End som) + 1" using e(3) by (simp add: unat_word_ariths(1))
  have pos: "0 < unat (so_Start som)" using e(2) by (simp add: unat_gt_0)
  have "unat (so_End som + 1 - so_Start som) = ?n" using e(1) s1 unat_sub [OF e(1)] by simp
  moreover have "word_of_nat (unat (so_End som + 1 - so_Start som)) = so_End som + 1 - so_Start som" by simp
  ultimately have n: "so_End som - so_Start som + 1 = word_of_nat ?n" by simp
  have "?n < 2 ^ 63" using e(3) pos by linarith
  then have x: "sint (so_End som - so_Start som + 1) = int ?n" unfolding n using sint_uint64 [of ?n] by simp
  have ne: "so_End som \<noteq> - 1"
  proof
    assume "so_End som = - 1"
    then have "so_End som + 1 = 0" by simp
    then have "unat (so_End som + 1) = 0" by simp
    then show False using s1 by simp
  qed
  show ?thesis
  proof (cases "?n = length (OldRequest som)")
    case False
    then have "HandleforSequentialRequest P fuel som p = Inr (p\<lparr>sequenceID := sequenceID p\<rparr>)"
      using m x by (simp add: HandleforSequentialRequest_def)
    then show ?thesis by blast
  next
    case True
    have "foldR (oldRequest P fuel som) [0..<?n] p = Inr p"
      by (rule foldR_fixed) (use b True oldRequest_skips in force)
    then show ?thesis using True m x ne by (auto simp: HandleforSequentialRequest_def)
  qed
qed

section \<open>From the commit to the end of the catch-up\<close>

lemma left_behind:
  assumes "committed m p" "requestPool p (cm_Digest m) = None" "\<not> askForLock p" "n_NodeID p \<noteq> view p"
  shows "\<exists>p1 ip sn. handleCommit P fuel now m p = Inr (Some ([(ip, CRequestOldrequest
      \<lparr>ro_Start = sequenceID p + 1, ro_End = cm_SeqID m, ro_ServerNode = sn, ro_SenderNode = RunningNode p\<rparr>)], p1)) \<and>
    n_Chain p1 = n_Chain p \<and> n_mod p1 = n_mod p \<and> height2Digest p1 = height2Digest p \<and> askForLock p1"
  using assms by (simp add: handleCommit_def set2DMap_def unlockSequence_def requestOld_def Let_def)

lemma handleSendOld_skips:
  assumes m: "n_mod p = RawRelay" "askForLock p" and e: "so_Start som \<le> so_End som + 1" "so_Start som \<noteq> 0" "unat (so_End som) < 2 ^ 63"
    and l: "length (OldRequest som) \<le> unat (so_End som) + 1 - unat (so_Start som)" and h: "height2Digest p (so_End som + 1) = None"
    and b: "\<And>i. i < length (OldRequest som) \<Longrightarrow> \<exists>b. RequestType (OldRequest som ! i) = BlockRequest \<and>
      e_decodeB (pe_env P) (ReqContent (OldRequest som ! i)) = Inr b \<and> \<not> extendsChain b (n_Chain p)"
  shows "\<exists>p2. handleSendOldSeq P fuel som p = Inr ([], p2) \<and> n_Chain p2 = n_Chain p \<and> sequenceID p2 = so_End som + 1 \<and> \<not> askForLock p2"
proof -
  obtain q where q: "HandleforSequentialRequest P fuel som p = Inr (p\<lparr>sequenceID := q\<rparr>)" using sequential_skips [OF m(1) e b] by blast
  let ?p = "fold (replyRequest P (so_Start som)) (enumerate 0 (OldRequest som)) (p\<lparr>sequenceID := q\<rparr>)"
  have "so_End som + 1 \<noteq> of_nat i + so_Start som" if "i < length (OldRequest som)" for i
  proof
    assume "so_End som + 1 = of_nat i + so_Start som"
    then have w: "unat (so_End som + 1) = unat (of_nat i + so_Start som)" by simp
    have "i + unat (so_Start som) \<le> unat (so_End som)" using that l by linarith
    moreover from this have "unat (of_nat i + so_Start som) = i + unat (so_Start som)"
      using e(3) by (simp add: unat_word_ariths(1) unat_of_nat)
    moreover have "unat (so_End som + 1) = unat (so_End som) + 1" using e(3) by (simp add: unat_word_ariths(1))
    ultimately show False using w by simp
  qed
  then have "height2Digest ?p (so_End som + 1) = height2Digest (p\<lparr>sequenceID := q\<rparr>) (so_End som + 1)"
    by (intro replyRequests_fields(3)) (auto simp: in_set_enumerate_eq)
  then have "height2Digest ?p (so_End som + 1) = None" using h by simp
  then show ?thesis using m(2) by (simp add: handleSendOldSeq_def q Let_def replyRequests_fields)
qed

text \<open>C40. A node in step that is left behind does not catch up. Let a \<open>RawRelay\<close> node that is not the main node have
  executed all blocks below its sequence number, and let it get enough commits for an unknown request of its sequence number or a higher one
  (below 2^63), with no request for old blocks pending and the request after that not yet announced. Then it asks the main node for the requests from one above its
  sequence number on. Whatever the main node answers from its pool, in which the request of a height is a block with that number, the node handles the answer without
  error, adds no block at all, and takes the sequence number after the commit: it expects blocks that its chain can never be extended with.\<close>

theorem catch_up_skips_a_block:
  assumes "n_mod p = RawRelay" "committed m p" "requestPool p (cm_Digest m) = None" "\<not> askForLock p" "n_NodeID p \<noteq> view p"
    "sequenceID p = Number (Header (CurrentBlock (n_Chain p))) + 1" "sequenceID p \<le> cm_SeqID m" "unat (cm_SeqID m) < 2 ^ 63"
    "height2Digest p (cm_SeqID m + 1) = None" "view q = n_NodeID q"
    "\<forall>h r. requestAt q h = Some r \<longrightarrow>
       (\<exists>b. RequestType r = BlockRequest \<and> e_decodeB (pe_env P) (ReqContent r) = Inr b \<and> Number (Header b) = h)"
  shows "\<exists>ip rom p1 som p2. handleCommit P fuel now m p = Inr (Some ([(ip, CRequestOldrequest rom)], p1)) \<and>
    handleRequestOldSeq rom q = [(nd_IPaddr (RunningNode p), CSendOldrequest som)] \<and>
    handleSendOldSeq P fuel som p1 = Inr ([], p2) \<and> n_Chain p2 = n_Chain p \<and> sequenceID p2 = cm_SeqID m + 1 \<and>
    Number (Header (CurrentBlock (n_Chain p2))) + 1 < sequenceID p2"
proof -
  obtain p1 ip sn where p1: "handleCommit P fuel now m p = Inr (Some ([(ip, CRequestOldrequest
      \<lparr>ro_Start = sequenceID p + 1, ro_End = cm_SeqID m, ro_ServerNode = sn, ro_SenderNode = RunningNode p\<rparr>)], p1))"
    "n_Chain p1 = n_Chain p" "n_mod p1 = n_mod p" "height2Digest p1 = height2Digest p" "askForLock p1"
    using left_behind [OF assms(2-5)] by blast
  let ?s = "sequenceID p + 1" and ?e = "cm_SeqID m"
  let ?som = "\<lparr>so_Start = ?s, so_End = ?e, OldRequest = oldRequests q ?s (unat ?e + 1 - unat ?s), so_SenderNode = RunningNode q\<rparr>"
  have le: "unat (sequenceID p) \<le> unat ?e" using assms(7) by (simp add: word_le_nat_alt)
  have u: "unat ?s = unat (sequenceID p) + 1" "unat (?e + 1) = unat ?e + 1"
    using le assms(8) by (simp_all add: unat_word_ariths(1))
  have se: "?s \<le> ?e + 1" "?s \<noteq> 0" using u le by (auto simp: word_le_nat_alt)
  have n: "length (OldRequest ?som) \<le> unat ?e + 1 - unat ?s" by (simp add: oldRequests_law(1))
  have "\<exists>b. RequestType (OldRequest ?som ! i) = BlockRequest \<and> e_decodeB (pe_env P) (ReqContent (OldRequest ?som ! i)) = Inr b \<and>
      \<not> extendsChain b (n_Chain p1)" if i: "i < length (OldRequest ?som)" for i
  proof -
    have "requestAt q (?s + of_nat i) = Some (OldRequest ?som ! i)" using oldRequests_law(2) i by simp
    then obtain b where b: "RequestType (OldRequest ?som ! i) = BlockRequest" "e_decodeB (pe_env P) (ReqContent (OldRequest ?som ! i)) = Inr b"
      "Number (Header b) = ?s + of_nat i" using assms(11) by blast
    have "\<not> extendsChain b (n_Chain p)"
    proof
      assume "extendsChain b (n_Chain p)"
      then have "?s + of_nat i = sequenceID p" using b(3) assms(6) by (simp add: extendsChain_def)
      then have "unat (?s + of_nat i) = unat (sequenceID p)" by (rule arg_cong)
      moreover have "i < 2 ^ 63" using i n u le assms(8) by linarith
      then have "unat (?s + of_nat i) = unat (sequenceID p) + 1 + i"
        using u le assms(8) by (simp add: unat_word_ariths(1) unat_of_nat)
      ultimately show False by simp
    qed
    with b(1,2) p1(2) show ?thesis by auto
  qed
  then obtain p2 where p2: "handleSendOldSeq P fuel ?som p1 = Inr ([], p2)" "n_Chain p2 = n_Chain p1" "sequenceID p2 = ?e + 1"
    using handleSendOld_skips [of p1 ?som P fuel] p1(3-5) assms(1,8,9) se n by auto
  have "handleRequestOldSeq \<lparr>ro_Start = ?s, ro_End = ?e, ro_ServerNode = sn, ro_SenderNode = RunningNode p\<rparr> q =
      [(nd_IPaddr (RunningNode p), CSendOldrequest ?som)]" using assms(10) by (simp add: handleRequestOldSeq_def)
  moreover have "Number (Header (CurrentBlock (n_Chain p2))) + 1 < sequenceID p2"
    using p2(2,3) p1(2) assms(6) u le by (simp add: word_less_nat_alt)
  ultimately show ?thesis using p1(1,2) p2 by (intro exI conjI) auto
qed

section \<open>Properties of the runs\<close>

text \<open>C38. In every run of a newly made PBFT node, whatever messages it handles, from anyone and in whatever order, with each
  handler and each round of \<^verbatim>\<open>Propose\<close> as one atomic step, the commit handler executes the
  request of a digest at most once, and only after the node has handled at least 2f commit messages for this digest, where f is (n - 1) div 3 for n nodes
  per shard. Commit messages count even when they come from the same sender. Blocks that come in an answer to a request for old ones are added without
  votes and are not counted here.\<close>

theorem executes_once_on_quorum:
  assumes "NewPbftNode P shard nodeID nodes shards bsize md bolt = Inr p" "(pbft_step P)\<^sup>*\<^sup>* (startRun p) s"
  shows "distinct (executed s) \<and> (\<forall>d\<in>set (executed s). sint (2 * ((nodes - 1) div 3)) \<le> int (commits d (heard s)))"
proof -
  have "malicious_nums p = (nodes - 1) div 3" using assms(1) by (auto simp: NewPbftNode_def)
  then show ?thesis using pbft_run_ok [OF assms] by (simp add: run_ok_def)
qed

text \<open>C39. In every run of a newly made PBFT node the request pool is addressed by content: under a digest it holds only a request with that digest, whatever was
  sent to the node, and every height that is known leads to a request of the pool.\<close>

theorem request_pool_by_content:
  assumes "NewPbftNode P shard nodeID nodes shards bsize md bolt = Inr p" "(pbft_step P)\<^sup>*\<^sup>* (startRun p) s"
  shows "(\<forall>d r. requestPool (pbft s) d = Some r \<longrightarrow> getDigest P r = d) \<and>
    (\<forall>h d. height2Digest (pbft s) h = Some d \<longrightarrow> requestAt (pbft s) h \<noteq> None)"
  using pbft_run_ok [OF assms] by (auto simp: run_ok_def pool_ok_def requestAt_def)

text \<open>The main node (identifier 0, the view) of a shard that does not run CLPA never executes a block: in every run, when enough commits have come
  for a request that it knows, the handler of the next commit ends with an error, because the pool of relayed transactions, which
  \<^verbatim>\<open>NewBlockChain\<close> of the memory chain leaves nil, is used.\<close>

theorem main_node_never_executes:
  assumes "NewPbftNode P shard 0 nodes shards bsize md bolt = Inr p" "md \<noteq> CLPA" "(pbft_step P)\<^sup>*\<^sup>* (startRun p) s"
    "committed m (pbft s)" "requestPool (pbft s) (cm_Digest m) \<noteq> None"
  shows "executed s = [] \<and> (\<exists>e. pbft_handleMessage P fuel now (CCommit m) (pbft s) = Inl e)"
  using main_executes_nothing [OF assms(1-3)] main_commit_fails [OF _ _ _ assms(4,5), of P fuel now] by (simp add: pbft_handleMessage_def)

section \<open>An instance\<close>

text \<open>A shard of four nodes; the request \<open>requestP\<close> holds the block \<open>block2\<close>, and the digest of a request is made of its content.\<close>

definition penvP :: penv where
  "penvP = \<lparr>pe_env = env2, pe_json = ReqContent, pe_encodeATM = (\<lambda>a. []), pe_decodeATM = (\<lambda>b. Inl Panic)\<rparr>"

definition requestP :: Request where
  "requestP = \<lparr>RequestType = BlockRequest, ReqContent = [1], ReqTime = 0\<rparr>"

definition nodeP :: shard_Node where
  "nodeP = \<lparr>nd_NodeID = 2, nd_ShardID = 0, nd_IPaddr = ''ip''\<rparr>"

definition announceP :: pbft_msg where
  "announceP = CPrePrepare \<lparr>RequestMsg = requestP, pp_Digest = K0 [1], pp_SeqID = 5\<rparr>"

definition commitP :: Commit where
  "commitP = \<lparr>cm_Digest = K0 [1], cm_SeqID = 1, cm_SenderNode = nodeP\<rparr>"

lemma penvP_digest: "getDigest penvP requestP = K0 [1]"
  by (simp add: getDigest_def penvP_def requestP_def env2_def env1_def)

lemma penvP_decode: "e_decodeB (pe_env penvP) (ReqContent requestP) = Inr block2"
  by (simp add: penvP_def requestP_def env2_def)

lemma newP:
  obtains p where "NewPbftNode penvP 0 nodeID 4 4 10 RawRelay NewStorage = Inr p" "CurrentBlock (n_Chain p) = genesisBlock env1"
    "sequenceID p = 1" "malicious_nums p = 1" "view p = 0" "n_NodeID p = nodeID" "n_mod p = RawRelay" "\<not> n_stop p"
    "requestPool p = Map.empty" "height2Digest p = Map.empty" "isReply p = (\<lambda>d. False)" "cntCommitConfirm p = (\<lambda>d. [])" "\<not> askForLock p"
proof -
  have g: "codable env2 (genesisBlock env2)" by (simp add: env2_genesis)
  obtain bc where bc: "openChain env2 0 10 memDatabase NewStorage = Inr bc" "CurrentBlock bc = genesisBlock env1"
    using openChain_new [OF g, of 0 10 memDatabase] env2_genesis(1) by auto
  have "(4 - 1) div 3 = (1 :: uint64)" by code_simp
  with bc that show ?thesis by (simp add: NewPbftNode_def NewBlockChain_def penvP_def orPanic_def env2_genesis(5))
qed

lemma pbft_into: "(pbft_step P)\<^sup>*\<^sup>* s s1 \<Longrightarrow> pbft_step P s1 s2 \<Longrightarrow> (pbft_step P)\<^sup>*\<^sup>* s s2"
  by (rule rtranclp.rtrancl_into_rtrancl)

text \<open>The request is announced for a later height, which puts it into the pool; then a first commit comes.\<close>

lemma first_commit:
  obtains p s where "NewPbftNode penvP 0 nodeID 4 4 10 RawRelay NewStorage = Inr p" "(pbft_step penvP)\<^sup>*\<^sup>* (startRun p) s"
    "committed commitP (pbft s)" "requestPool (pbft s) (K0 [1]) = Some requestP" "height2Digest (pbft s) 5 = Some (K0 [1])" "executed s = []"
    "heard s = [announceP, CCommit commitP]" "\<not> n_stop (pbft s)" "CurrentBlock (n_Chain (pbft s)) = genesisBlock env1"
    "n_NodeID (pbft s) = nodeID" "view (pbft s) = 0" "n_mod (pbft s) = RawRelay"
proof -
  obtain p where p: "NewPbftNode penvP 0 nodeID 4 4 10 RawRelay NewStorage = Inr p" "CurrentBlock (n_Chain p) = genesisBlock env1"
    "sequenceID p = 1" "malicious_nums p = 1" "view p = 0" "n_NodeID p = nodeID" "n_mod p = RawRelay" "\<not> n_stop p"
    "requestPool p = Map.empty" "height2Digest p = Map.empty" "isReply p = (\<lambda>d. False)" "cntCommitConfirm p = (\<lambda>d. [])"
    using newP [of nodeID] by blast
  define p1 where "p1 = poolRequest penvP 5 requestP p"
  define p2 where "p2 = set2DMap False (K0 [1]) nodeP p1"
  have two: "sint (2 :: uint64) = 2" by simp
  have f: "\<not> committed commitP p1" "committed commitP p2" "\<not> n_stop p1"
    using p by (simp_all add: committed_def commitP_def p2_def p1_def poolRequest_def set2DMap_def two)
  have h1: "pbft_handleMessage penvP 0 0 announceP p = Inr (Some ([], p1))"
    using p(3) by (simp add: pbft_handleMessage_def announceP_def handlePrePrepare_def mapRes_def penvP_digest p1_def)
  have h2: "pbft_handleMessage penvP 0 0 (CCommit commitP) p1 = Inr (Some ([], p2))"
    using f(1) by (simp add: pbft_handleMessage_def handleCommit_def p2_def commitP_def)
  let ?s1 = "\<lparr>pbft = p1, executed = [], heard = [announceP]\<rparr>" and ?s2 = "\<lparr>pbft = p2, executed = [], heard = [announceP, CCommit commitP]\<rparr>"
  have 1: "pbft_step penvP (startRun p) ?s1"
    using pbft_step.handle [of "startRun p" penvP 0 0 announceP "[]" p1] h1 p(8) by (simp add: startRun_def executes_def announceP_def)
  have 2: "pbft_step penvP ?s1 ?s2"
    using pbft_step.handle [of ?s1 penvP 0 0 "CCommit commitP" "[]" p2] h2 f by (simp add: executes_def)
  have "(pbft_step penvP)\<^sup>*\<^sup>* (startRun p) ?s1" using 1 by (rule r_into_rtranclp)
  from that [OF p(1) pbft_into [OF this 2]] f(2) p show ?thesis
    by (simp add: p2_def p1_def poolRequest_def set2DMap_def penvP_digest)
qed

theorem executes_once_on_quorum_witness:
  "\<exists>p s. NewPbftNode penvP 0 1 4 4 10 RawRelay NewStorage = Inr p \<and> (pbft_step penvP)\<^sup>*\<^sup>* (startRun p) s \<and> executed s = [K0 [1]] \<and>
     CurrentBlock (n_Chain (pbft s)) = block2 \<and> distinct (executed s) \<and> 2 \<le> commits (K0 [1]) (heard s)"
proof -
  obtain p s where s: "NewPbftNode penvP 0 1 4 4 10 RawRelay NewStorage = Inr p" "(pbft_step penvP)\<^sup>*\<^sup>* (startRun p) s"
    "committed commitP (pbft s)" "requestPool (pbft s) (K0 [1]) = Some requestP" "executed s = []" "\<not> n_stop (pbft s)"
    "CurrentBlock (n_Chain (pbft s)) = genesisBlock env1" "n_NodeID (pbft s) = 1" "view (pbft s) = 0" "n_mod (pbft s) = RawRelay"
    using first_commit [of 1] by blast
  let ?bc = "(n_Chain (pbft s))\<lparr>CurrentBlock := block2, bc_Storage := putBlock env2 block2 (bc_Storage (n_Chain (pbft s)))\<rparr>"
  have "extendsChain block2 (n_Chain (pbft s))"
    using s(7) by (simp add: extendsChain_def block2_def blockN_fields env2_genesis)
  then have "mem_AddBlock env2 (Some block2) (n_Chain (pbft s)) = Inr (True, ?bc)" using env2_genesis(3) by (simp add: mem_AddBlock_law)
  then obtain p' where p': "pbft_handleMessage penvP 0 0 (CCommit commitP) (pbft s) = Inr (Some ([], p'))" "CurrentBlock (n_Chain p') = block2"
    using s(3,4,8-10) penvP_decode
    by (simp add: pbft_handleMessage_def handleCommit_def HandleinCommit_def set2DMap_def addBlockOf_def unlockSequence_def commitP_def
        orPanic_def requestP_def penvP_def)
  let ?s = "s\<lparr>pbft := p', executed := executed s @ executes (CCommit commitP) (pbft s), heard := heard s @ [CCommit commitP]\<rparr>"
  have x: "executes (CCommit commitP) (pbft s) = [K0 [1]]" using s(3,4) by (simp add: executes_def commitP_def)
  have run: "(pbft_step penvP)\<^sup>*\<^sup>* (startRun p) ?s" by (rule pbft_into [OF s(2) pbft_step.handle [OF s(6) p'(1)]])
  have "sint (2 * ((4 - 1) div 3) :: uint64) = 2" by code_simp
  with executes_once_on_quorum [OF s(1) run] have "2 \<le> commits (K0 [1]) (heard ?s)" "distinct (executed ?s)" using x s(5) by simp_all
  moreover have "executed ?s = [K0 [1]]" "CurrentBlock (n_Chain (pbft ?s)) = block2" using x s(5) p'(2) by simp_all
  ultimately show ?thesis using s(1) run by blast
qed

theorem request_pool_by_content_witness:
  "\<exists>p s. NewPbftNode penvP 0 1 4 4 10 RawRelay NewStorage = Inr p \<and> (pbft_step penvP)\<^sup>*\<^sup>* (startRun p) s \<and>
     requestPool (pbft s) (K0 [1]) = Some requestP \<and> getDigest penvP requestP = K0 [1] \<and> requestAt (pbft s) 5 \<noteq> None"
proof -
  obtain p s where s: "NewPbftNode penvP 0 1 4 4 10 RawRelay NewStorage = Inr p" "(pbft_step penvP)\<^sup>*\<^sup>* (startRun p) s"
    "requestPool (pbft s) (K0 [1]) = Some requestP" "height2Digest (pbft s) 5 = Some (K0 [1])"
    using first_commit [of 1] by blast
  from request_pool_by_content [OF s(1,2)] s show ?thesis by blast
qed

theorem main_node_never_executes_witness:
  "\<exists>p s. NewPbftNode penvP 0 0 4 4 10 RawRelay NewStorage = Inr p \<and> (pbft_step penvP)\<^sup>*\<^sup>* (startRun p) s \<and>
     executed s = [] \<and> (\<exists>e. pbft_handleMessage penvP 9 0 (CCommit commitP) (pbft s) = Inl e)"
proof -
  obtain p s where s: "NewPbftNode penvP 0 0 4 4 10 RawRelay NewStorage = Inr p" "(pbft_step penvP)\<^sup>*\<^sup>* (startRun p) s"
    "committed commitP (pbft s)" "requestPool (pbft s) (K0 [1]) = Some requestP"
    using first_commit [of 0] by blast
  have "requestPool (pbft s) (cm_Digest commitP) \<noteq> None" using s(4) by (simp add: commitP_def)
  from main_node_never_executes [OF s(1) _ s(2,3) this, of 9 0] s(1,2) show ?thesis by blast
qed

theorem catch_up_skips_a_block_witness:
  "\<exists>p q ip rom p1 som p2. requestAt q 1 = Some requestP \<and>
     handleCommit penvP 9 0 commitP p = Inr (Some ([(ip, CRequestOldrequest rom)], p1)) \<and>
     handleRequestOldSeq rom q = [(nd_IPaddr (RunningNode p), CSendOldrequest som)] \<and>
     handleSendOldSeq penvP 9 som p1 = Inr ([], p2) \<and> CurrentBlock (n_Chain p2) = genesisBlock env1 \<and> sequenceID p2 = 2"
proof -
  obtain p0 :: PbftConsensusNode where p0: "CurrentBlock (n_Chain p0) = genesisBlock env1"
    "sequenceID p0 = 1" "malicious_nums p0 = 1" "view p0 = 0" "n_NodeID p0 = 1" "n_mod p0 = RawRelay"
    "requestPool p0 = Map.empty" "height2Digest p0 = Map.empty" "isReply p0 = (\<lambda>d. False)" "cntCommitConfirm p0 = (\<lambda>d. [])" "\<not> askForLock p0"
    using newP [of 1] by blast
  obtain q0 :: PbftConsensusNode where q0: "view q0 = 0" "n_NodeID q0 = 0" "requestPool q0 = Map.empty" "height2Digest q0 = Map.empty"
    using newP [of 0] by blast
  let ?p = "set2DMap False (K0 [1]) nodeP p0" and ?q = "poolRequest penvP 1 requestP q0"
  have at: "requestAt ?q h = (if h = 1 then Some requestP else None)" for h
    using q0 by (simp add: requestAt_def poolRequest_def penvP_digest)
  have b: "\<forall>h r. requestAt ?q h = Some r \<longrightarrow>
      (\<exists>b. RequestType r = BlockRequest \<and> e_decodeB (pe_env penvP) (ReqContent r) = Inr b \<and> Number (Header b) = h)"
  proof (intro allI impI)
    fix h r assume "requestAt ?q h = Some r"
    then have hr: "h = 1" "r = requestP" by (auto simp: at split: if_splits)
    have "RequestType requestP = BlockRequest" "Number (Header block2) = 1" by (simp_all add: requestP_def block2_def blockN_fields)
    with penvP_decode show "\<exists>b. RequestType r = BlockRequest \<and> e_decodeB (pe_env penvP) (ReqContent r) = Inr b \<and> Number (Header b) = h"
      unfolding hr by blast
  qed
  have c: "n_mod ?p = RawRelay" "committed commitP ?p" "requestPool ?p (cm_Digest commitP) = None" "\<not> askForLock ?p"
    "n_NodeID ?p \<noteq> view ?p" "sequenceID ?p = Number (Header (CurrentBlock (n_Chain ?p))) + 1" "sequenceID ?p \<le> cm_SeqID commitP"
    "unat (cm_SeqID commitP) < 2 ^ 63" "height2Digest ?p (cm_SeqID commitP + 1) = None" "view ?q = n_NodeID ?q"
    using p0 q0 by (simp_all add: set2DMap_def committed_def commitP_def env2_genesis(5) poolRequest_def)
  obtain ip rom p1 som p2 where r: "handleCommit penvP 9 0 commitP ?p = Inr (Some ([(ip, CRequestOldrequest rom)], p1))"
    "handleRequestOldSeq rom ?q = [(nd_IPaddr (RunningNode ?p), CSendOldrequest som)]" "handleSendOldSeq penvP 9 som p1 = Inr ([], p2)"
    "n_Chain p2 = n_Chain ?p" "sequenceID p2 = cm_SeqID commitP + 1"
    using catch_up_skips_a_block [OF c b, of 9 0] by blast
  have "CurrentBlock (n_Chain p2) = genesisBlock env1" "sequenceID p2 = 2" using r(4,5) p0(1) by (simp_all add: set2DMap_def commitP_def)
  moreover have "requestAt ?q 1 = Some requestP" by (simp add: at)
  ultimately show ?thesis using r(1-3) by blast
qed

end
