(* ===== verification/Spec2Isabelle.thy ===== *)
theory Spec2Isabelle
  imports P2p_Network Clpa_Correct Sub_Progress Pbft_Catchup
begin

text \<open>
  A verification library for the block chain emulator under \<^verbatim>\<open>src/\<close>.

  \<^bold>\<open>The program.\<close> The emulator runs a sharded block chain with an account state. Its parts are
  \<^item> a Merkle Patricia trie with its node database (\<^verbatim>\<open>trie/\<close>, taken over from go-ethereum), which holds the account state;
  \<^item> accounts, transactions, blocks and transaction pools (\<^verbatim>\<open>core/\<close>), a block store (\<^verbatim>\<open>storage/\<close>) and two block chains on top of them
    (\<^verbatim>\<open>chain/\<close>): one with the state on disk and one with the state in memory;
  \<^item> two ways to run a shard: the PBFT consensus (\<^verbatim>\<open>consensus_shard/pbft_all/\<close>), whose nodes vote on the blocks of a memory chain, and the
    split state (\<^verbatim>\<open>consensus_shard/subMPT/\<close>), where a proposer lets followers execute transactions on parts of the state;
  \<^item> the consistent hash (\<^verbatim>\<open>local/\<close>) from which the proposer takes the moves of a join, and the graph partition CLPA (\<^verbatim>\<open>partition/\<close>) from which the shards
    take new homes for accounts;
  \<^item> messages with a type prefix (\<^verbatim>\<open>message/\<close>) and the network that carries them (\<^verbatim>\<open>networks/\<close>).

  \<^bold>\<open>How the code is read.\<close> A definition has the name of the Go function it translates, with a prefix where names clash (\<open>trie_\<close>, \<open>db_\<close>, \<open>mem_\<close>,
  \<open>ring_\<close>, \<open>pbft_\<close>), and a loop or a goroutine has a definition of its own. State is passed explicitly: a handler takes the node and returns the new
  node with the messages it sends. A call that can fail returns \<open>go_error + 'a\<close> (\<open>Aster_Prelude\<close>), where a panic of Go is the value \<open>Panic\<close>. A \<^verbatim>\<open>uint64\<close> is
  a word of 64 bits; a \<^verbatim>\<open>*big.Int\<close> is an \<open>int\<close>. A map over which the code ranges is a list in the order of the iteration, or the order is an
  argument. Goroutines and messages in flight are the rules of step relations: \<open>net_step\<close>, \<open>chain_step\<close>, \<open>round_step\<close> and \<open>pbft_step\<close>.
  Code outside the repository is an argument: the RLP library (\<open>rlp_lib\<close>, relied on by \<open>rlp_ok\<close>), Keccak (32-byte digests, \<open>hash32\<close>), SHA-256, the gob and JSON
  encoders (the records \<open>env\<close> and \<open>penv\<close>, with \<open>env_ok\<close> and \<open>codable\<close> for their round trips), Murmur3, clocks, random numbers, and the outcomes of
  system calls. Each hypothesis of this kind is met by the instances of the witnesses.

  \<^bold>\<open>Theories.\<close>
  \<^descr>[\<open>Aster_Prelude\<close>] bytes, nibbles, results, folds of fallible steps, and the lemmas on lists that the others share.
  \<^descr>[\<open>Hex_Encoding\<close>] \<^verbatim>\<open>trie/encoding.go\<close>: the key encodings. The compact form can be undone, and the encoder that works in place agrees with the other.
  \<^descr>[\<open>Trie_Node\<close>, \<open>Trie_Raw\<close>] \<^verbatim>\<open>trie/node.go\<close>, \<^verbatim>\<open>node_enc.go\<close> and the stripped nodes of \<^verbatim>\<open>database.go\<close>: a stored node is the same from the disk and from the cache.
  \<^descr>[\<open>Trie_Ops\<close>, \<open>Trie_Spec\<close>, \<open>Trie_Refine\<close>, \<open>Trie_Map\<close>] \<^verbatim>\<open>trie/trie.go\<close>, \<^verbatim>\<open>tracer.go\<close>, \<^verbatim>\<open>trie_reader.go\<close>: the operations, an abstract trie without hashes and
    caches, the refinement between the two (for every policy on the cached flags, locale \<open>flag_policy\<close>), and the trie as a finite map (locale
    \<open>kv_store\<close>).
  \<^descr>[\<open>Trie_Hash\<close>, \<open>Trie_Commit\<close>, \<open>Trie_Reload\<close>, \<open>Trie_Dirty\<close>] \<^verbatim>\<open>hasher.go\<close>, \<^verbatim>\<open>committer.go\<close>, \<^verbatim>\<open>nodeset.go\<close>: the root hash is a function of the contents, a commit collects
    all that is needed to read the trie back, and it has something to collect exactly when a write changed a value.
  \<^descr>[\<open>Trie_Database\<close>, \<open>Database_Inv\<close>, \<open>Trie_Persist\<close>] \<^verbatim>\<open>database.go\<close>, \<^verbatim>\<open>preimages.go\<close>: the cache of dirty nodes, its flush list and reference counts, its invariant, and
    the durability of a committed state.
  \<^descr>[\<open>Trie_Proof\<close>] \<^verbatim>\<open>proof.go\<close>: proofs of single keys; what they show, and what \<^verbatim>\<open>VerifyProof\<close> does not check.
  \<^descr>[\<open>Aster_Core\<close>] \<^verbatim>\<open>core/\<close> and \<^verbatim>\<open>utils/\<close>: accounts, transactions, blocks, pools, the shard of an address.
  \<^descr>[\<open>Block_Chain\<close>, \<open>Block_Exec\<close>, \<open>Chain_Store\<close>, \<open>Chain_Recovery\<close>, \<open>Chain_Verify\<close>] \<^verbatim>\<open>storage/\<close> and \<^verbatim>\<open>chain/\<close>: the operations of both chains; the balances after a block; the
    blocks linked down to the genesis block in every run; mining, adding and restarting as one theorem; the search for a transaction with Bloom filter and proof.
  \<^descr>[\<open>Clpa\<close>, \<open>Clpa_Correct\<close>] \<^verbatim>\<open>partition/\<close>: the label propagation and its counters.
  \<^descr>[\<open>Hash_Ring\<close>, \<open>Consistent_Hash\<close>] \<^verbatim>\<open>local/\<close>: the skip list on a heap as a sorted map (locale \<open>hash_ring\<close>), and the moves of keys when a node joins.
  \<^descr>[\<open>Sub_Follower\<close>, \<open>Sub_Proposer\<close>, \<open>Sub_Execution\<close>, \<open>Sub_Rounds\<close>, \<open>Sub_Progress\<close>] \<^verbatim>\<open>consensus_shard/subMPT/\<close>: both kinds of node; the split execution of a round against
    its meaning on the balances; all runs of a proposer with arbitrary messages; a round that completes, and a join after which none does.
  \<^descr>[\<open>Message_Codec\<close>, \<open>P2p_Network\<close>] \<^verbatim>\<open>message/\<close> and \<^verbatim>\<open>networks/\<close>: type prefix, connection pool, rate limit and framing; each message arrives once, in
    any order.
  \<^descr>[\<open>Pbft_Node\<close>, \<open>Pbft_Run\<close>, \<open>Pbft_Catchup\<close>] \<^verbatim>\<open>consensus_shard/pbft_all/\<close>: the node with its three modules \<open>RawRelay\<close>, \<open>RawBroker\<close> and \<open>CLPA\<close>; its runs; a node that was left
    behind.

  \<^bold>\<open>Fuel and bounds.\<close> A trie recursion has fuel \<open>trie_fuel\<close>, two calls per nibble of the key and a few more, which every call gives it; the theorems show that it
  is never used up on a trie whose nodes are in the store. The recursions of the node database follow the dirty nodes; the theorems state that some amount
  of fuel, and every larger one, is enough. The walks down a chain have one step per block, \<^verbatim>\<open>VerifyProof\<close> one per nibble of the key. The loops of the skip list have
  the number of nodes as their bound. The write loop under a rate limit may not end and is a partial function. Every other recursion is structural.
  Heights are words of 64 bits, and where their wrap-around matters the theorems bound the length of the chain by 2^64 or a number by 2^63.

  \<^bold>\<open>Atomicity.\<close> A handler or a goroutine, or its part between two waits, is one step. Where the code does not protect this by a lock, the theory says so, and
  for the pool of the proposer the interleaving that breaks it is shown in \<open>Sub_Rounds\<close>.

  \<^bold>\<open>What the theorems show of faults.\<close> Some theorems state what the code does although it hardly means to: negative shards of addresses, value created by
  overdrafts, a panic on blocks without effect, forged proofs, a yes for absent transactions, a join that stops the blocks, a catch-up that skips a
  block, a bandwidth of 0 that blocks all sending.

  \<^bold>\<open>Not modelled.\<close> Iterators, synchronisation, stack trie, secure trie and range proofs of \<^verbatim>\<open>trie/\<close>, which nothing in the emulator calls; the modules of
  \<^verbatim>\<open>CLPA_Broker\<close>, which repeat those of CLPA and of the broker; the supervisor with its committees and measurements, which drives an experiment and
  computes statistics; the expiring locks of the ring, which have no caller; command line, generated scripts, configuration, queries, logs and CSV
  files, which are I/O; failures of the disk; the decoding of malformed JSON.
\<close>

end
